(* ===== verification/Server_Prelude.thy ===== *)
theory Server_Prelude
  imports Main "HOL-Library.Word"
begin

text \<open>
  Shared vocabulary of the development: the outcome type in which every abort, uncaught exception
  and undefined behaviour of the C++ sources is a value, C arithmetic on \<^verbatim>\<open>size_t\<close> and
  \<^verbatim>\<open>int64_t\<close>, raw memory reads and writes, and the list lemmas the components share.
\<close>

section \<open>Outcomes\<close>

text \<open>
  How a C++ function can fail to return: \<^verbatim>\<open>LOG_FATAL\<close> (whose destructor aborts the
  process), an exception nobody catches, an operation the standard leaves undefined (a read or
  write outside the object, a dangling pointer), and a call that never comes back.
\<close>

datatype crash = Fatal string | Uncaught string | Undefined string | Diverges

type_synonym 'a outcome = "crash + 'a"

definition obind :: "'a outcome \<Rightarrow> ('a \<Rightarrow> 'b outcome) \<Rightarrow> 'b outcome" where
  "obind m f = (case m of Inl e \<Rightarrow> Inl e | Inr x \<Rightarrow> f x)"

named_theorems outcome_simps "rewriting of sequenced outcomes"
named_theorems buffer_simps "operations of the byte buffer on its abstract content"
named_theorems size_simps "size_t arithmetic away from wrap-around"

lemma obind_Inr [simp]: "obind (Inr x) f = f x"
  by (simp add: obind_def)

lemma obind_Inl [simp]: "obind (Inl e) f = Inl e"
  by (simp add: obind_def)

lemma obind_eq_Inr_iff [outcome_simps]:
  "obind m f = Inr y \<longleftrightarrow> (\<exists>x. m = Inr x \<and> f x = Inr y)"
  by (cases m) auto

lemma obind_eq_Inl_iff [outcome_simps]:
  "obind m f = Inl e \<longleftrightarrow> m = Inl e \<or> (\<exists>x. m = Inr x \<and> f x = Inl e)"
  by (cases m) auto

lemma obind_assoc [simp]: "obind (obind m f) g = obind m (\<lambda>x. obind (f x) g)"
  by (cases m) auto

lemma obind_cong [fundef_cong]:
  "m = m' \<Longrightarrow> (\<And>x. m' = Inr x \<Longrightarrow> f x = g x) \<Longrightarrow> obind m f = obind m' g"
  by (cases m') auto

text \<open>The error number of invalid arguments.\<close>

definition EINVAL :: int where "EINVAL = 22"

section \<open>Machine arithmetic\<close>

text \<open>
  Subtraction of \<^verbatim>\<open>size_t\<close> values wraps around at \<open>2 ^ 64\<close>. Sums of sizes are left
  unbounded: an object larger than the address space cannot be allocated.
\<close>

definition size_sub :: "nat \<Rightarrow> nat \<Rightarrow> nat" where
  "size_sub a b = (if b \<le> a then a - b else 2 ^ 64 + a - b)"

lemma size_sub_le [simp, size_simps]: "b \<le> a \<Longrightarrow> size_sub a b = a - b"
  by (simp add: size_sub_def)

lemma size_sub_wraps: "a < b \<Longrightarrow> size_sub a b = 2 ^ 64 + a - b"
  by (simp add: size_sub_def)

text \<open>The range of \<^verbatim>\<open>int64_t\<close>; leaving it is a signed overflow.\<close>

definition in_int64 :: "int \<Rightarrow> bool" where
  "in_int64 x \<longleftrightarrow> - (2 ^ 63) \<le> x \<and> x < 2 ^ 63"

section \<open>Decimal numerals\<close>

definition digit_char :: "nat \<Rightarrow> char" where
  "digit_char d = char_of (48 + d)"

fun decimal :: "nat \<Rightarrow> string" where
  "decimal n = (if n < 10 then [digit_char n] else decimal (n div 10) @ [digit_char (n mod 10)])"

declare decimal.simps [simp del]

definition pad_left :: "char \<Rightarrow> nat \<Rightarrow> string \<Rightarrow> string" where
  "pad_left c n s = replicate (n - length s) c @ s"

fun decimal_value :: "nat \<Rightarrow> string \<Rightarrow> nat" where
  "decimal_value acc [] = acc"
| "decimal_value acc (c # cs) = decimal_value (10 * acc + (of_char c - 48)) cs"

lemma decimal_value_append:
  "decimal_value acc (xs @ ys) = decimal_value (decimal_value acc xs) ys"
  by (induction xs arbitrary: acc) auto

lemma digit_char_value [simp]: "d < 10 \<Longrightarrow> of_char (digit_char d) = 48 + d"
  by (simp add: digit_char_def of_char_of)

lemma decimal_value_decimal [simp]: "decimal_value 0 (decimal n) = n"
proof (induction n rule: decimal.induct)
  case (1 n)
  then show ?case
    by (cases "n < 10") (simp_all add: decimal.simps [of n] decimal_value_append)
qed

lemma decimal_nonempty [simp]: "decimal n \<noteq> []"
  by (subst decimal.simps) simp

lemma decimal_digits:
  "c \<in> set (decimal n) \<Longrightarrow> 48 \<le> (of_char c :: nat) \<and> (of_char c :: nat) \<le> 57"
proof (induction n rule: decimal.induct)
  case (1 n)
  then show ?case
    by (cases "n < 10") (auto simp: decimal.simps [of n] less_Suc_eq_le [symmetric])
qed

section \<open>Raw memory\<close>

text \<open>
  A pointer into a character array is an offset into it. Reading outside the array is undefined;
  writing goes through \<open>mem_write\<close>, which overwrites in place and is used within bounds only.
\<close>

definition rd :: "string \<Rightarrow> nat \<Rightarrow> char outcome" where
  "rd mem i = (if i < length mem then Inr (mem ! i) else Inl (Undefined ''read past the end''))"

definition mem_write :: "'a list \<Rightarrow> nat \<Rightarrow> 'a list \<Rightarrow> 'a list" where
  "mem_write mem off data = take off mem @ data @ drop (off + length data) mem"

lemma rd_in [simp]: "i < length mem \<Longrightarrow> rd mem i = Inr (mem ! i)"
  by (simp add: rd_def)

lemma rd_append: "length xs \<le> i \<Longrightarrow> rd (xs @ ys) i = rd ys (i - length xs)"
  by (auto simp: rd_def nth_append)

lemma length_mem_write [simp]:
  "off + length data \<le> length mem \<Longrightarrow> length (mem_write mem off data) = length mem"
  by (simp add: mem_write_def)

lemma mem_write_at_end:
  "length mem = off + length data \<Longrightarrow> mem_write mem off data = take off mem @ data"
  by (simp add: mem_write_def)

text \<open>The memory behind a \<^verbatim>\<open>c_str()\<close>: the characters and the terminating NUL.\<close>

abbreviation NUL :: char where "NUL \<equiv> CHR 0x00"
abbreviation CR :: char where "CR \<equiv> CHR 0x0D"
abbreviation LF :: char where "LF \<equiv> CHR 0x0A"
abbreviation SP :: char where "SP \<equiv> CHR 0x20"

section \<open>Lists\<close>

lemma nth_append_at [simp]: "(xs @ y # ys) ! length xs = y"
  by (simp add: nth_append)

lemma take_drop_between: "take n (drop m (xs @ ys)) = take n (drop m xs)" if "m + n \<le> length xs"
  using that by simp

text \<open>Everything up to and including the last element satisfying \<open>P\<close>, and what follows it.\<close>

fun split_last :: "('a \<Rightarrow> bool) \<Rightarrow> 'a list \<Rightarrow> 'a list \<times> 'a list" where
  "split_last P [] = ([], [])"
| "split_last P (x # xs) =
     (case split_last P xs of (a, b) \<Rightarrow>
        if a = [] \<and> \<not> P x then ([], x # b) else (x # a, b))"

lemma split_last_append: "fst (split_last P xs) @ snd (split_last P xs) = xs"
  by (induction xs) (auto split: prod.splits)

lemma split_last_none: "(\<forall>x \<in> set xs. \<not> P x) \<Longrightarrow> split_last P xs = ([], xs)"
  by (induction xs) auto

lemma split_last_fst_Nil_iff: "fst (split_last P xs) = [] \<longleftrightarrow> (\<forall>x \<in> set xs. \<not> P x)"
  by (induction xs) (auto split: prod.splits)

lemma split_last_snd: "x \<in> set (snd (split_last P xs)) \<Longrightarrow> \<not> P x"
proof (induction xs)
  case (Cons y ys)
  obtain a b where ab: "split_last P ys = (a, b)" by fastforce
  show ?case
    using Cons ab by (auto split: if_splits)
qed simp

lemma split_last_after:
  "P x \<Longrightarrow> split_last P (xs @ x # ys) =
     (xs @ x # fst (split_last P ys), snd (split_last P ys))"
  by (induction xs) (auto split: prod.splits)

end
