(* ===== verification/Http_Request.thy ===== *)
theory Http_Request
  imports Server_Prelude
begin

text \<open>
  \<^verbatim>\<open>HttpRequest\<close> (example/http/server/include/http_request.h, src/http_request.cc): the request
  record and the two line parsers. A line is a pair of pointers into the input buffer, so the
  parsers take the whole memory behind the buffer and two offsets, and every read through a
  pointer is a read of that memory.
\<close>

section \<open>Data\<close>

datatype http_method = UNSUPPORTED_HTTP_METHOD | GET | POST

datatype http_version = UNSUPPORTED_HTTP_VERSION | HTTP_1_0 | HTTP_1_1

record http_request =
  req_method :: http_method
  req_path :: string
  req_version :: http_version
  receive_time_point :: int
  req_headers :: "string \<rightharpoonup> string"
  need_close :: bool
  req_body :: string

definition new_http_request :: http_request where
  "new_http_request =
     \<lparr>req_method = UNSUPPORTED_HTTP_METHOD, req_path = [], req_version = UNSUPPORTED_HTTP_VERSION,
      receive_time_point = 0, req_headers = Map.empty, need_close = False, req_body = []\<rparr>"

text \<open>\<^verbatim>\<open>reset\<close> clears every field but \<open>need_close\<close>.\<close>

definition reset_request :: "http_request \<Rightarrow> http_request" where
  "reset_request r =
     r\<lparr>req_method := UNSUPPORTED_HTTP_METHOD, req_path := [],
       req_version := UNSUPPORTED_HTTP_VERSION, receive_time_point := 0,
       req_headers := Map.empty, req_body := []\<rparr>"

text \<open>The copy operations only exist to be refused at run time.\<close>

definition copy_request :: "http_request \<Rightarrow> http_request outcome" where
  "copy_request other = Inl (Fatal ''dummy copy constructor called'')"

definition copy_assign_request :: "http_request \<Rightarrow> http_request \<Rightarrow> http_request outcome" where
  "copy_assign_request self other = Inl (Fatal ''dummy copy assignment operator called'')"

text \<open>The move operations leave \<open>need_close\<close> alone: a moved request starts with false, an assigned
  one keeps its own.\<close>

definition move_request :: "http_request \<Rightarrow> http_request" where
  "move_request other =
     \<lparr>req_method = req_method other, req_path = req_path other, req_version = req_version other,
      receive_time_point = receive_time_point other, req_headers = req_headers other,
      need_close = False, req_body = req_body other\<rparr>"

definition move_assign_request :: "http_request \<Rightarrow> http_request \<Rightarrow> http_request" where
  "move_assign_request self other =
     self\<lparr>req_method := req_method other, req_path := req_path other,
          req_version := req_version other, receive_time_point := receive_time_point other,
          req_headers := req_headers other, req_body := req_body other\<rparr>"

definition get_header_req :: "string \<Rightarrow> http_request \<Rightarrow> string" where
  "get_header_req key r = (case req_headers r key of Some v \<Rightarrow> v | None \<Rightarrow> [])"

fun get_method_type_as_string :: "http_method \<Rightarrow> string option" where
  "get_method_type_as_string GET = Some ''GET''"
| "get_method_type_as_string POST = Some ''POST''"
| "get_method_type_as_string _ = None"

fun get_version_type_as_string_req :: "http_version \<Rightarrow> string option" where
  "get_version_type_as_string_req HTTP_1_0 = Some ''HTTP/1.0''"
| "get_version_type_as_string_req HTTP_1_1 = Some ''HTTP/1.1''"
| "get_version_type_as_string_req _ = None"

section \<open>Scanning memory\<close>

function memchr :: "string \<Rightarrow> nat \<Rightarrow> char \<Rightarrow> nat \<Rightarrow> nat option outcome" where
  "memchr mem p c n =
     (if n = 0 then Inr None
      else obind (rd mem p) (\<lambda>x. if x = c then Inr (Some p) else memchr mem (Suc p) c (n - 1)))"
  by pat_completeness auto
termination
  by (relation "measure (\<lambda>(mem, p, c, n). n)") auto

text \<open>\<open>while (p < end && is(*p)) p++\<close> and \<open>while (is(*(q - 1))) q--\<close>.\<close>

function skip_while :: "(char \<Rightarrow> bool) \<Rightarrow> string \<Rightarrow> nat \<Rightarrow> nat \<Rightarrow> nat outcome" where
  "skip_while P mem p e =
     (if p < e then obind (rd mem p) (\<lambda>x. if P x then skip_while P mem (Suc p) e else Inr p)
      else Inr p)"
  by pat_completeness auto
termination
  by (relation "measure (\<lambda>(P, mem, p, e). e - p)") auto

fun trim_back :: "(char \<Rightarrow> bool) \<Rightarrow> string \<Rightarrow> nat \<Rightarrow> nat outcome" where
  "trim_back P mem 0 = Inl (Undefined ''read before the buffer'')"
| "trim_back P mem (Suc q) =
     obind (rd mem q) (\<lambda>x. if P x then trim_back P mem q else Inr (Suc q))"

declare memchr.simps [simp del] skip_while.simps [simp del]

text \<open>\<^verbatim>\<open>std::string(start, end)\<close>: with \<open>end\<close> before \<open>start\<close> the length is a huge \<^verbatim>\<open>size_t\<close> and the
  constructor throws \<^verbatim>\<open>std::length_error\<close>.\<close>

definition string_range :: "string \<Rightarrow> nat \<Rightarrow> nat \<Rightarrow> string outcome" where
  "string_range mem a b =
     (if b < a then Inl (Uncaught ''std::length_error'')
      else if length mem < b then Inl (Undefined ''read past the end'')
      else Inr (take (b - a) (drop a mem)))"

definition is_space :: "char \<Rightarrow> bool" where
  "is_space c \<longleftrightarrow> c \<in> {CHR 0x09, CHR 0x0A, CHR 0x0B, CHR 0x0C, CHR 0x0D, CHR 0x20}"

abbreviation is_sp :: "char \<Rightarrow> bool" where
  "is_sp c \<equiv> c = SP"

section \<open>The request line\<close>

definition set_method_type ::
  "string \<Rightarrow> nat \<Rightarrow> nat \<Rightarrow> http_request \<Rightarrow> (bool \<times> http_request) outcome" where
  "set_method_type mem a b r =
     obind (string_range mem a b) (\<lambda>s.
       let m = (if s = ''GET'' then GET else if s = ''POST'' then POST
                else UNSUPPORTED_HTTP_METHOD)
       in Inr (m \<noteq> UNSUPPORTED_HTTP_METHOD, r\<lparr>req_method := m\<rparr>))"

definition set_version_type ::
  "string \<Rightarrow> nat \<Rightarrow> nat \<Rightarrow> http_request \<Rightarrow> (bool \<times> http_request) outcome" where
  "set_version_type mem a b r =
     obind (string_range mem a b) (\<lambda>s.
       let v = (if s = ''HTTP/1.0'' then HTTP_1_0 else if s = ''HTTP/1.1'' then HTTP_1_1
                else UNSUPPORTED_HTTP_VERSION)
       in Inr (v \<noteq> UNSUPPORTED_HTTP_VERSION, r\<lparr>req_version := v\<rparr>))"

definition set_path :: "string \<Rightarrow> nat \<Rightarrow> nat \<Rightarrow> http_request \<Rightarrow> http_request outcome" where
  "set_path mem a b r = obind (string_range mem a b) (\<lambda>s. Inr (r\<lparr>req_path := s\<rparr>))"

definition parse_request_line ::
  "string \<Rightarrow> nat \<Rightarrow> nat \<Rightarrow> http_request \<Rightarrow> (bool \<times> http_request) outcome" where
  "parse_request_line mem start fin r =
     obind (skip_while is_sp mem start fin) (\<lambda>method_start.
     if method_start = fin then Inr (False, r)
     else obind (memchr mem method_start SP (fin - start)) (\<lambda>found.
     case found of None \<Rightarrow> Inr (False, r)
     | Some method_end \<Rightarrow>
     obind (set_method_type mem method_start method_end r) (\<lambda>(method_ok, r1).
     if \<not> method_ok then Inr (False, r1)
     else obind (skip_while is_sp mem method_end fin) (\<lambda>path_start.
     if path_start = fin then Inr (False, r1)
     else obind (memchr mem path_start SP (fin - start)) (\<lambda>found2.
     case found2 of None \<Rightarrow> Inr (False, r1)
     | Some path_end \<Rightarrow>
     obind (set_path mem path_start path_end r1) (\<lambda>r2.
     obind (skip_while is_sp mem path_end fin) (\<lambda>version_start.
     if version_start = fin then Inr (False, r2)
     else obind (trim_back is_sp mem fin) (\<lambda>version_end.
     set_version_type mem version_start version_end r2))))))))"

section \<open>A header line\<close>

definition parse_header_line ::
  "string \<Rightarrow> nat \<Rightarrow> nat \<Rightarrow> http_request \<Rightarrow> (bool \<times> http_request) outcome" where
  "parse_header_line mem start fin r =
     obind (memchr mem start (CHR '':'') (fin - start)) (\<lambda>found.
     case found of None \<Rightarrow> Inr (False, r)
     | Some colon \<Rightarrow>
     obind (skip_while is_space mem start colon) (\<lambda>key_start.
     if key_start = colon then Inr (False, r)
     else obind (trim_back is_space mem colon) (\<lambda>key_end.
     obind (skip_while is_space mem (colon + 1) fin) (\<lambda>value_start.
     obind (if value_start \<noteq> fin then trim_back is_space mem fin else Inr fin) (\<lambda>value_end.
     obind (string_range mem key_start key_end) (\<lambda>key.
     obind (string_range mem value_start value_end) (\<lambda>value.
     Inr (True, r\<lparr>req_headers := (req_headers r)(key \<mapsto> value)\<rparr>))))))))"

definition set_body :: "string \<Rightarrow> nat \<Rightarrow> nat \<Rightarrow> http_request \<Rightarrow> http_request outcome" where
  "set_body mem a b r = obind (string_range mem a b) (\<lambda>s. Inr (r\<lparr>req_body := s\<rparr>))"

text \<open>
  \<^verbatim>\<open>to_lowercase\<close>, whose call in the parser is commented out: its loop never moves on, so that it does not return
  on any text but the empty one. \<open>None\<close> is a call that does not return.
\<close>

definition tolower_char :: "char \<Rightarrow> char" where
  "tolower_char c = (let n = of_char c :: nat in if 65 \<le> n \<and> n \<le> 90 then char_of (n + 32) else c)"

partial_function (option) to_lowercase :: "nat \<Rightarrow> nat \<Rightarrow> string \<Rightarrow> string option" where
  "to_lowercase it end_ptr mem =
     (if it = end_ptr then Some mem else to_lowercase it end_ptr (mem[it := tolower_char (mem ! it)]))"

lemma to_lowercase_returns: "to_lowercase it end_ptr mem = (if it = end_ptr then Some mem else None)"
proof -
  have "to_lowercase it end_ptr mem = Some m \<Longrightarrow> it = end_ptr" for m
    by (rule to_lowercase.raw_induct [where P = "\<lambda>it end_ptr mem m. it = end_ptr"]) (auto split: if_splits)
  then have "it \<noteq> end_ptr \<Longrightarrow> to_lowercase it end_ptr mem = None" by (cases "to_lowercase it end_ptr mem") auto
  moreover have "to_lowercase end_ptr end_ptr mem = Some mem" by (subst to_lowercase.simps) simp
  ultimately show ?thesis by simp
qed

section \<open>The scanners on a known text\<close>

lemma skip_while_run:
  "\<forall>x \<in> set ys. P x \<Longrightarrow> length xs + length ys \<le> e \<Longrightarrow>
   (e = length xs + length ys \<or> (zs \<noteq> [] \<and> \<not> P (hd zs))) \<Longrightarrow>
     skip_while P (xs @ ys @ zs) (length xs) e = Inr (length xs + length ys)"
proof (induction ys arbitrary: xs)
  case Nil
  then show ?case by (cases zs) (auto simp: skip_while.simps nth_append)
next
  case (Cons y ys)
  then have "skip_while P ((xs @ [y]) @ ys @ zs) (length (xs @ [y])) e =
      Inr (length (xs @ [y]) + length ys)"
    by (intro Cons.IH) auto
  with Cons.prems show ?case
    by (simp add: skip_while.simps [of _ _ "length xs"])
qed

lemma skip_while_past [simp]: "e \<le> p \<Longrightarrow> skip_while P mem p e = Inr p"
  by (simp add: skip_while.simps)

lemma memchr_run:
  "c \<notin> set ys \<Longrightarrow> length ys < n \<Longrightarrow>
     memchr (xs @ ys @ c # zs) (length xs) c n = Inr (Some (length xs + length ys))"
proof (induction ys arbitrary: xs n)
  case Nil
  then show ?case by (auto simp: memchr.simps)
next
  case (Cons y ys)
  then have "memchr ((xs @ [y]) @ ys @ c # zs) (length (xs @ [y])) c (n - 1) =
      Inr (Some (length (xs @ [y]) + length ys))"
    by (intro Cons.IH) auto
  with Cons.prems show ?case
    by (auto simp: memchr.simps [of _ "length xs"])
qed

lemma trim_back_run:
  "\<forall>x \<in> set zs. P x \<Longrightarrow> ys \<noteq> [] \<Longrightarrow> \<not> P (last ys) \<Longrightarrow>
     trim_back P (ys @ zs @ ws) (length ys + length zs) = Inr (length ys)"
proof (induction zs arbitrary: ws rule: rev_induct)
  case Nil
  then obtain us u where "ys = us @ [u]" by (metis rev_exhaust)
  with Nil show ?case by (simp add: nth_append)
next
  case (snoc z zs)
  then have "trim_back P (ys @ zs @ (z # ws)) (length ys + length zs) = Inr (length ys)"
    by (intro snoc.IH) auto
  with snoc.prems show ?case by (simp add: nth_append)
qed

lemma string_range_run [simp]:
  "string_range (xs @ ys @ zs) (length xs) (length xs + length ys) = Inr ys"
  by (simp add: string_range_def)


section \<open>Printing and parsing a request line\<close>

text \<open>
  A request line with the spaces the parser tolerates: \<open>i\<close> before the method, at least one before
  the path and before the version, \<open>l\<close> at the end.
\<close>

definition request_line ::
  "nat \<Rightarrow> string \<Rightarrow> nat \<Rightarrow> string \<Rightarrow> nat \<Rightarrow> string \<Rightarrow> nat \<Rightarrow> string" where
  "request_line i ms j p k vs l =
     replicate i SP @ ms @ replicate (Suc j) SP @ p @ replicate (Suc k) SP @ vs @ replicate l SP"

lemma method_string_facts:
  "get_method_type_as_string m = Some ms \<Longrightarrow>
     ms \<noteq> [] \<and> SP \<notin> set ms \<and> hd ms \<noteq> SP \<and> m \<noteq> UNSUPPORTED_HTTP_METHOD"
  by (cases m) auto

lemma version_string_facts:
  "get_version_type_as_string_req v = Some vs \<Longrightarrow>
     vs \<noteq> [] \<and> SP \<notin> set vs \<and> hd vs \<noteq> SP \<and> last vs \<noteq> SP \<and> v \<noteq> UNSUPPORTED_HTTP_VERSION"
  by (cases v) auto

lemma set_method_type_print:
  "get_method_type_as_string m = Some ms \<Longrightarrow>
     set_method_type (xs @ ms @ ys) (length xs) (length xs + length ms) r =
       Inr (True, r\<lparr>req_method := m\<rparr>)"
  by (cases m) (auto simp: set_method_type_def simp del: append_assoc append_Cons)

lemma set_version_type_print:
  "get_version_type_as_string_req v = Some vs \<Longrightarrow>
     set_version_type (xs @ vs @ ys) (length xs) (length xs + length vs) r =
       Inr (True, r\<lparr>req_version := v\<rparr>)"
  by (cases v) (auto simp: set_version_type_def simp del: append_assoc append_Cons)

lemma set_path_run:
  "set_path (xs @ p @ ys) (length xs) (length xs + length p) r = Inr (r\<lparr>req_path := p\<rparr>)"
  by (simp add: set_path_def)

lemma hd_notin: "xs \<noteq> [] \<Longrightarrow> c \<notin> set xs \<Longrightarrow> hd xs \<noteq> c"
  by (cases xs) auto

lemma parse_request_line_print:
  assumes m: "get_method_type_as_string m = Some ms"
    and v: "get_version_type_as_string_req v = Some vs"
    and p: "p \<noteq> []" "SP \<notin> set p"
  shows "parse_request_line (pre @ request_line i ms j p k vs l @ post) (length pre)
           (length pre + length (request_line i ms j p k vs l)) r =
         Inr (True, r\<lparr>req_method := m, req_path := p, req_version := v\<rparr>)"
proof -
  let ?L = "request_line i ms j p k vs l" and ?sp = "\<lambda>n. replicate n SP"
  let ?mem = "pre @ ?L @ post" and ?s = "length pre" and ?e = "length pre + length (request_line i ms j p k vs l)"
  let ?A = "pre @ ?sp i" and ?t1 = "?sp (Suc j) @ p @ ?sp (Suc k) @ vs @ ?sp l @ post"
  let ?B = "?A @ ms" and ?t2 = "p @ ?sp (Suc k) @ vs @ ?sp l @ post"
  let ?C = "?B @ ?sp (Suc j)" and ?t3 = "?sp (Suc k) @ vs @ ?sp l @ post"
  let ?D = "?C @ p" and ?t4 = "vs @ ?sp l @ post"
  let ?E = "?D @ ?sp (Suc k)"
  note mf = method_string_facts [OF m] and vf = version_string_facts [OF v]
  have len: "length ?L = i + length ms + Suc j + length p + Suc k + length vs + l"
    by (simp add: request_line_def)
  have mems: "?mem = pre @ ?sp i @ ms @ ?t1" "?mem = ?A @ ms @ SP # (?sp j @ ?t2)"
    "?mem = ?A @ ms @ ?t1" "?mem = ?B @ ?sp (Suc j) @ ?t2" "?mem = ?C @ p @ SP # (?sp k @ ?t4)"
    "?mem = ?C @ p @ ?t3" "?mem = ?D @ ?sp (Suc k) @ ?t4" "?mem = (?E @ vs) @ ?sp l @ post"
    "?mem = ?E @ vs @ ?sp l @ post"
    by (simp_all add: request_line_def)
  have 1: "skip_while is_sp ?mem ?s ?e = Inr (length ?A)"
    using skip_while_run [of "?sp i" is_sp pre ?e "ms @ ?t1"] mf
    unfolding mems(1) len by simp
  have 2: "memchr ?mem (length ?A) SP (?e - ?s) = Inr (Some (length ?B))"
    using memchr_run [of SP ms "?e - ?s" ?A "?sp j @ ?t2"] mf p
    unfolding mems(2) len by simp
  have 3: "set_method_type ?mem (length ?A) (length ?B) r = Inr (True, r\<lparr>req_method := m\<rparr>)"
    using set_method_type_print [OF m, of ?A ?t1 r] unfolding mems(3) by (simp add: add.assoc)
  have 4: "skip_while is_sp ?mem (length ?B) ?e = Inr (length ?C)"
    using skip_while_run [of "?sp (Suc j)" is_sp ?B ?e ?t2] p
    unfolding mems(4) len by (simp add: hd_notin)
  have 5: "memchr ?mem (length ?C) SP (?e - ?s) = Inr (Some (length ?D))"
    using memchr_run [of SP p "?e - ?s" ?C "?sp k @ ?t4"] p
    unfolding mems(5) len by simp
  have 6: "set_path ?mem (length ?C) (length ?D) r' = Inr (r'\<lparr>req_path := p\<rparr>)" for r'
    using set_path_run [of ?C p ?t3 r'] unfolding mems(6) by (simp add: add.assoc)
  have 7: "skip_while is_sp ?mem (length ?D) ?e = Inr (length ?E)"
    using skip_while_run [of "?sp (Suc k)" is_sp ?D ?e ?t4] vf
    unfolding mems(7) len by simp
  have 8: "trim_back is_sp ?mem ?e = Inr (length (?E @ vs))"
    using trim_back_run [of "?sp l" is_sp "?E @ vs" post] vf
    unfolding mems(8) len by (simp add: ac_simps)
  have 9: "set_version_type ?mem (length ?E) (length (?E @ vs)) r' = Inr (True, r'\<lparr>req_version := v\<rparr>)"
    for r'
    using set_version_type_print [OF v, of ?E "?sp l @ post" r'] unfolding mems(9) by (simp add: add.assoc)
  have ne: "length ?A \<noteq> ?e" "length ?C \<noteq> ?e" "length ?E \<noteq> ?e"
    using mf vf p unfolding len by auto
  show ?thesis
    unfolding parse_request_line_def 1 obind_Inr if_not_P [OF ne(1)] 2 option.case 3 prod.case
      not_True_eq_False if_False 4 if_not_P [OF ne(2)] 5 6 7 if_not_P [OF ne(3)] 8 9
    by simp
qed


section \<open>What an accepted request line looks like\<close>

lemma skip_while_dest:
  "skip_while P (xs @ ts) (length xs) e = Inr q \<Longrightarrow> length xs \<le> e \<Longrightarrow>
     \<exists>ys zs. ts = ys @ zs \<and> (\<forall>x \<in> set ys. P x) \<and> q = length xs + length ys \<and> q \<le> e \<and>
             (q < e \<longrightarrow> zs \<noteq> [] \<and> \<not> P (hd zs))"
proof (induction ts arbitrary: xs)
  case Nil
  then show ?case by (auto simp: skip_while.simps [of _ _ "length xs"] rd_def split: if_splits)
next
  case (Cons t ts)
  show ?case
  proof (cases "length xs < e \<and> P t")
    case True
    with Cons.prems have "skip_while P ((xs @ [t]) @ ts) (length (xs @ [t])) e = Inr q"
      by (simp add: skip_while.simps [of _ _ "length xs"])
    with Cons.IH [of "xs @ [t]"] True obtain ys zs where
      "ts = ys @ zs" "\<forall>x \<in> set ys. P x" "q = length (xs @ [t]) + length ys" "q \<le> e"
      "q < e \<longrightarrow> zs \<noteq> [] \<and> \<not> P (hd zs)"
      by auto
    with True show ?thesis by (intro exI [of _ "t # ys"] exI [of _ zs]) auto
  next
    case False
    with Cons.prems show ?thesis
      by (intro exI [of _ "[]"] exI [of _ "t # ts"])
        (auto simp: skip_while.simps [of _ _ "length xs"] split: if_splits)
  qed
qed

lemma memchr_dest:
  "memchr (xs @ ts) (length xs) c n = Inr (Some q) \<Longrightarrow>
     \<exists>ys zs. ts = ys @ c # zs \<and> c \<notin> set ys \<and> q = length xs + length ys"
proof (induction ts arbitrary: xs n)
  case Nil
  then show ?case by (auto simp: memchr.simps [of _ "length xs"] rd_def split: if_splits)
next
  case (Cons t ts)
  show ?case
  proof (cases "t = c")
    case True
    with Cons.prems show ?thesis
      by (intro exI [of _ "[]"] exI [of _ ts])
        (auto simp: memchr.simps [of _ "length xs"] split: if_splits)
  next
    case False
    with Cons.prems have "memchr ((xs @ [t]) @ ts) (length (xs @ [t])) c (n - 1) = Inr (Some q)"
      by (auto simp: memchr.simps [of _ "length xs"] split: if_splits)
    with Cons.IH [of "xs @ [t]" "n - 1"] obtain ys zs where
      "ts = ys @ c # zs" "c \<notin> set ys" "q = length (xs @ [t]) + length ys"
      by auto
    with False show ?thesis by (intro exI [of _ "t # ys"] exI [of _ zs]) auto
  qed
qed

lemma trim_back_dest:
  "trim_back P mem e = Inr q \<Longrightarrow> e \<le> length mem \<Longrightarrow>
     q \<le> e \<and> (\<forall>x \<in> set (take (e - q) (drop q mem)). P x)"
proof (induction e)
  case (Suc e)
  show ?case
  proof (cases "P (mem ! e)")
    case True
    with Suc have q: "q \<le> e" "\<forall>x \<in> set (take (e - q) (drop q mem)). P x" by auto
    moreover have "take (Suc e - q) (drop q mem) = take (e - q) (drop q mem) @ [mem ! e]"
      using q Suc.prems by (simp add: Suc_diff_le take_Suc_conv_app_nth)
    ultimately show ?thesis using True by auto
  next
    case False
    with Suc.prems show ?thesis by auto
  qed
qed simp

lemma string_range_Inr:
  "string_range mem a b = Inr s \<longleftrightarrow>
     a \<le> b \<and> b \<le> length mem \<and> s = take (b - a) (drop a mem)"
  by (auto simp: string_range_def not_less)

lemma set_method_type_True:
  assumes "set_method_type mem a b r = Inr (True, r')"
  shows "\<exists>m ms. get_method_type_as_string m = Some ms \<and> string_range mem a b = Inr ms \<and>
           r' = r\<lparr>req_method := m\<rparr>"
proof -
  from assms obtain s where s: "string_range mem a b = Inr s"
    by (auto simp: set_method_type_def outcome_simps)
  with assms have "s = ''GET'' \<and> r' = r\<lparr>req_method := GET\<rparr> \<or>
      s = ''POST'' \<and> r' = r\<lparr>req_method := POST\<rparr>"
    by (auto simp: set_method_type_def Let_def split: if_splits)
  with s show ?thesis
    by (metis get_method_type_as_string.simps(1,2))
qed

lemma set_version_type_True:
  assumes "set_version_type mem a b r = Inr (True, r')"
  shows "\<exists>v vs. get_version_type_as_string_req v = Some vs \<and> string_range mem a b = Inr vs \<and>
           r' = r\<lparr>req_version := v\<rparr>"
proof -
  from assms obtain s where s: "string_range mem a b = Inr s"
    by (auto simp: set_version_type_def outcome_simps)
  with assms have "s = ''HTTP/1.0'' \<and> r' = r\<lparr>req_version := HTTP_1_0\<rparr> \<or>
      s = ''HTTP/1.1'' \<and> r' = r\<lparr>req_version := HTTP_1_1\<rparr>"
    by (auto simp: set_version_type_def Let_def split: if_splits)
  with s show ?thesis
    by (metis get_version_type_as_string_req.simps(1,2))
qed

lemma replicate_all: "(\<forall>x \<in> set ys. x = c) \<longleftrightarrow> ys = replicate (length ys) c"
  by (metis in_set_replicate replicate_length_same)

text \<open>Two readings of a text with a marker at a known place.\<close>

lemma marker_before:
  assumes "line @ c # post = us @ ws" "c \<notin> set us"
  shows "length us \<le> length line"
proof (rule ccontr)
  assume "\<not> length us \<le> length line"
  then have "us ! length line = c"
    using assms(1) by (metis not_le nth_append nth_append_at)
  with assms(2) \<open>\<not> length us \<le> length line\<close> show False
    by (metis not_le nth_mem)
qed

lemma marker_at:
  assumes "line @ c # post = us @ d # ws" "c \<noteq> d"
  shows "length us \<noteq> length line"
  using assms by (metis append_eq_append_conv list.inject)


text \<open>The calls an accepted line goes through, with the positions they return.\<close>

lemma parse_request_line_steps:
  assumes "parse_request_line mem s e r = Inr (True, r')"
  obtains ms me m mstr ps pe path vs ve v vstr where
    "skip_while is_sp mem s e = Inr ms" "ms \<noteq> e" "memchr mem ms SP (e - s) = Inr (Some me)"
    "get_method_type_as_string m = Some mstr" "string_range mem ms me = Inr mstr"
    "skip_while is_sp mem me e = Inr ps" "ps \<noteq> e" "memchr mem ps SP (e - s) = Inr (Some pe)"
    "string_range mem ps pe = Inr path"
    "skip_while is_sp mem pe e = Inr vs" "vs \<noteq> e" "trim_back is_sp mem e = Inr ve"
    "get_version_type_as_string_req v = Some vstr" "string_range mem vs ve = Inr vstr"
    "r' = r\<lparr>req_method := m, req_path := path, req_version := v\<rparr>"
proof -
  from assms obtain ms me r1 where 1: "skip_while is_sp mem s e = Inr ms" "ms \<noteq> e"
    "memchr mem ms SP (e - s) = Inr (Some me)" "set_method_type mem ms me r = Inr (True, r1)"
    by (auto simp: parse_request_line_def outcome_simps split: if_splits option.splits)
  with assms obtain ps pe r2 where 2: "skip_while is_sp mem me e = Inr ps" "ps \<noteq> e"
    "memchr mem ps SP (e - s) = Inr (Some pe)" "set_path mem ps pe r1 = Inr r2"
    by (auto simp: parse_request_line_def outcome_simps split: if_splits option.splits)
  with 1 assms obtain vs ve where 3: "skip_while is_sp mem pe e = Inr vs" "vs \<noteq> e"
    "trim_back is_sp mem e = Inr ve" "set_version_type mem vs ve r2 = Inr (True, r')"
    by (auto simp: parse_request_line_def outcome_simps split: if_splits)
  obtain m mstr where m: "get_method_type_as_string m = Some mstr"
    "string_range mem ms me = Inr mstr" "r1 = r\<lparr>req_method := m\<rparr>"
    using set_method_type_True [OF 1(4)] by blast
  obtain v vstr where v: "get_version_type_as_string_req v = Some vstr"
    "string_range mem vs ve = Inr vstr" "r' = r2\<lparr>req_version := v\<rparr>"
    using set_version_type_True [OF 3(4)] by blast
  obtain path where p: "string_range mem ps pe = Inr path" "r2 = r1\<lparr>req_path := path\<rparr>"
    using 2(4) by (auto simp: set_path_def outcome_simps)
  show ?thesis
    using that [OF 1(1-3) m(1,2) 2(1-3) p(1) 3(1-3) v(1,2)] m(3) p(2) v(3) by simp
qed

text \<open>One word of the line: spaces, then the characters up to the next space.\<close>

lemma word_step:
  assumes skip: "skip_while is_sp (xs @ ts) (length xs) e = Inr a" "a \<noteq> e" "length xs \<le> e"
    and chr: "memchr (xs @ ts) a SP n = Inr (Some b)"
    and rng: "string_range (xs @ ts) a b = Inr w"
  shows "\<exists>i zs. ts = replicate i SP @ w @ SP # zs \<and> w \<noteq> [] \<and> SP \<notin> set w \<and>
           a = length xs + i \<and> a < e \<and> b = a + length w"
proof -
  obtain ys zs where yz: "ts = ys @ zs" "\<forall>x \<in> set ys. is_sp x" "a = length xs + length ys"
      "a < e" "zs \<noteq> []" "\<not> is_sp (hd zs)"
    using skip_while_dest [OF skip(1,3)] skip(2) by fastforce
  have ys: "ys = replicate (length ys) SP" using yz(2) by (simp only: replicate_all)
  obtain u zs' where u: "zs = u @ SP # zs'" "SP \<notin> set u" "b = a + length u"
    using memchr_dest [of "xs @ ys" zs SP n b] chr yz(1,3) by auto
  have "u = w"
    using string_range_run [of "xs @ ys" u "SP # zs'"] rng yz(1,3) u(1,3) by simp
  moreover have "u \<noteq> []" using u(1) yz(6) by auto
  ultimately show ?thesis
    using ys yz(1,3,4) u by (intro exI [of _ "length ys"] exI [of _ zs']) simp
qed

text \<open>The version: spaces up to its first character, and nothing but spaces after its last.\<close>

lemma version_step:
  assumes skip: "skip_while is_sp (xs @ ts) (length xs) e = Inr a" "a \<noteq> e" "length xs \<le> e"
    and trim: "trim_back is_sp (xs @ ts) e = Inr b" "e \<le> length (xs @ ts)"
    and rng: "string_range (xs @ ts) a b = Inr w"
  shows "\<exists>i l. take (e - length xs) ts = replicate i SP @ w @ replicate l SP \<and> a = length xs + i"
proof -
  obtain ys zs where yz: "ts = ys @ zs" "\<forall>x \<in> set ys. is_sp x" "a = length xs + length ys" "a < e"
    using skip_while_dest [OF skip(1,3)] skip(2) by fastforce
  have ys: "ys = replicate (length ys) SP" using yz(2) by (simp only: replicate_all)
  define tl where "tl = take (e - b) (drop b (xs @ ts))"
  have b: "b \<le> e" "\<forall>x \<in> set tl. is_sp x"
    using trim_back_dest [OF trim] by (auto simp: tl_def)
  have tl: "tl = replicate (length tl) SP" using b(2) by (simp only: replicate_all)
  have ab: "a \<le> b" "w = take (b - a) zs" using rng yz(1,3) by (auto simp: string_range_Inr)
  have "take (e - length xs) ts = ys @ take ((b - a) + (e - b)) zs"
    using yz(1,3,4) ab(1) b(1) by simp
  also have "\<dots> = ys @ w @ take (e - b) (drop (b - a) zs)"
    unfolding ab(2) by (simp only: take_add)
  also have "take (e - b) (drop (b - a) zs) = tl"
    using yz(1,3) ab(1) by (simp add: tl_def)
  finally show ?thesis
    using ys tl yz(3) by (intro exI [of _ "length ys"] exI [of _ "length tl"]) simp
qed

lemma replicate_Suc_of: "replicate i SP @ zs = SP # us \<Longrightarrow> zs \<noteq> [] \<Longrightarrow> hd zs \<noteq> SP \<Longrightarrow> \<exists>j. i = Suc j"
  by (cases i) auto

lemma parse_request_line_accepts:
  assumes acc: "parse_request_line (pre @ line @ CR # post) (length pre)
                  (length pre + length line) r = Inr (True, r')"
  shows "\<exists>i m mstr j p k v vstr l.
           line = request_line i mstr j p k vstr l \<and> p \<noteq> [] \<and> SP \<notin> set p \<and>
           get_method_type_as_string m = Some mstr \<and>
           get_version_type_as_string_req v = Some vstr \<and>
           r' = r\<lparr>req_method := m, req_path := p, req_version := v\<rparr>"
proof -
  let ?tx = "line @ CR # post" and ?s = "length pre" and ?e = "length pre + length line"
  let ?mem = "pre @ ?tx"
  from acc obtain ms me m mstr ps pe path vs ve v vstr where
    c1: "skip_while is_sp ?mem ?s ?e = Inr ms" "ms \<noteq> ?e"
      "memchr ?mem ms SP (?e - ?s) = Inr (Some me)"
    and m: "get_method_type_as_string m = Some mstr" "string_range ?mem ms me = Inr mstr"
    and c2: "skip_while is_sp ?mem me ?e = Inr ps" "ps \<noteq> ?e"
      "memchr ?mem ps SP (?e - ?s) = Inr (Some pe)" "string_range ?mem ps pe = Inr path"
    and c3: "skip_while is_sp ?mem pe ?e = Inr vs" "vs \<noteq> ?e" "trim_back is_sp ?mem ?e = Inr ve"
    and v: "get_version_type_as_string_req v = Some vstr" "string_range ?mem vs ve = Inr vstr"
    and r': "r' = r\<lparr>req_method := m, req_path := path, req_version := v\<rparr>"
    by (rule parse_request_line_steps)
  obtain i z1 where 1: "?tx = (replicate i SP @ mstr) @ SP # z1" "me = ?s + i + length mstr"
    using word_step [OF c1(1,2) _ c1(3) m(2)] by auto
  have "CR \<notin> set (replicate i SP @ mstr)" using m(1) by (cases m) auto
  then have me: "me \<le> ?e"
    using marker_before [OF 1(1)] 1(2) by simp
  let ?w = "pre @ replicate i SP @ mstr"
  have mem2: "?mem = ?w @ SP # z1" "me = length ?w" using 1 by simp_all
  obtain j z2 where 2: "SP # z1 = replicate j SP @ path @ SP # z2" "path \<noteq> []" "SP \<notin> set path"
      "ps = me + j" "pe = ps + length path"
    using word_step [OF c2(1) [unfolded mem2] c2(2) _ c2(3,4) [unfolded mem2(1)]] me mem2(2) by auto
  obtain j' where j: "j = Suc j'"
    using replicate_Suc_of [OF 2(1) [symmetric]] 2(2,3) by (auto simp: hd_append hd_notin)
  let ?x = "replicate i SP @ mstr @ replicate j SP @ path"
  have 3: "?tx = ?x @ SP # z2" "pe = ?s + length ?x" using 1 2 by simp_all
  have "vs \<le> ve" "ve \<le> ?e"
    using v(2) trim_back_dest [OF c3(3)] by (simp_all add: string_range_Inr)
  then have pe: "pe < ?e"
    using c3(1,2) marker_at [OF 3(1)] 3(2) by (cases "?e \<le> pe") auto
  have mem3: "?mem = (pre @ ?x) @ SP # z2" "pe = length (pre @ ?x)" using 3 by simp_all
  have le: "length (pre @ ?x) \<le> ?e" using pe mem3(2) by linarith
  have le2: "?e \<le> length ((pre @ ?x) @ SP # z2)" unfolding mem3(1) [symmetric] by simp
  obtain k l where k: "take (?e - length (pre @ ?x)) (SP # z2) = replicate k SP @ vstr @ replicate l SP"
      "vs = pe + k"
    using version_step [OF c3(1) [unfolded mem3] c3(2) le c3(3) [unfolded mem3(1)] le2
        v(2) [unfolded mem3(1)]] mem3(2) by auto
  have "line = take (length line) (?x @ SP # z2)" using 3(1) by (metis append_eq_conv_conj)
  also have "\<dots> = ?x @ take (?e - length (pre @ ?x)) (SP # z2)" using 3(2) pe by (simp add: add.assoc)
  finally have "line = ?x @ replicate k SP @ vstr @ replicate l SP" using k by simp
  moreover have "\<exists>k'. k = Suc k'"
  proof -
    have "?e - length (pre @ ?x) = Suc (?e - pe - 1)" using pe mem3(2) by linarith
    then have "replicate k SP @ vstr @ replicate l SP = SP # take (?e - pe - 1) z2"
      using k(1) by (simp only: take_Suc_Cons)
    then show ?thesis using version_string_facts [OF v(1)] by (intro replicate_Suc_of) auto
  qed
  ultimately obtain k' where "line = request_line i mstr j' path k' vstr l"
    using j by (auto simp: request_line_def)
  with 2(2,3) m(1) v(1) r' show ?thesis by blast
qed


text \<open>C25: Printing and parsing a request line: with any number of spaces before, between and after
  its three parts, and whatever surrounds it in the buffer, the line of a supported method, a
  non-empty path without spaces and a supported version is accepted, and the request holds
  exactly these three; every other field keeps its value.\<close>

theorem request_line_roundtrip:
  assumes "get_method_type_as_string m = Some mstr" "get_version_type_as_string_req v = Some vstr"
    "p \<noteq> []" "SP \<notin> set p"
  shows "parse_request_line (pre @ request_line i mstr j p k vstr l @ post) (length pre)
           (length pre + length (request_line i mstr j p k vstr l)) r =
         Inr (True, r\<lparr>req_method := m, req_path := p, req_version := v\<rparr>)"
  by (rule parse_request_line_print [OF assms])

theorem request_line_roundtrip_witness:
  "parse_request_line (''x'' @ request_line 1 ''GET'' 0 ''/a'' 1 ''HTTP/1.1'' 0 @ [CR, LF]) 1
     (1 + length (request_line 1 ''GET'' 0 ''/a'' 1 ''HTTP/1.1'' 0)) new_http_request =
   Inr (True, new_http_request\<lparr>req_method := GET, req_path := ''/a'', req_version := HTTP_1_1\<rparr>)"
  using request_line_roundtrip [of GET "''GET''" HTTP_1_1 "''HTTP/1.1''" "''/a''" "''x''" 1 0 1 0
      "[CR, LF]" new_http_request]
  by simp

text \<open>C26: The request-line parser accepts nothing else: whenever it returns success on a line that is
  followed by a carriage return, the line is a request line of that shape and the request holds
  its three parts.\<close>

theorem request_line_sound:
  assumes "parse_request_line (pre @ line @ CR # post) (length pre) (length pre + length line) r
           = Inr (True, r')"
  shows "\<exists>i m mstr j p k v vstr l.
           line = request_line i mstr j p k vstr l \<and> p \<noteq> [] \<and> SP \<notin> set p \<and>
           get_method_type_as_string m = Some mstr \<and>
           get_version_type_as_string_req v = Some vstr \<and>
           r' = r\<lparr>req_method := m, req_path := p, req_version := v\<rparr>"
  by (rule parse_request_line_accepts [OF assms])

theorem request_line_sound_witness:
  "\<exists>i m mstr j p k v vstr l.
     request_line 0 ''GET'' 0 ''/a'' 0 ''HTTP/1.0'' 0 = request_line i mstr j p k vstr l \<and>
     p \<noteq> [] \<and> SP \<notin> set p \<and> get_method_type_as_string m = Some mstr \<and>
     get_version_type_as_string_req v = Some vstr \<and>
     new_http_request\<lparr>req_method := GET, req_path := ''/a'', req_version := HTTP_1_0\<rparr> =
     new_http_request\<lparr>req_method := m, req_path := p, req_version := v\<rparr>"
  by (rule request_line_sound [of "[]" _ "[LF]"], rule parse_request_line_print) simp_all

section \<open>The over-long search for the end of the path\<close>

text \<open>
  Both \<^verbatim>\<open>memchr\<close> calls search \<open>end - start\<close> characters from a position after \<open>start\<close>, so they look
  beyond the end of the line. When the line has no version and the bytes after its CRLF hold a
  space within reach, the path ends there, the version range is empty from the wrong side and
  constructing its string throws.
\<close>

lemma parse_request_line_throws:
  assumes p: "p \<noteq> []" "SP \<notin> set p" "last p \<noteq> SP" and q: "SP \<notin> set q" "length q \<le> 1"
  shows "parse_request_line (pre @ (''GET '' @ p) @ CR # LF # q @ SP # post) (length pre)
           (length pre + length (''GET '' @ p)) r = Inl (Uncaught ''std::length_error'')"
proof -
  let ?rest = "CR # LF # q @ SP # post"
  let ?mem = "pre @ (''GET '' @ p) @ ?rest" and ?e = "length pre + length (''GET '' @ p)"
  let ?A = "pre @ ''GET''" and ?B = "pre @ ''GET ''" and ?P = "p @ [CR, LF] @ q"
  have 1: "skip_while is_sp ?mem (length pre) ?e = Inr (length pre)"
    using skip_while_run [of "[]" is_sp pre ?e "(''GET '' @ p) @ ?rest"] by simp
  have 2: "memchr ?mem (length pre) SP (?e - length pre) = Inr (Some (length ?A))"
    using memchr_run [of SP "''GET''" "?e - length pre" pre "p @ ?rest"] by simp
  have 3: "set_method_type ?mem (length pre) (length ?A) r = Inr (True, r\<lparr>req_method := GET\<rparr>)"
    using set_method_type_print [of GET "''GET''" pre "SP # p @ ?rest" r] by simp
  have 4: "skip_while is_sp ?mem (length ?A) ?e = Inr (length ?B)"
    using skip_while_run [of "[SP]" is_sp ?A ?e "p @ ?rest"] p by (simp add: hd_notin)
  have 5: "memchr ?mem (length ?B) SP (?e - length pre) = Inr (Some (length ?B + length ?P))"
    using memchr_run [of SP ?P "?e - length pre" ?B post] p q by simp
  have 6: "set_path ?mem (length ?B) (length ?B + length ?P) r' = Inr (r'\<lparr>req_path := ?P\<rparr>)" for r'
    using set_path_run [of ?B ?P "SP # post" r'] by simp
  have 7: "skip_while is_sp ?mem (length ?B + length ?P) ?e = Inr (length ?B + length ?P)"
    by simp
  have 8: "trim_back is_sp ?mem ?e = Inr ?e"
    using trim_back_run [of "[]" is_sp "?B @ p" ?rest] p by simp
  have 9: "set_version_type ?mem (length ?B + length ?P) ?e r' = Inl (Uncaught ''std::length_error'')"
    for r'
    by (simp add: set_version_type_def string_range_def)
  have ne: "length pre \<noteq> ?e" "length ?B \<noteq> ?e" "length ?B + length ?P \<noteq> ?e"
    using p by auto
  show ?thesis
    unfolding parse_request_line_def 1 obind_Inr if_not_P [OF ne(1)] 2 option.case 3 prod.case
      not_True_eq_False if_False 4 if_not_P [OF ne(2)] 5 6 7 if_not_P [OF ne(3)] 8 9
    by simp
qed

text \<open>A request line with a path but no version, whose next line starts with a space (or has one
  as its second character), makes the parser construct a string from a reversed range: the
  exception is not caught anywhere and ends the server.\<close>

theorem request_line_without_version_throws:
  assumes "p \<noteq> []" "SP \<notin> set p" "SP \<notin> set q" "length q \<le> 1"
  shows "parse_request_line (pre @ (''GET '' @ p) @ CR # LF # q @ SP # post) (length pre)
           (length pre + length (''GET '' @ p)) r = Inl (Uncaught ''std::length_error'')"
  using assms by (intro parse_request_line_throws) (auto dest: last_in_set)

theorem request_line_without_version_throws_witness:
  "parse_request_line ([] @ (''GET '' @ ''/a'') @ CR # LF # '':'' @ SP # ''x'') 0
     (0 + length (''GET '' @ ''/a'')) new_http_request = Inl (Uncaught ''std::length_error'')"
  using request_line_without_version_throws [of "''/a''" "'':''" "[]" "''x''" new_http_request]
  by simp

section \<open>Header lines\<close>

definition strip :: "string \<Rightarrow> string" where
  "strip s = rev (dropWhile is_space (rev (dropWhile is_space s)))"

lemma strip_cases:
  obtains "\<forall>x \<in> set s. is_space x" "strip s = []"
  | a b where "s = a @ strip s @ b" "strip s \<noteq> []" "\<forall>x \<in> set a. is_space x"
      "\<forall>x \<in> set b. is_space x" "\<not> is_space (hd (strip s))" "\<not> is_space (last (strip s))"
proof (cases "\<forall>x \<in> set s. is_space x")
  case True
  then have "strip s = []" by (simp add: strip_def dropWhile_eq_Nil_conv [THEN iffD2])
  with True show ?thesis by (rule that(1))
next
  case False
  let ?d = "dropWhile is_space s"
  have d: "s = takeWhile is_space s @ ?d" "?d \<noteq> []" "\<not> is_space (hd ?d)"
    using False by (auto simp: dropWhile_eq_Nil_conv hd_dropWhile)
  then have ex: "\<exists>x \<in> set (rev ?d). \<not> is_space x" by (metis hd_in_set set_rev)
  let ?r = "dropWhile is_space (rev ?d)"
  have r: "?r \<noteq> []" "\<not> is_space (hd ?r)"
    using ex by (auto simp: dropWhile_eq_Nil_conv hd_dropWhile)
  have "rev ?d = takeWhile is_space (rev ?d) @ ?r" by simp
  then have dd: "?d = strip s @ rev (takeWhile is_space (rev ?d))"
    unfolding strip_def by (metis rev_append rev_rev_ident)
  have "hd ?d = hd (strip s)" using dd r(1) unfolding strip_def by (metis hd_append2 rev_is_Nil_conv)
  then have "\<not> is_space (hd (strip s))" using d(3) by simp
  moreover have "\<not> is_space (last (strip s))" using r by (simp add: strip_def last_rev)
  moreover have "strip s \<noteq> []" using r(1) by (simp add: strip_def)
  ultimately show ?thesis
    using that(2) [of "takeWhile is_space s" "rev (takeWhile is_space (rev ?d))"] d(1) dd
    by (metis set_rev set_takeWhileD)
qed

lemma memchr_absent:
  "c \<notin> set ys \<Longrightarrow> memchr (xs @ ys @ zs) (length xs) c (length ys) = Inr None"
proof (induction ys arbitrary: xs)
  case Nil
  then show ?case by (simp add: memchr.simps)
next
  case (Cons y ys)
  then have "memchr ((xs @ [y]) @ ys @ zs) (length (xs @ [y])) c (length ys) = Inr None"
    by (intro Cons.IH) auto
  with Cons.prems show ?case by (auto simp: memchr.simps [of _ "length xs"])
qed


lemma skip_blank:
  assumes "strip s = []"
  shows "skip_while is_space (xs @ s @ zs) (length xs) (length xs + length s) = Inr (length xs + length s)"
proof -
  have "\<forall>x \<in> set s. is_space x" using assms by (cases s rule: strip_cases) auto
  then show ?thesis by (intro skip_while_run) auto
qed

lemma skip_trim:
  assumes "strip s \<noteq> []"
  shows "\<exists>a b. skip_while is_space (xs @ s @ zs) (length xs) (length xs + length s) = Inr a \<and>
           a \<noteq> length xs + length s \<and>
           trim_back is_space (xs @ s @ zs) (length xs + length s) = Inr b \<and>
           string_range (xs @ s @ zs) a b = Inr (strip s)"
proof -
  obtain u w where s: "s = u @ strip s @ w" "\<forall>x \<in> set u. is_space x" "\<forall>x \<in> set w. is_space x"
      "\<not> is_space (hd (strip s))" "\<not> is_space (last (strip s))"
    using assms by (cases s rule: strip_cases) auto
  let ?t = "strip s" and ?mem = "xs @ s @ zs" and ?e = "length xs + length s"
  have mem: "?mem = xs @ u @ ?t @ w @ zs" and len: "length s = length u + length ?t + length w"
    using s(1) by (metis append_assoc, metis add.assoc length_append)
  have "skip_while is_space ?mem (length xs) ?e = Inr (length xs + length u)"
    unfolding mem using s assms len by (intro skip_while_run) auto
  moreover have "trim_back is_space ?mem ?e = Inr (length xs + length u + length ?t)"
    using trim_back_run [of w is_space "xs @ u @ ?t" zs] s(3,5) assms
    unfolding mem len by (simp add: add.assoc)
  moreover have "string_range ?mem (length xs + length u) (length xs + length u + length ?t) = Inr ?t"
    using string_range_run [of "xs @ u" ?t "w @ zs"] unfolding mem by simp
  moreover have "length xs + length u \<noteq> ?e" using len assms by simp
  ultimately show ?thesis by blast
qed

lemma parse_header_line_colon:
  assumes colon: "CHR '':'' \<notin> set k"
  shows "parse_header_line (xs @ (k @ CHR '':'' # v) @ zs) (length xs)
           (length xs + length (k @ CHR '':'' # v)) r =
         (if strip k = [] then Inr (False, r)
          else Inr (True, r\<lparr>req_headers := (req_headers r)(strip k \<mapsto> strip v)\<rparr>))"
proof -
  let ?mem = "xs @ (k @ CHR '':'' # v) @ zs" and ?c = "length xs + length k"
  let ?e = "length xs + length (k @ CHR '':'' # v)" and ?y = "xs @ k @ '':''"
  have mems: "?mem = xs @ k @ (CHR '':'' # v @ zs)" "?mem = ?y @ v @ zs" by simp_all
  have len: "?c + 1 = length ?y" "?e = length ?y + length v" by simp_all
  have 1: "memchr ?mem (length xs) (CHR '':'') (?e - length xs) = Inr (Some ?c)"
    unfolding mems(1) using colon by (intro memchr_run) auto
  show ?thesis
  proof (cases "strip k = []")
    case True
    then have "skip_while is_space ?mem (length xs) ?c = Inr ?c"
      unfolding mems(1) by (rule skip_blank)
    with True show ?thesis unfolding parse_header_line_def 1 by simp
  next
    case False
    then obtain a b where 2: "skip_while is_space ?mem (length xs) ?c = Inr a" "a \<noteq> ?c"
        "trim_back is_space ?mem ?c = Inr b" "string_range ?mem a b = Inr (strip k)"
      unfolding mems(1) using skip_trim by blast
    have 3: "\<exists>a b. skip_while is_space ?mem (?c + 1) ?e = Inr a \<and>
        (if a \<noteq> ?e then trim_back is_space ?mem ?e else Inr ?e) = Inr b \<and>
        string_range ?mem a b = Inr (strip v)"
    proof (cases "strip v = []")
      case True
      then have "skip_while is_space ?mem (?c + 1) ?e = Inr ?e"
        unfolding mems(2) len by (rule skip_blank)
      then show ?thesis using True by (simp add: string_range_def)
    next
      case False
      then obtain a b where ab: "skip_while is_space (?y @ v @ zs) (length ?y) (length ?y + length v) = Inr a"
          "a \<noteq> length ?y + length v"
          "trim_back is_space (?y @ v @ zs) (length ?y + length v) = Inr b"
          "string_range (?y @ v @ zs) a b = Inr (strip v)"
        using skip_trim by blast
      show ?thesis
        unfolding mems(2) len
        by (intro exI [of _ a] exI [of _ b] conjI ab(1,4)) (simp only: ab(2,3) not_False_eq_True if_True)
    qed
    then obtain a' b' where 4: "skip_while is_space ?mem (?c + 1) ?e = Inr a'"
        "(if a' \<noteq> ?e then trim_back is_space ?mem ?e else Inr ?e) = Inr b'"
        "string_range ?mem a' b' = Inr (strip v)"
      by blast
    show ?thesis
      unfolding parse_header_line_def 1 obind_Inr option.case 2(1,3) if_not_P [OF 2(2)]
        4(1,2) 2(4) 4(3) if_not_P [OF False] ..
  qed
qed

lemma parse_header_line_no_colon:
  "CHR '':'' \<notin> set line \<Longrightarrow>
     parse_header_line (xs @ line @ zs) (length xs) (length xs + length line) r = Inr (False, r)"
  by (simp add: parse_header_line_def memchr_absent)

text \<open>What a header line means: its name and value, or nothing.\<close>

definition header_of_line :: "string \<Rightarrow> (string \<times> string) option" where
  "header_of_line line =
     (if CHR '':'' \<notin> set line \<or> strip (takeWhile (\<lambda>c. c \<noteq> CHR '':'') line) = [] then None
      else Some (strip (takeWhile (\<lambda>c. c \<noteq> CHR '':'') line),
                 strip (tl (dropWhile (\<lambda>c. c \<noteq> CHR '':'') line))))"

lemma parse_header_line_eq:
  "parse_header_line (xs @ line @ zs) (length xs) (length xs + length line) r =
     (case header_of_line line of
        None \<Rightarrow> Inr (False, r)
      | Some (k, v) \<Rightarrow> Inr (True, r\<lparr>req_headers := (req_headers r)(k \<mapsto> v)\<rparr>))"
proof (cases "CHR '':'' \<in> set line")
  case True
  then obtain k v where line: "line = k @ CHR '':'' # v" "CHR '':'' \<notin> set k"
    by (meson split_list_first)
  then have "takeWhile (\<lambda>c. c \<noteq> CHR '':'') line = k" "dropWhile (\<lambda>c. c \<noteq> CHR '':'') line = CHR '':'' # v"
    by (auto simp: takeWhile_tail dropWhile_append3 takeWhile_append dropWhile_append)
  with line show ?thesis
    using parse_header_line_colon [of k xs v zs r] by (simp add: header_of_line_def)
next
  case False
  then show ?thesis by (simp add: header_of_line_def parse_header_line_no_colon)
qed

text \<open>The header-line parser, on every line at every place in the buffer, never reads outside the
  line; it refuses a line without a colon or with a blank name, and otherwise records the
  trimmed text before the first colon with the trimmed text after it (possibly empty),
  replacing an earlier header of that name.\<close>

theorem header_line_functional:
  "parse_header_line (xs @ line @ zs) (length xs) (length xs + length line) r =
     (case header_of_line line of
        None \<Rightarrow> Inr (False, r)
      | Some (k, v) \<Rightarrow> Inr (True, r\<lparr>req_headers := (req_headers r)(k \<mapsto> v)\<rparr>))"
  by (rule parse_header_line_eq)

end
