(* ===== verification/Tcp_Buffer.thy ===== *)
theory Tcp_Buffer
  imports Server_Prelude
begin

text \<open>
  \<^verbatim>\<open>MutableSizeTcpBuffer\<close> (include/tcp_buffer.h, src/tcp_buffer.cc): a growing character
  buffer with a read and a write offset, compacted or reallocated by \<open>make_space\<close>. The
  cached begin pointer is modelled by the identity of the storage it points into, so that a
  pointer left behind by a reallocation is visible as undefined behaviour. The abstract
  specification is a byte queue: \<open>append_buf\<close> adds at the end, \<open>forward_read_position\<close> drops from
  the front, the two searches find the first newline and the first CRLF.
\<close>

section \<open>The underlying string\<close>

text \<open>
  The part of \<^verbatim>\<open>std::string\<close> the buffer relies on. \<open>storage\<close> names the block of memory the
  characters live in; growing beyond the capacity moves them to a new block, of at least twice
  the size (libstdc++'s \<^verbatim>\<open>_M_create\<close>). A fresh string has the 15 bytes of the short string
  optimisation.
\<close>

record tcp_buffer =
  chars :: string
  capacity :: nat
  storage :: nat
  begin_ptr :: "nat option"
  read_offset :: nat
  write_offset :: nat

definition sso_capacity :: nat where
  "sso_capacity = 15"

definition string_resize :: "nat \<Rightarrow> tcp_buffer \<Rightarrow> tcp_buffer" where
  "string_resize n b =
     (let cs = take n (chars b) @ replicate (n - length (chars b)) NUL
      in if n \<le> capacity b then b\<lparr>chars := cs\<rparr>
         else b\<lparr>chars := cs, capacity := max n (2 * capacity b), storage := Suc (storage b)\<rparr>)"

definition string_reconstruct :: "tcp_buffer \<Rightarrow> tcp_buffer" where
  "string_reconstruct b =
     b\<lparr>chars := [], capacity := sso_capacity, storage := Suc (storage b)\<rparr>"

section \<open>Operations\<close>

definition new_tcp_buffer :: tcp_buffer where
  "new_tcp_buffer =
     \<lparr>chars = [], capacity = sso_capacity, storage = 0, begin_ptr = Some 0,
      read_offset = 0, write_offset = 0\<rparr>"

definition reset_buf :: "tcp_buffer \<Rightarrow> tcp_buffer" where
  "reset_buf b =
     (let b1 = (if begin_ptr b \<noteq> None then string_reconstruct b else b)
      in b1\<lparr>begin_ptr := Some (storage b1), read_offset := 0, write_offset := 0\<rparr>)"

definition release_buf :: "tcp_buffer \<Rightarrow> tcp_buffer" where
  "release_buf b =
     (if begin_ptr b = None then b else (string_reconstruct b)\<lparr>begin_ptr := None\<rparr>)"

text \<open>Positions are offsets from the begin pointer; \<open>None\<close> is \<^verbatim>\<open>nullptr\<close>.\<close>

definition get_read_position :: "tcp_buffer \<Rightarrow> nat" where
  "get_read_position b = read_offset b"

definition get_readable_size :: "tcp_buffer \<Rightarrow> nat" where
  "get_readable_size b = size_sub (write_offset b) (read_offset b)"

definition forward_read_position :: "nat \<Rightarrow> tcp_buffer \<Rightarrow> tcp_buffer" where
  "forward_read_position n b =
     b\<lparr>read_offset := min (read_offset b + n) (write_offset b)\<rparr>"

function find_newline :: "string \<Rightarrow> nat \<Rightarrow> nat \<Rightarrow> nat option" where
  "find_newline cs i n =
     (if i < n then (if cs ! i = LF then Some i else find_newline cs (Suc i) n) else None)"
  by pat_completeness auto
termination
  by (relation "measure (\<lambda>(cs, i, n). n - i)") auto

function find_crlf :: "string \<Rightarrow> nat \<Rightarrow> nat \<Rightarrow> nat option" where
  "find_crlf cs i n =
     (if i < n then
        (if cs ! i = CR \<and> cs ! (i + 1) = LF then Some i else find_crlf cs (Suc i) n)
      else None)"
  by pat_completeness auto
termination
  by (relation "measure (\<lambda>(cs, i, n). n - i)") auto

declare find_newline.simps [simp del] find_crlf.simps [simp del]

text \<open>The searches read through the begin pointer.\<close>

definition readable_through :: "tcp_buffer \<Rightarrow> bool" where
  "readable_through b \<longleftrightarrow> begin_ptr b = Some (storage b) \<and> write_offset b \<le> length (chars b)"

definition get_next_newline_position :: "tcp_buffer \<Rightarrow> nat option outcome" where
  "get_next_newline_position b =
     (if read_offset b \<ge> write_offset b then Inr None
      else if \<not> readable_through b then Inl (Undefined ''read through a dangling buffer pointer'')
      else Inr (find_newline (chars b) (read_offset b) (write_offset b)))"

definition get_next_crlf_position :: "tcp_buffer \<Rightarrow> nat option outcome" where
  "get_next_crlf_position b =
     (if read_offset b \<ge> write_offset b then Inr None
      else if \<not> readable_through b then Inl (Undefined ''read through a dangling buffer pointer'')
      else Inr (find_crlf (chars b) (read_offset b) (size_sub (write_offset b) 1)))"

text \<open>
  A write through the begin pointer is defined when the pointer still names the current storage.
  The compaction is a \<^verbatim>\<open>memcpy\<close> of possibly overlapping ranges; the model copies as
  \<^verbatim>\<open>memmove\<close> would.
\<close>

definition write_through :: "nat \<Rightarrow> string \<Rightarrow> tcp_buffer \<Rightarrow> tcp_buffer outcome" where
  "write_through off data b =
     (if begin_ptr b = Some (storage b) then Inr (b\<lparr>chars := mem_write (chars b) off data\<rparr>)
      else Inl (Undefined ''write through a dangling buffer pointer''))"

definition make_space :: "nat \<Rightarrow> tcp_buffer \<Rightarrow> (nat option \<times> tcp_buffer) outcome" where
  "make_space sz b =
     (if sz = 0 then Inr (None, b)
      else let directly_extendable_size = size_sub (capacity b) (write_offset b) in
        obind
          (if sz \<le> directly_extendable_size then
             Inr (string_resize (write_offset b + sz) b)
           else if sz \<le> directly_extendable_size + read_offset b then
             obind (write_through 0
                     (take (size_sub (write_offset b) (read_offset b))
                        (drop (read_offset b) (chars b))) b) (\<lambda>b1.
             let b2 = b1\<lparr>write_offset := size_sub (write_offset b) (read_offset b),
                         read_offset := 0\<rparr>
             in Inr (string_resize (write_offset b2 + sz) b2))
           else
             let b1 = string_resize (write_offset b + sz) b
             in Inr (b1\<lparr>begin_ptr := Some (storage b1)\<rparr>))
          (\<lambda>b'. Inr (Some (write_offset b'), b'\<lparr>write_offset := write_offset b' + sz\<rparr>)))"

definition append_buf :: "string \<Rightarrow> tcp_buffer \<Rightarrow> tcp_buffer outcome" where
  "append_buf data b =
     obind (make_space (length data) b) (\<lambda>(pos, b').
       case pos of None \<Rightarrow> Inr b' | Some off \<Rightarrow> write_through off data b')"

definition append_space :: "tcp_buffer \<Rightarrow> tcp_buffer outcome" where
  "append_space = append_buf '' ''"

definition append_newline :: "tcp_buffer \<Rightarrow> tcp_buffer outcome" where
  "append_newline = append_buf [LF]"

definition append_crlf :: "tcp_buffer \<Rightarrow> tcp_buffer outcome" where
  "append_crlf = append_buf [CR, LF]"

definition append_colon :: "tcp_buffer \<Rightarrow> tcp_buffer outcome" where
  "append_colon = append_buf '':''"

section \<open>Invariant and abstract content\<close>

definition buffer_ok :: "tcp_buffer \<Rightarrow> bool" where
  "buffer_ok b \<longleftrightarrow>
     begin_ptr b = Some (storage b) \<and> read_offset b \<le> write_offset b \<and>
     write_offset b = length (chars b) \<and> length (chars b) \<le> capacity b"

definition content :: "tcp_buffer \<Rightarrow> string" where
  "content b = drop (read_offset b) (take (write_offset b) (chars b))"

text \<open>The memory the begin pointer gives access to: the characters and the terminator.\<close>

definition c_str :: "tcp_buffer \<Rightarrow> string" where
  "c_str b = chars b @ [NUL]"

fun first_newline :: "string \<Rightarrow> nat option" where
  "first_newline [] = None"
| "first_newline (x # xs) = (if x = LF then Some 0 else map_option Suc (first_newline xs))"

fun first_crlf :: "string \<Rightarrow> nat option" where
  "first_crlf (x # y # zs) =
     (if x = CR \<and> y = LF then Some 0 else map_option Suc (first_crlf (y # zs)))"
| "first_crlf _ = None"

lemma buffer_ok_new [simp]: "buffer_ok new_tcp_buffer"
  by (simp add: buffer_ok_def new_tcp_buffer_def)

lemma content_new [simp]: "content new_tcp_buffer = []"
  by (simp add: content_def new_tcp_buffer_def)

lemma length_content: "buffer_ok b \<Longrightarrow> length (content b) = get_readable_size b"
  by (simp add: buffer_ok_def content_def get_readable_size_def)

lemma content_drop: "buffer_ok b \<Longrightarrow> content b = drop (read_offset b) (chars b)"
  by (simp add: buffer_ok_def content_def)

lemma buffer_ok_forward [simp]: "buffer_ok b \<Longrightarrow> buffer_ok (forward_read_position n b)"
  by (simp add: buffer_ok_def forward_read_position_def)

lemma content_forward [buffer_simps]:
  "buffer_ok b \<Longrightarrow> content (forward_read_position n b) = drop n (content b)"
  by (simp add: buffer_ok_def content_def forward_read_position_def min_def add.commute)

lemma buffer_ok_reset: "length (chars b) \<le> capacity b \<Longrightarrow> begin_ptr b \<noteq> None \<Longrightarrow> buffer_ok (reset_buf b)"
  by (simp add: reset_buf_def buffer_ok_def string_reconstruct_def)

section \<open>The searches\<close>

lemma find_newline_shift:
  "i \<le> length cs \<Longrightarrow>
     find_newline cs i (length cs) = map_option (\<lambda>k. i + k) (first_newline (drop i cs))"
proof (induction cs i "length cs" rule: find_newline.induct)
  case (1 cs i)
  show ?case
  proof (cases "i < length cs")
    case True
    then have "drop i cs = cs ! i # drop (Suc i) cs" by (simp add: Cons_nth_drop_Suc)
    with True 1 show ?thesis
      by (cases "first_newline (drop (Suc i) cs)") (auto simp: find_newline.simps [of cs i])
  next
    case False
    with 1 show ?thesis by (subst find_newline.simps) simp
  qed
qed

lemma first_crlf_short: "length xs \<le> 1 \<Longrightarrow> first_crlf xs = None"
  by (cases xs rule: first_crlf.cases) auto

lemma find_crlf_shift:
  "n + 1 = length cs \<Longrightarrow>
     find_crlf cs i n = map_option (\<lambda>k. i + k) (first_crlf (drop i cs))"
proof (induction cs i n rule: find_crlf.induct)
  case (1 cs i n)
  show ?case
  proof (cases "i < n")
    case True
    with 1 have "drop i cs = cs ! i # cs ! Suc i # drop (Suc (Suc i)) cs"
      by (simp add: Cons_nth_drop_Suc)
    moreover from True 1 have "drop (Suc i) cs = cs ! Suc i # drop (Suc (Suc i)) cs"
      by (simp add: Cons_nth_drop_Suc)
    ultimately show ?thesis
      using True 1
      by (cases "first_crlf (drop (Suc i) cs)") (auto simp: find_crlf.simps [of cs i])
  next
    case False
    with 1 show ?thesis
      by (simp add: find_crlf.simps [of cs i] first_crlf_short)
  qed
qed

lemma newline_position [buffer_simps]:
  "buffer_ok b \<Longrightarrow> get_next_newline_position b =
     Inr (map_option (\<lambda>k. read_offset b + k) (first_newline (content b)))"
  by (auto simp: get_next_newline_position_def content_drop buffer_ok_def find_newline_shift
      readable_through_def)

lemma crlf_position [buffer_simps]:
  assumes "buffer_ok b"
  shows "get_next_crlf_position b =
     Inr (map_option (\<lambda>k. read_offset b + k) (first_crlf (content b)))"
proof (cases "read_offset b < write_offset b")
  case True
  then have "size_sub (write_offset b) 1 + 1 = length (chars b)"
    using assms by (simp add: buffer_ok_def)
  with True assms show ?thesis
    by (simp add: get_next_crlf_position_def content_drop find_crlf_shift readable_through_def)
      (simp add: buffer_ok_def)
next
  case False
  with assms show ?thesis
    by (simp add: get_next_crlf_position_def content_drop buffer_ok_def)
qed

section \<open>Appending\<close>

lemma string_resize_simps [simp]:
  "read_offset (string_resize n b) = read_offset b"
  "write_offset (string_resize n b) = write_offset b"
  "begin_ptr (string_resize n b) = begin_ptr b"
  "chars (string_resize n b) = take n (chars b) @ replicate (n - length (chars b)) NUL"
  by (simp_all add: string_resize_def Let_def)

lemma string_resize_storage: "n \<le> capacity b \<Longrightarrow> storage (string_resize n b) = storage b"
  by (simp add: string_resize_def Let_def)

lemma string_resize_capacity: "n \<le> capacity (string_resize n b)"
  by (simp add: string_resize_def Let_def)

text \<open>
  What \<open>make_space\<close> leaves behind: the offset to write at, with the old content just before it.
\<close>

definition spaced :: "tcp_buffer \<Rightarrow> nat \<Rightarrow> tcp_buffer \<Rightarrow> bool" where
  "spaced b sz b' \<longleftrightarrow>
     begin_ptr b' = Some (storage b') \<and> length (chars b') \<le> capacity b' \<and>
     write_offset b' = length (chars b') \<and> sz \<le> write_offset b' \<and>
     read_offset b' \<le> write_offset b' - sz \<and>
     drop (read_offset b') (take (write_offset b' - sz) (chars b')) = content b"

lemma make_space_spaced:
  assumes ok: "buffer_ok b" and pos: "0 < sz"
  shows "\<exists>b'. make_space sz b = Inr (Some (write_offset b' - sz), b') \<and> spaced b sz b'"
proof -
  let ?w = "write_offset b" and ?r = "read_offset b"
  have facts: "begin_ptr b = Some (storage b)" "?r \<le> ?w" "?w = length (chars b)" "?w \<le> capacity b"
    using ok by (auto simp: buffer_ok_def)
  consider (direct) "sz \<le> capacity b - ?w"
    | (compact) "\<not> sz \<le> capacity b - ?w" "sz \<le> capacity b - ?w + ?r"
    | (grow) "\<not> sz \<le> capacity b - ?w + ?r" by linarith
  then show ?thesis
  proof cases
    case direct
    let ?b = "string_resize (?w + sz) b"
    have "storage ?b = storage b" "?w + sz \<le> capacity ?b"
      using direct facts by (auto intro: string_resize_storage string_resize_capacity)
    then show ?thesis
      using direct facts pos
      by (intro exI [of _ "?b\<lparr>write_offset := ?w + sz\<rparr>"])
        (simp add: make_space_def spaced_def content_def Let_def)
  next
    case compact
    let ?m = "b\<lparr>chars := mem_write (chars b) 0 (take (?w - ?r) (drop ?r (chars b))),
                write_offset := ?w - ?r, read_offset := 0\<rparr>"
    let ?b = "string_resize (?w - ?r + sz) ?m"
    have fit: "?w - ?r + sz \<le> capacity ?m"
      using compact facts by simp
    then have "storage ?b = storage b" "?w - ?r + sz \<le> capacity ?b"
      by (auto simp: string_resize_storage string_resize_capacity)
    then show ?thesis
      using compact facts pos
      by (intro exI [of _ "?b\<lparr>write_offset := ?w - ?r + sz\<rparr>"])
        (simp add: make_space_def spaced_def content_def Let_def write_through_def mem_write_def
          min_def, arith)
  next
    case grow
    let ?b = "string_resize (?w + sz) b"
    have "?w + sz \<le> capacity ?b"
      by (rule string_resize_capacity)
    then show ?thesis
      using grow facts pos
      by (intro exI [of _ "?b\<lparr>begin_ptr := Some (storage ?b), write_offset := ?w + sz\<rparr>"])
        (simp add: make_space_def spaced_def content_def Let_def)
  qed
qed

lemma append_buf_spec:
  assumes "buffer_ok b"
  shows "\<exists>b'. append_buf data b = Inr b' \<and> buffer_ok b' \<and> content b' = content b @ data"
proof (cases "data = []")
  case True
  with assms show ?thesis by (simp add: append_buf_def make_space_def)
next
  case False
  then obtain b1 where b1: "make_space (length data) b = Inr (Some (write_offset b1 - length data), b1)"
    and sp: "spaced b (length data) b1"
    using make_space_spaced [OF assms, of "length data"] by auto
  let ?b = "b1\<lparr>chars := mem_write (chars b1) (write_offset b1 - length data) data\<rparr>"
  have eq: "mem_write (chars b1) (length (chars b1) - length data) data =
      take (length (chars b1) - length data) (chars b1) @ data"
    using sp by (intro mem_write_at_end) (simp add: spaced_def)
  have "append_buf data b = Inr ?b"
    using b1 sp by (simp add: append_buf_def write_through_def spaced_def)
  moreover have "buffer_ok ?b" "content ?b = content b @ data"
    using sp by (auto simp: buffer_ok_def content_def eq spaced_def)
  ultimately show ?thesis by blast
qed

lemma appendE:
  assumes "buffer_ok b"
  obtains b' where "append_buf data b = Inr b'" "buffer_ok b'" "content b' = content b @ data"
  using append_buf_spec [OF assms] by blast

section \<open>The byte queue interface\<close>

text \<open>
  What the clients of the buffer (the HTTP parser, the HTTP response, the connection) rely on.
\<close>

locale byte_queue =
  fixes ok :: "'b \<Rightarrow> bool"
    and bytes :: "'b \<Rightarrow> string"
    and push :: "string \<Rightarrow> 'b \<Rightarrow> 'b outcome"
    and consume :: "nat \<Rightarrow> 'b \<Rightarrow> 'b"
    and readable :: "'b \<Rightarrow> nat"
  assumes push_ok: "ok b \<Longrightarrow> \<exists>b'. push data b = Inr b' \<and> ok b' \<and> bytes b' = bytes b @ data"
    and consume_ok: "ok b \<Longrightarrow> ok (consume n b)"
    and consume_bytes: "ok b \<Longrightarrow> bytes (consume n b) = drop n (bytes b)"
    and readable_length: "ok b \<Longrightarrow> readable b = length (bytes b)"
begin

fun push_all :: "string list \<Rightarrow> 'b \<Rightarrow> 'b outcome" where
  "push_all [] b = Inr b"
| "push_all (d # ds) b = obind (push d b) (push_all ds)"

lemma push_all_ok:
  "ok b \<Longrightarrow> \<exists>b'. push_all ds b = Inr b' \<and> ok b' \<and> bytes b' = bytes b @ concat ds"
proof (induction ds arbitrary: b)
  case (Cons d ds)
  then obtain b1 where "push d b = Inr b1" "ok b1" "bytes b1 = bytes b @ d"
    using push_ok by blast
  with Cons.IH [of b1] show ?case by auto
qed simp

lemma push_consume:
  "ok b \<Longrightarrow> push data b = Inr b' \<Longrightarrow> bytes (consume (readable b) b') = data"
  using push_ok [of b data] by (auto simp: consume_bytes readable_length)

lemma consume_consume:
  "ok b \<Longrightarrow> bytes (consume m (consume n b)) = bytes (consume (n + m) b)"
  by (simp add: consume_bytes consume_ok add.commute)

lemma fifo:
  "ok b \<Longrightarrow> n \<le> readable b \<Longrightarrow> push data b = Inr b' \<Longrightarrow>
     bytes (consume n b') = bytes (consume n b) @ data"
  using push_ok [of b data] by (auto simp: consume_bytes readable_length)

end

interpretation tb: byte_queue buffer_ok content append_buf forward_read_position get_readable_size
  by unfold_locales (auto simp: append_buf_spec content_forward length_content)


section \<open>Runs of buffer operations\<close>

datatype buffer_op = Append string | Forward nat

fun buffer_run :: "buffer_op list \<Rightarrow> tcp_buffer \<Rightarrow> tcp_buffer outcome" where
  "buffer_run [] b = Inr b"
| "buffer_run (Append d # ops) b = obind (append_buf d b) (buffer_run ops)"
| "buffer_run (Forward n # ops) b = buffer_run ops (forward_read_position n b)"

fun queue_run :: "buffer_op list \<Rightarrow> string \<Rightarrow> string" where
  "queue_run [] q = q"
| "queue_run (Append d # ops) q = queue_run ops (q @ d)"
| "queue_run (Forward n # ops) q = queue_run ops (drop n q)"

lemma buffer_run_refines:
  "buffer_ok b \<Longrightarrow>
     \<exists>b'. buffer_run ops b = Inr b' \<and> buffer_ok b' \<and> content b' = queue_run ops (content b)"
proof (induction ops arbitrary: b)
  case (Cons op ops)
  show ?case
  proof (cases op)
    case (Append d)
    obtain b1 where "append_buf d b = Inr b1" "buffer_ok b1" "content b1 = content b @ d"
      using appendE [OF Cons.prems] .
    with Append Cons.IH [of b1] show ?thesis by simp
  next
    case (Forward n)
    with Cons.IH [of "forward_read_position n b"] Cons.prems show ?thesis
      by (simp add: content_forward)
  qed
qed simp


text \<open>The first CRLF of a text is where its head ends: nothing before it contains one.\<close>

lemma first_crlf_Some:
  "first_crlf xs = Some k \<Longrightarrow>
     k < length xs \<and> (\<exists>ys. xs = take k xs @ CR # LF # ys \<and> first_crlf (take k xs) = None)"
proof (induction xs arbitrary: k rule: first_crlf.induct)
  case (1 x y zs)
  show ?case
  proof (cases "x = CR \<and> y = LF")
    case True
    with 1 show ?thesis by auto
  next
    case False
    with 1 obtain j where j: "first_crlf (y # zs) = Some j" "k = Suc j" by auto
    with 1 False obtain ys where "j < length (y # zs)" "y # zs = take j (y # zs) @ CR # LF # ys"
      "first_crlf (take j (y # zs)) = None" by blast
    with j False show ?thesis by (cases j) auto
  qed
qed auto

lemma first_crlf_None_append:
  "first_crlf xs = None \<Longrightarrow> last xs \<noteq> CR \<or> xs = [] \<Longrightarrow>
     first_crlf (xs @ CR # LF # ys) = Some (length xs)"
proof (induction xs rule: first_crlf.induct)
  case (1 x y zs)
  then show ?case by (auto split: if_splits)
qed auto

text \<open>The CRLF search of a well-formed buffer returns the offset of the first CRLF of its unread
  content, and reports none exactly when there is none.\<close>

theorem crlf_search_correct:
  assumes "buffer_ok b"
  shows "case get_next_crlf_position b of
           Inl e \<Rightarrow> False
         | Inr None \<Rightarrow> first_crlf (content b) = None
         | Inr (Some p) \<Rightarrow> (\<exists>pre post. content b = pre @ CR # LF # post \<and> first_crlf pre = None \<and>
                        p = get_read_position b + length pre)"
proof (cases "first_crlf (content b)")
  case None
  then show ?thesis by (simp add: crlf_position [OF assms])
next
  case (Some k)
  then obtain ys where ys: "content b = take k (content b) @ CR # LF # ys"
    "first_crlf (take k (content b)) = None"
    using first_crlf_Some by blast
  moreover have "length (take k (content b)) = k"
    using Some first_crlf_Some by fastforce
  ultimately show ?thesis
    using Some by (auto simp: crlf_position [OF assms] get_read_position_def)
qed

theorem crlf_search_correct_witness:
  "case get_next_crlf_position new_tcp_buffer of
     Inl e \<Rightarrow> False
   | Inr None \<Rightarrow> first_crlf (content new_tcp_buffer) = None
   | Inr (Some p) \<Rightarrow> (\<exists>pre post. content new_tcp_buffer = pre @ CR # LF # post \<and>
                  first_crlf pre = None \<and> p = get_read_position new_tcp_buffer + length pre)"
  by (rule crlf_search_correct [OF buffer_ok_new])

end
