(* ===== verification/Http_Parser.thy ===== *)
theory Http_Parser
  imports Http_Request Tcp_Buffer
begin

text \<open>
  \<^verbatim>\<open>HttpParser\<close> (example/http/server/include/http_parser.h, src/http_parser.cc): the resumable
  request parser over the input buffer. One call consumes as many complete lines as the buffer
  holds and, for a POST with a content length, the body.
\<close>

section \<open>Data\<close>

datatype parsing_state = EXPECT_REQUEST_LINE | EXPECT_HEADERS | EXPECT_BODY | SUCCESS | FAIL

record http_parser =
  parsing_state :: parsing_state
  body_length :: nat
  request :: http_request

definition new_http_parser :: http_parser where
  "new_http_parser =
     \<lparr>parsing_state = EXPECT_REQUEST_LINE, body_length = 0, request = new_http_request\<rparr>"

definition reset_parser :: "http_parser \<Rightarrow> http_parser" where
  "reset_parser hp =
     hp\<lparr>parsing_state := EXPECT_REQUEST_LINE, body_length := 0,
        request := reset_request (request hp)\<rparr>"

definition is_success :: "http_parser \<Rightarrow> bool" where
  "is_success hp \<longleftrightarrow> parsing_state hp = SUCCESS"

definition get_request :: "http_parser \<Rightarrow> http_request outcome" where
  "get_request hp =
     (if \<not> is_success hp then Inl (Uncaught ''std::logic_error'') else Inr (request hp))"

section \<open>The C library's strtol\<close>

definition is_digit :: "char \<Rightarrow> bool" where
  "is_digit c \<longleftrightarrow> 48 \<le> (of_char c :: nat) \<and> (of_char c :: nat) \<le> 57"

text \<open>\<open>None\<close> when there are no digits (the end pointer equals the begin pointer); the value saturates
  at the ends of the range of \<^verbatim>\<open>long\<close>.\<close>

definition strtol :: "string \<Rightarrow> int option" where
  "strtol s =
     (let t = dropWhile is_space s;
          neg = (t \<noteq> [] \<and> hd t = CHR ''-'');
          u = (if t \<noteq> [] \<and> (hd t = CHR ''-'' \<or> hd t = CHR ''+'') then tl t else t);
          ds = takeWhile is_digit u;
          n = int (decimal_value 0 ds)
      in if ds = [] then None
         else Some (if neg then max (- n) (- (2 ^ 63)) else min n (2 ^ 63 - 1)))"

text \<open>\<^verbatim>\<open>static_cast<size_t>\<close> of a \<^verbatim>\<open>long\<close>.\<close>

definition to_size_t :: "int \<Rightarrow> nat" where
  "to_size_t x = nat (x mod 2 ^ 64)"

section \<open>Parsing\<close>

datatype flow = Return bool | Continue

definition request_line_stage ::
  "http_parser \<Rightarrow> tcp_buffer \<Rightarrow> (flow \<times> http_parser \<times> tcp_buffer) outcome" where
  "request_line_stage hp b =
     (if parsing_state hp \<noteq> EXPECT_REQUEST_LINE then Inr (Continue, hp, b)
      else obind (get_next_crlf_position b) (\<lambda>pos.
        case pos of
          None \<Rightarrow> Inr (Return True, hp, b)
        | Some request_line_end \<Rightarrow>
            let request_line_start = get_read_position b in
            obind (parse_request_line (c_str b) request_line_start request_line_end (request hp))
              (\<lambda>(ok, req).
                if \<not> ok then Inr (Return False, hp\<lparr>request := req, parsing_state := FAIL\<rparr>, b)
                else Inr (Continue, hp\<lparr>request := req, parsing_state := EXPECT_HEADERS\<rparr>,
                  forward_read_position
                    (size_sub (request_line_end + 2) request_line_start) b))))"

text \<open>The empty line that ends the headers.\<close>

definition headers_finished :: "int \<Rightarrow> http_parser \<Rightarrow> flow \<times> http_parser" where
  "headers_finished time_stamp hp =
     (let headers = req_headers (request hp);
          req = (request hp)\<lparr>need_close := (headers ''Connection'' = Some ''close'')\<rparr>
      in case (if req_method req = POST then headers ''Content-Length'' else None) of
           None \<Rightarrow>
             (Return True, hp\<lparr>request := req\<lparr>receive_time_point := time_stamp\<rparr>,
                              parsing_state := SUCCESS\<rparr>)
         | Some value \<Rightarrow>
             (case strtol value of
                None \<Rightarrow> (Return False, hp\<lparr>request := req, body_length := 0, parsing_state := FAIL\<rparr>)
              | Some n \<Rightarrow>
                  if to_size_t n = 0 then
                    (Return True, hp\<lparr>request := req\<lparr>receive_time_point := time_stamp\<rparr>,
                                     body_length := 0, parsing_state := SUCCESS\<rparr>)
                  else
                    (Continue, hp\<lparr>request := req, body_length := to_size_t n,
                                  parsing_state := EXPECT_BODY\<rparr>)))"

lemma find_crlf_ge: "find_crlf cs i n = Some p \<Longrightarrow> i \<le> p"
proof (induction cs i n rule: find_crlf.induct)
  case (1 cs i n)
  then show ?case
    by (simp add: find_crlf.simps [of cs i] split: if_splits)
qed

lemma crlf_position_Some_less:
  "get_next_crlf_position b = Inr (Some p) \<Longrightarrow> read_offset b < write_offset b \<and> read_offset b \<le> p"
  by (auto simp: get_next_crlf_position_def dest: find_crlf_ge split: if_splits)

function parse_headers ::
  "int \<Rightarrow> http_parser \<Rightarrow> tcp_buffer \<Rightarrow> (flow \<times> http_parser \<times> tcp_buffer) outcome" where
  "parse_headers time_stamp hp b =
     obind (get_next_crlf_position b) (\<lambda>pos.
       case pos of
         None \<Rightarrow> Inr (Return True, hp, b)
       | Some header_line_end \<Rightarrow>
           let header_line_start = get_read_position b in
           if header_line_start = header_line_end then
             (case headers_finished time_stamp hp of
                (flow, hp') \<Rightarrow> Inr (flow, hp', forward_read_position 2 b))
           else
             obind (parse_header_line (c_str b) header_line_start header_line_end (request hp))
               (\<lambda>(ok, req).
                 if \<not> ok then Inr (Return False, hp\<lparr>request := req, parsing_state := FAIL\<rparr>, b)
                 else parse_headers time_stamp (hp\<lparr>request := req\<rparr>)
                   (forward_read_position
                     (size_sub (header_line_end + 2) header_line_start) b)))"
  by pat_completeness auto
termination
  by (relation "measure (\<lambda>(t, hp, b). write_offset b - read_offset b)")
    (auto simp: forward_read_position_def get_read_position_def dest!: crlf_position_Some_less)

declare parse_headers.simps [simp del]

definition headers_stage ::
  "int \<Rightarrow> http_parser \<Rightarrow> tcp_buffer \<Rightarrow> (flow \<times> http_parser \<times> tcp_buffer) outcome" where
  "headers_stage time_stamp hp b =
     (if parsing_state hp \<noteq> EXPECT_HEADERS then Inr (Continue, hp, b)
      else parse_headers time_stamp hp b)"

definition body_stage ::
  "int \<Rightarrow> http_parser \<Rightarrow> tcp_buffer \<Rightarrow> (bool \<times> http_parser \<times> tcp_buffer) outcome" where
  "body_stage time_stamp hp b =
     (if parsing_state hp \<noteq> EXPECT_BODY then Inl (Fatal ''unknown http parsing state'')
      else if get_readable_size b < body_length hp then Inr (True, hp, b)
      else let body_start = get_read_position b; body_end = body_start + body_length hp in
        obind (set_body (c_str b) body_start body_end (request hp)) (\<lambda>req.
          Inr (True,
               hp\<lparr>request := req\<lparr>receive_time_point := time_stamp\<rparr>, parsing_state := SUCCESS\<rparr>,
               forward_read_position (body_length hp) b)))"

definition parse ::
  "int \<Rightarrow> http_parser \<Rightarrow> tcp_buffer \<Rightarrow> (bool \<times> http_parser \<times> tcp_buffer) outcome" where
  "parse time_stamp hp b =
     (if parsing_state hp = FAIL then Inr (False, hp, b)
      else obind (request_line_stage hp b) (\<lambda>(flow1, hp1, b1).
        case flow1 of Return ok \<Rightarrow> Inr (ok, hp1, b1)
        | Continue \<Rightarrow>
            obind (headers_stage time_stamp hp1 b1) (\<lambda>(flow2, hp2, b2).
              case flow2 of Return ok \<Rightarrow> Inr (ok, hp2, b2)
              | Continue \<Rightarrow> body_stage time_stamp hp2 b2)))"

text \<open>
  A chunk arrives, is appended to the input buffer and parsed at once, as the connection's
  message callback does.
\<close>

fun feed ::
  "(string \<times> int) list \<Rightarrow> http_parser \<Rightarrow> tcp_buffer \<Rightarrow> (bool \<times> http_parser \<times> tcp_buffer) outcome" where
  "feed [] hp b = Inr (True, hp, b)"
| "feed ((chunk, time_stamp) # chunks) hp b =
     obind (append_buf chunk b) (\<lambda>b1.
     obind (parse time_stamp hp b1) (\<lambda>(ok, hp', b').
       if ok then feed chunks hp' b' else Inr (False, hp', b')))"

section \<open>Lines in the buffer\<close>

definition clean_line :: "string \<Rightarrow> bool" where
  "clean_line l \<longleftrightarrow> first_crlf l = None \<and> (l = [] \<or> last l \<noteq> CR)"

lemma first_crlf_clean [simp]:
  "clean_line l \<Longrightarrow> first_crlf (l @ CR # LF # ys) = Some (length l)"
  by (auto simp: clean_line_def intro: first_crlf_None_append)

lemma first_crlf_prefix:
  "first_crlf (xs @ ys) = Some k \<Longrightarrow>
     first_crlf xs = (if k + 2 \<le> length xs then Some k else None)"
proof (induction xs arbitrary: k rule: first_crlf.induct)
  case (1 x y zs)
  then show ?case by (auto split: if_splits)
qed (cases ys; auto split: if_splits)+

lemma c_str_split:
  "buffer_ok b \<Longrightarrow> c_str b = take (read_offset b) (chars b) @ content b @ [NUL]"
  by (simp add: c_str_def content_drop)

lemma length_take_read: "buffer_ok b \<Longrightarrow> length (take (read_offset b) (chars b)) = read_offset b"
  by (simp add: buffer_ok_def)

text \<open>
  The buffer holds a prefix of \<open>l\<close>, CRLF, \<open>X\<close>: either the line is not complete yet, or the search
  finds its end and consuming it leaves a prefix of \<open>X\<close>.
\<close>

lemma line_cases:
  assumes ok: "buffer_ok b" and l: "clean_line l"
    and T: "content b @ rest = l @ CR # LF # X"
  obtains (incomplete) "get_next_crlf_position b = Inr None" "rest \<noteq> []"
  | (complete) Y where "get_next_crlf_position b = Inr (Some (read_offset b + length l))"
      "content b = l @ CR # LF # Y" "X = Y @ rest"
      "content (forward_read_position (length l + 2) b) = Y"
proof (cases "length l + 2 \<le> length (content b)")
  case True
  define Y where "Y = drop (length l + 2) (content b)"
  have "first_crlf (content b @ rest) = Some (length l)"
    unfolding T using l by simp
  then have "first_crlf (content b) = Some (length l)"
    using True first_crlf_prefix by fastforce
  moreover have "take (length l + 2) (content b) = take (length l + 2) (content b @ rest)"
    using True by simp
  then have "take (length l + 2) (content b) = l @ [CR, LF]" unfolding T by simp
  then have c: "content b = l @ CR # LF # Y"
    using append_take_drop_id [of "length l + 2" "content b"] by (simp add: Y_def)
  moreover have "X = Y @ rest" using T c by simp
  ultimately show ?thesis
    using ok by (intro complete) (auto simp: crlf_position content_forward)
next
  case False
  have "first_crlf (content b @ rest) = Some (length l)"
    unfolding T using l by simp
  then have "first_crlf (content b) = None"
    using False first_crlf_prefix by fastforce
  moreover have "rest \<noteq> []"
  proof
    assume "rest = []"
    then have "length (content b) = length (l @ CR # LF # X)" using T by simp
    with False show False by simp
  qed
  ultimately show ?thesis
    using ok by (intro incomplete) (auto simp: crlf_position)
qed

lemma c_str_line:
  assumes "buffer_ok b" "content b = l @ CR # LF # Y"
  shows "c_str b = take (read_offset b) (chars b) @ l @ (CR # LF # Y @ [NUL])"
  using c_str_split [OF assms(1)] assms(2) by simp

section \<open>What the parser still expects\<close>

definition announced_body :: "http_request \<Rightarrow> nat option" where
  "announced_body r =
     (case (if req_method r = POST then req_headers r ''Content-Length'' else None) of
        None \<Rightarrow> Some 0
      | Some v \<Rightarrow> map_option to_size_t (strtol v))"

definition closing :: "http_request \<Rightarrow> http_request" where
  "closing r = r\<lparr>need_close := (req_headers r ''Connection'' = Some ''close'')\<rparr>"

definition received :: "int \<Rightarrow> string \<Rightarrow> http_request \<Rightarrow> http_request" where
  "received t body r =
     (closing r)\<lparr>req_body := if body = [] then req_body r else body, receive_time_point := t\<rparr>"

text \<open>
  \<open>expects R body hp T\<close>: in the state \<open>hp\<close>, the text \<open>T\<close> is exactly what is missing for the
  request with request line and headers \<open>R\<close> and the given body.
\<close>

inductive expects :: "http_request \<Rightarrow> string \<Rightarrow> http_parser \<Rightarrow> string \<Rightarrow> bool" for R body where
  expects_request_line:
    "parsing_state hp = EXPECT_REQUEST_LINE \<Longrightarrow> clean_line l \<Longrightarrow>
     (\<And>pre post. parse_request_line (pre @ l @ post) (length pre) (length pre + length l) (request hp) =
        Inr (True, r)) \<Longrightarrow>
     expects R body (hp\<lparr>request := r, parsing_state := EXPECT_HEADERS\<rparr>) T \<Longrightarrow>
     expects R body hp (l @ CR # LF # T)"
| expects_header:
    "parsing_state hp = EXPECT_HEADERS \<Longrightarrow> clean_line h \<Longrightarrow> header_of_line h = Some (k, v) \<Longrightarrow>
     expects R body
       (hp\<lparr>request := (request hp)\<lparr>req_headers := (req_headers (request hp))(k \<mapsto> v)\<rparr>\<rparr>) T \<Longrightarrow>
     expects R body hp (h @ CR # LF # T)"
| expects_blank:
    "parsing_state hp = EXPECT_HEADERS \<Longrightarrow> request hp = R \<Longrightarrow>
     announced_body R = Some (length body) \<Longrightarrow> expects R body hp (CR # LF # body)"
| expects_body:
    "parsing_state hp = EXPECT_BODY \<Longrightarrow> request hp = closing R \<Longrightarrow> body \<noteq> [] \<Longrightarrow>
     body_length hp = length body \<Longrightarrow> expects R body hp body"
| expects_nothing:
    "parsing_state hp = SUCCESS \<Longrightarrow> expects R body hp []"

lemma expects_SUCCESS: "expects R body hp T \<Longrightarrow> parsing_state hp = SUCCESS \<Longrightarrow> T = []"
  by (auto elim: expects.cases)

lemma expects_not_FAIL: "expects R body hp T \<Longrightarrow> parsing_state hp \<noteq> FAIL"
  by (auto elim: expects.cases)

lemma header_of_line_Nil [simp]: "header_of_line [] = None"
  by (simp add: header_of_line_def)

lemma parse_header_in_buffer:
  assumes "buffer_ok b" "content b = h @ CR # LF # Y" "header_of_line h = Some (k, v)"
  shows "parse_header_line (c_str b) (read_offset b) (read_offset b + length h) r =
         Inr (True, r\<lparr>req_headers := (req_headers r)(k \<mapsto> v)\<rparr>)"
proof -
  have "length (take (read_offset b) (chars b)) = read_offset b"
    using length_take_read [OF assms(1)] .
  then show ?thesis
    using parse_header_line_eq [of "take (read_offset b) (chars b)" h "CR # LF # Y @ [NUL]" r]
      assms(3) unfolding c_str_line [OF assms(1,2)] by simp
qed

lemma headers_finished_eq:
  assumes "request hp = R" "announced_body R = Some (length body)"
  shows "\<exists>n. headers_finished t hp =
    (if body = [] then
       (Return True, hp\<lparr>request := received t body R, body_length := n, parsing_state := SUCCESS\<rparr>)
     else (Continue, hp\<lparr>request := closing R, body_length := length body,
                        parsing_state := EXPECT_BODY\<rparr>))"
proof (cases "if req_method R = POST then req_headers R ''Content-Length'' else None")
  case None
  then have "body = []" using assms(2) by (simp add: announced_body_def)
  moreover have "headers_finished t hp =
      (Return True, hp\<lparr>request := received t [] R, body_length := body_length hp, parsing_state := SUCCESS\<rparr>)"
    using None assms(1) by (simp add: headers_finished_def received_def closing_def Let_def split: if_splits)
  ultimately show ?thesis by (intro exI [of _ "body_length hp"]) simp
next
  case (Some s)
  then obtain n where n: "strtol s = Some n" "to_size_t n = length body"
    using assms(2) by (auto simp: announced_body_def)
  show ?thesis
    using Some n assms(1)
    by (auto simp: headers_finished_def received_def closing_def Let_def split: if_splits)
qed

text \<open>How a call of one of the stages may end when the buffer holds a prefix of what is expected.\<close>

definition progress ::
  "http_request \<Rightarrow> string \<Rightarrow> string \<Rightarrow> int \<Rightarrow> http_parser \<Rightarrow> tcp_buffer \<Rightarrow> bool" where
  "progress R body rest t hp b \<longleftrightarrow>
     buffer_ok b \<and> expects R body hp (content b @ rest) \<and> (rest = [] \<longrightarrow> parsing_state hp = SUCCESS) \<and>
     (parsing_state hp = SUCCESS \<longrightarrow> request hp = received t body R)"

lemma body_stage_progress:
  assumes ok: "buffer_ok b" and st: "parsing_state hp = EXPECT_BODY"
    and ex: "expects R body hp (content b @ rest)"
  shows "\<exists>hp' b'. body_stage t hp b = Inr (True, hp', b') \<and> progress R body rest t hp' b'"
proof -
  from ex st have T: "content b @ rest = body" and r: "request hp = closing R" "body \<noteq> []"
      "body_length hp = length body"
    by (auto elim: expects.cases)
  show ?thesis
  proof (cases "rest = []")
    case True
    with T have c: "content b = body" by simp
    then have "get_readable_size b = length body" using length_content [OF ok] by simp
    moreover have "set_body (c_str b) (read_offset b) (read_offset b + length body) rq =
        Inr (rq\<lparr>req_body := body\<rparr>)" for rq
      using string_range_run [of "take (read_offset b) (chars b)" body "[NUL]"]
        length_take_read [OF ok]
      unfolding set_body_def c_str_split [OF ok] c by simp
    ultimately show ?thesis
      using ok st True r c
      by (auto simp: body_stage_def get_read_position_def progress_def received_def closing_def
          content_forward intro: expects_nothing)
  next
    case False
    with T have "length (content b) < length body"
      by (metis append_eq_conv_conj length_append length_greater_0_conv less_add_same_cancel1)
    then have "get_readable_size b < body_length hp" using length_content [OF ok] r by simp
    then show ?thesis
      using ok st ex False by (simp add: body_stage_def progress_def)
  qed
qed

lemma parse_headers_progress:
  assumes "expects R body hp T" "parsing_state hp = EXPECT_HEADERS" "buffer_ok b"
    "T = content b @ rest"
  shows "\<exists>flow hp' b'. parse_headers t hp b = Inr (flow, hp', b') \<and> buffer_ok b' \<and>
           expects R body hp' (content b' @ rest) \<and>
           (flow = Return True \<and> progress R body rest t hp' b' \<or>
            flow = Continue \<and> parsing_state hp' = EXPECT_BODY)"
  using assms
proof (induction arbitrary: b rule: expects.induct)
  case (expects_header hp h k v T)
  let ?hp = "hp\<lparr>request := (request hp)\<lparr>req_headers := (req_headers (request hp))(k \<mapsto> v)\<rparr>\<rparr>"
  show ?case
  proof (cases rule: line_cases [OF expects_header.prems(2) \<open>clean_line h\<close> expects_header.prems(3) [symmetric]])
    case 1
    then show ?thesis
      using expects.expects_header [OF expects_header.hyps] expects_header.prems
      by (simp add: parse_headers.simps [of _ hp] progress_def)
  next
    case (2 Y)
    let ?b = "forward_read_position (length h + 2) b"
    have "h \<noteq> []" using \<open>header_of_line h = Some (k, v)\<close> by auto
    then have "parse_headers t hp b = parse_headers t ?hp ?b"
      using 2(1) parse_header_in_buffer [OF expects_header.prems(2) 2(2) expects_header(3)]
      by (simp add: parse_headers.simps [of _ hp] get_read_position_def)
    then show ?thesis
      using expects_header.IH [of ?b] expects_header(1) expects_header.prems(2) 2 by simp
  qed
next
  case (expects_blank hp)
  from expects_blank.prems(3) [symmetric] have T: "content b @ rest = [] @ CR # LF # body" by simp
  show ?case
  proof (cases rule: line_cases [OF expects_blank.prems(2) _ T])
    case 1
    show ?case by (simp add: clean_line_def)
  next
    case 2
    then show ?thesis
      using expects.expects_blank [OF expects_blank.hyps] expects_blank.prems
      by (simp add: parse_headers.simps [of _ hp] progress_def)
  next
    case (3 Y)
    obtain n where n: "headers_finished t hp =
      (if body = [] then
         (Return True, hp\<lparr>request := received t body R, body_length := n, parsing_state := SUCCESS\<rparr>)
       else (Continue, hp\<lparr>request := closing R, body_length := length body,
                          parsing_state := EXPECT_BODY\<rparr>))"
      using headers_finished_eq [OF expects_blank(2,3)] by blast
    let ?b = "forward_read_position 2 b"
    have "content ?b = Y" using 3(4) by (simp only: list.size(3) add_0)
    then have b: "buffer_ok ?b" "content ?b @ rest = body" using 3(3) expects_blank.prems(2) by simp_all
    have eq: "parse_headers t hp b = (case headers_finished t hp of (flow, hp') \<Rightarrow> Inr (flow, hp', ?b))"
      using 3(1) by (simp add: parse_headers.simps [of _ hp] get_read_position_def)
    show ?thesis
    proof (cases "body = []")
      case True
      with b have "content ?b = []" "rest = []" by auto
      with True b(1) show ?thesis
        unfolding eq n by (simp add: progress_def expects.expects_nothing)
    next
      case False
      with b show ?thesis
        unfolding eq n by (simp add: expects.expects_body)
    qed
  qed
qed auto

lemma request_line_progress:
  assumes ex: "expects R body hp (content b @ rest)"
    and st: "parsing_state hp = EXPECT_REQUEST_LINE" and ok: "buffer_ok b"
  shows "\<exists>flow hp' b'. request_line_stage hp b = Inr (flow, hp', b') \<and> buffer_ok b' \<and>
           expects R body hp' (content b' @ rest) \<and>
           (flow = Return True \<and> progress R body rest t hp' b' \<or>
            flow = Continue \<and> parsing_state hp' = EXPECT_HEADERS)"
proof -
  from ex st obtain l r T where T: "content b @ rest = l @ CR # LF # T" and l: "clean_line l"
    and line: "\<And>pre post. parse_request_line (pre @ l @ post) (length pre) (length pre + length l) (request hp) =
        Inr (True, r)"
    and T': "expects R body (hp\<lparr>request := r, parsing_state := EXPECT_HEADERS\<rparr>) T"
    by (auto elim: expects.cases)
  show ?thesis
  proof (cases rule: line_cases [OF ok l T])
    case 1
    then show ?thesis using ex st ok by (simp add: request_line_stage_def progress_def)
  next
    case (2 Y)
    have "parse_request_line (c_str b) (read_offset b) (read_offset b + length l) (request hp) = Inr (True, r)"
      using line [of "take (read_offset b) (chars b)" "CR # LF # Y @ [NUL]"] length_take_read [OF ok]
      unfolding c_str_line [OF ok 2(2)] by simp
    then have "request_line_stage hp b =
        Inr (Continue, hp\<lparr>request := r, parsing_state := EXPECT_HEADERS\<rparr>,
             forward_read_position (length l + 2) b)"
      using 2(1) st by (simp add: request_line_stage_def get_read_position_def)
    then show ?thesis using T' 2(3,4) ok by simp
  qed
qed

lemma parse_progress:
  assumes ex: "expects R body hp (content b @ rest)" and ok: "buffer_ok b"
    and st: "parsing_state hp \<in> {EXPECT_REQUEST_LINE, EXPECT_HEADERS, EXPECT_BODY}"
  shows "\<exists>hp' b'. parse t hp b = Inr (True, hp', b') \<and> progress R body rest t hp' b'"
proof -
  have body: "\<exists>hp' b'. parse t hp0 b0 = Inr (True, hp', b') \<and> progress R body rest t hp' b'"
    if "parse t hp0 b0 = body_stage t hp1 b1" "buffer_ok b1" "parsing_state hp1 = EXPECT_BODY"
      "expects R body hp1 (content b1 @ rest)" for hp0 b0 hp1 b1
    using body_stage_progress [OF that(2-4), of t] that(1) by simp
  have headers: "\<exists>hp' b'. parse t hp0 b0 = Inr (True, hp', b') \<and> progress R body rest t hp' b'"
    if p: "request_line_stage hp0 b0 = Inr (Continue, hp1, b1)" "parsing_state hp0 \<noteq> FAIL"
      and that: "buffer_ok b1" "parsing_state hp1 = EXPECT_HEADERS" "expects R body hp1 (content b1 @ rest)"
    for hp0 b0 hp1 b1
    using parse_headers_progress [OF that(3,2,1) refl, of t]
  proof (elim exE conjE disjE)
    fix flow hp' b'
    assume "parse_headers t hp1 b1 = Inr (flow, hp', b')" "flow = Return True" "progress R body rest t hp' b'"
    then show ?thesis using p that by (simp add: parse_def headers_stage_def)
  next
    fix flow hp' b'
    assume "parse_headers t hp1 b1 = Inr (flow, hp', b')" "flow = Continue" "buffer_ok b'"
      "expects R body hp' (content b' @ rest)" "parsing_state hp' = EXPECT_BODY"
    then show ?thesis using p that by (intro body) (auto simp: parse_def headers_stage_def)
  qed
  consider "parsing_state hp = EXPECT_REQUEST_LINE" | "parsing_state hp = EXPECT_HEADERS"
    | "parsing_state hp = EXPECT_BODY" using st by blast
  then show ?thesis
  proof cases
    case 1
    show ?thesis
      using request_line_progress [OF ex 1 ok, of t]
    proof (elim exE conjE disjE)
      fix flow hp' b'
      assume "request_line_stage hp b = Inr (flow, hp', b')" "flow = Return True" "progress R body rest t hp' b'"
      then show ?thesis using 1 by (simp add: parse_def)
    next
      fix flow hp' b'
      assume "request_line_stage hp b = Inr (flow, hp', b')" "flow = Continue" "buffer_ok b'"
        "expects R body hp' (content b' @ rest)" "parsing_state hp' = EXPECT_HEADERS"
      then show ?thesis using 1 by (intro headers) auto
    qed
  next
    case 2
    then show ?thesis using ex ok by (intro headers) (auto simp: request_line_stage_def)
  next
    case 3
    then show ?thesis
      using ex ok by (intro body) (auto simp: parse_def request_line_stage_def headers_stage_def)
  qed
qed

lemma feed_progress:
  "expects R body hp (content b @ concat (map fst chunks)) \<Longrightarrow> buffer_ok b \<Longrightarrow>
   chunks \<noteq> [] \<Longrightarrow> fst (last chunks) \<noteq> [] \<Longrightarrow> parsing_state hp \<noteq> FAIL \<Longrightarrow>
     \<exists>hp' b'. feed chunks hp b = Inr (True, hp', b') \<and> buffer_ok b' \<and> content b' = [] \<and>
        parsing_state hp' = SUCCESS \<and> request hp' = received (snd (last chunks)) body R"
proof (induction chunks arbitrary: hp b)
  case (Cons ct chunks)
  obtain c t where ct: "ct = (c, t)" by fastforce
  obtain b1 where b1: "append_buf c b = Inr b1" "buffer_ok b1" "content b1 = content b @ c"
    using appendE [OF Cons.prems(2)] .
  have "last (ct # chunks) \<in> set (ct # chunks)" by simp
  then have "concat (map fst (ct # chunks)) \<noteq> []"
    using Cons.prems(4) by (auto simp: concat_eq_Nil_conv)
  then have "parsing_state hp \<noteq> SUCCESS"
    using expects_SUCCESS [OF Cons.prems(1)] by blast
  then have st: "parsing_state hp \<in> {EXPECT_REQUEST_LINE, EXPECT_HEADERS, EXPECT_BODY}"
    using Cons.prems(5) by (cases "parsing_state hp") auto
  have "expects R body hp (content b1 @ concat (map fst chunks))"
    using Cons.prems(1) b1(3) ct by simp
  from parse_progress [OF this b1(2) st, of t]
  obtain hp' b' where p: "parse t hp b1 = Inr (True, hp', b')"
      "progress R body (concat (map fst chunks)) t hp' b'" by blast
  then have pr: "buffer_ok b'" "expects R body hp' (content b' @ concat (map fst chunks))"
    by (auto simp: progress_def)
  show ?case
  proof (cases "chunks = []")
    case True
    with p have s: "parsing_state hp' = SUCCESS" "request hp' = received t body R"
      by (auto simp: progress_def)
    with pr True have "content b' = []" using expects_SUCCESS by fastforce
    then show ?thesis using True b1 p s pr ct by simp
  next
    case False
    moreover have "parsing_state hp' \<noteq> FAIL" using pr(2) by (rule expects_not_FAIL)
    ultimately show ?thesis
      using Cons.IH [OF pr(2,1) False] Cons.prems(4) b1 p(1) ct by simp
  qed
qed simp

section \<open>Whole requests\<close>

definition header_step :: "string \<Rightarrow> http_request \<Rightarrow> http_request" where
  "header_step h r =
     (case header_of_line h of None \<Rightarrow> r
      | Some (k, v) \<Rightarrow> r\<lparr>req_headers := (req_headers r)(k \<mapsto> v)\<rparr>)"

definition request_text :: "string \<Rightarrow> string list \<Rightarrow> string \<Rightarrow> string" where
  "request_text l hs body =
     l @ CR # LF # concat (map (\<lambda>h. h @ [CR, LF]) hs) @ CR # LF # body"

definition header_lines_ok :: "string list \<Rightarrow> bool" where
  "header_lines_ok hs \<longleftrightarrow> (\<forall>h \<in> set hs. clean_line h \<and> header_of_line h \<noteq> None)"

lemma expects_headers:
  "header_lines_ok hs \<Longrightarrow> parsing_state hp = EXPECT_HEADERS \<Longrightarrow>
   fold header_step hs (request hp) = R \<Longrightarrow> announced_body R = Some (length body) \<Longrightarrow>
     expects R body hp (concat (map (\<lambda>h. h @ [CR, LF]) hs) @ CR # LF # body)"
proof (induction hs arbitrary: hp)
  case Nil
  then show ?case by (simp add: expects_blank)
next
  case (Cons h hs)
  then obtain k v where kv: "header_of_line h = Some (k, v)" "clean_line h"
    by (auto simp: header_lines_ok_def)
  let ?hp = "hp\<lparr>request := (request hp)\<lparr>req_headers := (req_headers (request hp))(k \<mapsto> v)\<rparr>\<rparr>"
  have "expects R body ?hp (concat (map (\<lambda>h. h @ [CR, LF]) hs) @ CR # LF # body)"
    using Cons kv by (intro Cons.IH) (auto simp: header_lines_ok_def header_step_def)
  from expects_header [OF Cons.prems(2) kv(2,1) this] show ?case by simp
qed

lemma expects_request:
  assumes m: "get_method_type_as_string m = Some ms"
    and v: "get_version_type_as_string_req v = Some vs"
    and p: "p \<noteq> []" "SP \<notin> set p" and l: "clean_line (request_line i ms j p k vs n)"
    and hs: "header_lines_ok hs" and st: "parsing_state hp = EXPECT_REQUEST_LINE"
    and R: "R = fold header_step hs ((request hp)\<lparr>req_method := m, req_path := p, req_version := v\<rparr>)"
    and body: "announced_body R = Some (length body)"
  shows "expects R body hp (request_text (request_line i ms j p k vs n) hs body)"
  unfolding request_text_def
  by (rule expects_request_line [OF st l parse_request_line_print [OF m v p]])
    (use hs R body in \<open>auto intro!: expects_headers\<close>)



section \<open>Arbitrary input\<close>

lemma parse_header_line_total:
  assumes ok: "buffer_ok b" and pos: "get_next_crlf_position b = Inr (Some e)"
  shows "\<exists>res r'. parse_header_line (c_str b) (read_offset b) e r = Inr (res, r')"
proof -
  from ok pos obtain k where k: "first_crlf (content b) = Some k" "e = read_offset b + k"
    by (auto simp: crlf_position)
  then obtain ys where ys: "content b = take k (content b) @ CR # LF # ys" "k < length (content b)"
    using first_crlf_Some by blast
  let ?l = "take k (content b)" and ?pre = "take (read_offset b) (chars b)"
  have "c_str b = ?pre @ ?l @ (CR # LF # ys @ [NUL])"
    using c_str_line [OF ok ys(1)] by simp
  moreover have "length ?pre = read_offset b" "length ?l = k"
    using length_take_read [OF ok] ys(2) by simp_all
  ultimately have "parse_header_line (c_str b) (read_offset b) e r =
     (case header_of_line ?l of None \<Rightarrow> Inr (False, r)
      | Some (k, v) \<Rightarrow> Inr (True, r\<lparr>req_headers := (req_headers r)(k \<mapsto> v)\<rparr>))"
    using parse_header_line_eq [of ?pre ?l "CR # LF # ys @ [NUL]" r] k(2) by simp
  then show ?thesis by (auto split: option.splits)
qed

definition tail_of :: "tcp_buffer \<Rightarrow> tcp_buffer \<Rightarrow> bool" where
  "tail_of b' b \<longleftrightarrow> buffer_ok b' \<and> (\<exists>n. content b' = drop n (content b))"

lemma tail_of_refl: "buffer_ok b \<Longrightarrow> tail_of b b"
  by (auto simp: tail_of_def intro: exI [of _ 0])

lemma tail_of_forward: "buffer_ok b \<Longrightarrow> tail_of (forward_read_position n b) b"
  by (auto simp: tail_of_def content_forward)

lemma tail_of_trans: "tail_of c b \<Longrightarrow> tail_of b a \<Longrightarrow> tail_of c a"
  by (auto simp: tail_of_def)

lemma headers_finished_flow:
  "headers_finished t hp = (flow, hp') \<Longrightarrow>
     (case flow of Return res \<Rightarrow> parsing_state hp' \<in> {SUCCESS, FAIL} \<and> (res \<longleftrightarrow> parsing_state hp' \<noteq> FAIL)
      | Continue \<Rightarrow> parsing_state hp' = EXPECT_BODY)"
  by (auto simp: headers_finished_def Let_def split: option.splits if_splits)

lemma parse_headers_total:
  "buffer_ok b \<Longrightarrow> parsing_state hp = EXPECT_HEADERS \<Longrightarrow>
     \<exists>flow hp' b'. parse_headers t hp b = Inr (flow, hp', b') \<and> tail_of b' b \<and>
       (case flow of Return res \<Rightarrow> res \<longleftrightarrow> parsing_state hp' \<noteq> FAIL
        | Continue \<Rightarrow> parsing_state hp' = EXPECT_BODY)"
proof (induction t hp b rule: parse_headers.induct)
  case (1 t hp b)
  obtain pos where pos: "get_next_crlf_position b = Inr pos"
    using crlf_position [OF 1(2)] by simp
  show ?case
  proof (cases pos)
    case None
    with pos 1(2,3) show ?thesis by (simp add: parse_headers.simps [of t hp b] tail_of_refl)
  next
    case (Some e)
    note pos = pos [unfolded Some]
    show ?thesis
    proof (cases "read_offset b = e")
      case True
      obtain flow hp' where hf: "headers_finished t hp = (flow, hp')" by fastforce
      with pos True 1(2) headers_finished_flow [OF hf] show ?thesis
        by (auto simp: parse_headers.simps [of t hp b] get_read_position_def tail_of_forward
            split: flow.splits)
    next
      case False
      obtain res r' where line: "parse_header_line (c_str b) (read_offset b) e (request hp) = Inr (res, r')"
        using parse_header_line_total [OF 1(2) pos] by blast
      show ?thesis
      proof (cases res)
        case True
        let ?b = "forward_read_position (size_sub (e + 2) (read_offset b)) b"
        have eq: "parse_headers t hp b = parse_headers t (hp\<lparr>request := r'\<rparr>) ?b"
          using pos line False True
          by (subst parse_headers.simps) (simp add: get_read_position_def)
        have "\<exists>flow hp' b'. parse_headers t (hp\<lparr>request := r'\<rparr>) ?b = Inr (flow, hp', b') \<and> tail_of b' ?b \<and>
          (case flow of Return res \<Rightarrow> res \<longleftrightarrow> parsing_state hp' \<noteq> FAIL
           | Continue \<Rightarrow> parsing_state hp' = EXPECT_BODY)"
          using 1(1) [OF pos refl refl _ _ refl] line False True 1(2,3)
          by (simp add: get_read_position_def)
        then show ?thesis
          unfolding eq using tail_of_trans [OF _ tail_of_forward [OF 1(2)]] by blast
      next
        case False
        with pos line \<open>read_offset b \<noteq> e\<close> 1(2) show ?thesis
          by (simp add: parse_headers.simps [of t hp b] get_read_position_def tail_of_refl)
      qed
    qed
  qed
qed



end
