(* ===== verification/Tcp_Connection.thy ===== *)
theory Tcp_Connection
  imports Tcp_Buffer
begin

text \<open>
  \<^verbatim>\<open>TcpConnectSocketfd\<close> (include/tcp_connect_socketfd.h, src/tcp_connect_socketfd.cc): one connection,
  with its two buffers, the three flags of its life cycle and the flags of its descriptor. What the
  kernel answers to \<^verbatim>\<open>recv\<close>, \<^verbatim>\<open>send\<close> and \<^verbatim>\<open>shutdown\<close> is given as lists of answers, one per call; after
  the last one \<^verbatim>\<open>recv\<close> and \<^verbatim>\<open>send\<close> would block. \<open>wire\<close> are the bytes the kernel has accepted. The
  write-complete callback is a list of actions on the connection, so that callbacks that call back
  into the connection can be followed; fuel bounds their nesting depth. The message callback is an
  argument.
\<close>

section \<open>State\<close>

datatype recv_answer = Got string | Peer_Closed | Recv_Again | Recv_Error

datatype send_answer = Sent nat | Send_Again | Send_Pipe | Send_Error

datatype shutdown_answer = Shutdown_Ok | Not_Connected | Shutdown_Error

datatype conn_action = Do_Shutdown_Write | Do_Send string | Do_Abort

record 'ctx connection =
  input_buffer :: tcp_buffer
  output_buffer :: tcp_buffer
  is_write_end_shutdown :: bool
  is_reset :: bool
  is_aborted :: bool
  conn_reading :: bool
  conn_writing :: bool
  conn_detached :: bool
  fd_open :: bool
  has_message_callback :: bool
  write_complete_callback :: "conn_action list option"
  has_close_callback :: bool
  close_calls :: nat
  conn_context :: "'ctx option"
  time_stamp :: int
  wire :: string
  recv_answers :: "recv_answer list"
  send_answers :: "send_answer list"
  shutdown_answers :: "shutdown_answer list"

definition new_connection :: "'ctx connection" where
  "new_connection =
     \<lparr>input_buffer = new_tcp_buffer, output_buffer = new_tcp_buffer, is_write_end_shutdown = False,
      is_reset = False, is_aborted = False, conn_reading = False, conn_writing = False,
      conn_detached = True, fd_open = True, has_message_callback = False,
      write_complete_callback = None, has_close_callback = False, close_calls = 0,
      conn_context = None, time_stamp = 0, wire = [], recv_answers = [], send_answers = [],
      shutdown_answers = []\<rparr>"

section \<open>The descriptor's flags\<close>

text \<open>Any registration marks the descriptor as attached again.\<close>

definition conn_enable_read :: "'ctx connection \<Rightarrow> 'ctx connection" where
  "conn_enable_read c =
     (if conn_reading c then c else c\<lparr>conn_reading := True, conn_detached := False\<rparr>)"

definition conn_disable_read :: "'ctx connection \<Rightarrow> 'ctx connection" where
  "conn_disable_read c =
     (if \<not> conn_reading c then c else c\<lparr>conn_reading := False, conn_detached := False\<rparr>)"

definition conn_enable_write :: "'ctx connection \<Rightarrow> 'ctx connection" where
  "conn_enable_write c =
     (if conn_writing c then c else c\<lparr>conn_writing := True, conn_detached := False\<rparr>)"

definition conn_disable_write :: "'ctx connection \<Rightarrow> 'ctx connection" where
  "conn_disable_write c =
     (if \<not> conn_writing c then c else c\<lparr>conn_writing := False, conn_detached := False\<rparr>)"

definition conn_detach :: "'ctx connection \<Rightarrow> 'ctx connection" where
  "conn_detach c =
     (if conn_detached c then c
      else c\<lparr>conn_detached := True, conn_reading := False, conn_writing := False\<rparr>)"

definition clear_context :: "'ctx connection \<Rightarrow> 'ctx connection" where
  "clear_context c = c\<lparr>conn_context := None\<rparr>"

section \<open>Ending a connection\<close>

definition conn_start :: "'ctx connection \<Rightarrow> 'ctx connection outcome" where
  "conn_start c =
     (if conn_reading c then Inr c
      else if \<not> has_message_callback c then Inl (Fatal ''missing message callback'')
      else Inr (conn_enable_read c))"

definition call_close_callback :: "'ctx connection \<Rightarrow> 'ctx connection" where
  "call_close_callback c =
     (if has_close_callback c then c\<lparr>close_calls := close_calls c + 1\<rparr> else c)"

definition close_event_callback :: "'ctx connection \<Rightarrow> 'ctx connection" where
  "close_event_callback c = call_close_callback (conn_detach c)"

definition reset_connection :: "'ctx connection \<Rightarrow> 'ctx connection outcome" where
  "reset_connection c =
     (if is_reset c then Inl (Fatal ''never reaches here'')
      else
        let c1 = call_close_callback c in
        if \<not> fd_open c1 then Inl (Fatal ''setsockopt failed'')
        else Inr ((clear_context
               (c1\<lparr>fd_open := False, input_buffer := release_buf (input_buffer c1),
                   output_buffer := release_buf (output_buffer c1)\<rparr>))
               \<lparr>is_write_end_shutdown := True, is_reset := True\<rparr>))"

definition abort_from_event_loop :: "'ctx connection \<Rightarrow> 'ctx connection outcome" where
  "abort_from_event_loop c =
     (if is_aborted c then Inl (Fatal ''never reaches here'')
      else obind (reset_connection (conn_detach c)) (\<lambda>c1. Inr (c1\<lparr>is_aborted := True\<rparr>)))"

definition check_and_abort_impl ::
  "('ctx connection \<Rightarrow> bool) \<Rightarrow> 'ctx connection \<Rightarrow> 'ctx connection outcome" where
  "check_and_abort_impl predicate c = (if predicate c then abort_from_event_loop c else Inr c)"

section \<open>Sending\<close>

function send_loop ::
  "string \<Rightarrow> nat \<Rightarrow> 'ctx connection \<Rightarrow> (nat \<times> 'ctx connection) outcome" where
  "send_loop data count c =
     (if count < length data then
        (case send_answers c of
           [] \<Rightarrow> Inr (count, c)
         | Sent n # as \<Rightarrow>
             let m = min n (length data - count) in
             send_loop data (count + m)
               (c\<lparr>send_answers := as, wire := wire c @ take m (drop count data)\<rparr>)
         | Send_Again # as \<Rightarrow> Inr (count, c\<lparr>send_answers := as\<rparr>)
         | Send_Pipe # as \<Rightarrow>
             obind (abort_from_event_loop (c\<lparr>send_answers := as\<rparr>)) (\<lambda>c1. Inr (length data, c1))
         | Send_Error # as \<Rightarrow> send_loop data count (c\<lparr>send_answers := as\<rparr>))
      else Inr (count, c))"
  by pat_completeness auto
termination
  by (relation "measure (\<lambda>(data, count, c). length (send_answers c))") auto

declare send_loop.simps [simp del]

definition send_as_many_data :: "string \<Rightarrow> 'ctx connection \<Rightarrow> (nat \<times> 'ctx connection) outcome" where
  "send_as_many_data data c = (if length data = 0 then Inr (0, c) else send_loop data 0 c)"

text \<open>\<open>wc\<close> is the effect of calling the write-complete callback, if there is one.\<close>

definition send_with ::
  "('ctx connection \<Rightarrow> 'ctx connection outcome) \<Rightarrow> string \<Rightarrow> 'ctx connection \<Rightarrow> 'ctx connection outcome" where
  "send_with wc data c =
     (if conn_detached c then Inr c
      else if conn_writing c then
        obind (append_buf data (output_buffer c)) (\<lambda>b. Inr (c\<lparr>output_buffer := b\<rparr>))
      else obind (send_as_many_data data c) (\<lambda>(n, c1).
        if n = length data then wc c1
        else obind (append_buf (drop n data) (output_buffer c1)) (\<lambda>b.
          Inr (conn_enable_write (c1\<lparr>output_buffer := b\<rparr>)))))"

definition shutdown_write_with ::
  "('ctx connection \<Rightarrow> 'ctx connection outcome) \<Rightarrow> 'ctx connection \<Rightarrow> 'ctx connection outcome" where
  "shutdown_write_with wc c =
     (if is_write_end_shutdown c then Inr c
      else
        let answer = (case shutdown_answers c of [] \<Rightarrow> Shutdown_Ok | a # as \<Rightarrow> a);
            c1 = c\<lparr>shutdown_answers := tl (shutdown_answers c)\<rparr>
        in if answer = Not_Connected then abort_from_event_loop c1
           else
             let c2 = (if answer = Shutdown_Error then close_event_callback c1 else c1) in
             obind (wc (conn_disable_write c2)) (\<lambda>c3.
               Inr ((clear_context (c3\<lparr>output_buffer := release_buf (output_buffer c3)\<rparr>))
                      \<lparr>is_write_end_shutdown := True\<rparr>)))"

definition run_action_with ::
  "('ctx connection \<Rightarrow> 'ctx connection outcome) \<Rightarrow> conn_action \<Rightarrow> 'ctx connection
   \<Rightarrow> 'ctx connection outcome" where
  "run_action_with wc a c =
     (case a of
        Do_Shutdown_Write \<Rightarrow> shutdown_write_with wc c
      | Do_Send data \<Rightarrow> send_with wc data c
      | Do_Abort \<Rightarrow> abort_from_event_loop c)"

fun run_actions_with ::
  "('ctx connection \<Rightarrow> 'ctx connection outcome) \<Rightarrow> conn_action list \<Rightarrow> 'ctx connection
   \<Rightarrow> 'ctx connection outcome" where
  "run_actions_with wc [] c = Inr c"
| "run_actions_with wc (a # as) c = obind (run_action_with wc a c) (run_actions_with wc as)"

fun write_complete :: "nat \<Rightarrow> 'ctx connection \<Rightarrow> 'ctx connection outcome" where
  "write_complete 0 c =
     (case write_complete_callback c of None \<Rightarrow> Inr c | Some _ \<Rightarrow> Inl Diverges)"
| "write_complete (Suc n) c =
     (case write_complete_callback c of None \<Rightarrow> Inr c
      | Some as \<Rightarrow> run_actions_with (write_complete n) as c)"

definition conn_send :: "nat \<Rightarrow> string \<Rightarrow> 'ctx connection \<Rightarrow> 'ctx connection outcome" where
  "conn_send n = send_with (write_complete n)"

definition shutdown_write :: "nat \<Rightarrow> 'ctx connection \<Rightarrow> 'ctx connection outcome" where
  "shutdown_write n = shutdown_write_with (write_complete n)"

section \<open>Events\<close>

definition error_event_callback :: "'ctx connection \<Rightarrow> 'ctx connection" where
  "error_event_callback c = c"

function receive_all_data ::
  "nat \<Rightarrow> 'ctx connection \<Rightarrow> (nat \<times> 'ctx connection) outcome" where
  "receive_all_data count c =
     (case recv_answers c of
        [] \<Rightarrow> Inr (count, c)
      | Got data # as \<Rightarrow>
          obind (append_buf data (input_buffer c)) (\<lambda>b.
            receive_all_data (count + length data) (c\<lparr>input_buffer := b, recv_answers := as\<rparr>))
      | Peer_Closed # as \<Rightarrow> Inr (count, conn_disable_read (c\<lparr>recv_answers := as\<rparr>))
      | Recv_Again # as \<Rightarrow> Inr (count, c\<lparr>recv_answers := as\<rparr>)
      | Recv_Error # as \<Rightarrow> receive_all_data count (error_event_callback (c\<lparr>recv_answers := as\<rparr>)))"
  by pat_completeness auto
termination
  by (relation "measure (\<lambda>(count, c). length (recv_answers c))") (auto simp: error_event_callback_def)

declare receive_all_data.simps [simp del]

definition read_event_callback ::
  "nat \<Rightarrow> (int \<Rightarrow> 'ctx connection \<Rightarrow> 'ctx connection outcome) \<Rightarrow> int \<Rightarrow> 'ctx connection
   \<Rightarrow> 'ctx connection outcome" where
  "read_event_callback n message now c =
     obind (receive_all_data 0 c) (\<lambda>(count, c1).
     obind (if count \<noteq> 0 then message now c1 else Inr c1) (\<lambda>c2.
       if \<not> conn_reading c2 then
         let c3 = c2\<lparr>input_buffer := release_buf (input_buffer c2)\<rparr> in
         if \<not> is_write_end_shutdown c3 \<and> \<not> conn_writing c3 then shutdown_write n c3 else Inr c3
       else Inr c2))"

definition write_event_callback :: "nat \<Rightarrow> 'ctx connection \<Rightarrow> 'ctx connection outcome" where
  "write_event_callback n c =
     (if conn_detached c then Inr c
      else if is_write_end_shutdown c then Inr c
      else
        let count = get_readable_size (output_buffer c) in
        obind (if count > 0 then
                 obind (send_as_many_data
                    (take count (drop (get_read_position (output_buffer c)) (chars (output_buffer c)))) c)
                   (\<lambda>(sent, c1).
                      Inr (sent < count, c1\<lparr>output_buffer := forward_read_position sent (output_buffer c1)\<rparr>))
               else Inr (False, c)) (\<lambda>(full, c2).
          if full then Inr c2
          else obind (write_complete n (conn_disable_write c2)) (\<lambda>c3.
            if \<not> conn_reading c3 \<and> \<not> conn_writing c3 then shutdown_write n c3 else Inr c3)))"

section \<open>The output stream\<close>

datatype conn_event = Ev_Send string | Ev_Writable

fun conn_run :: "nat \<Rightarrow> conn_event list \<Rightarrow> 'ctx connection \<Rightarrow> 'ctx connection outcome" where
  "conn_run n [] c = Inr c"
| "conn_run n (Ev_Send data # es) c = obind (conn_send n data c) (conn_run n es)"
| "conn_run n (Ev_Writable # es) c = obind (write_event_callback n c) (conn_run n es)"

fun sent_data :: "conn_event list \<Rightarrow> string" where
  "sent_data [] = []"
| "sent_data (Ev_Send data # es) = data @ sent_data es"
| "sent_data (Ev_Writable # es) = sent_data es"

text \<open>An open connection, and one that was aborted because the peer had gone.\<close>

definition alive :: "'ctx connection \<Rightarrow> bool" where
  "alive c \<longleftrightarrow>
     \<not> conn_detached c \<and> conn_reading c \<and> \<not> is_write_end_shutdown c \<and> \<not> is_reset c \<and> \<not> is_aborted c \<and>
     fd_open c \<and> write_complete_callback c = None"

definition streaming :: "string \<Rightarrow> 'ctx connection \<Rightarrow> bool" where
  "streaming sent c \<longleftrightarrow>
     alive c \<and> buffer_ok (output_buffer c) \<and> wire c @ content (output_buffer c) = sent \<and>
     (conn_writing c \<longleftrightarrow> content (output_buffer c) \<noteq> [])"

definition given_up :: "string \<Rightarrow> 'ctx connection \<Rightarrow> bool" where
  "given_up sent c \<longleftrightarrow>
     is_aborted c \<and> conn_detached c \<and> is_write_end_shutdown c \<and> \<not> fd_open c \<and>
     \<not> conn_reading c \<and> \<not> conn_writing c \<and> write_complete_callback c = None \<and> (\<exists>rest. sent = wire c @ rest)"

lemma abort_alive:
  assumes "alive c"
  shows "\<exists>c'. abort_from_event_loop c = Inr c' \<and> is_aborted c' \<and> conn_detached c' \<and>
    is_write_end_shutdown c' \<and> \<not> fd_open c' \<and> \<not> conn_reading c' \<and> \<not> conn_writing c' \<and>
    write_complete_callback c' = None \<and> wire c' = wire c"
  using assms
  by (auto simp: abort_from_event_loop_def reset_connection_def conn_detach_def call_close_callback_def
      alive_def clear_context_def Let_def)

lemma alive_upd [simp]:
  "alive (c\<lparr>send_answers := as\<rparr>) = alive c" "alive (c\<lparr>wire := w\<rparr>) = alive c"
  "alive (c\<lparr>output_buffer := b\<rparr>) = alive c"
  by (simp_all add: alive_def)

lemma send_stay:
  assumes "send_loop data k c = Inr (k, c\<lparr>send_answers := as\<rparr>)" "k \<le> length data"
  shows "\<exists>m c'. send_loop data k c = Inr (m, c') \<and>
       (k \<le> m \<and> m \<le> length data \<and>
          (\<exists>as. c' = c\<lparr>send_answers := as, wire := wire c @ take (m - k) (drop k data)\<rparr>) \<or>
        m = length data \<and> (\<exists>j. given_up (wire c @ take j (drop k data)) c' \<and> wire c' = wire c @ take j (drop k data)))"
  by (intro exI [of _ k] exI [of _ "c\<lparr>send_answers := as\<rparr>"] conjI disjI1 exI [of _ as] assms) simp_all

lemma send_loop_spec:
  "k \<le> length data \<Longrightarrow> alive c \<Longrightarrow>
     \<exists>m c'. send_loop data k c = Inr (m, c') \<and>
       (k \<le> m \<and> m \<le> length data \<and>
          (\<exists>as. c' = c\<lparr>send_answers := as, wire := wire c @ take (m - k) (drop k data)\<rparr>) \<or>
        m = length data \<and> (\<exists>j. given_up (wire c @ take j (drop k data)) c' \<and> wire c' = wire c @ take j (drop k data)))"
proof (induction data k c rule: send_loop.induct)
  case (1 data k c)
  show ?case
  proof (cases "k < length data")
    case False
    then have "send_loop data k c = Inr (k, c\<lparr>send_answers := send_answers c\<rparr>)"
      by (subst send_loop.simps) simp
    then show ?thesis using 1(3) by (rule send_stay)
  next
    case True
    show ?thesis
    proof (cases "send_answers c")
      case Nil
      then have "send_loop data k c = Inr (k, c\<lparr>send_answers := send_answers c\<rparr>)"
        by (subst send_loop.simps) simp
      then show ?thesis using 1(3) by (rule send_stay)
    next
      case (Cons a as)
      show ?thesis
      proof (cases a)
        case (Sent n)
        let ?m = "min n (length data - k)"
        let ?c = "c\<lparr>send_answers := as, wire := wire c @ take ?m (drop k data)\<rparr>"
        have eq: "send_loop data k c = send_loop data (k + ?m) ?c"
          using True Cons Sent by (subst send_loop.simps) (simp add: Let_def)
        have split: "take ?m (drop k data) @ take j (drop (k + ?m) data) = take (?m + j) (drop k data)" for j
          using take_add [of ?m j "drop k data"] by (simp add: add.commute)
        have pre: "k + ?m \<le> length data" "alive ?c" using True 1(4) by auto
        obtain m c' where m: "send_loop data (k + ?m) ?c = Inr (m, c')"
          "k + ?m \<le> m \<and> m \<le> length data \<and>
            (\<exists>as. c' = ?c\<lparr>send_answers := as, wire := wire ?c @ take (m - (k + ?m)) (drop (k + ?m) data)\<rparr>) \<or>
           m = length data \<and> (\<exists>j. given_up (wire ?c @ take j (drop (k + ?m) data)) c' \<and>
             wire c' = wire ?c @ take j (drop (k + ?m) data))"
          using 1(1) [OF True Cons Sent refl pre] by blast
        show ?thesis
          using m(2)
        proof
          assume A: "k + ?m \<le> m \<and> m \<le> length data \<and>
            (\<exists>as. c' = ?c\<lparr>send_answers := as, wire := wire ?c @ take (m - (k + ?m)) (drop (k + ?m) data)\<rparr>)"
          then have "?m + (m - (k + ?m)) = m - k" by arith
          with A have "\<exists>as. c' = c\<lparr>send_answers := as, wire := wire c @ take (m - k) (drop k data)\<rparr>"
            using split [of "m - (k + ?m)"] by auto
          with A eq m(1) show ?thesis by auto
        next
          assume "m = length data \<and> (\<exists>j. given_up (wire ?c @ take j (drop (k + ?m) data)) c' \<and>
             wire c' = wire ?c @ take j (drop (k + ?m) data))"
          with eq m(1) show ?thesis using split by auto
        qed
      next
        case Send_Again
        then have "send_loop data k c = Inr (k, c\<lparr>send_answers := as\<rparr>)"
          using True Cons by (subst send_loop.simps) simp
        then show ?thesis using 1(3) by (rule send_stay)
      next
        case Send_Pipe
        obtain c' where "abort_from_event_loop (c\<lparr>send_answers := as\<rparr>) = Inr c'" "is_aborted c'"
            "conn_detached c'" "is_write_end_shutdown c'" "\<not> fd_open c'" "\<not> conn_reading c'"
            "\<not> conn_writing c'" "write_complete_callback c' = None" "wire c' = wire c"
          using abort_alive [of "c\<lparr>send_answers := as\<rparr>"] 1(4) by auto
        moreover then have "send_loop data k c = Inr (length data, c')"
          using True Cons Send_Pipe by (subst send_loop.simps) simp
        ultimately show ?thesis by (auto simp: given_up_def intro!: exI [of _ 0])
      next
        case Send_Error
        have "send_loop data k c = send_loop data k (c\<lparr>send_answers := as\<rparr>)"
          using True Cons Send_Error by (subst send_loop.simps) simp
        with 1(2) [OF True Cons Send_Error 1(3)] 1(4) show ?thesis by auto
      qed
    qed
  qed
qed

lemma send_as_many_spec:
  assumes "alive c"
  shows "\<exists>m c'. send_as_many_data data c = Inr (m, c') \<and>
       (m \<le> length data \<and> (\<exists>as. c' = c\<lparr>send_answers := as, wire := wire c @ take m data\<rparr>) \<or>
        m = length data \<and> (\<exists>j. given_up (wire c @ take j data) c' \<and> wire c' = wire c @ take j data))"
proof (cases "data = []")
  case True
  then have "send_as_many_data data c =
      Inr (0, c\<lparr>send_answers := send_answers c, wire := wire c @ take 0 data\<rparr>)"
    by (simp add: send_as_many_data_def)
  then show ?thesis by blast
next
  case False
  then show ?thesis using send_loop_spec [of 0 data c] assms by (auto simp: send_as_many_data_def)
qed

lemma given_up_mono: "given_up sent c \<Longrightarrow> given_up (sent @ extra) c"
  by (auto simp: given_up_def)

lemma write_complete_none: "write_complete_callback c = None \<Longrightarrow> write_complete n c = Inr c"
  by (cases n) auto

lemma conn_send_streaming:
  assumes "streaming sent c"
  shows "\<exists>c'. conn_send n data c = Inr c' \<and>
    (streaming (sent @ data) c' \<and> conn_context c' = conn_context c \<and> input_buffer c' = input_buffer c \<or>
     given_up (sent @ data) c')"
proof (cases "conn_writing c")
  case True
  obtain b where "append_buf data (output_buffer c) = Inr b" "buffer_ok b"
      "content b = content (output_buffer c) @ data"
    using assms appendE [of "output_buffer c" data] by (auto simp: streaming_def)
  with True assms show ?thesis
    by (auto simp: conn_send_def send_with_def streaming_def alive_def)
next
  case False
  then have empty: "content (output_buffer c) = []" and w: "wire c = sent" and al: "alive c"
      and ok: "buffer_ok (output_buffer c)"
    using assms by (auto simp: streaming_def)
  obtain m c' where m: "send_as_many_data data c = Inr (m, c')"
    "m \<le> length data \<and> (\<exists>as. c' = c\<lparr>send_answers := as, wire := wire c @ take m data\<rparr>) \<or>
     m = length data \<and> (\<exists>j. given_up (wire c @ take j data) c' \<and> wire c' = wire c @ take j data)"
    using send_as_many_spec [OF al] by blast
  show ?thesis
    using m(2)
  proof (elim disjE conjE exE)
    fix as assume le: "m \<le> length data" and c': "c' = c\<lparr>send_answers := as, wire := wire c @ take m data\<rparr>"
    show ?thesis
    proof (cases "m = length data")
      case True
      with m(1) c' False assms w empty show ?thesis
        by (auto simp: conn_send_def send_with_def streaming_def alive_def write_complete_none)
    next
      case part: False
      obtain b where b: "append_buf (drop m data) (output_buffer c) = Inr b" "buffer_ok b"
          "content b = drop m data"
        using appendE [OF ok, of "drop m data"] empty by auto
      have "conn_send n data c = Inr (conn_enable_write (c'\<lparr>output_buffer := b\<rparr>))"
        using m(1) c' False part b(1) al by (simp add: conn_send_def send_with_def alive_def)
      moreover have "streaming (sent @ data) (conn_enable_write (c'\<lparr>output_buffer := b\<rparr>))"
          "conn_context (conn_enable_write (c'\<lparr>output_buffer := b\<rparr>)) = conn_context c"
          "input_buffer (conn_enable_write (c'\<lparr>output_buffer := b\<rparr>)) = input_buffer c"
        using c' b le part al w False
        by (auto simp: streaming_def conn_enable_write_def alive_def)
      ultimately show ?thesis by blast
    qed
  next
    fix j assume "m = length data" "given_up (wire c @ take j data) c'"
    moreover have "sent @ data = (wire c @ take j data) @ drop j data" using w by simp
    ultimately have "given_up (sent @ data) c'" using given_up_mono by metis
    then show ?thesis
      using m(1) \<open>m = length data\<close> False al
      by (auto simp: conn_send_def send_with_def alive_def given_up_def write_complete_none)
  qed
qed

lemma conn_send_given_up: "given_up sent c \<Longrightarrow> conn_send n data c = Inr c"
  by (simp add: conn_send_def send_with_def given_up_def)

lemma write_event_given_up: "given_up sent c \<Longrightarrow> write_event_callback n c = Inr c"
  by (simp add: write_event_callback_def given_up_def)

lemma write_event_streaming:
  assumes st: "streaming sent c"
  shows "\<exists>c'. write_event_callback n c = Inr c' \<and> (streaming sent c' \<or> given_up sent c')"
proof -
  let ?b = "output_buffer c" and ?data = "content (output_buffer c)"
  have al: "alive c" and ok: "buffer_ok ?b" and w: "wire c @ ?data = sent"
    and wr: "conn_writing c \<longleftrightarrow> ?data \<noteq> []"
    using st by (auto simp: streaming_def)
  have size: "get_readable_size ?b = length ?data" using length_content [OF ok] by simp
  have data: "take (get_readable_size ?b) (drop (get_read_position ?b) (chars ?b)) = ?data"
    using ok by (simp add: size content_drop get_read_position_def)
  show ?thesis
  proof (cases "?data = []")
    case True
    then have "write_event_callback n c = Inr c"
      using al wr size
      by (simp add: write_event_callback_def Let_def conn_disable_write_def write_complete_none alive_def)
    then show ?thesis using st by blast
  next
    case False
    have live: "\<not> conn_detached c" "\<not> is_write_end_shutdown c" using al by (auto simp: alive_def)
    obtain m c' where m: "send_as_many_data ?data c = Inr (m, c')"
      "m \<le> length ?data \<and> (\<exists>as. c' = c\<lparr>send_answers := as, wire := wire c @ take m ?data\<rparr>) \<or>
       m = length ?data \<and> (\<exists>j. given_up (wire c @ take j ?data) c' \<and> wire c' = wire c @ take j ?data)"
      using send_as_many_spec [OF al] by blast
    let ?c2 = "c'\<lparr>output_buffer := forward_read_position m (output_buffer c')\<rparr>"
    have eq: "write_event_callback n c =
      (if m < length ?data then Inr ?c2
       else obind (write_complete n (conn_disable_write ?c2)) (\<lambda>c3.
          if \<not> conn_reading c3 \<and> \<not> conn_writing c3 then shutdown_write n c3 else Inr c3))"
      using live False m(1) data size unfolding write_event_callback_def by (simp add: Let_def)
    show ?thesis
      using m(2)
    proof (elim disjE conjE exE)
      fix as assume le: "m \<le> length ?data" and c': "c' = c\<lparr>send_answers := as, wire := wire c @ take m ?data\<rparr>"
      have b2: "buffer_ok (forward_read_position m ?b)" "content (forward_read_position m ?b) = drop m ?data"
        using ok by (simp_all add: content_forward)
      show ?thesis
      proof (cases "m < length ?data")
        case True
        then have "streaming sent ?c2"
          using c' b2 al w wr False by (auto simp: streaming_def alive_def)
        with True eq show ?thesis by auto
      next
        case all: False
        with le have "m = length ?data" by simp
        then have "streaming sent (conn_disable_write ?c2)"
          using c' b2 al w wr False by (auto simp: streaming_def alive_def conn_disable_write_def)
        moreover then have "write_event_callback n c = Inr (conn_disable_write ?c2)"
          using eq all by (simp add: write_complete_none streaming_def alive_def)
        ultimately show ?thesis by blast
      qed
    next
      fix j assume ml: "m = length ?data" and g: "given_up (wire c @ take j ?data) c'"
      have "sent = (wire c @ take j ?data) @ drop j ?data" using w by simp
      then have g': "given_up sent ?c2"
        using given_up_mono [OF g, of "drop j ?data"] by (simp add: given_up_def)
      then have "conn_disable_write ?c2 = ?c2" by (simp add: given_up_def conn_disable_write_def)
      then have "write_event_callback n c = Inr ?c2"
        using eq ml g' by (simp add: write_complete_none given_up_def shutdown_write_def shutdown_write_with_def)
      with g' show ?thesis by blast
    qed
  qed
qed

lemma conn_run_streaming:
  "streaming sent c \<or> given_up sent c \<Longrightarrow>
     \<exists>c'. conn_run n es c = Inr c' \<and>
       (streaming (sent @ sent_data es) c' \<or> given_up (sent @ sent_data es) c')"
proof (induction es arbitrary: sent c)
  case (Cons e es)
  have step: "\<exists>c'. (case e of Ev_Send data \<Rightarrow> conn_send n data c | Ev_Writable \<Rightarrow> write_event_callback n c) = Inr c' \<and>
      (streaming (sent @ sent_data [e]) c' \<or> given_up (sent @ sent_data [e]) c')"
  proof (cases e)
    case (Ev_Send data)
    with Cons.prems conn_send_streaming [of sent c n data] conn_send_given_up [of sent c n data]
      given_up_mono [of sent c data] show ?thesis by auto
  next
    case Ev_Writable
    with Cons.prems write_event_streaming [of sent c n] write_event_given_up [of sent c n]
    show ?thesis by auto
  qed
  then obtain c' where c': "(case e of Ev_Send data \<Rightarrow> conn_send n data c | Ev_Writable \<Rightarrow> write_event_callback n c) = Inr c'"
      "streaming (sent @ sent_data [e]) c' \<or> given_up (sent @ sent_data [e]) c'" by blast
  have "sent @ sent_data (e # es) = (sent @ sent_data [e]) @ sent_data es" by (cases e) auto
  moreover have "conn_run n (e # es) c = conn_run n es c'" using c'(1) by (cases e) auto
  ultimately show ?case using Cons.IH [OF c'(2)] by simp
qed simp

definition started_connection :: "send_answer list \<Rightarrow> 'ctx connection" where
  "started_connection answers =
     new_connection\<lparr>conn_reading := True, conn_detached := False, has_message_callback := True,
       send_answers := answers\<rparr>"


section \<open>Half-closed connections\<close>

lemma receive_all_Got:
  "buffer_ok (input_buffer c) \<Longrightarrow> recv_answers c = map Got ds @ Peer_Closed # as \<Longrightarrow>
     \<exists>b. receive_all_data k c =
       Inr (k + length (concat ds), conn_disable_read (c\<lparr>input_buffer := b, recv_answers := as\<rparr>)) \<and>
       buffer_ok b \<and> content b = content (input_buffer c) @ concat ds"
proof (induction ds arbitrary: k c)
  case Nil
  then show ?case by (subst receive_all_data.simps) (auto intro!: exI [of _ "input_buffer c"])
next
  case (Cons d ds)
  obtain b where b: "append_buf d (input_buffer c) = Inr b" "buffer_ok b"
      "content b = content (input_buffer c) @ d"
    using appendE [OF Cons.prems(1)] .
  let ?c = "c\<lparr>input_buffer := b, recv_answers := map Got ds @ Peer_Closed # as\<rparr>"
  have "receive_all_data k c = receive_all_data (k + length d) ?c"
    using Cons.prems(2) b(1) by (subst receive_all_data.simps) simp
  with Cons.IH [of ?c "k + length d"] b show ?case by (auto simp: add.assoc)
qed

text \<open>When the peer has closed its end after its last bytes, one read event hands all of them to the
  message callback and then, if nothing is left to be sent, shuts down the local write end and drops
  the connection's context: the connection ends by the normal four-way handshake.\<close>

theorem peer_close_ends_connection:
  assumes "alive c" "buffer_ok (input_buffer c)" "\<not> conn_writing c"
    and "recv_answers c = map Got ds @ [Peer_Closed]" "concat ds \<noteq> []" "shutdown_answers c = []"
    and "\<And>d. alive (d\<lparr>conn_reading := True\<rparr>) \<Longrightarrow> \<not> conn_reading d \<Longrightarrow> \<not> conn_writing d \<Longrightarrow> shutdown_answers d = [] \<Longrightarrow>
          content (input_buffer d) = content (input_buffer c) @ concat ds \<Longrightarrow>
          \<exists>d'. message now d = Inr d' \<and> alive (d'\<lparr>conn_reading := True\<rparr>) \<and> \<not> conn_reading d' \<and>
               \<not> conn_writing d' \<and> shutdown_answers d' = []"
  shows "\<exists>c'. read_event_callback n message now c = Inr c' \<and> is_write_end_shutdown c' \<and>
           conn_context c' = None \<and> \<not> is_aborted c'"
proof -
  obtain b where b: "receive_all_data 0 c =
      Inr (length (concat ds), conn_disable_read (c\<lparr>input_buffer := b, recv_answers := []\<rparr>))"
      "buffer_ok b" "content b = content (input_buffer c) @ concat ds"
    using receive_all_Got [OF assms(2), of ds "[]" 0] assms(4) by auto
  let ?d = "conn_disable_read (c\<lparr>input_buffer := b, recv_answers := []\<rparr>)"
  have "alive (?d\<lparr>conn_reading := True\<rparr>)" "\<not> conn_reading ?d" "\<not> conn_writing ?d" "shutdown_answers ?d = []"
      "content (input_buffer ?d) = content (input_buffer c) @ concat ds"
    using assms(1,3,6) b(3) by (auto simp: conn_disable_read_def alive_def)
  from assms(7) [OF this] obtain d' where d': "message now ?d = Inr d'"
      "alive (d'\<lparr>conn_reading := True\<rparr>)" "\<not> conn_reading d'" "\<not> conn_writing d'" "shutdown_answers d' = []" by blast
  then show ?thesis
    using b(1) assms(5)
    by (simp add: read_event_callback_def shutdown_write_def shutdown_write_with_def alive_def Let_def
        conn_disable_write_def write_complete_none clear_context_def)
qed

theorem peer_close_ends_connection_witness:
  "\<exists>c'. read_event_callback 0 (\<lambda>now d. Inr d) 5
      ((started_connection [])\<lparr>recv_answers := map Got [''hello''] @ [Peer_Closed]\<rparr>) = Inr c' \<and>
      is_write_end_shutdown c' \<and> conn_context c' = None \<and> \<not> is_aborted c'"
  by (rule peer_close_ends_connection [where ds = "[''hello'']"])
    (simp_all add: alive_def started_connection_def new_connection_def)

section \<open>Callbacks that call back\<close>

text \<open>C35: If the write-complete callback shuts down the write end (the HTTP server installs such a
  callback for a request with Connection: close whose response could not be written at once), then
  shutting down never returns: the callback is called before the flag that would stop the second
  call is set, at every nesting depth.\<close>

theorem shutdown_in_write_complete_diverges:
  assumes "write_complete_callback c = Some [Do_Shutdown_Write]" "\<not> is_write_end_shutdown c"
    and "shutdown_answers c = []"
  shows "shutdown_write n c = Inl Diverges"
  using assms
proof (induction n arbitrary: c)
  case 0
  then show ?case
    by (auto simp: shutdown_write_def shutdown_write_with_def conn_disable_write_def Let_def)
next
  case (Suc n)
  let ?c = "conn_disable_write (c\<lparr>shutdown_answers := []\<rparr>)"
  have c: "write_complete_callback ?c = Some [Do_Shutdown_Write]" "\<not> is_write_end_shutdown ?c"
      "shutdown_answers ?c = []"
    using Suc.prems by (simp_all add: conn_disable_write_def)
  have "shutdown_write (Suc n) c = obind (write_complete (Suc n) ?c) (\<lambda>c3.
      Inr ((clear_context (c3\<lparr>output_buffer := release_buf (output_buffer c3)\<rparr>))\<lparr>is_write_end_shutdown := True\<rparr>))"
    using Suc.prems by (simp add: shutdown_write_def shutdown_write_with_def Let_def)
  also have "write_complete (Suc n) ?c =
      obind (shutdown_write n ?c) (run_actions_with (write_complete n) [])"
    using c(1) by (simp add: run_action_with_def shutdown_write_def)
  also have "shutdown_write n ?c = Inl Diverges" using Suc.IH [OF c] .
  finally show ?case by simp
qed

theorem shutdown_in_write_complete_diverges_witness:
  "shutdown_write 100 ((started_connection [] :: nat connection)
      \<lparr>write_complete_callback := Some [Do_Shutdown_Write]\<rparr>) = Inl Diverges"
  by (rule shutdown_in_write_complete_diverges) (simp_all add: started_connection_def new_connection_def)

text \<open>A connection that was reset because the peer had gone stays registered for the pending
  inactivity check, and if that check still finds it inactive it aborts it a second time, which
  ends the whole process.\<close>

theorem second_abort_is_fatal:
  assumes "alive c" "send_answers c = Send_Pipe # as" "\<not> conn_writing c" "data \<noteq> []"
  shows "\<exists>c'. conn_send n data c = Inr c' \<and>
    (\<forall>predicate. predicate c' \<longrightarrow> check_and_abort_impl predicate c' = Inl (Fatal ''never reaches here''))"
proof -
  obtain c' where c': "abort_from_event_loop (c\<lparr>send_answers := as\<rparr>) = Inr c'" "is_aborted c'"
      "write_complete_callback c' = None"
    using abort_alive [of "c\<lparr>send_answers := as\<rparr>"] assms(1) by auto
  have "send_loop data 0 c = Inr (length data, c')"
    using assms(2,4) c'(1) by (subst send_loop.simps) simp
  then have "conn_send n data c = Inr c'"
    using assms c'(3) by (simp add: conn_send_def send_with_def send_as_many_data_def alive_def write_complete_none)
  with c'(2) show ?thesis by (simp add: check_and_abort_impl_def abort_from_event_loop_def)
qed

theorem second_abort_is_fatal_witness:
  "\<exists>c'. conn_send 0 ''x'' (started_connection [Send_Pipe] :: nat connection) = Inr c' \<and>
    check_and_abort_impl (\<lambda>_. True) c' = Inl (Fatal ''never reaches here'')"
  using second_abort_is_fatal [of "started_connection [Send_Pipe] :: nat connection" "[]" "''x''" 0]
  by (auto simp: alive_def started_connection_def new_connection_def)

text \<open>Starting a connection that has a message callback.\<close>

lemma conn_start_ok:
  assumes "has_message_callback c"
  shows "\<exists>c'. conn_start c = Inr c' \<and> conn_reading c' \<and> close_calls c' = close_calls c"
  using assms by (simp add: conn_start_def conn_enable_read_def)

text \<open>Reading does not touch the output side.\<close>

lemma streaming_upd [simp]:
  "streaming sent (c\<lparr>recv_answers := as\<rparr>) = streaming sent c"
  "streaming sent (c\<lparr>input_buffer := b\<rparr>) = streaming sent c"
  "streaming sent (c\<lparr>time_stamp := t\<rparr>) = streaming sent c"
  "streaming sent (c\<lparr>conn_context := x\<rparr>) = streaming sent c"
  by (simp_all add: streaming_def alive_def)

lemma given_up_input [simp]: "given_up sent (c\<lparr>input_buffer := b\<rparr>) = given_up sent c"
  by (simp add: given_up_def)

lemma receive_one:
  assumes "buffer_ok (input_buffer c)" "recv_answers c = [Got d]"
  shows "\<exists>b. receive_all_data 0 c = Inr (length d, c\<lparr>input_buffer := b, recv_answers := []\<rparr>) \<and>
    buffer_ok b \<and> content b = content (input_buffer c) @ d"
proof -
  obtain b where "append_buf d (input_buffer c) = Inr b" "buffer_ok b"
      "content b = content (input_buffer c) @ d"
    using appendE [OF assms(1)] .
  moreover have "receive_all_data k (c\<lparr>input_buffer := b, recv_answers := []\<rparr>) =
      Inr (k, c\<lparr>input_buffer := b, recv_answers := []\<rparr>)" for k b
    by (subst receive_all_data.simps) simp
  ultimately show ?thesis
    using assms(2) by (subst receive_all_data.simps) auto
qed

end
