(* ===== verification/Http_Response.thy ===== *)
theory Http_Response
  imports Http_Parser Tcp_Connection
begin

text \<open>
  \<^verbatim>\<open>HttpResponse\<close> (example/http/server/include/http_response.h, src/http_response.cc): the response
  record, the status table and the serialisation into a TCP buffer. The headers are kept in an
  \<^verbatim>\<open>unordered_map\<close>, whose iteration order is not specified: the serialisation takes the entries in
  the order in which the container yields them as an argument.
\<close>

section \<open>Data\<close>

text \<open>\<open>None\<close> is the version a response is created with: the member has no initialiser.\<close>

record http_response =
  resp_version :: "http_version option"
  status_code :: nat
  resp_headers :: "string \<rightharpoonup> string"
  resp_body :: string

definition S_NONE :: nat where "S_NONE = 0"
definition S_200_OK :: nat where "S_200_OK = 200"
definition S_404_NOT_FOUND :: nat where "S_404_NOT_FOUND = 404"

definition new_http_response :: http_response where
  "new_http_response =
     \<lparr>resp_version = None, status_code = S_NONE, resp_headers = Map.empty, resp_body = []\<rparr>"

definition get_version_type_as_string_resp :: "http_version \<Rightarrow> string option" where
  "get_version_type_as_string_resp v =
     (case v of HTTP_1_0 \<Rightarrow> Some ''HTTP/1.0'' | HTTP_1_1 \<Rightarrow> Some ''HTTP/1.1'' | _ \<Rightarrow> None)"

definition status_table :: "(nat \<times> string) list" where
  "status_table =
     [(100, ''100 Continue''),
      (101, ''101 Switching Protocols''),
      (102, ''102 Processing''),
      (200, ''200 OK''),
      (201, ''201 Created''),
      (202, ''202 Accepted''),
      (203, ''203 Non Authoritative Information''),
      (204, ''204 No Content''),
      (205, ''205 Reset Content''),
      (206, ''206 Partial Content''),
      (207, ''207 Multi Status''),
      (208, ''208 Already Reported''),
      (226, ''226 Im Used''),
      (300, ''300 Multiple Choices''),
      (301, ''301 Moved Permanently''),
      (302, ''302 Found''),
      (303, ''303 See Other''),
      (304, ''304 Not Modified''),
      (305, ''305 Use Proxy''),
      (307, ''307 Temporary Redirect''),
      (308, ''308 Permanent Redirect''),
      (400, ''400 Bad Request''),
      (401, ''401 Unauthorized''),
      (402, ''402 Payment Required''),
      (403, ''403 Forbidden''),
      (404, ''404 Not Found''),
      (405, ''405 Method Not Allowed''),
      (406, ''406 Not Acceptable''),
      (407, ''407 Proxy Authentication Required''),
      (408, ''408 Request Timeout''),
      (409, ''409 Conflict''),
      (410, ''410 Gone''),
      (411, ''411 Length Required''),
      (412, ''412 Precondition Failed''),
      (413, ''413 Payload Too Large''),
      (414, ''414 URI Too Long''),
      (415, ''415 Unsupported Media Type''),
      (416, ''416 Range Not Satisfiable''),
      (417, ''417 Expectation Failed''),
      (418, ''418 Im A Teapot''),
      (421, ''421 Misdirected Request''),
      (422, ''422 Unprocessable Entity''),
      (423, ''423 Locked''),
      (424, ''424 Failed Dependency''),
      (425, ''425 Too Early''),
      (426, ''426 Upgrade Required''),
      (428, ''428 Precondition Required''),
      (429, ''429 Too Many Requests''),
      (431, ''431 Request Header Fields Too Large''),
      (451, ''451 Unavailable For Legal Reasons''),
      (500, ''500 Internal Server Error''),
      (501, ''501 Not Implemented''),
      (502, ''502 Bad Gateway''),
      (503, ''503 Service Unavailable''),
      (504, ''504 Gateway Timeout''),
      (505, ''505 HTTP Version Not Supported''),
      (506, ''506 Variant Also Negotiates''),
      (507, ''507 Insufficient Storage''),
      (508, ''508 Loop Detected''),
      (510, ''510 Not Extended''),
      (511, ''511 Network Authentication Required'')]"

definition get_status_code_and_description_as_string :: "nat \<Rightarrow> string" where
  "get_status_code_and_description_as_string code =
     (case map_of status_table code of Some s \<Rightarrow> s | None \<Rightarrow> ''unknown http status code'')"

definition set_version_type_resp :: "http_version \<Rightarrow> http_response \<Rightarrow> http_response" where
  "set_version_type_resp v r = r\<lparr>resp_version := Some v\<rparr>"

definition set_status_code :: "nat \<Rightarrow> http_response \<Rightarrow> http_response" where
  "set_status_code code r = r\<lparr>status_code := code\<rparr>"

definition set_header :: "string \<Rightarrow> string \<Rightarrow> http_response \<Rightarrow> http_response" where
  "set_header key value r = r\<lparr>resp_headers := (resp_headers r)(key \<mapsto> value)\<rparr>"

definition get_header_resp :: "string \<Rightarrow> http_response \<Rightarrow> string" where
  "get_header_resp key r = (case resp_headers r key of Some v \<Rightarrow> v | None \<Rightarrow> [])"

definition erase_header :: "string \<Rightarrow> http_response \<Rightarrow> bool \<times> http_response" where
  "erase_header key r =
     (if resp_headers r key \<noteq> None then (True, r\<lparr>resp_headers := (resp_headers r)(key := None)\<rparr>)
      else (False, r))"

definition set_body_copy :: "string \<Rightarrow> http_response \<Rightarrow> http_response" where
  "set_body_copy body r = set_header ''Content-Length'' (decimal (length body)) (r\<lparr>resp_body := body\<rparr>)"

text \<open>The overload that moves measures the argument after it has been moved from (libstdc++ leaves it
  empty).\<close>

definition set_body_move :: "string \<Rightarrow> http_response \<Rightarrow> http_response" where
  "set_body_move body r =
     (let moved_from = [] :: string in
      set_header ''Content-Length'' (decimal (length moved_from)) (r\<lparr>resp_body := body\<rparr>))"

section \<open>Serialisation\<close>

fun dump_headers :: "(string \<times> string) list \<Rightarrow> tcp_buffer \<Rightarrow> tcp_buffer outcome" where
  "dump_headers [] b = Inr b"
| "dump_headers ((k, v) # hs) b =
     obind (append_buf k b) (\<lambda>b1.
     obind (append_colon b1) (\<lambda>b2.
     obind (append_buf v b2) (\<lambda>b3.
     obind (append_crlf b3) (\<lambda>b4. dump_headers hs b4))))"

definition dump_to_tcp_buffer ::
  "(string \<times> string) list \<Rightarrow> http_response \<Rightarrow> tcp_buffer \<Rightarrow> tcp_buffer outcome" where
  "dump_to_tcp_buffer entries r b =
     (if status_code r = S_NONE then
        Inl (Fatal ''tried to dump a http response before setting the status code'')
      else case resp_version r of
          None \<Rightarrow> Inl (Undefined ''read of an uninitialised version'')
        | Some v \<Rightarrow>
            (case get_version_type_as_string_resp v of
               None \<Rightarrow> Inl (Undefined ''strlen of a null pointer'')
             | Some version_str \<Rightarrow>
                 obind (append_buf version_str b) (\<lambda>b1.
                 obind (append_space b1) (\<lambda>b2.
                 obind (append_buf (get_status_code_and_description_as_string (status_code r)) b2) (\<lambda>b3.
                 obind (append_crlf b3) (\<lambda>b4.
                 obind (dump_headers entries b4) (\<lambda>b5.
                 obind (append_crlf b5) (\<lambda>b6.
                 if resp_body r \<noteq> [] then append_buf (resp_body r) b6 else Inr b6))))))))"

definition send_to_tcp_connection ::
  "nat \<Rightarrow> (string \<times> string) list \<Rightarrow> http_response \<Rightarrow> 'ctx connection \<Rightarrow> 'ctx connection outcome" where
  "send_to_tcp_connection n entries r c =
     obind (dump_to_tcp_buffer entries r new_tcp_buffer) (\<lambda>b.
       conn_send n (take (get_readable_size b) (drop (get_read_position b) (chars b))) c)"

section \<open>The text of a response\<close>

definition header_text :: "(string \<times> string) list \<Rightarrow> string" where
  "header_text hs = concat (map (\<lambda>(k, v). k @ '':'' @ v @ [CR, LF]) hs)"

definition response_text :: "string \<Rightarrow> nat \<Rightarrow> (string \<times> string) list \<Rightarrow> string \<Rightarrow> string" where
  "response_text version_str code hs body =
     version_str @ '' '' @ get_status_code_and_description_as_string code @ [CR, LF] @
     header_text hs @ [CR, LF] @ body"

lemma dump_headers_spec:
  "buffer_ok b \<Longrightarrow>
     \<exists>b'. dump_headers hs b = Inr b' \<and> buffer_ok b' \<and> content b' = content b @ header_text hs"
proof (induction hs arbitrary: b)
  case Nil
  then show ?case by (simp add: header_text_def)
next
  case (Cons kv hs)
  obtain k v where kv: "kv = (k, v)" by fastforce
  obtain b1 where 1: "append_buf k b = Inr b1" "buffer_ok b1" "content b1 = content b @ k"
    using appendE [OF Cons.prems] .
  obtain b2 where 2: "append_colon b1 = Inr b2" "buffer_ok b2" "content b2 = content b1 @ '':''"
    unfolding append_colon_def using appendE [OF 1(2)] .
  obtain b3 where 3: "append_buf v b2 = Inr b3" "buffer_ok b3" "content b3 = content b2 @ v"
    using appendE [OF 2(2)] .
  obtain b4 where 4: "append_crlf b3 = Inr b4" "buffer_ok b4" "content b4 = content b3 @ [CR, LF]"
    unfolding append_crlf_def using appendE [OF 3(2)] .
  from Cons.IH [OF 4(2)] 1 2 3 4 kv show ?case by (auto simp: header_text_def)
qed

lemma dump_spec:
  assumes ok: "buffer_ok b" and st: "status_code r \<noteq> S_NONE"
    and v: "resp_version r = Some v" "get_version_type_as_string_resp v = Some vs"
  shows "\<exists>b'. dump_to_tcp_buffer hs r b = Inr b' \<and> buffer_ok b' \<and>
    content b' = content b @ response_text vs (status_code r) hs (resp_body r)"
proof -
  let ?d = "get_status_code_and_description_as_string (status_code r)"
  obtain b1 where 1: "append_buf vs b = Inr b1" "buffer_ok b1" "content b1 = content b @ vs"
    using appendE [OF ok] .
  obtain b2 where 2: "append_space b1 = Inr b2" "buffer_ok b2" "content b2 = content b1 @ '' ''"
    unfolding append_space_def using appendE [OF 1(2)] .
  obtain b3 where 3: "append_buf ?d b2 = Inr b3" "buffer_ok b3" "content b3 = content b2 @ ?d"
    using appendE [OF 2(2)] .
  obtain b4 where 4: "append_crlf b3 = Inr b4" "buffer_ok b4" "content b4 = content b3 @ [CR, LF]"
    unfolding append_crlf_def using appendE [OF 3(2)] .
  obtain b5 where 5: "dump_headers hs b4 = Inr b5" "buffer_ok b5" "content b5 = content b4 @ header_text hs"
    using dump_headers_spec [OF 4(2)] by blast
  obtain b6 where 6: "append_crlf b5 = Inr b6" "buffer_ok b6" "content b6 = content b5 @ [CR, LF]"
    unfolding append_crlf_def using appendE [OF 5(2)] .
  obtain b7 where 7: "append_buf (resp_body r) b6 = Inr b7" "buffer_ok b7" "content b7 = content b6 @ resp_body r"
    using appendE [OF 6(2)] .
  show ?thesis
    using st v 1 2 3 4 5 6 7
    by (cases "resp_body r = []") (simp_all add: dump_to_tcp_buffer_def response_text_def)
qed

lemma send_to_tcp_connection_eq:
  assumes "status_code r \<noteq> S_NONE" "resp_version r = Some v" "get_version_type_as_string_resp v = Some vs"
  shows "send_to_tcp_connection n hs r c = conn_send n (response_text vs (status_code r) hs (resp_body r)) c"
proof -
  obtain b where b: "dump_to_tcp_buffer hs r new_tcp_buffer = Inr b" "buffer_ok b"
      "content b = response_text vs (status_code r) hs (resp_body r)"
    using dump_spec [OF buffer_ok_new assms] by auto
  have "take (get_readable_size b) (drop (get_read_position b) (chars b)) = content b"
    using b(2) length_content [OF b(2)] by (simp add: content_drop get_read_position_def)
  with b show ?thesis by (simp add: send_to_tcp_connection_def)
qed

section \<open>Responses that parse back\<close>

definition clean_header :: "string \<times> string \<Rightarrow> bool" where
  "clean_header kv \<longleftrightarrow>
     (case kv of (k, v) \<Rightarrow> k \<noteq> [] \<and> CHR '':'' \<notin> set k \<and> strip k = k \<and> strip v = v \<and>
        CR \<notin> set k \<and> CR \<notin> set v)"

lemma no_CR_clean: "CR \<notin> set l \<Longrightarrow> clean_line l"
proof -
  assume cr: "CR \<notin> set l"
  then have "first_crlf l = None" by (induction l rule: first_crlf.induct) auto
  moreover have "l = [] \<or> last l \<noteq> CR" using cr last_in_set by metis
  ultimately show ?thesis by (simp add: clean_line_def)
qed

lemma header_of_clean:
  assumes "clean_header (k, v)"
  shows "header_of_line (k @ '':'' @ v) = Some (k, v)" "clean_line (k @ '':'' @ v)"
proof -
  have k: "CHR '':'' \<notin> set k" "k \<noteq> []" "strip k = k" "strip v = v" "CR \<notin> set (k @ '':'' @ v)"
    using assms by (auto simp: clean_header_def)
  have "takeWhile (\<lambda>c. c \<noteq> CHR '':'') (k @ '':'' @ v) = k"
    "dropWhile (\<lambda>c. c \<noteq> CHR '':'') (k @ '':'' @ v) = '':'' @ v"
    using k(1) by (auto simp: takeWhile_append dropWhile_append)
  then show "header_of_line (k @ '':'' @ v) = Some (k, v)"
    using k by (simp add: header_of_line_def)
  show "clean_line (k @ '':'' @ v)" using k(5) by (rule no_CR_clean)
qed

lemma header_text_lines: "header_text hs = concat (map (\<lambda>l. l @ [CR, LF]) (map (\<lambda>(k, v). k @ '':'' @ v) hs))"
  by (induction hs) (auto simp: header_text_def)

lemma fold_header_step:
  "\<forall>kv \<in> set hs. clean_header kv \<Longrightarrow>
     fold header_step (map (\<lambda>(k, v). k @ '':'' @ v) hs) r =
       r\<lparr>req_headers := req_headers r ++ map_of (rev hs)\<rparr>"
proof (induction hs arbitrary: r)
  case (Cons kv hs)
  obtain k v where kv: "kv = (k, v)" by fastforce
  then have "header_step (k @ '':'' @ v) r = r\<lparr>req_headers := (req_headers r)(k \<mapsto> v)\<rparr>"
    using Cons.prems header_of_clean [of k v] by (simp add: header_step_def)
  with Cons kv show ?case by (simp add: map_add_def fun_eq_iff split: option.splits)
qed simp



text \<open>Serialising a response with its version and status set appends to the buffer exactly its
  status line, its headers in the container's order, the empty line and the body.\<close>

theorem response_dump_functional:
  assumes "buffer_ok b" "status_code r \<noteq> S_NONE"
    and "resp_version r = Some v" "get_version_type_as_string_resp v = Some vs"
  shows "\<exists>b'. dump_to_tcp_buffer hs r b = Inr b' \<and> buffer_ok b' \<and>
    content b' = content b @ vs @ '' '' @ get_status_code_and_description_as_string (status_code r) @
      [CR, LF] @ header_text hs @ [CR, LF] @ resp_body r"
  using dump_spec [OF assms, of hs] by (simp add: response_text_def)

theorem response_dump_functional_witness:
  "\<exists>b'. dump_to_tcp_buffer [] (set_status_code 404 (set_version_type_resp HTTP_1_1 new_http_response))
       new_tcp_buffer = Inr b' \<and> buffer_ok b' \<and>
     content b' = content new_tcp_buffer @ ''HTTP/1.1'' @ '' '' @
       get_status_code_and_description_as_string
         (status_code (set_status_code 404 (set_version_type_resp HTTP_1_1 new_http_response))) @
       [CR, LF] @ header_text [] @ [CR, LF] @
       resp_body (set_status_code 404 (set_version_type_resp HTTP_1_1 new_http_response))"
  by (rule response_dump_functional [where v = HTTP_1_1])
    (simp_all add: set_status_code_def set_version_type_resp_def S_NONE_def get_version_type_as_string_resp_def)

lemma decimal_0: "decimal 0 = ''0''"
  by code_simp

text \<open>The length a response announces: copying the body in announces its length in decimal, but the
  overload that moves the body in announces 0 for every body, so a client ignores the body.\<close>

theorem announced_content_length:
  "decimal_value 0 (get_header_resp ''Content-Length'' (set_body_copy body r)) =
     length (resp_body (set_body_copy body r)) \<and>
   get_header_resp ''Content-Length'' (set_body_move body r) = ''0'' \<and>
   resp_body (set_body_move body r) = body"
  by (simp add: get_header_resp_def set_body_copy_def set_body_move_def set_header_def decimal_0 Let_def)

end
