(* ===== verification/Time_Point.thy ===== *)
theory Time_Point
  imports Server_Prelude "HOL-Library.Signed_Division"
begin

text \<open>
  \<^verbatim>\<open>TimeInterval\<close> and \<^verbatim>\<open>TimePoint\<close> (include/util/time_point.h, src/util/time_point.cc): 64-bit
  nanosecond counts. Arithmetic that leaves the range of \<^verbatim>\<open>int64_t\<close> is a signed overflow and
  therefore an undefined outcome. The date strings are cached per second in thread-local
  arrays; the theorem at the end says when the cache is transparent.
\<close>

section \<open>Intervals and points\<close>

definition SECOND :: int where
  "SECOND = 1000 * 1000 * 1000"

definition INTERVAL_FOREVER :: int where
  "INTERVAL_FOREVER = 0x7fffffffffffffff"

definition FOREVER :: int where
  "FOREVER = 0x7ffffffffffffffe"

definition int64_result :: "int \<Rightarrow> int outcome" where
  "int64_result x = (if in_int64 x then Inr x else Inl (Undefined ''signed integer overflow''))"

definition interval_add :: "int \<Rightarrow> int \<Rightarrow> int outcome" where
  "interval_add a b = int64_result (a + b)"

definition interval_sub :: "int \<Rightarrow> int \<Rightarrow> int outcome" where
  "interval_sub a b = int64_result (a - b)"

definition interval_mul :: "int \<Rightarrow> int \<Rightarrow> int outcome" where
  "interval_mul a k = int64_result (a * k)"

definition interval_nonzero :: "int \<Rightarrow> bool" where
  "interval_nonzero a \<longleftrightarrow> a \<noteq> 0"

definition time_add :: "int \<Rightarrow> int \<Rightarrow> int outcome" where
  "time_add t d = int64_result (t + d)"

definition time_sub :: "int \<Rightarrow> int \<Rightarrow> int outcome" where
  "time_sub t d = int64_result (t - d)"

definition time_diff :: "int \<Rightarrow> int \<Rightarrow> int outcome" where
  "time_diff t u = int64_result (t - u)"

definition time_less :: "int \<Rightarrow> int \<Rightarrow> bool" where
  "time_less t u \<longleftrightarrow> t < u"

lemma int64_result_Inr [simp]: "int64_result x = Inr y \<longleftrightarrow> in_int64 x \<and> y = x"
  by (auto simp: int64_result_def)

lemma FOREVER_in_int64 [simp]: "in_int64 FOREVER" "in_int64 (FOREVER + 1)"
  by (simp_all add: in_int64_def FOREVER_def)

section \<open>Conversion to timespec\<close>

text \<open>C++ division truncates towards zero.\<close>

definition get_timespec :: "int \<Rightarrow> int \<times> int" where
  "get_timespec ns = (ns sdiv SECOND, ns smod SECOND)"

definition get_nanoseconds_from_epoch :: "int \<times> int \<Rightarrow> int outcome" where
  "get_nanoseconds_from_epoch ts =
     (case ts of (sec, nsec) \<Rightarrow>
        obind (int64_result (sec * SECOND)) (\<lambda>s. int64_result (s + nsec)))"

lemma get_timespec_nonneg:
  "0 \<le> ns \<Longrightarrow> get_timespec ns = (ns div SECOND, ns mod SECOND)"
  by (simp add: get_timespec_def SECOND_def signed_divide_int_def signed_modulo_int_def
      sgn_if minus_div_mult_eq_mod [symmetric])

text \<open>Splitting a non-negative time point into seconds and nanoseconds gives a nanosecond part
  the kernel accepts (less than one second), and reading the clock value back gives the same time
  point, without overflow.\<close>

theorem timespec_roundtrip:
  assumes "in_int64 t" "0 \<le> t"
  shows "get_nanoseconds_from_epoch (get_timespec t) = Inr t \<and>
         0 \<le> snd (get_timespec t) \<and> snd (get_timespec t) < SECOND \<and> 0 \<le> fst (get_timespec t)"
proof -
  have split: "t = t div SECOND * SECOND + t mod SECOND" by simp
  have m: "0 \<le> t mod SECOND" "t mod SECOND < SECOND" by (simp_all add: SECOND_def)
  have d: "0 \<le> t div SECOND" using assms by (simp add: SECOND_def pos_imp_zdiv_nonneg_iff)
  have "0 \<le> t div SECOND * SECOND" using d by (simp add: SECOND_def)
  then have "in_int64 (t div SECOND * SECOND)"
    using assms(1) split m unfolding in_int64_def by linarith
  with assms(1) m d show ?thesis
    by (simp add: get_timespec_nonneg [OF assms(2)] get_nanoseconds_from_epoch_def int64_result_def)
qed

theorem timespec_roundtrip_witness:
  "get_nanoseconds_from_epoch (get_timespec 1500000000) = Inr 1500000000 \<and>
   0 \<le> snd (get_timespec 1500000000) \<and> snd (get_timespec 1500000000) < SECOND \<and>
   0 \<le> fst (get_timespec 1500000000)"
  by (rule timespec_roundtrip) (simp_all add: in_int64_def)

section \<open>Date strings and their cache\<close>

datatype purpose = RENAMING | PRINTING

text \<open>
  \<open>fmt\<close> stands for \<^verbatim>\<open>localtime_r\<close> followed by \<^verbatim>\<open>strftime\<close> with the format of the purpose.
\<close>

record datetime_cache =
  seconds_cache :: int
  renaming_buffer :: string
  renaming_length :: nat
  printing_buffer :: string
  printing_length :: nat

definition initial_cache :: datetime_cache where
  "initial_cache =
     \<lparr>seconds_cache = 0, renaming_buffer = replicate 32 NUL, renaming_length = 0,
      printing_buffer = replicate 32 NUL, printing_length = 0\<rparr>"

text \<open>\<^verbatim>\<open>snprintf(_, _, ".%09ld", n)\<close>.\<close>

definition nano_suffix :: "int \<Rightarrow> string" where
  "nano_suffix n =
     (if 0 \<le> n then ''.'' @ pad_left (CHR ''0'') 9 (decimal (nat n))
      else ''.-'' @ pad_left (CHR ''0'') 8 (decimal (nat (- n))))"

definition refresh_cache ::
  "(purpose \<Rightarrow> int \<Rightarrow> string) \<Rightarrow> int \<Rightarrow> datetime_cache \<Rightarrow> datetime_cache" where
  "refresh_cache fmt sec c =
     (if seconds_cache c \<noteq> sec then
        c\<lparr>seconds_cache := sec,
          renaming_buffer := mem_write (renaming_buffer c) 0 (fmt RENAMING sec @ [NUL]),
          renaming_length := length (fmt RENAMING sec),
          printing_buffer := mem_write (printing_buffer c) 0 (fmt PRINTING sec @ [NUL]),
          printing_length := length (fmt PRINTING sec)\<rparr>
      else c)"

definition get_datetime_string ::
  "(purpose \<Rightarrow> int \<Rightarrow> string) \<Rightarrow> int \<Rightarrow> purpose \<Rightarrow> datetime_cache \<Rightarrow> string \<times> datetime_cache" where
  "get_datetime_string fmt t p c =
     (case get_timespec t of (sec, nsec) \<Rightarrow>
        let c1 = refresh_cache fmt sec c; suffix = nano_suffix nsec in
        (case p of
           RENAMING \<Rightarrow>
             let buf = mem_write (renaming_buffer c1) (renaming_length c1) (suffix @ [NUL]) in
             (take (renaming_length c1 + length suffix) buf, c1\<lparr>renaming_buffer := buf\<rparr>)
         | PRINTING \<Rightarrow>
             let buf = mem_write (printing_buffer c1) (printing_length c1) (suffix @ [NUL]) in
             (take (printing_length c1 + length suffix) buf, c1\<lparr>printing_buffer := buf\<rparr>)))"

text \<open>\<^verbatim>\<open>Datetime::get_datetime_string\<close>: the same formats without the cache and the fraction.\<close>

definition datetime_string :: "(purpose \<Rightarrow> int \<Rightarrow> string) \<Rightarrow> int \<Rightarrow> purpose \<Rightarrow> string" where
  "datetime_string fmt sec p = fmt p sec"

definition cache_ok :: "(purpose \<Rightarrow> int \<Rightarrow> string) \<Rightarrow> datetime_cache \<Rightarrow> bool" where
  "cache_ok fmt c \<longleftrightarrow>
     renaming_length c \<le> length (renaming_buffer c) \<and> printing_length c \<le> length (printing_buffer c) \<and>
     (seconds_cache c \<noteq> 0 \<longrightarrow>
        take (renaming_length c) (renaming_buffer c) = fmt RENAMING (seconds_cache c) \<and>
        take (printing_length c) (printing_buffer c) = fmt PRINTING (seconds_cache c))"

fun datetime_strings ::
  "(purpose \<Rightarrow> int \<Rightarrow> string) \<Rightarrow> (int \<times> purpose) list \<Rightarrow> datetime_cache \<Rightarrow> string list" where
  "datetime_strings fmt [] c = []"
| "datetime_strings fmt ((t, p) # ts) c =
     (case get_datetime_string fmt t p c of (s, c') \<Rightarrow> s # datetime_strings fmt ts c')"

lemma take_mem_write: "n = length d \<Longrightarrow> take n (mem_write m 0 (d @ e)) = d"
  by (simp add: mem_write_def)

lemma take_mem_write_at:
  "off \<le> length m \<Longrightarrow> take (off + length d) (mem_write m off (d @ e)) = take off m @ d"
  by (simp add: mem_write_def min_def)

lemma take_mem_write_before: "off \<le> length m \<Longrightarrow> take off (mem_write m off d) = take off m"
  by (simp add: mem_write_def min_def)

lemma length_mem_write_ge: "off \<le> length m \<Longrightarrow> off \<le> length (mem_write m off d)"
  by (simp add: mem_write_def)

lemma cache_ok_refresh:
  "cache_ok fmt c \<Longrightarrow> cache_ok fmt (refresh_cache fmt sec c)"
  by (auto simp: refresh_cache_def cache_ok_def take_mem_write) (auto simp: mem_write_def)

lemma cache_ok_string:
  assumes "cache_ok fmt c"
  shows "cache_ok fmt (snd (get_datetime_string fmt t p c))"
  using cache_ok_refresh [OF assms, of "fst (get_timespec t)"]
  by (cases p) (auto simp: get_datetime_string_def Let_def cache_ok_def take_mem_write_before
      length_mem_write_ge split: prod.splits)

lemma seconds_refresh [simp]: "seconds_cache (refresh_cache fmt sec c) = sec"
  by (simp add: refresh_cache_def)

lemma get_datetime_string_value:
  assumes "cache_ok fmt c" "get_timespec t = (sec, nsec)" "sec \<noteq> 0"
  shows "fst (get_datetime_string fmt t p c) = fmt p sec @ nano_suffix nsec"
  using cache_ok_refresh [OF assms(1), of sec] assms(2,3)
  by (cases p) (auto simp: get_datetime_string_def Let_def cache_ok_def take_mem_write_at)

text \<open>The per-second cache of date strings is transparent: any sequence of requests in any order,
  for any times outside the first second of the epoch, returns for each one the formatted date of
  its own second followed by its own nanoseconds.\<close>

theorem datetime_cache_transparent:
  assumes "\<forall>(t, p) \<in> set ts. fst (get_timespec t) \<noteq> 0"
  shows "datetime_strings fmt ts initial_cache =
         map (\<lambda>(t, p). datetime_string fmt (fst (get_timespec t)) p @ nano_suffix (snd (get_timespec t))) ts"
proof -
  have "datetime_strings fmt ts c =
      map (\<lambda>(t, p). datetime_string fmt (fst (get_timespec t)) p @ nano_suffix (snd (get_timespec t))) ts"
    if "cache_ok fmt c" for c
    using that assms
  proof (induction ts arbitrary: c)
    case (Cons tp ts)
    obtain t p where tp: "tp = (t, p)" by fastforce
    obtain s c' where s: "get_datetime_string fmt t p c = (s, c')" by fastforce
    have "cache_ok fmt c'" using cache_ok_string [OF Cons.prems(1), of t p] s by simp
    moreover have "s = fmt p (fst (get_timespec t)) @ nano_suffix (snd (get_timespec t))"
      using get_datetime_string_value [OF Cons.prems(1), of t] Cons.prems(2) tp s
      by (metis (mono_tags, lifting) case_prodD fst_conv list.set_intros(1) prod.collapse)
    ultimately show ?case
      using Cons.IH [of c'] Cons.prems(2) tp s by (simp add: datetime_string_def)
  qed simp
  moreover have "cache_ok fmt initial_cache" by (simp add: cache_ok_def initial_cache_def)
  ultimately show ?thesis by blast
qed

theorem datetime_cache_transparent_witness:
  "datetime_strings (\<lambda>p s. decimal (nat s)) [(1000000005, PRINTING), (2000000000, RENAMING)] initial_cache =
   map (\<lambda>(t, p). datetime_string (\<lambda>p s. decimal (nat s)) (fst (get_timespec t)) p @
                  nano_suffix (snd (get_timespec t))) [(1000000005, PRINTING), (2000000000, RENAMING)]"
  by (rule datetime_cache_transparent) (simp add: get_timespec_nonneg SECOND_def)

end
