(* ===== verification/Http_Server.thy ===== *)
theory Http_Server
  imports Http_Response Time_Point
begin

text \<open>
  \<^verbatim>\<open>HttpServer\<close> (example/http/server/include/http_server.h, src/http_server.cc) and the file server
  built on it (example/http/server/server.cc). The connection's context is the request parser; the
  file system, the iteration order of the header container and what follows the string literals
  in memory are arguments.
\<close>

section \<open>The HTTP layer of a connection\<close>

type_synonym http_connection = "http_parser connection"

definition connect_success_callback_wrapper ::
  "(http_connection \<Rightarrow> http_connection) option \<Rightarrow> http_connection \<Rightarrow> http_connection" where
  "connect_success_callback_wrapper callback c =
     (let c1 = c\<lparr>conn_context := Some new_http_parser\<rparr>
      in case callback of None \<Rightarrow> c1 | Some f \<Rightarrow> f c1)"

definition message_callback ::
  "nat \<Rightarrow> (http_request \<Rightarrow> http_connection \<Rightarrow> http_connection outcome) \<Rightarrow> int \<Rightarrow> http_connection
   \<Rightarrow> http_connection outcome" where
  "message_callback n request_callback now c =
     (let c0 = c\<lparr>time_stamp := now\<rparr> in
      case conn_context c0 of
        None \<Rightarrow> Inl (Uncaught ''std::bad_cast'')
      | Some parser \<Rightarrow>
          obind (parse now parser (input_buffer c0)) (\<lambda>(ok, parser', b).
            let c1 = c0\<lparr>conn_context := Some parser', input_buffer := b\<rparr> in
            if \<not> ok then abort_from_event_loop c1
            else if is_success parser' then
              obind (get_request parser') (\<lambda>req.
              obind (request_callback req c1) (\<lambda>c2.
                if is_write_end_shutdown c2 then Inr c2
                else if need_close req then
                  (if conn_writing c2
                   then Inr (c2\<lparr>write_complete_callback := Some [Do_Shutdown_Write]\<rparr>)
                   else shutdown_write n c2)
                else Inr (c2\<lparr>conn_context := map_option reset_parser (conn_context c2)\<rparr>)))
            else Inr c1))"

text \<open>
  The inactivity check. The main loop looks at the connection's time stamp and, if the connection
  seems inactive, leaves a functor to the connection's own loop, which looks again at the state the
  connection has by then.
\<close>

definition check_and_remove_inactive_connection ::
  "int \<Rightarrow> int \<Rightarrow> 'ctx connection \<Rightarrow> ('ctx connection \<Rightarrow> 'ctx connection outcome) option outcome" where
  "check_and_remove_inactive_connection now timeout c =
     obind (time_diff now (time_stamp c)) (\<lambda>d.
       Inr (if d > timeout
            then Some (check_and_abort_impl (\<lambda>c'. now - time_stamp c' > timeout))
            else None))"

section \<open>Paths\<close>

text \<open>
  \<^verbatim>\<open>std::search\<close> for the first \<open>k\<close> bytes at a pointer; \<open>pat\<close> is what the pointer may read. A comparison
  that needs a byte beyond it is undefined.
\<close>

datatype match = Match | Mismatch | Text_End | Out_Of_Bounds

fun match_prefix :: "nat \<Rightarrow> string \<Rightarrow> string \<Rightarrow> match" where
  "match_prefix 0 pat s = Match"
| "match_prefix (Suc k) pat [] = Text_End"
| "match_prefix (Suc k) [] (t # ts) = Out_Of_Bounds"
| "match_prefix (Suc k) (p # ps) (t # ts) = (if p = t then match_prefix k ps ts else Mismatch)"

fun std_search :: "nat \<Rightarrow> string \<Rightarrow> string \<Rightarrow> bool outcome" where
  "std_search k pat [] = Inr False"
| "std_search k pat (t # ts) =
     (case match_prefix k pat (t # ts) of
        Match \<Rightarrow> Inr True
      | Text_End \<Rightarrow> Inr False
      | Out_Of_Bounds \<Rightarrow> Inl (Undefined ''read past a string literal'')
      | Mismatch \<Rightarrow> std_search k pat ts)"

definition slash_dot_dot_slash :: string where
  "slash_dot_dot_slash = ''/../''"

text \<open>\<^verbatim>\<open>sizeof\<close> of the pointer, not of the literal.\<close>

definition slash_dot_dot_slash_len :: nat where
  "slash_dot_dot_slash_len = 8"

definition check_if_is_valid_path :: "string \<Rightarrow> bool outcome" where
  "check_if_is_valid_path path =
     (if hd (path @ [NUL]) \<noteq> CHR ''/'' then Inr False
      else obind (std_search slash_dot_dot_slash_len (slash_dot_dot_slash @ [NUL]) path)
             (\<lambda>found. Inr (\<not> found)))"

definition root :: string where
  "root = ''./example/http/server''"

definition html_404_file_path :: string where
  "html_404_file_path = ''./example/http/server/404.html''"

definition images_folder :: string where
  "images_folder = ''/static/images/''"

definition images_folder_len :: nat where
  "images_folder_len = 8"

text \<open>\<^verbatim>\<open>strncmp(...) == 0\<close>.\<close>

fun strncmp_eq :: "string \<Rightarrow> string \<Rightarrow> nat \<Rightarrow> bool" where
  "strncmp_eq s t 0 = True"
| "strncmp_eq s t (Suc n) =
     (let a = (case s of [] \<Rightarrow> NUL | x # _ \<Rightarrow> x); b = (case t of [] \<Rightarrow> NUL | x # _ \<Rightarrow> x)
      in if a \<noteq> b then False else if a = NUL then True else strncmp_eq (tl s) (tl t) n)"

text \<open>The file system: what a path names. A directory has a size too.\<close>

datatype fs_entry = Regular string | Directory nat | Unreadable

type_synonym files = "string \<rightharpoonup> fs_entry"

text \<open>System calls see a path up to its first NUL.\<close>

definition os_path :: "string \<Rightarrow> string" where
  "os_path path = takeWhile (\<lambda>c. c \<noteq> NUL) path"

definition check_if_path_exists :: "files \<Rightarrow> string \<Rightarrow> bool" where
  "check_if_path_exists files path \<longleftrightarrow> files (os_path path) \<noteq> None"

definition check_if_path_exists_and_expand_it :: "files \<Rightarrow> string \<Rightarrow> bool \<times> string" where
  "check_if_path_exists_and_expand_it files path =
     (if path = ''/'' then (True, root @ path @ ''index.html'')
      else if path = ''/index.html'' then (True, path)
      else if \<not> strncmp_eq path images_folder images_folder_len then (False, path)
      else let path' = root @ path in (check_if_path_exists files path', path'))"

section \<open>Media types\<close>

definition mime_map :: "(string \<times> string) list" where
  "mime_map =
     [(''.html'', ''text/html''), (''.htm'', ''text/html''), (''.css'', ''text/css''),
      (''.js'', ''application/javascript''), (''.json'', ''application/json''), (''.png'', ''image/png''),
      (''.jpg'', ''image/jpeg''), (''.jpeg'', ''image/jpeg''), (''.gif'', ''image/gif''),
      (''.txt'', ''text/plain''), (''.xml'', ''application/xml''), (''.pdf'', ''application/pdf''),
      (''.zip'', ''application/zip''), (''.mp3'', ''audio/mpeg''), (''.mp4'', ''video/mp4'')]"

definition default_mime_type :: string where
  "default_mime_type = ''application/octet-stream''"

definition get_mime_type :: "string \<Rightarrow> string" where
  "get_mime_type path =
     (if CHR ''.'' \<notin> set path then default_mime_type
      else let suffix = CHR ''.'' # rev (takeWhile (\<lambda>c. c \<noteq> CHR ''.'') (rev path)) in
        case map_of mime_map suffix of Some m \<Rightarrow> m | None \<Rightarrow> default_mime_type)"

section \<open>Sending files\<close>

text \<open>
  \<open>entries\<close> yields the entries of a header container in its iteration order. Mapping a directory or an
  empty file fails, after the headers have been sent.
\<close>

definition open_file :: "files \<Rightarrow> string \<Rightarrow> (nat \<times> string option) option" where
  "open_file files path =
     (case files (os_path path) of
        None \<Rightarrow> None
      | Some Unreadable \<Rightarrow> None
      | Some (Directory sz) \<Rightarrow> Some (sz, None)
      | Some (Regular data) \<Rightarrow> Some (length data, if data = [] then None else Some data))"

definition read_file_and_send ::
  "nat \<Rightarrow> ((string \<rightharpoonup> string) \<Rightarrow> (string \<times> string) list) \<Rightarrow> files \<Rightarrow> http_response \<Rightarrow> string
   \<Rightarrow> 'ctx connection \<Rightarrow> (bool \<times> 'ctx connection) outcome" where
  "read_file_and_send n entries files response path c =
     (case open_file files path of
        None \<Rightarrow> Inr (False, c)
      | Some (file_size, mapped) \<Rightarrow>
          let r = set_header ''Content-Length'' (decimal file_size) response in
          obind (send_to_tcp_connection n (entries (resp_headers r)) r c) (\<lambda>c1.
            case mapped of
              None \<Rightarrow> Inr (False, c1)
            | Some data \<Rightarrow> obind (conn_send n data c1) (\<lambda>c2. Inr (True, c2))))"

definition send_404 ::
  "nat \<Rightarrow> ((string \<rightharpoonup> string) \<Rightarrow> (string \<times> string) list) \<Rightarrow> files \<Rightarrow> bool \<Rightarrow> 'ctx connection
   \<Rightarrow> 'ctx connection outcome" where
  "send_404 n entries files close_it c =
     (let r = set_header ''Content-Type'' ''text/html; charset=UTF-8''
                (set_status_code S_404_NOT_FOUND (set_version_type_resp HTTP_1_1 new_http_response));
          r' = (if close_it then set_header ''Connection'' ''close'' r else r)
      in obind (read_file_and_send n entries files r' html_404_file_path c) (\<lambda>(ok, c'). Inr c'))"

definition file_response :: "bool \<Rightarrow> string \<Rightarrow> http_response" where
  "file_response close_it path =
     (let r = set_header ''Content-Type'' (get_mime_type path)
                (set_status_code S_200_OK (set_version_type_resp HTTP_1_1 new_http_response))
      in if close_it then set_header ''Connection'' ''close'' r else r)"

definition send_file ::
  "nat \<Rightarrow> ((string \<rightharpoonup> string) \<Rightarrow> (string \<times> string) list) \<Rightarrow> files \<Rightarrow> bool \<Rightarrow> string \<Rightarrow> 'ctx connection
   \<Rightarrow> 'ctx connection outcome" where
  "send_file n entries files close_it path c =
     obind (read_file_and_send n entries files (file_response close_it path) path c) (\<lambda>(ok, c'). Inr c')"

definition http_request_callback ::
  "nat \<Rightarrow> ((string \<rightharpoonup> string) \<Rightarrow> (string \<times> string) list) \<Rightarrow> files \<Rightarrow> http_request \<Rightarrow> 'ctx connection
   \<Rightarrow> 'ctx connection outcome" where
  "http_request_callback n entries files req c =
     (if is_write_end_shutdown c then Inr c
      else if req_method req \<noteq> GET then send_404 n entries files (need_close req) c
      else obind (check_if_is_valid_path (req_path req)) (\<lambda>valid.
        if \<not> valid then send_404 n entries files (need_close req) c
        else (case check_if_path_exists_and_expand_it files (req_path req) of (exists, path) \<Rightarrow>
          if \<not> exists then send_404 n entries files (need_close req) c
          else send_file n entries files (need_close req) path c)))"

text \<open>Built for benchmarking, every request gets the same bytes: the array of a string literal, with its final zero.\<close>

definition hello_world_response_content :: string where
  "hello_world_response_content =
     ''HTTP/1.1 200 OK'' @ [CR, LF] @ ''Content-type: text/plain'' @ [CR, LF, CR, LF] @ ''Hello World'' @ [NUL]"

definition benchmark_request_callback :: "nat \<Rightarrow> http_request \<Rightarrow> 'ctx connection \<Rightarrow> 'ctx connection outcome" where
  "benchmark_request_callback n req c =
     (if is_write_end_shutdown c then Inr c else conn_send n hello_world_response_content c)"

text \<open>After the header comes a body of twelve bytes, of which the last is zero and whose length is not announced.\<close>

lemma benchmark_response:
  "streaming sent c \<Longrightarrow> \<exists>c'. benchmark_request_callback n req c = Inr c' \<and>
     (streaming (sent @ hello_world_response_content) c' \<or> given_up (sent @ hello_world_response_content) c')"
  "last hello_world_response_content = NUL"
  using conn_send_streaming [of sent c n hello_world_response_content]
  by (auto simp: benchmark_request_callback_def streaming_def alive_def) (simp add: hello_world_response_content_def)

section \<open>What the path checks accept\<close>

lemma match_prefix_no_NUL:
  "NUL \<notin> set s \<Longrightarrow> length pat < k \<Longrightarrow> match_prefix k (pat @ [NUL]) s \<in> {Mismatch, Text_End}"
proof (induction k "pat @ [NUL]" s arbitrary: pat rule: match_prefix.induct)
  case (4 k p ps t ts)
  show ?case
  proof (cases pat)
    case Nil
    with 4 show ?thesis by auto
  next
    case (Cons q qs)
    with 4 show ?thesis by auto
  qed
qed auto

lemma std_search_no_NUL:
  "NUL \<notin> set s \<Longrightarrow> length pat < k \<Longrightarrow> std_search k (pat @ [NUL]) s = Inr False"
proof (induction s)
  case (Cons t ts)
  with match_prefix_no_NUL [of "t # ts" pat k] show ?case by auto
qed simp

lemma valid_path_any:
  "NUL \<notin> set path \<Longrightarrow> path \<noteq> [] \<Longrightarrow> hd path = CHR ''/'' \<Longrightarrow> check_if_is_valid_path path = Inr True"
  using std_search_no_NUL [of path slash_dot_dot_slash slash_dot_dot_slash_len]
  by (simp add: check_if_is_valid_path_def slash_dot_dot_slash_def slash_dot_dot_slash_len_def)

lemma os_path_id: "NUL \<notin> set path \<Longrightarrow> os_path path = path"
  by (simp add: os_path_def takeWhile_eq_all_conv) blast

lemma strncmp_static:
  "strncmp_eq (''/static/'' @ p) images_folder images_folder_len"
  by (simp add: images_folder_def images_folder_len_def eval_nat_numeral)

text \<open>C36: The file server serves any file reachable from its static folder by dot-dot components: the
  check for them compares eight bytes of a five-byte literal and so never matches, and of the
  image folder's name only the first eight characters are compared.\<close>

theorem dot_dot_paths_are_served:
  assumes "NUL \<notin> set p" "files (root @ ''/static/'' @ p) = Some entry"
    and "req_method req = GET" "req_path req = ''/static/'' @ p" "\<not> is_write_end_shutdown c"
  shows "http_request_callback n entries files req c =
         send_file n entries files (need_close req) (root @ ''/static/'' @ p) c"
proof -
  have "check_if_is_valid_path (''/static/'' @ p) = Inr True"
    using assms(1) by (intro valid_path_any) auto
  moreover have "check_if_path_exists_and_expand_it files (''/static/'' @ p) = (True, root @ ''/static/'' @ p)"
    using assms(1,2) strncmp_static [of p] os_path_id [of "root @ ''/static/'' @ p"]
    by (simp add: check_if_path_exists_and_expand_it_def check_if_path_exists_def root_def)
  ultimately show ?thesis
    using assms(3-5) by (simp add: http_request_callback_def)
qed

theorem dot_dot_paths_are_served_witness:
  "http_request_callback 0 (\<lambda>m. []) [root @ ''/static/'' @ ''../404.html'' \<mapsto> Regular ''x'']
     (new_http_request\<lparr>req_method := GET, req_path := ''/static/'' @ ''../404.html''\<rparr>)
     (started_connection [] :: nat connection) =
   send_file 0 (\<lambda>m. []) [root @ ''/static/'' @ ''../404.html'' \<mapsto> Regular ''x''] False
     (root @ ''/static/'' @ ''../404.html'') (started_connection [])"
  using dot_dot_paths_are_served [of "''../404.html''" "[root @ ''/static/'' @ ''../404.html'' \<mapsto> Regular ''x'']" "Regular ''x''"
      "new_http_request\<lparr>req_method := GET, req_path := ''/static/'' @ ''../404.html''\<rparr>"
      "started_connection [] :: nat connection" 0 "\<lambda>m. []"]
  by (simp add: started_connection_def new_connection_def new_http_request_def)

lemma rev_takeWhile_suffix:
  "CHR ''.'' \<notin> set e \<Longrightarrow> rev (takeWhile (\<lambda>c. c \<noteq> CHR ''.'') (rev (p @ CHR ''.'' # e))) = e"
  by (simp add: takeWhile_append)

text \<open>The media type of a file is determined by what follows its last dot: every listed extension
  gives its type whatever precedes it, and every other one the default type.\<close>

theorem mime_type_of_extension:
  assumes "CHR ''.'' \<notin> set e"
  shows "get_mime_type (p @ CHR ''.'' # e) =
         (case map_of mime_map (CHR ''.'' # e) of Some m \<Rightarrow> m | None \<Rightarrow> ''application/octet-stream'')"
  using rev_takeWhile_suffix [OF assms, of p]
  unfolding get_mime_type_def default_mime_type_def Let_def by simp

theorem mime_type_of_extension_witness:
  "get_mime_type (''/static/images/a.b'' @ CHR ''.'' # ''png'') =
     (case map_of mime_map (CHR ''.'' # ''png'') of Some m \<Rightarrow> m | None \<Rightarrow> ''application/octet-stream'')"
  by (rule mime_type_of_extension) simp

section \<open>Inactive connections\<close>

text \<open>The inactivity check leaves a functor to the connection's loop exactly when the connection
  looked inactive to the main loop; the functor leaves a connection alone that has become active in
  the meantime, and resets an open one that has not.\<close>

theorem inactivity_double_check:
  assumes "check_and_remove_inactive_connection now timeout c = Inr f"
  shows "(f \<noteq> None \<longleftrightarrow> now - time_stamp c > timeout) \<and>
    (\<forall>g c'. f = Some g \<longrightarrow>
       (now - time_stamp c' \<le> timeout \<longrightarrow> g c' = Inr c') \<and>
       (now - time_stamp c' > timeout \<and> alive c' \<longrightarrow>
          (\<exists>c''. g c' = Inr c'' \<and> is_aborted c'' \<and> \<not> fd_open c'' \<and> conn_detached c'')))"
  using assms abort_alive
  by (fastforce simp: check_and_remove_inactive_connection_def check_and_abort_impl_def time_diff_def
      outcome_simps split: if_splits)

theorem inactivity_double_check_witness:
  "\<exists>f. check_and_remove_inactive_connection 100 10 (started_connection [] :: nat connection) = Inr (Some f) \<and>
     (\<exists>c''. f (started_connection []) = Inr c'' \<and> is_aborted c'' \<and> \<not> fd_open c'' \<and> conn_detached c'')"
proof -
  let ?c = "started_connection [] :: nat connection"
  have a: "alive ?c" "time_stamp ?c = 0"
    by (simp_all add: alive_def started_connection_def new_connection_def)
  obtain f where "check_and_remove_inactive_connection 100 10 ?c = Inr (Some f)"
    using a by (auto simp: check_and_remove_inactive_connection_def time_diff_def int64_result_def in_int64_def)
  with inactivity_double_check [OF this] a show ?thesis by auto
qed

end
