(* ===== verification/Http_Session.thy ===== *)
theory Http_Session
  imports Http_Server
begin

text \<open>
  Whole sessions on one connection: reads that arrive one after the other run through the
  connection's read event, the HTTP layer, the request parser and a request handler. The handler is
  an interface: what it sends on an open connection is a function of the request. The file server
  of example/http/server/server.cc implements it.
\<close>

section \<open>Reads of a session\<close>

text \<open>Each read event finds one chunk in the socket; a detached descriptor gets no further events.\<close>

fun deliver ::
  "nat \<Rightarrow> (http_request \<Rightarrow> http_connection \<Rightarrow> http_connection outcome) \<Rightarrow> (string \<times> int) list
   \<Rightarrow> http_connection \<Rightarrow> http_connection outcome" where
  "deliver n handler [] c = Inr c"
| "deliver n handler ((chunk, now) # chunks) c =
     (if conn_detached c then Inr c
      else obind (read_event_callback n (message_callback n handler) now (c\<lparr>recv_answers := [Got chunk]\<rparr>))
             (deliver n handler chunks))"

inductive wire_request :: "http_request \<Rightarrow> string \<Rightarrow> string \<Rightarrow> bool" where
  wire_request:
    "get_method_type_as_string m = Some ms \<Longrightarrow> get_version_type_as_string_req v = Some vs \<Longrightarrow>
     p \<noteq> [] \<Longrightarrow> SP \<notin> set p \<Longrightarrow> clean_line (request_line i ms j p k vs l) \<Longrightarrow> header_lines_ok hs \<Longrightarrow>
     R = fold header_step hs (new_http_request\<lparr>req_method := m, req_path := p, req_version := v\<rparr>) \<Longrightarrow>
     announced_body R = Some (length body) \<Longrightarrow>
     wire_request R body (request_text (request_line i ms j p k vs l) hs body)"

definition idle :: "string \<Rightarrow> http_connection \<Rightarrow> bool" where
  "idle sent c \<longleftrightarrow>
     streaming sent c \<and> conn_context c = Some new_http_parser \<and> buffer_ok (input_buffer c) \<and>
     content (input_buffer c) = []"

lemma wire_request_expects: "wire_request R body T \<Longrightarrow> expects R body new_http_parser T"
  by (erule wire_request.cases) (simp add: new_http_parser_def expects_request)

lemma fold_header_step_need_close [simp]: "need_close (fold header_step hs r) = need_close r"
  by (induction hs arbitrary: r) (auto simp: header_step_def split: option.splits)

lemma fold_header_step_body [simp]: "req_body (fold header_step hs r) = req_body r"
  by (induction hs arbitrary: r) (auto simp: header_step_def split: option.splits)

lemma fold_header_step_line [simp]:
  "req_method (fold header_step hs r) = req_method r" "req_path (fold header_step hs r) = req_path r"
  by (induction hs arbitrary: r) (auto simp: header_step_def split: option.splits)

text \<open>One chunk up to the call of the message callback, and what follows it.\<close>

lemma deliver_chunk:
  assumes "streaming sent c" "buffer_ok (input_buffer c)" "d \<noteq> []"
  shows "\<exists>b. buffer_ok b \<and> content b = content (input_buffer c) @ d \<and>
    deliver n handler ((d, now) # chunks) c =
      obind (message_callback n handler now (c\<lparr>input_buffer := b, recv_answers := []\<rparr>)) (\<lambda>c2.
      obind (if \<not> conn_reading c2 then
               (let c3 = c2\<lparr>input_buffer := release_buf (input_buffer c2)\<rparr> in
                if \<not> is_write_end_shutdown c3 \<and> \<not> conn_writing c3 then shutdown_write n c3 else Inr c3)
             else Inr c2) (deliver n handler chunks))"
proof -
  obtain b where "receive_all_data 0 (c\<lparr>recv_answers := [Got d]\<rparr>) =
      Inr (length d, c\<lparr>input_buffer := b, recv_answers := []\<rparr>)"
      "buffer_ok b" "content b = content (input_buffer c) @ d"
    using receive_one [of "c\<lparr>recv_answers := [Got d]\<rparr>" d] assms(2) by auto
  moreover have "\<not> conn_detached c" using assms(1) by (simp add: streaming_def alive_def)
  ultimately show ?thesis using assms(3) by (auto simp: read_event_callback_def)
qed

lemma streaming_reading: "streaming sent c \<Longrightarrow> conn_reading c"
  by (simp add: streaming_def alive_def)

lemma deliver_given_up: "given_up sent c \<Longrightarrow> deliver n handler chunks c = Inr c"
  by (cases chunks) (auto simp: given_up_def)

section \<open>Request handlers\<close>

locale request_handler =
  fixes handler :: "http_request \<Rightarrow> http_connection \<Rightarrow> http_connection outcome"
    and accepts :: "http_request \<Rightarrow> bool"
    and reply :: "http_request \<Rightarrow> string"
  assumes handles:
    "accepts req \<Longrightarrow> streaming sent c \<Longrightarrow>
       \<exists>c'. handler req c = Inr c' \<and>
         (streaming (sent @ reply req) c' \<and> conn_context c' = conn_context c \<and>
            input_buffer c' = input_buffer c \<or>
          given_up (sent @ reply req) c')"
begin

text \<open>The message callback when the request is complete, and when it is not.\<close>

lemma message_complete:
  assumes c: "streaming sent c" "conn_context c = Some hp"
    and p: "parse now hp (input_buffer c) = Inr (True, hp', b)" "parsing_state hp' = SUCCESS"
    and ok: "accepts (request hp')" "\<not> need_close (request hp')"
  shows "\<exists>c'. message_callback n handler now c = Inr c' \<and>
    (streaming (sent @ reply (request hp')) c' \<and> conn_context c' = Some new_http_parser \<and> input_buffer c' = b \<or>
     given_up (sent @ reply (request hp')) c')"
proof -
  let ?c = "c\<lparr>time_stamp := now, conn_context := Some hp', input_buffer := b\<rparr>"
  have new: "reset_parser hp' = new_http_parser"
    using ok(2) by (simp add: reset_parser_def new_http_parser_def reset_request_def new_http_request_def)
  obtain c' where c': "handler (request hp') ?c = Inr c'"
    "streaming (sent @ reply (request hp')) c' \<and> conn_context c' = conn_context ?c \<and>
       input_buffer c' = input_buffer ?c \<or>
     given_up (sent @ reply (request hp')) c'"
    using handles [OF ok(1), of sent ?c] c(1) by auto
  have eq: "message_callback n handler now c =
      (if is_write_end_shutdown c' then Inr c'
       else Inr (c'\<lparr>conn_context := map_option reset_parser (conn_context c')\<rparr>))"
    using c(2) p c'(1) ok(2) by (simp add: message_callback_def is_success_def get_request_def)
  from c'(2) show ?thesis
  proof (elim disjE conjE)
    assume "streaming (sent @ reply (request hp')) c'" "conn_context c' = conn_context ?c"
      "input_buffer c' = input_buffer ?c"
    moreover then have "\<not> is_write_end_shutdown c'" by (simp add: streaming_def alive_def)
    ultimately show ?thesis using eq new by simp
  next
    assume g: "given_up (sent @ reply (request hp')) c'"
    then have "is_write_end_shutdown c'" by (simp add: given_up_def)
    with g eq show ?thesis by simp
  qed
qed

lemma message_incomplete:
  assumes "conn_context c = Some hp"
    and "parse now hp (input_buffer c) = Inr (True, hp', b)" "parsing_state hp' \<noteq> SUCCESS"
  shows "message_callback n handler now c =
    Inr (c\<lparr>time_stamp := now, conn_context := Some hp', input_buffer := b\<rparr>)"
  using assms by (simp add: message_callback_def is_success_def)

lemma deliver_request:
  "expects R body hp (content (input_buffer c) @ concat (map fst chunks)) \<Longrightarrow>
   streaming sent c \<Longrightarrow> conn_context c = Some hp \<Longrightarrow> buffer_ok (input_buffer c) \<Longrightarrow>
   chunks \<noteq> [] \<Longrightarrow> [] \<notin> fst ` set chunks \<Longrightarrow>
   accepts (received (snd (last chunks)) body R) \<Longrightarrow> \<not> need_close (closing R) \<Longrightarrow>
     \<exists>c'. deliver n handler chunks c = Inr c' \<and>
       (idle (sent @ reply (received (snd (last chunks)) body R)) c' \<or>
        given_up (sent @ reply (received (snd (last chunks)) body R)) c')"
proof (induction chunks arbitrary: hp c)
  case (Cons ct chunks)
  obtain d now where ct: "ct = (d, now)" by fastforce
  with Cons.prems(6) have d: "d \<noteq> []" by auto
  obtain b where b: "buffer_ok b" "content b = content (input_buffer c) @ d"
    "deliver n handler (ct # chunks) c =
      obind (message_callback n handler now (c\<lparr>input_buffer := b, recv_answers := []\<rparr>)) (\<lambda>c2.
      obind (if \<not> conn_reading c2 then
               (let c3 = c2\<lparr>input_buffer := release_buf (input_buffer c2)\<rparr> in
                if \<not> is_write_end_shutdown c3 \<and> \<not> conn_writing c3 then shutdown_write n c3 else Inr c3)
             else Inr c2) (deliver n handler chunks))"
    using deliver_chunk [OF Cons.prems(2,4) d, of n handler now chunks] ct by auto
  let ?c = "c\<lparr>input_buffer := b, recv_answers := []\<rparr>" and ?rest = "concat (map fst chunks)"
  have ex: "expects R body hp (content b @ ?rest)" using Cons.prems(1) b(2) ct by simp
  have "content b @ ?rest \<noteq> []" using b(2) d by simp
  then have st: "parsing_state hp \<in> {EXPECT_REQUEST_LINE, EXPECT_HEADERS, EXPECT_BODY}"
    using expects_SUCCESS [OF ex] expects_not_FAIL [OF ex] by (cases "parsing_state hp") auto
  obtain hp' b' where p: "parse now hp b = Inr (True, hp', b')" "progress R body ?rest now hp' b'"
    using parse_progress [OF ex b(1) st] by blast
  then have pr: "buffer_ok b'" "expects R body hp' (content b' @ ?rest)"
    "?rest = [] \<Longrightarrow> parsing_state hp' = SUCCESS"
    "parsing_state hp' = SUCCESS \<Longrightarrow> request hp' = received now body R"
    by (auto simp: progress_def)
  show ?case
  proof (cases "chunks = []")
    case True
    then have s: "parsing_state hp' = SUCCESS" "request hp' = received now body R" and e: "content b' = []"
      using pr(2,3,4) expects_SUCCESS by fastforce+
    have nc: "\<not> need_close (received now body R)" using Cons.prems(8) by (simp add: received_def)
    have "\<exists>c2. message_callback n handler now ?c = Inr c2 \<and>
      (streaming (sent @ reply (received now body R)) c2 \<and> conn_context c2 = Some new_http_parser \<and>
         input_buffer c2 = b' \<or> given_up (sent @ reply (received now body R)) c2)"
      using message_complete [of sent ?c hp now hp' b'] s p(1) Cons.prems(2,3,7) nc True ct by simp
    then obtain c2 where "message_callback n handler now ?c = Inr c2"
      "streaming (sent @ reply (received now body R)) c2 \<and> conn_context c2 = Some new_http_parser \<and>
         input_buffer c2 = b' \<or> given_up (sent @ reply (received now body R)) c2" by blast
    note m = this
    from m(2) show ?thesis
    proof
      assume st: "streaming (sent @ reply (received now body R)) c2 \<and>
        conn_context c2 = Some new_http_parser \<and> input_buffer c2 = b'"
      then have "conn_reading c2" using streaming_reading by blast
      then have "deliver n handler (ct # chunks) c = Inr c2"
        using True b(3) m(1) by simp
      with st e pr(1) True ct show ?thesis by (simp add: idle_def)
    next
      assume g: "given_up (sent @ reply (received now body R)) c2"
      then have "\<not> conn_reading c2" "is_write_end_shutdown c2" by (simp_all add: given_up_def)
      then have "deliver n handler (ct # chunks) c = Inr (c2\<lparr>input_buffer := release_buf (input_buffer c2)\<rparr>)"
        using True b(3) m(1) by simp
      with g True ct show ?thesis by simp
    qed
  next
    case False
    then have "?rest \<noteq> []" using Cons.prems(6) by (cases chunks) auto
    then have ns: "parsing_state hp' \<noteq> SUCCESS" using pr(2) expects_SUCCESS by fastforce
    let ?c2 = "?c\<lparr>time_stamp := now, conn_context := Some hp', input_buffer := b'\<rparr>"
    have "message_callback n handler now ?c = Inr ?c2"
      using message_incomplete [of ?c hp now hp' b' n] p(1) ns Cons.prems(3) by simp
    then have "deliver n handler (ct # chunks) c = deliver n handler chunks ?c2"
      using b(3) streaming_reading [OF Cons.prems(2)] by simp
    moreover have "\<exists>c'. deliver n handler chunks ?c2 = Inr c' \<and>
       (idle (sent @ reply (received (snd (last chunks)) body R)) c' \<or>
        given_up (sent @ reply (received (snd (last chunks)) body R)) c')"
      using Cons.prems False pr(1,2) by (intro Cons.IH [of hp' ?c2]) auto
    ultimately show ?thesis using False by simp
  qed
qed simp

lemma deliver_append:
  "deliver n handler (xs @ ys) c = obind (deliver n handler xs c) (deliver n handler ys)"
  if "\<And>c. conn_detached c \<Longrightarrow> deliver n handler ys c = Inr c"
  using that by (induction xs arbitrary: c) (auto intro!: obind_cong)

lemma deliver_detached: "conn_detached c \<Longrightarrow> deliver n handler xs c = Inr c"
  by (cases xs) auto

text \<open>A keep-alive session: the replies are sent in the order of the requests.\<close>

lemma deliver_session:
  "idle sent c \<or> given_up sent c \<Longrightarrow>
   (\<And>chunks R body. (chunks, R, body) \<in> set xs \<Longrightarrow>
      wire_request R body (concat (map fst chunks)) \<and> [] \<notin> fst ` set chunks \<and>
      accepts (received (snd (last chunks)) body R) \<and> \<not> need_close (closing R)) \<Longrightarrow>
     \<exists>c'. deliver n handler (concat (map fst xs)) c = Inr c' \<and>
       (idle (sent @ concat (map (\<lambda>(chunks, R, body). reply (received (snd (last chunks)) body R)) xs)) c' \<or>
        given_up (sent @ concat (map (\<lambda>(chunks, R, body). reply (received (snd (last chunks)) body R)) xs)) c')"
proof (induction xs arbitrary: sent c)
  case (Cons x xs)
  obtain chunks R body where x: "x = (chunks, R, body)" by (cases x)
  let ?r = "reply (received (snd (last chunks)) body R)"
  have wf: "wire_request R body (concat (map fst chunks))" "[] \<notin> fst ` set chunks"
      "accepts (received (snd (last chunks)) body R)" "\<not> need_close (closing R)"
    using Cons.prems(2) [of chunks R body] x by auto
  have "\<exists>c'. deliver n handler chunks c = Inr c' \<and> (idle (sent @ ?r) c' \<or> given_up (sent @ ?r) c')"
    using Cons.prems(1)
  proof
    assume i: "idle sent c"
    have "chunks \<noteq> []"
      using wf(1) by (auto elim!: wire_request.cases simp: request_text_def)
    moreover have "expects R body new_http_parser (content (input_buffer c) @ concat (map fst chunks))"
      using wire_request_expects [OF wf(1)] i by (simp add: idle_def)
    ultimately show ?thesis
      using deliver_request i wf(2-4) unfolding idle_def by blast
  next
    assume "given_up sent c"
    with deliver_given_up [of sent c n handler chunks] given_up_mono [of sent c ?r]
    show ?thesis by simp
  qed
  then obtain c' where c': "deliver n handler chunks c = Inr c'" "idle (sent @ ?r) c' \<or> given_up (sent @ ?r) c'"
    by blast
  have "deliver n handler (concat (map fst (x # xs))) c = deliver n handler (concat (map fst xs)) c'"
    using x c'(1) deliver_append [OF deliver_detached, where xs = chunks] by simp
  moreover have "\<exists>c''. deliver n handler (concat (map fst xs)) c' = Inr c'' \<and>
      (idle ((sent @ ?r) @ concat (map (\<lambda>(chunks, R, body). reply (received (snd (last chunks)) body R)) xs)) c'' \<or>
       given_up ((sent @ ?r) @ concat (map (\<lambda>(chunks, R, body). reply (received (snd (last chunks)) body R)) xs)) c'')"
    by (rule Cons.IH [OF c'(2)], rule Cons.prems(2)) simp
  ultimately show ?case unfolding x by simp
qed simp

end

section \<open>The file server as a request handler\<close>

definition served ::
  "((string \<rightharpoonup> string) \<Rightarrow> (string \<times> string) list) \<Rightarrow> files \<Rightarrow> http_response \<Rightarrow> string \<Rightarrow> string" where
  "served entries files response path =
     (case open_file files path of
        None \<Rightarrow> []
      | Some (file_size, mapped) \<Rightarrow>
          response_text ''HTTP/1.1'' (status_code response)
            (entries ((resp_headers response)(''Content-Length'' \<mapsto> decimal file_size))) (resp_body response) @
          (case mapped of None \<Rightarrow> [] | Some data \<Rightarrow> data))"

definition not_found_response :: "bool \<Rightarrow> http_response" where
  "not_found_response close_it =
     (let r = set_header ''Content-Type'' ''text/html; charset=UTF-8''
                (set_status_code S_404_NOT_FOUND (set_version_type_resp HTTP_1_1 new_http_response))
      in if close_it then set_header ''Connection'' ''close'' r else r)"

definition file_reply ::
  "((string \<rightharpoonup> string) \<Rightarrow> (string \<times> string) list) \<Rightarrow> files \<Rightarrow> http_request \<Rightarrow> string" where
  "file_reply entries files req =
     (if req_method req = GET \<and> hd (req_path req @ [NUL]) = CHR ''/'' \<and>
         fst (check_if_path_exists_and_expand_it files (req_path req))
      then let path = snd (check_if_path_exists_and_expand_it files (req_path req))
           in served entries files (file_response (need_close req) path) path
      else served entries files (not_found_response (need_close req)) html_404_file_path)"

lemma read_file_streaming:
  assumes st: "streaming sent c"
    and r: "status_code r \<noteq> S_NONE" "resp_version r = Some HTTP_1_1"
  shows "\<exists>ok c'. read_file_and_send n entries files r path c = Inr (ok, c') \<and>
    (streaming (sent @ served entries files r path) c' \<and> conn_context c' = conn_context c \<and>
       input_buffer c' = input_buffer c \<or>
     given_up (sent @ served entries files r path) c')"
proof (cases "open_file files path")
  case None
  with st show ?thesis by (auto simp: read_file_and_send_def served_def)
next
  case (Some sm)
  obtain sz mapped where sm: "sm = (sz, mapped)" by fastforce
  let ?r = "set_header ''Content-Length'' (decimal sz) r"
  let ?es = "entries ((resp_headers r)(''Content-Length'' \<mapsto> decimal sz))"
  let ?t = "response_text ''HTTP/1.1'' (status_code r) ?es (resp_body r)"
  have "send_to_tcp_connection n ?es ?r c = conn_send n ?t c"
    using r send_to_tcp_connection_eq [of ?r HTTP_1_1 "''HTTP/1.1''"]
    by (simp add: set_header_def get_version_type_as_string_resp_def)
  then have eq: "read_file_and_send n entries files r path c = obind (conn_send n ?t c) (\<lambda>c1.
      case mapped of None \<Rightarrow> Inr (False, c1)
      | Some data \<Rightarrow> obind (conn_send n data c1) (\<lambda>c2. Inr (True, c2)))"
    using Some sm by (simp add: read_file_and_send_def set_header_def)
  obtain c1 where c1: "conn_send n ?t c = Inr c1"
    "streaming (sent @ ?t) c1 \<and> conn_context c1 = conn_context c \<and> input_buffer c1 = input_buffer c \<or>
     given_up (sent @ ?t) c1"
    using conn_send_streaming [OF st] by blast
  show ?thesis
  proof (cases mapped)
    case None
    with eq c1 Some sm show ?thesis by (auto simp: served_def)
  next
    case (Some data)
    have sv: "served entries files r path = ?t @ data"
      using Some \<open>open_file files path = Some sm\<close> sm by (simp add: served_def)
    from c1(2) have "\<exists>c2. conn_send n data c1 = Inr c2 \<and>
      (streaming ((sent @ ?t) @ data) c2 \<and> conn_context c2 = conn_context c \<and> input_buffer c2 = input_buffer c \<or>
       given_up ((sent @ ?t) @ data) c2)"
      using conn_send_streaming [of "sent @ ?t" c1 n data] conn_send_given_up [of "sent @ ?t" c1 n data]
        given_up_mono [of "sent @ ?t" c1 data]
      by (elim disjE conjE) simp_all
    with eq c1(1) Some sv show ?thesis by auto
  qed
qed

lemma http_request_callback_streaming:
  assumes "NUL \<notin> set (req_path req)" "streaming sent c"
  shows "\<exists>c'. http_request_callback n entries files req c = Inr c' \<and>
    (streaming (sent @ file_reply entries files req) c' \<and> conn_context c' = conn_context c \<and>
       input_buffer c' = input_buffer c \<or>
     given_up (sent @ file_reply entries files req) c')"
proof -
  let ?goal = "\<lambda>f r. \<exists>c'. f = Inr c' \<and>
    (streaming (sent @ r) c' \<and> conn_context c' = conn_context c \<and> input_buffer c' = input_buffer c \<or>
     given_up (sent @ r) c')"
  have nf: "?goal (send_404 n entries files close_it c)
      (served entries files (not_found_response close_it) html_404_file_path)" for close_it
    using read_file_streaming [OF assms(2), of "not_found_response close_it" n entries files html_404_file_path]
    by (auto simp: send_404_def not_found_response_def Let_def set_header_def set_status_code_def
        set_version_type_resp_def S_404_NOT_FOUND_def S_NONE_def)
  have sf: "?goal (send_file n entries files close_it path c)
      (served entries files (file_response close_it path) path)" for close_it path
    using read_file_streaming [OF assms(2), of "file_response close_it path" n entries files path]
    by (auto simp: send_file_def file_response_def Let_def set_header_def set_status_code_def
        set_version_type_resp_def S_200_OK_def S_NONE_def)
  have valid: "check_if_is_valid_path (req_path req) = Inr (hd (req_path req @ [NUL]) = CHR ''/'')"
    using assms(1) valid_path_any [of "req_path req"]
    by (cases "req_path req") (auto simp: check_if_is_valid_path_def)
  have open': "\<not> is_write_end_shutdown c" using assms(2) by (simp add: streaming_def alive_def)
  obtain e path where ep: "check_if_path_exists_and_expand_it files (req_path req) = (e, path)" by fastforce
  show ?thesis
  proof (cases "req_method req = GET \<and> hd (req_path req @ [NUL]) = CHR ''/'' \<and> e")
    case True
    with open' valid ep have "http_request_callback n entries files req c =
        send_file n entries files (need_close req) path c"
      by (simp add: http_request_callback_def)
    with sf [of "need_close req" path] True ep show ?thesis by (simp add: file_reply_def Let_def)
  next
    case False
    with open' valid ep have "http_request_callback n entries files req c =
        send_404 n entries files (need_close req) c"
      by (auto simp: http_request_callback_def)
    moreover from False ep have "file_reply entries files req =
        served entries files (not_found_response (need_close req)) html_404_file_path"
      by (auto simp: file_reply_def)
    ultimately show ?thesis using nf [of "need_close req"] by simp
  qed
qed

interpretation fs: request_handler "http_request_callback n entries files"
  "\<lambda>req. NUL \<notin> set (req_path req)" "file_reply entries files" for n entries files
  by unfold_locales (rule http_request_callback_streaming)


definition example_request :: http_request where
  "example_request =
     new_http_request\<lparr>req_method := GET, req_path := ''/static/a'', req_version := HTTP_1_1\<rparr>"

lemma wire_request_example:
  "wire_request example_request [] (''GET /static/a HTTP/1.1'' @ [CR, LF, CR, LF])"
  using wire_request [of GET "''GET''" HTTP_1_1 "''HTTP/1.1''" "''/static/a''" 0 0 0 0 "[]" example_request "[]"]
  by (simp add: request_line_def clean_line_def header_lines_ok_def announced_body_def request_text_def
      example_request_def new_http_request_def)


section \<open>Data after a closing request\<close>

lemma parse_SUCCESS:
  "parsing_state hp = SUCCESS \<Longrightarrow> parse t hp b = Inl (Fatal ''unknown http parsing state'')"
  by (simp add: parse_def request_line_stage_def headers_stage_def body_stage_def)

text \<open>C37: After a request with Connection: close was answered, any further bytes from the peer end the
  whole process: if the response was written at once, the context has been cleared and the cast of
  the empty context throws; if it was not, the parser is still in its success state, in which
  parsing is a fatal error.\<close>

theorem bytes_after_close_request_crash:
  assumes "conn_context c = Some hp" "parse now hp (input_buffer c) = Inr (True, hp', b)" "is_success hp'"
    and "need_close (request hp')"
    and "handler (request hp') (c\<lparr>time_stamp := now, conn_context := Some hp', input_buffer := b\<rparr>) = Inr c2"
    and "conn_context c2 = Some hp'" "\<not> is_write_end_shutdown c2" "write_complete_callback c2 = None"
    and "shutdown_answers c2 = []" "buffer_ok (input_buffer c2)" "conn_reading c2"
    and "message_callback n handler now c = Inr c'" "d \<noteq> []"
  shows "read_event_callback n (message_callback n handler) later (c'\<lparr>recv_answers := [Got d]\<rparr>)
         \<in> {Inl (Uncaught ''std::bad_cast''), Inl (Fatal ''unknown http parsing state'')}"
proof -
  have "message_callback n handler now c =
      (if conn_writing c2 then Inr (c2\<lparr>write_complete_callback := Some [Do_Shutdown_Write]\<rparr>)
       else shutdown_write n c2)"
    using assms(1-5,7) by (simp add: message_callback_def get_request_def)
  then have c': "(conn_context c' = None \<or> conn_context c' = Some hp') \<and> input_buffer c' = input_buffer c2"
    using assms(6-9,12)
    by (auto simp: shutdown_write_def shutdown_write_with_def conn_disable_write_def write_complete_none
        clear_context_def Let_def split: if_splits)
  obtain b' where "receive_all_data 0 (c'\<lparr>recv_answers := [Got d]\<rparr>) =
      Inr (length d, c'\<lparr>input_buffer := b', recv_answers := []\<rparr>)"
    using receive_one [of "c'\<lparr>recv_answers := [Got d]\<rparr>" d] assms(10) c' by auto
  then show ?thesis
    using assms(3,13) c' parse_SUCCESS [of hp' later b']
    by (auto simp: read_event_callback_def message_callback_def is_success_def)
qed

definition closing_connection :: http_connection where
  "closing_connection =
     (started_connection [])
       \<lparr>conn_context := Some (new_http_parser\<lparr>parsing_state := EXPECT_HEADERS,
          request := example_request\<lparr>req_headers := [''Connection'' \<mapsto> ''close'']\<rparr>\<rparr>),
        input_buffer := (case append_buf [CR, LF] new_tcp_buffer of Inr b \<Rightarrow> b | Inl _ \<Rightarrow> new_tcp_buffer)\<rparr>"

theorem bytes_after_close_request_crash_witness:
  "\<exists>c'. message_callback 0 (\<lambda>req. conn_send 0 ''bye'') 1 closing_connection = Inr c' \<and>
     read_event_callback 0 (message_callback 0 (\<lambda>req. conn_send 0 ''bye'')) 2 (c'\<lparr>recv_answers := [Got ''G'']\<rparr>)
       \<in> {Inl (Uncaught ''std::bad_cast''), Inl (Fatal ''unknown http parsing state'')}"
proof -
  let ?R = "example_request\<lparr>req_headers := [''Connection'' \<mapsto> ''close'']\<rparr>"
  let ?hp = "new_http_parser\<lparr>parsing_state := EXPECT_HEADERS, request := ?R\<rparr>"
  obtain b where b: "append_buf [CR, LF] new_tcp_buffer = Inr b" "buffer_ok b" "content b = [CR, LF]"
    using appendE [OF buffer_ok_new, of "[CR, LF]"] by auto
  have "expects ?R [] ?hp (CR # LF # [])"
    by (rule expects_blank) (simp_all add: announced_body_def example_request_def new_http_request_def)
  then have "\<exists>hp' b'. parse 1 ?hp b = Inr (True, hp', b') \<and> progress ?R [] [] 1 hp' b'"
    using b by (intro parse_progress) simp_all
  then obtain hp' b' where p: "parse 1 ?hp b = Inr (True, hp', b')" "is_success hp'"
      "request hp' = received 1 [] ?R" "buffer_ok b'"
    by (auto simp: progress_def is_success_def)
  let ?c = "closing_connection\<lparr>time_stamp := 1, conn_context := Some hp', input_buffer := b'\<rparr>"
  have c: "closing_connection = (started_connection [])\<lparr>conn_context := Some ?hp, input_buffer := b\<rparr>"
    using b(1) by (simp add: closing_connection_def)
  have nc: "need_close (request hp')" using p(3) by (simp add: received_def closing_def)
  obtain ob where ob: "append_buf ''bye'' new_tcp_buffer = Inr ob" using appendE [OF buffer_ok_new] by blast
  let ?c2 = "?c\<lparr>output_buffer := ob, conn_writing := True\<rparr>"
  have "send_loop ''bye'' 0 ?c = Inr (0, ?c)"
    by (subst send_loop.simps) (simp add: c started_connection_def new_connection_def)
  then have h: "conn_send 0 ''bye'' ?c = Inr ?c2"
    using ob
    by (simp add: conn_send_def send_with_def send_as_many_data_def c started_connection_def new_connection_def
        conn_enable_write_def)
  have m: "message_callback 0 (\<lambda>req. conn_send 0 ''bye'') 1 closing_connection =
      Inr (?c2\<lparr>write_complete_callback := Some [Do_Shutdown_Write]\<rparr>)"
    using p h nc by (simp add: message_callback_def c get_request_def started_connection_def new_connection_def)
  show ?thesis
    by (rule exI [of _ "?c2\<lparr>write_complete_callback := Some [Do_Shutdown_Write]\<rparr>"],
        rule conjI [OF m], rule bytes_after_close_request_crash [OF _ _ p(2) nc h _ _ _ _ _ _ m])
      (use p(1,4) in \<open>simp_all add: c started_connection_def new_connection_def\<close>)
qed

end
