(* ===== verification/Timers.thy ===== *)
theory Timers
  imports Time_Point "HOL-Library.Product_Lexorder"
begin

text \<open>
  \<^verbatim>\<open>Timer\<close> (include/timer.h, src/timer.cc) and \<^verbatim>\<open>TimerContainer\<close> (include/timer_container.h,
  src/timer_container.cc). A timer's callback is user code: the operations take what calling it
  does to the world as an argument. The container is an ordered set of pairs of expiration time
  and timer address; addresses are natural numbers, 0 is the null pointer.
\<close>

section \<open>Timers\<close>

text \<open>The constructor clips the repetition interval at 0 and the number of repetitions at -1.\<close>

record timer =
  expiration_time_point :: int
  repetition_time_interval :: nat
  number_of_repetitions_left :: int
  timer_callback :: nat

definition new_timer :: "int \<Rightarrow> int \<Rightarrow> int \<Rightarrow> nat \<Rightarrow> timer" where
  "new_timer t interval n cb =
     \<lparr>expiration_time_point = t, repetition_time_interval = nat (max 0 interval),
      number_of_repetitions_left = max (- 1) n, timer_callback = cb\<rparr>"

definition expire_once ::
  "(nat \<Rightarrow> 'w \<Rightarrow> 'w outcome) \<Rightarrow> timer \<Rightarrow> 'w \<Rightarrow> (bool \<times> timer \<times> 'w) outcome" where
  "expire_once call tm w =
     obind (call (timer_callback tm) w) (\<lambda>w'.
       if repetition_time_interval tm = 0 \<or> number_of_repetitions_left tm = 0 then Inr (False, tm, w')
       else obind (time_add (expiration_time_point tm) (int (repetition_time_interval tm))) (\<lambda>t.
         let tm1 = tm\<lparr>expiration_time_point := t\<rparr>;
             tm2 = (if number_of_repetitions_left tm1 > 0
                    then tm1\<lparr>number_of_repetitions_left := number_of_repetitions_left tm1 - 1\<rparr>
                    else tm1)
         in Inr (True, tm2, w')))"

lemma expire_once_advances:
  assumes "expire_once call tm w = Inr (True, tm', w')"
  shows "expiration_time_point tm < expiration_time_point tm'"
  using assms by (auto simp: expire_once_def time_add_def outcome_simps Let_def split: if_splits)

function expire_until ::
  "(nat \<Rightarrow> 'w \<Rightarrow> 'w outcome) \<Rightarrow> int \<Rightarrow> timer \<Rightarrow> 'w \<Rightarrow> (bool \<times> timer \<times> 'w) outcome" where
  "expire_until call time_point tm w =
     obind (expire_once call tm w) (\<lambda>r.
       if \<not> fst r \<or> expiration_time_point (fst (snd r)) > time_point then Inr r
       else expire_until call time_point (fst (snd r)) (snd (snd r)))"
  by pat_completeness auto
termination
proof (relation "measure (\<lambda>(call, t, tm, w). nat (t + 1 - expiration_time_point tm))")
  fix call :: "nat \<Rightarrow> 'w \<Rightarrow> 'w outcome" and time_point tm w r
  assume r: "expire_once call tm w = Inr r"
    and c: "\<not> (\<not> fst r \<or> expiration_time_point (fst (snd r)) > time_point)"
  then have "expire_once call tm w = Inr (True, fst (snd r), snd (snd r))" by (cases r) auto
  from expire_once_advances [OF this] c
  show "((call, time_point, fst (snd r), snd (snd r)), call, time_point, tm, w)
      \<in> measure (\<lambda>(call, t, tm, w). nat (t + 1 - expiration_time_point tm))"
    by (cases r) auto
qed simp

declare expire_until.simps [simp del]

definition advanced :: "nat \<Rightarrow> timer \<Rightarrow> timer" where
  "advanced k tm =
     tm\<lparr>expiration_time_point := expiration_time_point tm + int k * int (repetition_time_interval tm),
        number_of_repetitions_left :=
          (if number_of_repetitions_left tm \<le> 0 then number_of_repetitions_left tm
           else number_of_repetitions_left tm - int k)\<rparr>"

definition timer_ok :: "timer \<Rightarrow> bool" where
  "timer_ok tm \<longleftrightarrow> - 1 \<le> number_of_repetitions_left tm"

lemma timer_ok_new [simp]: "timer_ok (new_timer t interval n cb)"
  by (simp add: timer_ok_def new_timer_def)

lemma timer_ok_advanced_1:
  "timer_ok tm \<Longrightarrow> number_of_repetitions_left tm \<noteq> 0 \<Longrightarrow> timer_ok (advanced 1 tm)"
  by (auto simp: timer_ok_def advanced_def)

definition due :: "int \<Rightarrow> int \<Rightarrow> nat \<Rightarrow> nat" where
  "due time_point e d = nat ((time_point - e) div int d) + 1"

lemma due_step:
  assumes "d \<noteq> 0" "e + int d \<le> time_point"
  shows "due time_point e d = Suc (due time_point (e + int d) d)"
proof -
  have "time_point - e = (time_point - (e + int d)) + int d" by simp
  then have "(time_point - e) div int d = (time_point - (e + int d)) div int d + 1"
    using assms(1) by (metis div_add_self2 of_nat_0_eq_iff)
  moreover have "0 \<le> (time_point - (e + int d)) div int d"
    using assms by (simp add: pos_imp_zdiv_nonneg_iff)
  ultimately show ?thesis by (simp add: due_def)
qed

lemma due_last: "e \<le> time_point \<Longrightarrow> time_point < e + int d \<Longrightarrow> due time_point e d = 1"
  by (simp add: due_def div_pos_pos_trivial)

text \<open>
  The number of times a timer fires up to a time point: once, and then once for every further
  multiple of its interval, within its repetitions.
\<close>

definition firings :: "int \<Rightarrow> timer \<Rightarrow> nat" where
  "firings time_point tm =
     (if repetition_time_interval tm = 0 then 1
      else let k = due time_point (expiration_time_point tm) (repetition_time_interval tm)
           in if number_of_repetitions_left tm < 0 then k
              else min k (nat (number_of_repetitions_left tm) + 1))"

text \<open>The timer is exhausted when its repetitions end at or before the given time.\<close>

definition exhausted :: "int \<Rightarrow> timer \<Rightarrow> bool" where
  "exhausted time_point tm \<longleftrightarrow>
     repetition_time_interval tm = 0 \<or>
     (0 \<le> number_of_repetitions_left tm \<and>
      firings time_point tm = nat (number_of_repetitions_left tm) + 1)"

text \<open>The world of a plain trace: which callbacks were called, in order.\<close>

definition record_call :: "nat \<Rightarrow> nat list \<Rightarrow> nat list outcome" where
  "record_call cb w = Inr (w @ [cb])"

lemma expire_once_trace:
  "in_int64 (expiration_time_point tm + int (repetition_time_interval tm)) \<Longrightarrow> timer_ok tm \<Longrightarrow>
   expire_once record_call tm w =
     (if repetition_time_interval tm = 0 \<or> number_of_repetitions_left tm = 0
      then Inr (False, tm, w @ [timer_callback tm])
      else Inr (True, advanced 1 tm, w @ [timer_callback tm]))"
  by (auto simp: expire_once_def record_call_def time_add_def int64_result_def advanced_def Let_def
      timer_ok_def)

lemma advanced_Suc:
  "number_of_repetitions_left tm < 0 \<or> int (Suc k) \<le> number_of_repetitions_left tm \<Longrightarrow>
     advanced k (advanced 1 tm) = advanced (Suc k) tm"
  by (auto simp: advanced_def algebra_simps)

lemma advanced_simps [simp]:
  "expiration_time_point (advanced k tm) =
     expiration_time_point tm + int k * int (repetition_time_interval tm)"
  "repetition_time_interval (advanced k tm) = repetition_time_interval tm"
  "timer_callback (advanced k tm) = timer_callback tm"
  by (simp_all add: advanced_def)

lemma firings_last:
  "expiration_time_point tm \<le> t \<Longrightarrow>
   t < expiration_time_point tm + int (repetition_time_interval tm) \<Longrightarrow> firings t tm = 1"
  by (simp add: firings_def due_last)

lemma firings_step:
  assumes "repetition_time_interval tm \<noteq> 0" "number_of_repetitions_left tm \<noteq> 0" "timer_ok tm"
    and "expiration_time_point tm + int (repetition_time_interval tm) \<le> t"
  shows "firings t tm = Suc (firings t (advanced 1 tm)) \<and>
         exhausted t tm = exhausted t (advanced 1 tm)"
proof -
  let ?d = "due t (expiration_time_point tm + int (repetition_time_interval tm)) (repetition_time_interval tm)"
  have d: "due t (expiration_time_point tm) (repetition_time_interval tm) = Suc ?d"
    using assms by (intro due_step) auto
  have n: "number_of_repetitions_left (advanced 1 tm) =
      (if number_of_repetitions_left tm < 0 then number_of_repetitions_left tm
       else number_of_repetitions_left tm - 1)"
    using assms(2) by (auto simp: advanced_def)
  show ?thesis
  proof (cases "number_of_repetitions_left tm < 0")
    case True
    with assms(1) d n show ?thesis by (simp add: firings_def exhausted_def)
  next
    case False
    then obtain m where "number_of_repetitions_left tm = int (Suc m)"
      using assms(2) by (metis linorder_neqE_linordered_idom pos_int_cases gr0_implies_Suc)
    with assms(1) d n show ?thesis by (simp add: firings_def exhausted_def Let_def nat_add_distrib min_def)
  qed
qed

lemma advanced_after:
  assumes "repetition_time_interval tm \<noteq> 0" "number_of_repetitions_left tm \<noteq> 0" "timer_ok tm"
  shows "exhausted t (advanced 1 tm) \<Longrightarrow>
      advanced (firings t (advanced 1 tm) - 1) (advanced 1 tm) = advanced (firings t (advanced 1 tm)) tm"
    and "\<not> exhausted t (advanced 1 tm) \<Longrightarrow>
      advanced (firings t (advanced 1 tm)) (advanced 1 tm) = advanced (Suc (firings t (advanced 1 tm))) tm"
proof -
  have n: "number_of_repetitions_left (advanced 1 tm) =
      (if number_of_repetitions_left tm < 0 then number_of_repetitions_left tm
       else number_of_repetitions_left tm - 1)"
    using assms(2) by (auto simp: advanced_def)
  show "advanced (firings t (advanced 1 tm) - 1) (advanced 1 tm) = advanced (firings t (advanced 1 tm)) tm"
    if "exhausted t (advanced 1 tm)"
  proof -
    from that n assms obtain m where "firings t (advanced 1 tm) = Suc m"
        "int (Suc m) \<le> number_of_repetitions_left tm"
      by (auto simp: exhausted_def split: if_splits)
    then show ?thesis using advanced_Suc [of tm m] by simp
  qed
  show "advanced (firings t (advanced 1 tm)) (advanced 1 tm) = advanced (Suc (firings t (advanced 1 tm))) tm"
    if "\<not> exhausted t (advanced 1 tm)"
  proof (rule advanced_Suc)
    have "firings t (advanced 1 tm) < nat (number_of_repetitions_left (advanced 1 tm)) + 1"
      if "0 \<le> number_of_repetitions_left (advanced 1 tm)"
      using that \<open>\<not> exhausted t (advanced 1 tm)\<close>
      by (auto simp: exhausted_def firings_def Let_def split: if_splits)
    with n assms(2) show "number_of_repetitions_left tm < 0 \<or>
        int (Suc (firings t (advanced 1 tm))) \<le> number_of_repetitions_left tm"
      by (auto split: if_splits)
  qed
qed

lemma expire_until_trace:
  assumes "timer_ok tm" "expiration_time_point tm \<le> t"
    "in_int64 (expiration_time_point tm)" "in_int64 (t + int (repetition_time_interval tm))"
  shows "expire_until record_call t tm w =
     (if exhausted t tm
      then Inr (False, advanced (firings t tm - 1) tm, w @ replicate (firings t tm) (timer_callback tm))
      else Inr (True, advanced (firings t tm) tm, w @ replicate (firings t tm) (timer_callback tm)))"
  using assms
proof (induction "nat (t - expiration_time_point tm)" arbitrary: tm w rule: less_induct)
  case less
  let ?e = "expiration_time_point tm" and ?d = "int (repetition_time_interval tm)"
  have in64: "in_int64 (?e + ?d)" using less.prems by (auto simp: in_int64_def)
  note once = expire_once_trace [OF in64 less.prems(1), of w]
  show ?case
  proof (cases "repetition_time_interval tm = 0 \<or> number_of_repetitions_left tm = 0")
    case True
    then have "firings t tm = 1" "exhausted t tm"
      by (auto simp: firings_def exhausted_def due_def)
    moreover have "advanced 0 tm = tm" by (simp add: advanced_def)
    ultimately show ?thesis
      using True once by (simp add: expire_until.simps [of _ _ tm])
  next
    case False
    show ?thesis
    proof (cases "t < ?e + ?d")
      case True
      then have "firings t tm = 1" using less.prems by (intro firings_last) auto
      moreover then have "\<not> exhausted t tm"
        using False less.prems(1) by (auto simp: exhausted_def timer_ok_def)
      ultimately show ?thesis
        using True False once by (simp add: expire_until.simps [of _ _ tm])
    next
      case more: False
      define tm1 where "tm1 = advanced 1 tm"
      have tm1: "timer_ok tm1" "expiration_time_point tm1 = ?e + ?d"
          "repetition_time_interval tm1 = repetition_time_interval tm" "timer_callback tm1 = timer_callback tm"
        using False less.prems(1) timer_ok_advanced_1 [of tm] by (simp_all add: tm1_def)
      have st: "firings t tm = Suc (firings t tm1)" "exhausted t tm = exhausted t tm1"
        using firings_step [of tm t] False more less.prems unfolding tm1_def by auto
      have eq: "expire_until record_call t tm w = expire_until record_call t tm1 (w @ [timer_callback tm])"
        using more False once tm1(2) by (simp add: expire_until.simps [of _ _ tm] tm1_def)
      have IH: "expire_until record_call t tm1 (w @ [timer_callback tm]) = (if exhausted t tm1
        then Inr (False, advanced (firings t tm1 - 1) tm1,
                  (w @ [timer_callback tm]) @ replicate (firings t tm1) (timer_callback tm1))
        else Inr (True, advanced (firings t tm1) tm1,
                  (w @ [timer_callback tm]) @ replicate (firings t tm1) (timer_callback tm1)))"
        using more False less.prems in64 tm1 by (intro less.hyps) auto
      show ?thesis
        using advanced_after [of tm t] False less.prems(1) st
        unfolding eq IH tm1(4) tm1_def [symmetric] by simp
    qed
  qed
qed

text \<open>Expiring a timer up to a time \<open>t\<close> calls its callback exactly once for every due
  expiration (its expiration time plus each multiple of its interval up to \<open>t\<close>), but never more
  often than its repetitions allow; it reports the timer invalid exactly when they are used up, and
  otherwise leaves the timer at its first expiration after \<open>t\<close>. The loop always ends.\<close>

theorem expire_until_correct:
  assumes "timer_ok tm" "expiration_time_point tm \<le> t"
    and "in_int64 (expiration_time_point tm)" "in_int64 (t + int (repetition_time_interval tm))"
  shows "\<exists>valid tm'. expire_until record_call t tm w =
           Inr (valid, tm', w @ replicate (firings t tm) (timer_callback tm)) \<and>
         (valid \<longleftrightarrow> \<not> exhausted t tm) \<and>
         (valid \<longrightarrow> t < expiration_time_point tm' \<and>
            expiration_time_point tm' \<le> t + int (repetition_time_interval tm') \<and>
            tm' = advanced (firings t tm) tm \<and> timer_ok tm')"
proof -
  have "t < expiration_time_point (advanced (firings t tm) tm) \<and>
      expiration_time_point (advanced (firings t tm) tm) \<le> t + int (repetition_time_interval tm) \<and>
      timer_ok (advanced (firings t tm) tm)" if ex: "\<not> exhausted t tm"
  proof -
    let ?e = "expiration_time_point tm" and ?d = "repetition_time_interval tm"
    have d: "0 < int ?d" and f: "firings t tm = due t ?e ?d"
      using ex assms(1) by (auto simp: exhausted_def firings_def Let_def min_def timer_ok_def split: if_splits)
    have n: "number_of_repetitions_left tm < 0 \<or> int (firings t tm) \<le> number_of_repetitions_left tm"
      using ex by (auto simp: exhausted_def firings_def Let_def min_def split: if_splits)
    have "int (due t ?e ?d) = (t - ?e) div int ?d + 1"
      using assms(2) d by (simp add: due_def pos_imp_zdiv_nonneg_iff)
    then have "int (due t ?e ?d) * int ?d = (t - ?e) div int ?d * int ?d + int ?d"
      by (simp add: algebra_simps)
    moreover have "t - ?e = (t - ?e) div int ?d * int ?d + (t - ?e) mod int ?d" by simp
    moreover have "0 \<le> (t - ?e) mod int ?d" "(t - ?e) mod int ?d < int ?d" using d by simp_all
    ultimately have "t < ?e + int (due t ?e ?d) * int ?d"
      "?e + int (due t ?e ?d) * int ?d \<le> t + int ?d" by linarith+
    moreover have "timer_ok (advanced (firings t tm) tm)"
      using n assms(1) by (auto simp: timer_ok_def advanced_def)
    ultimately show ?thesis by (simp add: f)
  qed
  then show ?thesis using expire_until_trace [OF assms, of w] by auto
qed

theorem expire_until_correct_witness:
  "\<exists>tm'. expire_until record_call 25 (new_timer 10 5 (- 1) 7) [] = Inr (True, tm', [7, 7, 7, 7]) \<and>
     25 < expiration_time_point tm'"
proof -
  have "firings 25 (new_timer 10 5 (- 1) 7) = 4" "\<not> exhausted 25 (new_timer 10 5 (- 1) 7)"
    by (simp_all add: firings_def exhausted_def new_timer_def due_def Let_def)
  then show ?thesis
    using expire_until_correct [of "new_timer 10 5 (- 1) 7" 25 "[]"]
    by (auto simp: new_timer_def in_int64_def timer_ok_def numeral_eq_Suc)
qed

section \<open>The container\<close>

type_synonym timer_ptr = nat
type_synonym timer_heap = "timer_ptr \<rightharpoonup> timer"
type_synonym timer_container = "(int \<times> timer_ptr) list"

definition deref :: "timer_heap \<Rightarrow> timer_ptr \<Rightarrow> timer outcome" where
  "deref h p = (case h p of Some tm \<Rightarrow> Inr tm | None \<Rightarrow> Inl (Undefined ''dangling timer pointer''))"

text \<open>\<^verbatim>\<open>std::set\<close> of pairs in lexicographic order.\<close>

definition set_insert :: "(int \<times> timer_ptr) \<Rightarrow> timer_container \<Rightarrow> timer_container" where
  "set_insert x c = (if x \<in> set c then c else insort x c)"

definition get_earliest_expiration_time_point :: "timer_container \<Rightarrow> int" where
  "get_earliest_expiration_time_point c = (if c = [] then FOREVER else fst (hd c))"

definition insert_one :: "timer_heap \<Rightarrow> timer_ptr \<Rightarrow> timer_container \<Rightarrow> timer_container outcome" where
  "insert_one h p c = obind (deref h p) (\<lambda>tm. Inr (set_insert (expiration_time_point tm, p) c))"

fun insert_all :: "timer_heap \<Rightarrow> timer_ptr list \<Rightarrow> timer_container \<Rightarrow> timer_container outcome" where
  "insert_all h [] c = Inr c"
| "insert_all h (p # ps) c = obind (insert_one h p c) (insert_all h ps)"

definition remove_one ::
  "timer_heap \<Rightarrow> timer_ptr \<Rightarrow> timer_container \<Rightarrow> (bool \<times> timer_container) outcome" where
  "remove_one h p c =
     obind (deref h p) (\<lambda>tm.
       let key = (expiration_time_point tm, p) in Inr (key \<in> set c, remove1 key c))"

text \<open>\<^verbatim>\<open>lower_bound\<close> of the pair of the next nanosecond and the null pointer.\<close>

definition move_out_before_or_at ::
  "int \<Rightarrow> timer_container \<Rightarrow> (timer_ptr list \<times> timer_container) outcome" where
  "move_out_before_or_at t c =
     obind (time_add t 1) (\<lambda>t1.
       Inr (map snd (takeWhile (\<lambda>x. x < (t1, 0)) c), dropWhile (\<lambda>x. x < (t1, 0)) c))"

definition container_ok :: "timer_container \<Rightarrow> bool" where
  "container_ok c \<longleftrightarrow> sorted c \<and> distinct c"

lemma container_ok_Nil [simp]: "container_ok []"
  by (simp add: container_ok_def)

lemma set_insert_ok: "container_ok c \<Longrightarrow> container_ok (set_insert x c)"
  by (simp add: container_ok_def set_insert_def sorted_insort distinct_insort)

lemma set_set_insert [simp]: "set (set_insert x c) = insert x (set c)"
  by (auto simp: set_insert_def set_insort_key)

lemma container_ok_remove1: "container_ok c \<Longrightarrow> container_ok (remove1 x c)"
  by (simp add: container_ok_def sorted_remove1)

lemma before_pair: "x < (t + 1 :: int, 0 :: nat) \<longleftrightarrow> fst x \<le> t"
  by (cases x) (auto simp: less_prod_def)

lemma sorted_takeWhile_filter:
  assumes "\<And>x y. x \<le> y \<Longrightarrow> P y \<Longrightarrow> P x"
  shows "sorted c \<Longrightarrow> takeWhile P c = filter P c \<and> dropWhile P c = filter (\<lambda>x. \<not> P x) c"
proof (induction c)
  case (Cons x c)
  have "filter P c = []" "filter (\<lambda>x. \<not> P x) c = c" if "\<not> P x"
    using Cons.prems that assms by (auto simp: filter_empty_conv filter_id_conv)
  with Cons show ?case by auto
qed simp

lemma move_out_eq:
  assumes "container_ok c" "in_int64 (t + 1)"
  shows "move_out_before_or_at t c =
     Inr (map snd (filter (\<lambda>x. fst x \<le> t) c), filter (\<lambda>x. \<not> fst x \<le> t) c)"
proof -
  have "sorted c" using assms(1) by (simp add: container_ok_def)
  then have "takeWhile (\<lambda>x. fst x \<le> t) c = filter (\<lambda>x. fst x \<le> t) c \<and>
    dropWhile (\<lambda>x. fst x \<le> t) c = filter (\<lambda>x. \<not> fst x \<le> t) c"
    by (intro sorted_takeWhile_filter) (auto simp: less_eq_prod_def)
  then show ?thesis
    using assms(2) by (simp add: move_out_before_or_at_def time_add_def int64_result_def before_pair)
qed

lemma container_ok_filter: "container_ok c \<Longrightarrow> container_ok (filter P c)"
  by (simp add: container_ok_def sorted_wrt_filter)

lemma earliest_le: "container_ok c \<Longrightarrow> x \<in> set c \<Longrightarrow> get_earliest_expiration_time_point c \<le> fst x"
  by (cases c) (auto simp: container_ok_def get_earliest_expiration_time_point_def less_eq_prod_def)

lemma earliest_in: "c \<noteq> [] \<Longrightarrow> \<exists>p. (get_earliest_expiration_time_point c, p) \<in> set c"
  by (cases c) (auto simp: get_earliest_expiration_time_point_def intro: exI [of _ "snd (hd c)"])

section \<open>The timer queue interface\<close>

text \<open>What the event loop relies on: a set of (time, timer) pairs whose smallest time is known.\<close>

locale timer_queue =
  fixes invar :: "'c \<Rightarrow> bool"
    and pairs :: "'c \<Rightarrow> (int \<times> timer_ptr) set"
    and put :: "(int \<times> timer_ptr) \<Rightarrow> 'c \<Rightarrow> 'c"
    and erase :: "(int \<times> timer_ptr) \<Rightarrow> 'c \<Rightarrow> 'c"
    and earliest :: "'c \<Rightarrow> int"
  assumes put_invar: "invar c \<Longrightarrow> invar (put x c)"
    and put_pairs: "invar c \<Longrightarrow> pairs (put x c) = insert x (pairs c)"
    and erase_invar: "invar c \<Longrightarrow> invar (erase x c)"
    and erase_pairs: "invar c \<Longrightarrow> pairs (erase x c) = pairs c - {x}"
    and earliest_lower: "invar c \<Longrightarrow> x \<in> pairs c \<Longrightarrow> earliest c \<le> fst x"
    and earliest_attained: "invar c \<Longrightarrow> pairs c \<noteq> {} \<Longrightarrow> \<exists>p. (earliest c, p) \<in> pairs c"
begin

lemma earliest_mono:
  assumes "invar c" "invar c'" "pairs c' \<noteq> {}" "pairs c' \<subseteq> pairs c"
  shows "earliest c \<le> earliest c'"
  using earliest_attained [OF assms(2,3)] earliest_lower [OF assms(1)] assms(4) by fastforce

lemma earliest_put:
  assumes "invar c" "pairs c \<noteq> {}"
  shows "earliest (put x c) = min (fst x) (earliest c)"
proof (rule antisym)
  have "earliest (put x c) \<le> fst x"
    using earliest_lower [OF put_invar [OF assms(1)], of x] put_pairs [OF assms(1)] by auto
  moreover have "earliest (put x c) \<le> earliest c"
    using earliest_mono [OF put_invar [OF assms(1)] assms(1,2)] put_pairs [OF assms(1)] by (cases x) auto
  ultimately show "earliest (put x c) \<le> min (fst x) (earliest c)" by simp
  obtain p where p: "(earliest (put x c), p) \<in> insert x (pairs c)"
    using earliest_attained [OF put_invar [OF assms(1)], of x] put_pairs [OF assms(1)] by auto
  then show "min (fst x) (earliest c) \<le> earliest (put x c)"
    using earliest_lower [OF assms(1), of "(earliest (put x c), p)"] by (cases x) auto
qed

lemma earliest_put_empty:
  assumes "invar c" "pairs c = {}"
  shows "earliest (put x c) = fst x"
  using earliest_attained [OF put_invar [OF assms(1)], of x] put_pairs [OF assms(1)] assms(2)
  by (cases x) auto

lemma erase_put:
  "invar c \<Longrightarrow> x \<notin> pairs c \<Longrightarrow> pairs (erase x (put x c)) = pairs c"
  by (simp add: erase_pairs put_invar put_pairs)

end

interpretation tq: timer_queue container_ok set set_insert remove1 get_earliest_expiration_time_point
  by unfold_locales
    (auto simp: set_insert_ok container_ok_remove1 earliest_le earliest_in,
     auto simp: container_ok_def)

end
