(* ===== verification/Loop_Timers.thy ===== *)
theory Loop_Timers
  imports Timers
begin

text \<open>
  The timer side of \<^verbatim>\<open>EventLoop\<close> (include/event_loop.h, src/event_loop.cc) and the alarm of
  \<^verbatim>\<open>Timerfd\<close> (src/timerfd.cc): adding, cancelling and expiring timers while keeping one kernel alarm
  set for the earliest of them. Timers live in a heap, so that a pointer used after its timer was
  deleted is an undefined outcome. Addresses are handed out in increasing order.
\<close>

section \<open>State\<close>

record timer_loop =
  timers :: timer_heap
  next_address :: nat
  timer_container :: timer_container
  next_earliest_expiration_time :: int
  alarm_advancing_threshold :: int
  alarm :: "int option"
  timerfd_triggered :: bool
  calls :: "nat list"

definition new_timer_loop :: timer_loop where
  "new_timer_loop =
     \<lparr>timers = Map.empty, next_address = 1, timer_container = [],
      next_earliest_expiration_time = FOREVER, alarm_advancing_threshold = 3, alarm = None,
      timerfd_triggered = False, calls = []\<rparr>"

definition set_alarm_advancing_threshold :: "int \<Rightarrow> timer_loop \<Rightarrow> timer_loop" where
  "set_alarm_advancing_threshold thr s = s\<lparr>alarm_advancing_threshold := thr\<rparr>"

section \<open>The alarm\<close>

text \<open>
  \<^verbatim>\<open>timerfd_settime\<close> as its manual page documents it: a negative time or a nanosecond part out of
  range is refused, an all-zero value disarms the timer, any other value arms it.
\<close>

definition timerfd_settime :: "int \<times> int \<Rightarrow> int option option" where
  "timerfd_settime ts =
     (case ts of (sec, nsec) \<Rightarrow>
        if sec < 0 \<or> nsec < 0 \<or> SECOND \<le> nsec then None
        else if sec = 0 \<and> nsec = 0 then Some None
        else Some (Some (sec * SECOND + nsec)))"

definition set_alarm_at_time_point :: "int \<Rightarrow> timer_loop \<Rightarrow> timer_loop outcome" where
  "set_alarm_at_time_point t s =
     (case timerfd_settime (get_timespec t) of
        None \<Rightarrow> Inl (Fatal ''timerfd_settime failed'')
      | Some a \<Rightarrow> Inr (s\<lparr>alarm := a\<rparr>))"

definition cancel_alarm :: "timer_loop \<Rightarrow> timer_loop" where
  "cancel_alarm s = s\<lparr>alarm := None\<rparr>"

definition timerfd_message_callback :: "timer_loop \<Rightarrow> timer_loop" where
  "timerfd_message_callback s = s\<lparr>timerfd_triggered := True\<rparr>"

section \<open>Adding and cancelling\<close>

text \<open>The alarm is moved forward only when that gains more than the threshold.\<close>

definition advance_alarm :: "timer_loop \<Rightarrow> timer_loop outcome" where
  "advance_alarm s =
     (let earliest = get_earliest_expiration_time_point (timer_container s) in
      obind (time_sub (next_earliest_expiration_time s) (alarm_advancing_threshold s)) (\<lambda>limit.
        if earliest < limit then
          obind (set_alarm_at_time_point earliest s) (\<lambda>s'.
            Inr (s'\<lparr>next_earliest_expiration_time := earliest\<rparr>))
        else Inr s))"

definition delay_alarm :: "timer_loop \<Rightarrow> timer_loop outcome" where
  "delay_alarm s =
     (let earliest = get_earliest_expiration_time_point (timer_container s) in
      if next_earliest_expiration_time s < earliest then
        obind (set_alarm_at_time_point earliest s) (\<lambda>s'.
          Inr (s'\<lparr>next_earliest_expiration_time := earliest\<rparr>))
      else Inr s)"

definition add_a_timer_and_update_alarm :: "timer_ptr \<Rightarrow> timer_loop \<Rightarrow> timer_loop outcome" where
  "add_a_timer_and_update_alarm p s =
     obind (insert_one (timers s) p (timer_container s)) (\<lambda>c.
       advance_alarm (s\<lparr>timer_container := c\<rparr>))"

definition cancel_a_timer_and_update_alarm :: "timer_ptr \<Rightarrow> timer_loop \<Rightarrow> timer_loop outcome" where
  "cancel_a_timer_and_update_alarm p s =
     obind (remove_one (timers s) p (timer_container s)) (\<lambda>(found, c).
       let s1 = s\<lparr>timer_container := c\<rparr> in
       if \<not> found then Inr s1
       else if c = [] then Inr ((cancel_alarm s1)\<lparr>next_earliest_expiration_time := FOREVER\<rparr>)
       else obind (delay_alarm s1) (\<lambda>s2. Inr (s2\<lparr>timers := (timers s2)(p := None)\<rparr>)))"

definition run_at_time_point ::
  "int \<Rightarrow> int \<Rightarrow> int \<Rightarrow> nat \<Rightarrow> timer_loop \<Rightarrow> (timer_ptr \<times> timer_loop) outcome" where
  "run_at_time_point t interval n cb s =
     (let p = next_address s;
          s1 = s\<lparr>timers := (timers s)(p \<mapsto> new_timer t interval n cb), next_address := Suc p\<rparr>
      in obind (add_a_timer_and_update_alarm p s1) (\<lambda>s2. Inr (p, s2)))"

definition run_after_time_interval ::
  "int \<Rightarrow> int \<Rightarrow> int \<Rightarrow> int \<Rightarrow> nat \<Rightarrow> timer_loop \<Rightarrow> (timer_ptr \<times> timer_loop) outcome" where
  "run_after_time_interval now d interval n cb s =
     obind (time_add now d) (\<lambda>t. run_at_time_point t interval n cb s)"

text \<open>What code running in the loop's thread can ask of the timers, callbacks included.\<close>

datatype loop_cmd =
    Run_At int int int nat
  | Run_After int int int int nat
  | Cancel timer_ptr

fun exec_cmd :: "loop_cmd \<Rightarrow> timer_loop \<Rightarrow> timer_loop outcome" where
  "exec_cmd (Run_At t interval n cb) s = obind (run_at_time_point t interval n cb s) (\<lambda>r. Inr (snd r))"
| "exec_cmd (Run_After now d interval n cb) s =
     obind (run_after_time_interval now d interval n cb s) (\<lambda>r. Inr (snd r))"
| "exec_cmd (Cancel p) s = cancel_a_timer_and_update_alarm p s"

fun exec_cmds :: "loop_cmd list \<Rightarrow> timer_loop \<Rightarrow> timer_loop outcome" where
  "exec_cmds [] s = Inr s"
| "exec_cmds (c # cs) s = obind (exec_cmd c s) (exec_cmds cs)"

section \<open>Expiring\<close>

text \<open>
  \<open>body cb s\<close> is what the user's callback \<open>cb\<close> asks of the timers when it is called in state \<open>s\<close>.
\<close>

definition call_functor ::
  "(nat \<Rightarrow> timer_loop \<Rightarrow> loop_cmd list) \<Rightarrow> nat \<Rightarrow> timer_loop \<Rightarrow> timer_loop outcome" where
  "call_functor body cb s = exec_cmds (body cb s) (s\<lparr>calls := calls s @ [cb]\<rparr>)"

text \<open>
  The timer object is updated in place by \<^verbatim>\<open>expire_until\<close>. A moved-out timer is not in the container,
  so a command of its own callback finds it alive and does nothing to it, whatever its current
  expiration time.
\<close>

fun expire_each ::
  "(nat \<Rightarrow> timer_loop \<Rightarrow> loop_cmd list) \<Rightarrow> int \<Rightarrow> timer_ptr list \<Rightarrow> timer_loop
   \<Rightarrow> (timer_ptr list \<times> timer_loop) outcome" where
  "expire_each body time_point [] s = Inr ([], s)"
| "expire_each body time_point (p # ps) s =
     obind (deref (timers s) p) (\<lambda>tm.
     obind (expire_until (call_functor body) time_point tm s) (\<lambda>(valid, tm', s1).
       let s2 = s1\<lparr>timers := (timers s1)(p := if valid then Some tm' else None)\<rparr> in
       obind (expire_each body time_point ps s2) (\<lambda>(valids, s3).
         Inr (if valid then p # valids else valids, s3))))"

definition expire_timers_and_update_alarm ::
  "(nat \<Rightarrow> timer_loop \<Rightarrow> loop_cmd list) \<Rightarrow> int \<Rightarrow> timer_loop \<Rightarrow> timer_loop outcome" where
  "expire_timers_and_update_alarm body time_point s =
     obind (move_out_before_or_at time_point (timer_container s)) (\<lambda>(expired, c).
       let s1 = s\<lparr>timer_container := c\<rparr> in
       obind (if c = [] then Inr ((cancel_alarm s1)\<lparr>next_earliest_expiration_time := FOREVER\<rparr>)
              else delay_alarm s1) (\<lambda>s2.
       obind (expire_each body time_point expired s2) (\<lambda>(valids, s3).
         if valids = [] then Inr s3
         else obind (insert_all (timers s3) valids (timer_container s3)) (\<lambda>c'.
           advance_alarm (s3\<lparr>timer_container := c'\<rparr>)))))"

fun delete_all :: "timer_ptr list \<Rightarrow> timer_heap \<Rightarrow> timer_heap" where
  "delete_all [] h = h"
| "delete_all (p # ps) h = delete_all ps (h(p := None))"

definition release_all_timers :: "timer_loop \<Rightarrow> timer_loop outcome" where
  "release_all_timers s =
     obind (move_out_before_or_at FOREVER (timer_container s)) (\<lambda>(ps, c).
       Inr (s\<lparr>timer_container := c, timers := delete_all ps (timers s)\<rparr>))"

section \<open>Invariant\<close>

text \<open>
  \<open>X\<close> are the timers that are currently being expired: alive, but not in the container.
\<close>

definition timers_inv :: "timer_ptr set \<Rightarrow> timer_loop \<Rightarrow> bool" where
  "timers_inv X s \<longleftrightarrow>
     container_ok (timer_container s) \<and>
     (\<forall>(t, p) \<in> set (timer_container s). p \<notin> X \<and> 0 < t \<and> in_int64 t \<and>
        (\<exists>tm. timers s p = Some tm \<and> expiration_time_point tm = t)) \<and>
     (\<forall>p \<in> X. timers s p \<noteq> None) \<and>
     (\<forall>p tm. timers s p = Some tm \<longrightarrow> p < next_address s \<and> timer_ok tm)"

definition alarm_inv :: "timer_loop \<Rightarrow> bool" where
  "alarm_inv s \<longleftrightarrow>
     0 \<le> alarm_advancing_threshold s \<and> in_int64 (alarm_advancing_threshold s) \<and>
     0 < next_earliest_expiration_time s \<and> in_int64 (next_earliest_expiration_time s) \<and>
     (if timer_container s = [] then next_earliest_expiration_time s = FOREVER
      else next_earliest_expiration_time s \<le>
        get_earliest_expiration_time_point (timer_container s) + alarm_advancing_threshold s)"

definition armed :: "timer_loop \<Rightarrow> bool" where
  "armed s \<longleftrightarrow>
     (next_earliest_expiration_time s < FOREVER \<longrightarrow> alarm s \<noteq> None) \<and>
     (\<forall>a. alarm s = Some a \<longrightarrow> a = next_earliest_expiration_time s)"

text \<open>An operation leaves the alarm armed, or leaves a pending one exactly as it is.\<close>

definition alarm_kept :: "timer_loop \<Rightarrow> timer_loop \<Rightarrow> bool" where
  "alarm_kept s s' \<longleftrightarrow>
     armed s' \<or>
     alarm s' = alarm s \<and> next_earliest_expiration_time s' = next_earliest_expiration_time s"

lemma alarm_kept_refl [simp]: "alarm_kept s s"
  by (simp add: alarm_kept_def)

lemma alarm_kept_same:
  "alarm s' = alarm s \<Longrightarrow> next_earliest_expiration_time s' = next_earliest_expiration_time s \<Longrightarrow>
     alarm_kept s s'"
  by (simp add: alarm_kept_def)

lemma alarm_kept_trans: "alarm_kept s s' \<Longrightarrow> alarm_kept s' s'' \<Longrightarrow> alarm_kept s s''"
  by (auto simp: alarm_kept_def armed_def)

lemma alarm_kept_armed: "alarm_kept s s' \<Longrightarrow> armed s \<Longrightarrow> armed s'"
  by (auto simp: alarm_kept_def armed_def)

lemma set_alarm_pos:
  assumes "0 < t"
  shows "set_alarm_at_time_point t s = Inr (s\<lparr>alarm := Some t\<rparr>)"
proof -
  have "t div SECOND * SECOND + t mod SECOND = t" "0 \<le> t mod SECOND" "t mod SECOND < SECOND"
    by (simp_all add: SECOND_def)
  moreover have "0 \<le> t div SECOND" using assms by (simp add: SECOND_def pos_imp_zdiv_nonneg_iff)
  ultimately show ?thesis
    using assms by (auto simp: set_alarm_at_time_point_def timerfd_settime_def get_timespec_nonneg)
qed

lemma earliest_pos:
  assumes "timers_inv X s" "timer_container s \<noteq> []"
  shows "0 < get_earliest_expiration_time_point (timer_container s)"
    "in_int64 (get_earliest_expiration_time_point (timer_container s))"
  using earliest_in [OF assms(2)] assms(1) by (auto simp: timers_inv_def)

lemma timers_inv_alarm [simp]:
  "timers_inv X (s\<lparr>alarm := a\<rparr>) = timers_inv X s"
  "timers_inv X (s\<lparr>next_earliest_expiration_time := e\<rparr>) = timers_inv X s"
  "timers_inv X (s\<lparr>calls := cs\<rparr>) = timers_inv X s"
  "timers_inv X (s\<lparr>timerfd_triggered := b\<rparr>) = timers_inv X s"
  by (simp_all add: timers_inv_def)

lemma alarm_inv_other [simp]:
  "alarm_inv (s\<lparr>calls := cs\<rparr>) = alarm_inv s"
  "alarm_inv (s\<lparr>timers := h\<rparr>) = alarm_inv s"
  "alarm_inv (s\<lparr>timerfd_triggered := b\<rparr>) = alarm_inv s"
  "alarm_inv (s\<lparr>next_address := n\<rparr>) = alarm_inv s"
  "alarm_inv (s\<lparr>alarm := a\<rparr>) = alarm_inv s"
  by (simp_all add: alarm_inv_def)

text \<open>What a run of timer commands may change: everything but the timers in \<open>X\<close>.\<close>

definition evolves :: "timer_ptr set \<Rightarrow> timer_loop \<Rightarrow> timer_loop \<Rightarrow> bool" where
  "evolves X s s' \<longleftrightarrow>
     timers_inv X s' \<and> alarm_inv s' \<and> alarm_kept s s' \<and> (\<forall>p \<in> X. timers s' p = timers s p)"

lemma evolves_trans: "evolves X s s' \<Longrightarrow> evolves X s' s'' \<Longrightarrow> evolves X s s''"
  by (auto simp: evolves_def intro: alarm_kept_trans)

text \<open>Both alarm updates, in a state whose container is not empty.\<close>

definition threshold_ok :: "timer_loop \<Rightarrow> bool" where
  "threshold_ok s \<longleftrightarrow>
     0 \<le> alarm_advancing_threshold s \<and> in_int64 (alarm_advancing_threshold s) \<and>
     0 < next_earliest_expiration_time s \<and> in_int64 (next_earliest_expiration_time s)"

definition alarm_at_earliest :: "timer_loop \<Rightarrow> timer_loop" where
  "alarm_at_earliest s =
     (let e = get_earliest_expiration_time_point (timer_container s)
      in s\<lparr>alarm := Some e, next_earliest_expiration_time := e\<rparr>)"

lemma alarm_at_earliest_evolves:
  assumes "timers_inv X s" "timer_container s \<noteq> []" "threshold_ok s"
  shows "evolves X s (alarm_at_earliest s)" "armed (alarm_at_earliest s)"
  using assms earliest_pos [OF assms(1,2)]
  by (simp_all add: alarm_at_earliest_def evolves_def alarm_inv_def alarm_kept_def armed_def
      threshold_ok_def Let_def)

lemma evolves_refl:
  assumes "timers_inv X s" "timer_container s \<noteq> []" "threshold_ok s"
    "next_earliest_expiration_time s \<le>
      get_earliest_expiration_time_point (timer_container s) + alarm_advancing_threshold s"
  shows "evolves X s s"
  using assms by (simp add: evolves_def alarm_inv_def threshold_ok_def)

lemma advance_alarm_eq:
  assumes inv: "timers_inv X s" and ne: "timer_container s \<noteq> []" and th: "threshold_ok s"
  shows "advance_alarm s = Inr
    (if get_earliest_expiration_time_point (timer_container s)
        < next_earliest_expiration_time s - alarm_advancing_threshold s
     then alarm_at_earliest s else s)"
proof -
  have "time_sub (next_earliest_expiration_time s) (alarm_advancing_threshold s) =
      Inr (next_earliest_expiration_time s - alarm_advancing_threshold s)"
    using th by (auto simp: time_sub_def in_int64_def threshold_ok_def)
  then show ?thesis
    using set_alarm_pos [OF earliest_pos(1) [OF inv ne]]
    by (simp add: advance_alarm_def alarm_at_earliest_def Let_def)
qed

lemma delay_alarm_eq:
  assumes inv: "timers_inv X s" and ne: "timer_container s \<noteq> []"
  shows "delay_alarm s = Inr
    (if next_earliest_expiration_time s < get_earliest_expiration_time_point (timer_container s)
     then alarm_at_earliest s else s)"
  using set_alarm_pos [OF earliest_pos(1) [OF inv ne]]
  by (simp add: delay_alarm_def alarm_at_earliest_def Let_def)

lemma advance_alarm_evolves:
  assumes "timers_inv X s" "timer_container s \<noteq> []" "threshold_ok s"
  shows "\<exists>s'. advance_alarm s = Inr s' \<and> evolves X s s'"
  using alarm_at_earliest_evolves [OF assms] evolves_refl [OF assms]
  by (auto simp: advance_alarm_eq [OF assms])

lemma delay_alarm_evolves:
  assumes inv: "timers_inv X s" "timer_container s \<noteq> []" "threshold_ok s"
    and le: "next_earliest_expiration_time s \<le>
      get_earliest_expiration_time_point (timer_container s) + alarm_advancing_threshold s"
  shows "\<exists>s'. delay_alarm s = Inr s' \<and> evolves X s s' \<and>
    timers s' = timers s \<and> timer_container s' = timer_container s \<and>
    (next_earliest_expiration_time s < get_earliest_expiration_time_point (timer_container s) \<longrightarrow> armed s')"
  using alarm_at_earliest_evolves [OF inv] evolves_refl [OF inv le]
  by (auto simp: delay_alarm_eq [OF inv(1,2)] alarm_at_earliest_def Let_def)

lemma alarm_inv_threshold: "alarm_inv s \<Longrightarrow> threshold_ok s"
  by (auto simp: alarm_inv_def threshold_ok_def)

lemma threshold_ok_other [simp]:
  "threshold_ok (s\<lparr>timer_container := c\<rparr>) = threshold_ok s"
  "threshold_ok (s\<lparr>timers := h\<rparr>) = threshold_ok s"
  "threshold_ok (s\<lparr>next_address := n\<rparr>) = threshold_ok s"
  by (simp_all add: threshold_ok_def)

section \<open>Commands keep the invariant\<close>

fun cmd_ok :: "loop_cmd \<Rightarrow> bool" where
  "cmd_ok (Run_At t interval n cb) \<longleftrightarrow> 0 < t \<and> in_int64 t"
| "cmd_ok (Run_After now d interval n cb) \<longleftrightarrow> 0 < now + d"
| "cmd_ok (Cancel p) \<longleftrightarrow> True"

lemma run_at_evolves:
  assumes inv: "timers_inv X s" "alarm_inv s" and t: "0 < t" "in_int64 t"
  shows "\<exists>s'. run_at_time_point t interval n cb s = Inr (next_address s, s') \<and> evolves X s s'"
proof -
  let ?p = "next_address s" and ?tm = "new_timer t interval n cb"
  let ?c = "set_insert (t, ?p) (timer_container s)"
  let ?s = "s\<lparr>timers := (timers s)(?p \<mapsto> ?tm), next_address := Suc ?p, timer_container := ?c\<rparr>"
  have fresh: "timers s ?p = None" using inv(1) by (fastforce simp: timers_inv_def)
  then have "?p \<notin> X" using inv(1) by (auto simp: timers_inv_def)
  have "timers_inv X ?s"
    using inv(1) t fresh
    by (fastforce simp: timers_inv_def set_insert_ok new_timer_def timer_ok_def less_Suc_eq)
  moreover have "?c \<noteq> []" using set_set_insert [of "(t, ?p)" "timer_container s"] by force
  ultimately obtain s' where s': "advance_alarm ?s = Inr s'" "evolves X ?s s'"
    using advance_alarm_evolves [of X ?s] alarm_inv_threshold [OF inv(2)] by auto
  then have "evolves X s s'"
    using \<open>?p \<notin> X\<close> by (auto simp: evolves_def alarm_kept_def armed_def)
  then show ?thesis
    using s'(1) by (simp add: run_at_time_point_def add_a_timer_and_update_alarm_def insert_one_def
        deref_def new_timer_def)
qed

lemma timers_inv_subset:
  assumes "timers_inv X s" "container_ok c" "set c \<subseteq> set (timer_container s)"
  shows "timers_inv X (s\<lparr>timer_container := c\<rparr>)"
  unfolding timers_inv_def
proof (intro conjI)
  show "\<forall>(t, p)\<in>set (timer_container (s\<lparr>timer_container := c\<rparr>)). p \<notin> X \<and> 0 < t \<and> in_int64 t \<and>
      (\<exists>tm. timers (s\<lparr>timer_container := c\<rparr>) p = Some tm \<and> expiration_time_point tm = t)"
    using assms(1,3) unfolding timers_inv_def by (simp add: subset_iff) blast
qed (use assms in \<open>simp_all add: timers_inv_def\<close>)

lemma timers_inv_remove:
  assumes "timers_inv X s"
  shows "timers_inv X (s\<lparr>timer_container := remove1 x (timer_container s)\<rparr>)"
  using assms by (intro timers_inv_subset)
    (auto simp: timers_inv_def container_ok_remove1 dest: set_remove1_subset [THEN subsetD])

lemma cancel_evolves:
  assumes inv: "timers_inv X s" "alarm_inv s" and p: "timers s p \<noteq> None"
  shows "\<exists>s'. cancel_a_timer_and_update_alarm p s = Inr s' \<and> evolves X s s'"
proof -
  obtain tm where tm: "timers s p = Some tm" using p by blast
  let ?k = "(expiration_time_point tm, p)"
  let ?s1 = "s\<lparr>timer_container := remove1 ?k (timer_container s)\<rparr>"
  have rm: "remove_one (timers s) p (timer_container s) =
      Inr (?k \<in> set (timer_container s), remove1 ?k (timer_container s))"
    using tm by (simp add: remove_one_def deref_def Let_def)
  have inv1: "timers_inv X ?s1" using timers_inv_remove [OF inv(1)] .
  consider (absent) "?k \<notin> set (timer_container s)"
    | (last) "?k \<in> set (timer_container s)" "remove1 ?k (timer_container s) = []"
    | (more) "?k \<in> set (timer_container s)" "remove1 ?k (timer_container s) \<noteq> []" by blast
  then show ?thesis
  proof cases
    case absent
    then have "remove1 ?k (timer_container s) = timer_container s" by (rule remove1_idem)
    with absent rm inv show ?thesis
      by (simp add: cancel_a_timer_and_update_alarm_def evolves_def)
  next
    case last
    with rm inv1 inv(2) show ?thesis
      by (simp add: cancel_a_timer_and_update_alarm_def evolves_def cancel_alarm_def alarm_inv_def
          alarm_kept_def armed_def) (simp add: FOREVER_def)
  next
    case more
    have "p \<notin> X" using more(1) inv(1) by (auto simp: timers_inv_def)
    have ok: "container_ok (timer_container s)" "container_ok (remove1 ?k (timer_container s))"
      using inv(1) by (auto simp: timers_inv_def container_ok_remove1)
    have "get_earliest_expiration_time_point (timer_container s) \<le>
        get_earliest_expiration_time_point (remove1 ?k (timer_container s))"
      using ok more(2) by (intro tq.earliest_mono) (auto simp: set_remove1_subset)
    then have "next_earliest_expiration_time ?s1 \<le>
        get_earliest_expiration_time_point (timer_container ?s1) + alarm_advancing_threshold ?s1"
      using inv(2) more by (auto simp: alarm_inv_def split: if_splits)
    then obtain s' where s': "delay_alarm ?s1 = Inr s'" "evolves X ?s1 s'" "timers s' = timers s"
        "timer_container s' = remove1 ?k (timer_container s)"
      using delay_alarm_evolves [OF inv1] more(2) alarm_inv_threshold [OF inv(2)] by auto
    have "distinct (timer_container s)" using ok(1) by (simp add: container_ok_def)
    then have k: "?k \<notin> set (timer_container s')" using s'(4) by simp
    have *: "q \<noteq> p" if "(t, q) \<in> set (timer_container s')" for t q
      using that k s'(2,3) tm by (fastforce simp: evolves_def timers_inv_def)
    have "evolves X s (s'\<lparr>timers := (timers s')(p := None)\<rparr>)"
      using s'(2,3) \<open>p \<notin> X\<close> *
      by (fastforce simp: evolves_def timers_inv_def alarm_kept_def armed_def)
    with more rm s'(1) show ?thesis
      by (simp add: cancel_a_timer_and_update_alarm_def)
  qed
qed

lemma exec_cmd_evolves:
  assumes "timers_inv X s" "alarm_inv s" "cmd_ok c" "exec_cmd c s = Inr s'"
  shows "evolves X s s'"
proof (cases c)
  case (Run_At t interval n cb)
  with assms run_at_evolves [OF assms(1,2), of t interval n cb] show ?thesis by auto
next
  case (Run_After now d interval n cb)
  with assms run_at_evolves [OF assms(1,2), of "now + d" interval n cb] show ?thesis
    by (auto simp: run_after_time_interval_def time_add_def outcome_simps)
next
  case (Cancel p)
  with assms(4) have "timers s p \<noteq> None"
    by (auto simp: cancel_a_timer_and_update_alarm_def remove_one_def deref_def split: option.splits)
  with Cancel assms cancel_evolves [OF assms(1,2), of p] show ?thesis by auto
qed

lemma exec_cmds_evolves:
  "timers_inv X s \<Longrightarrow> alarm_inv s \<Longrightarrow> (\<forall>c \<in> set cs. cmd_ok c) \<Longrightarrow> exec_cmds cs s = Inr s' \<Longrightarrow>
     evolves X s s'"
proof (induction cs arbitrary: s)
  case Nil
  then show ?case by (simp add: evolves_def)
next
  case (Cons c cs)
  then obtain s1 where s1: "exec_cmd c s = Inr s1" "exec_cmds cs s1 = Inr s'"
    by (auto simp: outcome_simps)
  then have "evolves X s s1" using Cons.prems exec_cmd_evolves by auto
  moreover then have "evolves X s1 s'"
    using Cons.IH [of s1] Cons.prems s1 by (auto simp: evolves_def)
  ultimately show ?case by (rule evolves_trans)
qed

section \<open>Expiring keeps the invariant\<close>

lemma expire_once_rel:
  assumes call: "\<And>cb w w'. P w \<Longrightarrow> call cb w = Inr w' \<Longrightarrow> P w'"
    and "P w" "timer_ok tm" "expire_once call tm w = Inr (v, tm', w')"
  shows "P w' \<and> timer_ok tm' \<and> (v \<longrightarrow> in_int64 (expiration_time_point tm'))"
  using assms(2-4) call
  by (auto simp: expire_once_def outcome_simps time_add_def Let_def timer_ok_def split: if_splits)

lemma expire_until_rel:
  assumes call: "\<And>cb w w'. P w \<Longrightarrow> call cb w = Inr w' \<Longrightarrow> P w'"
  shows "P w \<Longrightarrow> timer_ok tm \<Longrightarrow> expire_until call t tm w = Inr (v, tm', w') \<Longrightarrow>
    P w' \<and> timer_ok tm' \<and> (v \<longrightarrow> t < expiration_time_point tm' \<and> in_int64 (expiration_time_point tm'))"
proof (induction "nat (t + 1 - expiration_time_point tm)" arbitrary: tm w rule: less_induct)
  case less
  from less.prems(3) obtain v1 tm1 w1 where r: "expire_once call tm w = Inr (v1, tm1, w1)"
    by (auto simp: expire_until.simps [of call] outcome_simps)
  have once: "P w1" "timer_ok tm1" "v1 \<longrightarrow> in_int64 (expiration_time_point tm1)"
    using expire_once_rel [where P = P, OF call less.prems(1,2) r] by auto
  show ?case
  proof (cases "\<not> v1 \<or> expiration_time_point tm1 > t")
    case True
    with less.prems(3) r once show ?thesis by (auto simp: expire_until.simps [of call t tm])
  next
    case False
    then have "expire_until call t tm1 w1 = Inr (v, tm', w')"
      using less.prems(3) r by (simp add: expire_until.simps [of call t tm])
    moreover have "expiration_time_point tm < expiration_time_point tm1"
      using expire_once_advances [of call tm w tm1 w1] r False by simp
    ultimately show ?thesis
      using less.hyps [of tm1 w1] once False by simp
  qed
qed

definition body_ok :: "(nat \<Rightarrow> timer_loop \<Rightarrow> loop_cmd list) \<Rightarrow> bool" where
  "body_ok body \<longleftrightarrow> (\<forall>cb s. \<forall>c \<in> set (body cb s). cmd_ok c)"

lemma call_functor_evolves:
  assumes "body_ok body" "timers_inv X s" "alarm_inv s" "call_functor body cb s = Inr s'"
  shows "evolves X s s'"
proof -
  have "evolves X (s\<lparr>calls := calls s @ [cb]\<rparr>) s'"
    using assms by (intro exec_cmds_evolves [of _ _ "body cb s"]) (auto simp: body_ok_def call_functor_def)
  then show ?thesis by (auto simp: evolves_def alarm_kept_def armed_def)
qed

lemma timers_inv_set:
  assumes "timers_inv (insert p X) s" "p \<notin> X" "timer_ok tm"
  shows "timers_inv (insert p X) (s\<lparr>timers := (timers s)(p \<mapsto> tm)\<rparr>)"
    and "timers_inv X (s\<lparr>timers := (timers s)(p := None)\<rparr>)"
  using assms by (fastforce simp: timers_inv_def)+

definition valid_after :: "int \<Rightarrow> timer_loop \<Rightarrow> timer_ptr list \<Rightarrow> bool" where
  "valid_after t s ps \<longleftrightarrow>
     (\<forall>p \<in> set ps. \<exists>tm. timers s p = Some tm \<and> t < expiration_time_point tm \<and>
        in_int64 (expiration_time_point tm))"

lemma expire_each_evolves:
  "body_ok body \<Longrightarrow> timers_inv (set ps \<union> Y) s \<Longrightarrow> alarm_inv s \<Longrightarrow> distinct ps \<Longrightarrow> set ps \<inter> Y = {} \<Longrightarrow>
   expire_each body t ps s = Inr (vs, s') \<Longrightarrow>
     evolves Y s s' \<and> timers_inv (set vs \<union> Y) s' \<and> distinct vs \<and> set vs \<subseteq> set ps \<and> valid_after t s' vs"
proof (induction ps arbitrary: s Y vs)
  case Nil
  then show ?case by (simp add: evolves_def valid_after_def)
next
  case (Cons p ps)
  let ?X = "set (p # ps) \<union> Y"
  from Cons.prems(6) obtain tm v tm' s1 vs' where
    tm: "timers s p = Some tm"
    and ex: "expire_until (call_functor body) t tm s = Inr (v, tm', s1)"
    and each: "expire_each body t ps (s1\<lparr>timers := (timers s1)(p := if v then Some tm' else None)\<rparr>) =
      Inr (vs', s')" and vs: "vs = (if v then p # vs' else vs')"
    by (auto simp: outcome_simps deref_def Let_def split: option.splits prod.splits)
  let ?s2 = "s1\<lparr>timers := (timers s1)(p := if v then Some tm' else None)\<rparr>"
  have tmok: "timer_ok tm" using tm Cons.prems(2) by (auto simp: timers_inv_def)
  have "evolves ?X s s"
    using Cons.prems(2,3) by (simp add: evolves_def)
  moreover have "evolves ?X s w'" if "evolves ?X s w" "call_functor body cb w = Inr w'" for cb w w'
    using that call_functor_evolves [OF Cons.prems(1) _ _ that(2)] evolves_trans [OF that(1)]
    unfolding evolves_def by blast
  ultimately have ev: "evolves ?X s s1" and tm': "timer_ok tm'"
      "v \<longrightarrow> t < expiration_time_point tm' \<and> in_int64 (expiration_time_point tm')"
    using expire_until_rel [where P = "evolves ?X s" and call = "call_functor body", OF _ _ tmok ex]
    by blast+
  define Y' where "Y' = (if v then insert p Y else Y)"
  have pn: "p \<notin> set ps \<union> Y" "set ps \<inter> Y' = {}" using Cons.prems(4,5) by (auto simp: Y'_def)
  have "timers_inv (insert p (set ps \<union> Y)) s1" using ev by (simp add: evolves_def)
  then have inv2: "timers_inv (set ps \<union> Y') ?s2"
    using timers_inv_set [OF _ pn(1) tm'(1)] by (auto simp: Y'_def)
  have al2: "alarm_inv ?s2" using ev by (simp add: evolves_def)
  have IH: "evolves Y' ?s2 s'" "timers_inv (set vs' \<union> Y') s'" "distinct vs'" "set vs' \<subseteq> set ps"
      "valid_after t s' vs'"
    using Cons.IH [OF Cons.prems(1) inv2 al2 _ pn(2) each] Cons.prems(4) by auto
  have "evolves Y s s'"
    using ev IH(1) Cons.prems(5)
    by (auto simp: evolves_def Y'_def alarm_kept_def armed_def split: if_splits)
      (auto simp: timers_inv_def)
  moreover have "v \<Longrightarrow> timers s' p = Some tm'"
    using IH(1) by (simp add: evolves_def Y'_def)
  ultimately show ?case
    using IH(2-5) vs pn tm'(2) by (auto simp: Y'_def valid_after_def)
qed

lemma insert_all_mono: "insert_all h qs d = Inr c \<Longrightarrow> x \<in> set d \<Longrightarrow> x \<in> set c"
proof (induction qs arbitrary: d)
  case (Cons q qs)
  then obtain d' where "insert_one h q d = Inr d'" "insert_all h qs d' = Inr c"
    by (auto simp: outcome_simps)
  moreover then have "x \<in> set d'" using Cons.prems(2) by (auto simp: insert_one_def outcome_simps)
  ultimately show ?case using Cons.IH by blast
qed simp

lemma insert_all_evolves:
  "timers_inv (set vs) s \<Longrightarrow> threshold_ok s \<Longrightarrow> valid_after t s vs \<Longrightarrow> 0 < t \<Longrightarrow> distinct vs \<Longrightarrow>
     \<exists>c. insert_all (timers s) vs (timer_container s) = Inr c \<and>
         timers_inv {} (s\<lparr>timer_container := c\<rparr>) \<and> (vs \<noteq> [] \<longrightarrow> c \<noteq> [])"
proof (induction vs arbitrary: s)
  case (Cons p vs)
  then obtain tm where tm: "timers s p = Some tm" "t < expiration_time_point tm"
      "in_int64 (expiration_time_point tm)"
    by (auto simp: valid_after_def)
  let ?k = "(expiration_time_point tm, p)"
  let ?s = "s\<lparr>timer_container := set_insert ?k (timer_container s)\<rparr>"
  have "timers_inv (set vs) ?s"
    using Cons.prems(1,4,5) tm by (fastforce simp: timers_inv_def set_insert_ok)
  from Cons.IH [OF this] Cons.prems obtain c where c:
    "insert_all (timers s) vs (set_insert ?k (timer_container s)) = Inr c"
    "timers_inv {} (s\<lparr>timer_container := c\<rparr>)"
    by (auto simp: valid_after_def)
  have "c \<noteq> []" using insert_all_mono [OF c(1), of ?k] by auto
  with c tm show ?case by (simp add: insert_one_def deref_def)
qed simp

lemma alarm_at_earliest_simps [simp]:
  "timers (alarm_at_earliest s) = timers s" "calls (alarm_at_earliest s) = calls s"
  "timer_container (alarm_at_earliest s) = timer_container s"
  by (simp_all add: alarm_at_earliest_def Let_def)

lemma move_out_timers_inv:
  assumes inv: "timers_inv {} s"
  shows "distinct (map snd (filter (\<lambda>x. fst x \<le> t) (timer_container s)))"
    "timers_inv (set (map snd (filter (\<lambda>x. fst x \<le> t) (timer_container s))))
       (s\<lparr>timer_container := filter (\<lambda>x. \<not> fst x \<le> t) (timer_container s)\<rparr>)"
proof -
  have ok: "container_ok (timer_container s)" using inv by (simp add: timers_inv_def)
  have inj: "inj_on snd (set (timer_container s))"
  proof (rule inj_onI)
    fix x y assume xy: "x \<in> set (timer_container s)" "y \<in> set (timer_container s)" "snd x = snd y"
    have "\<exists>tm. timers s (snd z) = Some tm \<and> expiration_time_point tm = fst z"
      if "z \<in> set (timer_container s)" for z using that inv by (auto simp: timers_inv_def)
    from this [OF xy(1)] this [OF xy(2)] xy(3) show "x = y" by (auto simp: prod_eq_iff)
  qed
  show "distinct (map snd (filter (\<lambda>x. fst x \<le> t) (timer_container s)))"
    using ok inj by (auto simp: distinct_map container_ok_def intro: inj_on_subset)
  show "timers_inv (set (map snd (filter (\<lambda>x. fst x \<le> t) (timer_container s))))
       (s\<lparr>timer_container := filter (\<lambda>x. \<not> fst x \<le> t) (timer_container s)\<rparr>)"
    using inv ok inj by (fastforce simp: timers_inv_def container_ok_filter inj_on_def)
qed

text \<open>The alarm update that follows the removal of the due timers.\<close>

abbreviation rearm :: "timer_loop \<Rightarrow> timer_loop outcome" where
  "rearm s \<equiv> if timer_container s = []
     then Inr ((cancel_alarm s)\<lparr>next_earliest_expiration_time := FOREVER\<rparr>) else delay_alarm s"

lemma rearm_evolves:
  fixes s :: timer_loop and t :: int
  defines "s1 \<equiv> s\<lparr>timer_container := filter (\<lambda>x. \<not> fst x \<le> t) (timer_container s)\<rparr>"
  assumes inv: "timers_inv {} s" "alarm_inv s"
  shows "\<exists>s2. rearm s1 = Inr s2 \<and>
    evolves (set (map snd (filter (\<lambda>x. fst x \<le> t) (timer_container s)))) s s2 \<and>
    (next_earliest_expiration_time s \<le> t \<longrightarrow> armed s2) \<and>
    timers s2 = timers s \<and> calls s2 = calls s \<and> timer_container s2 = timer_container s1"
proof -
  let ?X = "set (map snd (filter (\<lambda>x. fst x \<le> t) (timer_container s)))"
  let ?c = "filter (\<lambda>x. \<not> fst x \<le> t) (timer_container s)"
  have ok: "container_ok (timer_container s)" using inv(1) by (simp add: timers_inv_def)
  have inv1: "timers_inv ?X s1" unfolding s1_def by (rule move_out_timers_inv(2) [OF inv(1)])
  have th: "threshold_ok s1" using alarm_inv_threshold [OF inv(2)] by (simp add: s1_def)
  have c: "timer_container s1 = ?c" "timers s1 = timers s" "calls s1 = calls s" by (simp_all add: s1_def)
  show ?thesis
  proof (cases "?c = []")
    case True
    have "timers_inv ?X (cancel_alarm s1)" using inv1 by (simp add: cancel_alarm_def)
    then show ?thesis
      using True inv(2) c
      by (simp add: evolves_def alarm_inv_def alarm_kept_def armed_def)
        (simp add: cancel_alarm_def s1_def FOREVER_def in_int64_def)
  next
    case False
    then have ne: "timer_container s1 \<noteq> []" using c by simp
    have "get_earliest_expiration_time_point (timer_container s) \<le> get_earliest_expiration_time_point ?c"
      using ok set_empty [of ?c] False
      by (intro tq.earliest_mono) (simp_all only: container_ok_filter, auto)
    then have "next_earliest_expiration_time s1 \<le>
        get_earliest_expiration_time_point (timer_container s1) + alarm_advancing_threshold s1"
      using inv(2) False by (auto simp: alarm_inv_def s1_def split: if_splits)
    from delay_alarm_evolves [OF inv1 ne th this] obtain s2 where
      s2: "delay_alarm s1 = Inr s2" "evolves ?X s1 s2" "timers s2 = timers s" "timer_container s2 = ?c"
        "next_earliest_expiration_time s < get_earliest_expiration_time_point ?c \<longrightarrow> armed s2"
      by (auto simp: s1_def)
    moreover have "calls s2 = calls s"
      using s2(1) delay_alarm_eq [OF inv1 ne] c by auto
    moreover have "t < get_earliest_expiration_time_point ?c"
      using earliest_in [OF False] by auto
    moreover have "evolves ?X s s2"
      using s2(2) by (simp add: evolves_def alarm_kept_def s1_def)
    ultimately show ?thesis using ne c by auto
  qed
qed

lemma insert_back_evolves:
  assumes "timers_inv (set vs) s" "alarm_inv s" "valid_after t s vs" "0 < t" "distinct vs" "vs \<noteq> []"
  shows "\<exists>c s'. insert_all (timers s) vs (timer_container s) = Inr c \<and>
    advance_alarm (s\<lparr>timer_container := c\<rparr>) = Inr s' \<and> evolves {} s s' \<and>
    timers s' = timers s \<and> calls s' = calls s \<and> timer_container s' = c"
proof -
  have th: "threshold_ok s" using assms(2) by (rule alarm_inv_threshold)
  obtain c where c: "insert_all (timers s) vs (timer_container s) = Inr c"
      "timers_inv {} (s\<lparr>timer_container := c\<rparr>)" "c \<noteq> []"
    using insert_all_evolves [OF assms(1) th assms(3,4,5)] assms(6) by auto
  obtain s' where s': "advance_alarm (s\<lparr>timer_container := c\<rparr>) = Inr s'"
      "evolves {} (s\<lparr>timer_container := c\<rparr>) s'"
    using advance_alarm_evolves [OF c(2)] c(3) th by auto
  moreover have "evolves {} s s'" using s'(2) by (simp add: evolves_def alarm_kept_def)
  moreover have "timers s' = timers s \<and> calls s' = calls s \<and> timer_container s' = c"
    using s'(1) advance_alarm_eq [OF c(2)] c(3) th by auto
  ultimately show ?thesis using c(1) by auto
qed

lemma expire_unfold:
  assumes "container_ok (timer_container s)" "in_int64 (t + 1)"
  shows "expire_timers_and_update_alarm body t s =
    obind (rearm (s\<lparr>timer_container := filter (\<lambda>x. \<not> fst x \<le> t) (timer_container s)\<rparr>)) (\<lambda>s2.
    obind (expire_each body t (map snd (filter (\<lambda>x. fst x \<le> t) (timer_container s))) s2) (\<lambda>(vs, s3).
      if vs = [] then Inr s3
      else obind (insert_all (timers s3) vs (timer_container s3))
             (\<lambda>c'. advance_alarm (s3\<lparr>timer_container := c'\<rparr>))))"
  by (simp add: expire_timers_and_update_alarm_def move_out_eq [OF assms] Let_def)

lemma expire_evolves:
  assumes body: "body_ok body" and inv: "timers_inv {} s" "alarm_inv s" and t: "0 < t"
    and ex: "expire_timers_and_update_alarm body t s = Inr s'"
  shows "evolves {} s s' \<and> (next_earliest_expiration_time s \<le> t \<longrightarrow> armed s')"
proof -
  have ok: "container_ok (timer_container s)" using inv(1) by (simp add: timers_inv_def)
  have in64: "in_int64 (t + 1)"
    using ex by (auto simp: expire_timers_and_update_alarm_def move_out_before_or_at_def time_add_def
        outcome_simps)
  let ?ps = "map snd (filter (\<lambda>x. fst x \<le> t) (timer_container s))"
  obtain s2 where s2: "rearm (s\<lparr>timer_container := filter (\<lambda>x. \<not> fst x \<le> t) (timer_container s)\<rparr>) = Inr s2"
      "evolves (set ?ps) s s2" "next_earliest_expiration_time s \<le> t \<longrightarrow> armed s2"
    using rearm_evolves [OF inv, of t] by blast
  obtain vs s3 where each: "expire_each body t ?ps s2 = Inr (vs, s3)"
    and fin: "(if vs = [] then Inr s3 else obind (insert_all (timers s3) vs (timer_container s3))
        (\<lambda>c'. advance_alarm (s3\<lparr>timer_container := c'\<rparr>))) = Inr s'"
    using ex unfolding expire_unfold [OF ok in64] s2(1) by (auto simp: outcome_simps split: prod.splits)
  have each': "evolves {} s2 s3" "timers_inv (set vs) s3" "distinct vs" "valid_after t s3 vs"
    using expire_each_evolves [OF body _ _ move_out_timers_inv(1) [OF inv(1)] _ each, of "{}"] s2(2)
    by (auto simp: evolves_def)
  then have ev3: "evolves {} s s3" "next_earliest_expiration_time s \<le> t \<longrightarrow> armed s3"
    using s2 by (auto simp: evolves_def intro: alarm_kept_trans alarm_kept_armed)
  show ?thesis
  proof (cases "vs = []")
    case True
    with fin ev3 show ?thesis by simp
  next
    case False
    have "alarm_inv s3" using ev3 by (simp add: evolves_def)
    from insert_back_evolves [OF each'(2) this each'(4) t each'(3) False] fin False
    have "evolves {} s3 s'" by auto
    then show ?thesis
      using ev3 alarm_kept_trans [of s s3 s'] alarm_kept_armed [of s3 s']
      by (auto simp: evolves_def)
  qed
qed

section \<open>The running loop\<close>

text \<open>
  The loop with the kernel's clock and alarm: time passes, the alarm fires once it is due (which
  disarms it and sets the triggered flag through the message callback), code in the loop's thread
  asks for timers, and the loop expires what is due when the flag is set.
\<close>

inductive loop_step ::
  "(nat \<Rightarrow> timer_loop \<Rightarrow> loop_cmd list) \<Rightarrow> timer_loop \<times> int \<Rightarrow> timer_loop \<times> int \<Rightarrow> bool" for body where
  tick: "now \<le> now' \<Longrightarrow> loop_step body (s, now) (s, now')"
| fire: "alarm s = Some a \<Longrightarrow> a \<le> now \<Longrightarrow>
     loop_step body (s, now) (timerfd_message_callback (s\<lparr>alarm := None\<rparr>), now)"
| command: "cmd_ok c \<Longrightarrow> exec_cmd c s = Inr s' \<Longrightarrow> loop_step body (s, now) (s', now)"
| expire: "timerfd_triggered s \<Longrightarrow> expire_timers_and_update_alarm body now s = Inr s' \<Longrightarrow>
     loop_step body (s, now) (s'\<lparr>timerfd_triggered := False\<rparr>, now)"

inductive_cases loop_stepE: "loop_step body (s, now) st"

definition loop_inv :: "timer_loop \<times> int \<Rightarrow> bool" where
  "loop_inv st \<longleftrightarrow>
     (case st of (s, now) \<Rightarrow> 0 < now \<and> timers_inv {} s \<and> alarm_inv s \<and>
        (armed s \<or> timerfd_triggered s \<and> next_earliest_expiration_time s \<le> now))"

lemma loop_inv_initial: "0 < now \<Longrightarrow> loop_inv (new_timer_loop, now)"
  by (simp add: loop_inv_def new_timer_loop_def timers_inv_def alarm_inv_def armed_def in_int64_def FOREVER_def)

lemma exec_cmd_triggered:
  "exec_cmd c s = Inr s' \<Longrightarrow> timerfd_triggered s' = timerfd_triggered s"
  by (cases c) (auto simp: outcome_simps run_at_time_point_def run_after_time_interval_def Let_def
      add_a_timer_and_update_alarm_def cancel_a_timer_and_update_alarm_def advance_alarm_def
      delay_alarm_def set_alarm_at_time_point_def cancel_alarm_def
      split: if_splits option.splits prod.splits)

lemma loop_inv_step:
  assumes "body_ok body" "loop_inv st" "loop_step body st st'"
  shows "loop_inv st'"
  using assms(3,2)
proof cases
  case (fire s a now)
  then show ?thesis
    using assms(2) by (auto simp: loop_inv_def timerfd_message_callback_def armed_def)
next
  case (command c s s' now)
  then have "evolves {} s s'" using assms(2) exec_cmd_evolves by (auto simp: loop_inv_def)
  then show ?thesis
    using command assms(2) exec_cmd_triggered [OF command(4)]
    by (auto simp: loop_inv_def evolves_def alarm_kept_def armed_def)
next
  case (expire s now s')
  then have "evolves {} s s'" "next_earliest_expiration_time s \<le> now \<longrightarrow> armed s'"
    using assms(1,2) expire_evolves by (auto simp: loop_inv_def)
  then show ?thesis
    using expire assms(2)
    by (auto simp: loop_inv_def evolves_def armed_def alarm_kept_def)
qed (auto simp: loop_inv_def)

lemma loop_inv_reachable:
  "(loop_step body)\<^sup>*\<^sup>* st st' \<Longrightarrow> body_ok body \<Longrightarrow> loop_inv st \<Longrightarrow> loop_inv st'"
  by (induction rule: rtranclp_induct) (auto intro: loop_inv_step)

text \<open>C8: No timer is ever forgotten: in every state the running loop can reach, through any
  interleaving of timer requests (from callbacks too), alarms and expirations, a loop that has
  timers has either an alarm set no later than the earliest one plus the advancing threshold, or
  the expiration is already pending.\<close>

theorem alarm_covers_earliest_timer:
  assumes "body_ok body" "0 < now" "(loop_step body)\<^sup>*\<^sup>* (new_timer_loop, now) (s, now')"
    and "timer_container s \<noteq> []"
    and "get_earliest_expiration_time_point (timer_container s) + alarm_advancing_threshold s < FOREVER"
  shows "timerfd_triggered s \<or>
    (\<exists>a. alarm s = Some a \<and>
         a \<le> get_earliest_expiration_time_point (timer_container s) + alarm_advancing_threshold s)"
proof -
  have "loop_inv (s, now')"
    using loop_inv_reachable [OF assms(3,1) loop_inv_initial [OF assms(2)]] .
  with assms(4,5) show ?thesis
    by (auto simp: loop_inv_def alarm_inv_def armed_def)
qed

theorem alarm_covers_earliest_timer_witness:
  "\<exists>s. run_at_time_point 10 0 0 7 new_timer_loop = Inr (1, s) \<and>
    (timerfd_triggered s \<or>
     (\<exists>a. alarm s = Some a \<and>
         a \<le> get_earliest_expiration_time_point (timer_container s) + alarm_advancing_threshold s))"
proof -
  let ?s = "new_timer_loop\<lparr>timers := [1 \<mapsto> new_timer 10 0 0 7], next_address := 2,
     timer_container := [(10, 1)], alarm := Some 10, next_earliest_expiration_time := 10\<rparr>"
  have r: "run_at_time_point 10 0 0 7 new_timer_loop = Inr (1, ?s)"
    by (simp add: run_at_time_point_def new_timer_loop_def add_a_timer_and_update_alarm_def insert_one_def
        deref_def new_timer_def set_insert_def advance_alarm_def Let_def
        get_earliest_expiration_time_point_def time_sub_def int64_result_def in_int64_def FOREVER_def
        set_alarm_pos)
  have "loop_step (\<lambda>_ _. []) (new_timer_loop, 1) (?s, 1)"
    using r by (intro command [of "Run_At 10 0 0 7"]) (simp_all add: in_int64_def)
  then have "(loop_step (\<lambda>_ _. []))\<^sup>*\<^sup>* (new_timer_loop, 1) (?s, 1)" by simp
  from alarm_covers_earliest_timer [OF _ _ this]
  have "timerfd_triggered ?s \<or> (\<exists>a. alarm ?s = Some a \<and>
      a \<le> get_earliest_expiration_time_point (timer_container ?s) + alarm_advancing_threshold ?s)"
    by (simp add: body_ok_def get_earliest_expiration_time_point_def new_timer_loop_def FOREVER_def)
  with r show ?thesis by blast
qed

section \<open>What an expiration does\<close>

text \<open>Callbacks that leave the timers alone: everything an expiration does is then determined.\<close>

abbreviation no_commands :: "nat \<Rightarrow> timer_loop \<Rightarrow> loop_cmd list" where
  "no_commands \<equiv> \<lambda>_ _. []"

lemma expire_until_simulate:
  assumes call: "\<And>cb w. call cb (f w) = Inr (f (w @ [cb]))"
  shows "expire_until call t tm (f w) =
    obind (expire_until record_call t tm w) (\<lambda>r. Inr (fst r, fst (snd r), f (snd (snd r))))"
proof (induction "nat (t + 1 - expiration_time_point tm)" arbitrary: tm w rule: less_induct)
  case less
  have once: "expire_once call tm (f w) =
      obind (expire_once record_call tm w) (\<lambda>r. Inr (fst r, fst (snd r), f (snd (snd r))))"
    by (simp add: expire_once_def call record_call_def Let_def)
  show ?case
  proof (cases "expire_once record_call tm w")
    case (Inl e)
    with once show ?thesis by (simp add: expire_until.simps [of _ t tm])
  next
    case (Inr r)
    obtain v tm1 w1 where r: "r = (v, tm1, w1)" by (cases r) auto
    show ?thesis
    proof (cases "\<not> v \<or> expiration_time_point tm1 > t")
      case True
      with once Inr r show ?thesis by (auto simp: expire_until.simps [of _ t tm])
    next
      case False
      then have "expiration_time_point tm < expiration_time_point tm1"
        using expire_once_advances [of record_call tm w tm1 w1] Inr r by simp
      then show ?thesis
        using less.hyps [of tm1 w1] once Inr r False by (simp add: expire_until.simps [of _ t tm])
    qed
  qed
qed

lemma expire_until_passive:
  assumes "timer_ok tm" "expiration_time_point tm \<le> t"
    "in_int64 (expiration_time_point tm)" "in_int64 (t + int (repetition_time_interval tm))"
  shows "expire_until (call_functor no_commands) t tm s =
    Inr (\<not> exhausted t tm,
         advanced (if exhausted t tm then firings t tm - 1 else firings t tm) tm,
         s\<lparr>calls := calls s @ replicate (firings t tm) (timer_callback tm)\<rparr>)"
proof -
  have "expire_until (call_functor no_commands) t tm (s\<lparr>calls := calls s\<rparr>) =
      obind (expire_until record_call t tm (calls s)) (\<lambda>r. Inr (fst r, fst (snd r), s\<lparr>calls := snd (snd r)\<rparr>))"
    by (rule expire_until_simulate [where f = "\<lambda>w. s\<lparr>calls := w\<rparr>"]) (simp add: call_functor_def)
  then show ?thesis by (simp add: expire_until_trace [OF assms])
qed

definition next_timer :: "int \<Rightarrow> timer \<Rightarrow> timer option" where
  "next_timer t tm = (if exhausted t tm then None else Some (advanced (firings t tm) tm))"

definition due_calls :: "int \<Rightarrow> timer_heap \<Rightarrow> timer_ptr list \<Rightarrow> nat list" where
  "due_calls t h ps =
     concat (map (\<lambda>p. replicate (firings t (the (h p))) (timer_callback (the (h p)))) ps)"

definition expirable :: "int \<Rightarrow> timer_heap \<Rightarrow> timer_ptr \<Rightarrow> bool" where
  "expirable t h p \<longleftrightarrow>
     (case h p of None \<Rightarrow> False
      | Some tm \<Rightarrow> timer_ok tm \<and> expiration_time_point tm \<le> t \<and> in_int64 (expiration_time_point tm) \<and>
          in_int64 (t + int (repetition_time_interval tm)))"

lemma expire_each_passive:
  "distinct ps \<Longrightarrow> (\<forall>p \<in> set ps. expirable t (timers s) p) \<Longrightarrow>
   expire_each no_commands t ps s =
     Inr (filter (\<lambda>p. next_timer t (the (timers s p)) \<noteq> None) ps,
          s\<lparr>calls := calls s @ due_calls t (timers s) ps,
            timers := (\<lambda>p. if p \<in> set ps then next_timer t (the (timers s p)) else timers s p)\<rparr>)"
proof (induction ps arbitrary: s)
  case Nil
  then show ?case by (simp add: due_calls_def)
next
  case (Cons p ps)
  then obtain tm where tm: "timers s p = Some tm" "timer_ok tm" "expiration_time_point tm \<le> t"
      "in_int64 (expiration_time_point tm)" "in_int64 (t + int (repetition_time_interval tm))"
    by (auto simp: expirable_def split: option.splits)
  let ?s = "s\<lparr>calls := calls s @ replicate (firings t tm) (timer_callback tm),
      timers := (timers s)(p := next_timer t tm)\<rparr>"
  have each: "expire_each no_commands t ps ?s =
     Inr (filter (\<lambda>q. next_timer t (the (timers ?s q)) \<noteq> None) ps,
          ?s\<lparr>calls := calls ?s @ due_calls t (timers ?s) ps,
            timers := (\<lambda>q. if q \<in> set ps then next_timer t (the (timers ?s q)) else timers ?s q)\<rparr>)"
    using Cons.prems by (intro Cons.IH) (auto simp: expirable_def)
  have other: "timers ?s q = timers s q" if "q \<in> set ps" for q using that Cons.prems(1) by auto
  have "filter (\<lambda>q. next_timer t (the (timers ?s q)) \<noteq> None) ps =
      filter (\<lambda>q. next_timer t (the (timers s q)) \<noteq> None) ps"
    by (rule filter_cong) (simp_all only: refl other)
  moreover have "due_calls t (timers ?s) ps = due_calls t (timers s) ps"
    unfolding due_calls_def by (intro arg_cong [where f = concat] map_cong) (simp_all only: refl other)
  moreover have "(\<lambda>q. if q \<in> set ps then next_timer t (the (timers ?s q)) else timers ?s q) =
      (\<lambda>q. if q \<in> set (p # ps) then next_timer t (the (timers s q)) else timers s q)"
    using tm(1) Cons.prems(1) by (auto simp: fun_eq_iff)
  ultimately have each': "expire_each no_commands t ps ?s =
     Inr (filter (\<lambda>q. next_timer t (the (timers s q)) \<noteq> None) ps,
          s\<lparr>calls := calls s @ due_calls t (timers s) (p # ps),
            timers := (\<lambda>q. if q \<in> set (p # ps) then next_timer t (the (timers s q)) else timers s q)\<rparr>)"
    using each tm(1) by (simp add: due_calls_def)
  have "(if \<not> exhausted t tm then Some (advanced (if exhausted t tm then firings t tm - 1 else firings t tm) tm)
      else None) = next_timer t tm" by (simp add: next_timer_def)
  then show ?case
    using tm each' expire_until_passive [OF tm(2-5), of s]
    by (simp add: deref_def Let_def) (simp add: next_timer_def)
qed

lemma insert_all_set:
  "(\<forall>p \<in> set vs. h p \<noteq> None) \<Longrightarrow>
     \<exists>c'. insert_all h vs c = Inr c' \<and>
          set c' = set c \<union> (\<lambda>p. (expiration_time_point (the (h p)), p)) ` set vs"
proof (induction vs arbitrary: c)
  case (Cons p vs)
  then obtain tm where tm: "h p = Some tm" by auto
  from Cons.IH [of "set_insert (expiration_time_point tm, p) c"] Cons.prems tm show ?case
    by (auto simp: insert_one_def deref_def)
qed simp

definition no_overflow_until :: "int \<Rightarrow> timer_loop \<Rightarrow> bool" where
  "no_overflow_until t s \<longleftrightarrow>
     in_int64 (t + 1) \<and>
     (\<forall>(u, p) \<in> set (timer_container s).
        in_int64 (t + int (repetition_time_interval (the (timers s p)))))"

lemma expiration_once:
  assumes inv: "timers_inv {} s" "alarm_inv s" and t: "0 < t" and no: "no_overflow_until t s"
  shows "\<exists>s'. expire_timers_and_update_alarm no_commands t s = Inr s' \<and>
    calls s' = calls s @ due_calls t (timers s) (map snd (filter (\<lambda>x. fst x \<le> t) (timer_container s))) \<and>
    (\<forall>(u, p) \<in> set (timer_container s). u \<le> t \<longrightarrow> timers s' p = next_timer t (the (timers s p))) \<and>
    set (timer_container s') = {x \<in> set (timer_container s). t < fst x} \<union>
      {(expiration_time_point tm, p) | u p tm. (u, p) \<in> set (timer_container s) \<and> u \<le> t \<and>
         next_timer t (the (timers s p)) = Some tm} \<and>
    (\<forall>x \<in> set (timer_container s'). t < fst x)"
proof -
  let ?ps = "map snd (filter (\<lambda>x. fst x \<le> t) (timer_container s))"
  have ok: "container_ok (timer_container s)" using inv by (simp add: timers_inv_def)
  note dist = move_out_timers_inv(1) [OF inv(1), of t]
  obtain s2 where s2: "rearm (s\<lparr>timer_container := filter (\<lambda>x. \<not> fst x \<le> t) (timer_container s)\<rparr>) = Inr s2"
      "evolves (set ?ps) s s2" "timers s2 = timers s" "calls s2 = calls s"
      "timer_container s2 = filter (\<lambda>x. \<not> fst x \<le> t) (timer_container s)"
    using rearm_evolves [OF inv, of t] by auto
  have ev: "expirable t (timers s2) p" if "p \<in> set ?ps" for p
  proof -
    from that obtain u where u: "(u, p) \<in> set (timer_container s)" "u \<le> t" by auto
    then obtain tm where "timers s p = Some tm" "expiration_time_point tm = u" "in_int64 u" "timer_ok tm"
      using inv(1) by (auto simp: timers_inv_def)
    with u no s2(3) show ?thesis by (auto simp: expirable_def no_overflow_until_def)
  qed
  define h where "h = (\<lambda>p. if p \<in> set ?ps then next_timer t (the (timers s p)) else timers s p)"
  define vs where "vs = filter (\<lambda>p. next_timer t (the (timers s p)) \<noteq> None) ?ps"
  define s3 where "s3 = s2\<lparr>calls := calls s @ due_calls t (timers s) ?ps, timers := h\<rparr>"
  have each: "expire_each no_commands t ?ps s2 = Inr (vs, s3)"
    using expire_each_passive [OF dist ballI [OF ev]]
    unfolding vs_def s3_def h_def s2(3,4) by simp
  have each': "evolves {} s2 s3" "timers_inv (set vs) s3" "distinct vs" "valid_after t s3 vs"
    using expire_each_evolves [OF _ _ _ dist _ each, of "{}"] s2(2)
    by (auto simp: evolves_def body_ok_def)
  have heap: "\<forall>(u, p) \<in> set (timer_container s). u \<le> t \<longrightarrow> h p = next_timer t (the (timers s p))"
    by (force simp: h_def)
  have vs: "set vs = {p. \<exists>u. (u, p) \<in> set (timer_container s) \<and> u \<le> t \<and> next_timer t (the (timers s p)) \<noteq> None}"
    by (force simp: vs_def)
  have later: "t < expiration_time_point tm" if "next_timer t (the (timers s p)) = Some tm" "p \<in> set vs" for p tm
    using that each'(4) by (auto simp: valid_after_def s3_def h_def vs_def)
  have start: "expire_timers_and_update_alarm no_commands t s =
      (if vs = [] then Inr s3 else obind (insert_all (timers s3) vs (timer_container s3))
             (\<lambda>c'. advance_alarm (s3\<lparr>timer_container := c'\<rparr>)))"
    using expire_unfold [OF ok, of t] no s2(1) each by (simp add: no_overflow_until_def)
  show ?thesis
  proof (cases "vs = []")
    case True
    then have "\<nexists>u p. (u, p) \<in> set (timer_container s) \<and> u \<le> t \<and> next_timer t (the (timers s p)) \<noteq> None"
      using vs by auto
    then show ?thesis
      using True start s2(5) heap by (auto simp: s3_def)
  next
    case False
    have "alarm_inv s3" using each'(1) by (simp add: evolves_def)
    from insert_back_evolves [OF each'(2) this each'(4) t each'(3) False] obtain c s' where
      s': "expire_timers_and_update_alarm no_commands t s = Inr s'"
        "insert_all (timers s3) vs (timer_container s3) = Inr c"
        "timers s' = h" "calls s' = calls s3" "timer_container s' = c"
      using start False by (auto simp: s3_def)
    have "\<forall>p \<in> set vs. h p \<noteq> None" by (auto simp: vs_def h_def)
    from insert_all_set [OF this, of "timer_container s3"] s'(2)
    have set_c: "set c = {x \<in> set (timer_container s). t < fst x} \<union>
        (\<lambda>p. (expiration_time_point (the (h p)), p)) ` set vs"
      using s2(5) by (auto simp: s3_def)
    also have "(\<lambda>p. (expiration_time_point (the (h p)), p)) ` set vs =
      {(expiration_time_point tm, p) | u p tm. (u, p) \<in> set (timer_container s) \<and> u \<le> t \<and>
         next_timer t (the (timers s p)) = Some tm}"
      using heap unfolding vs by force
    finally show ?thesis
      using s' heap later vs by (fastforce simp: s3_def)
  qed
qed

text \<open>C19: Expiring at time \<open>t\<close> calls, in the order of expiration times, the callback of every timer due
  at or before \<open>t\<close>, as often as it is due; it deletes exactly the timers whose repetitions are used
  up and puts the others back at their next expiration, so that every timer left in the container
  expires strictly after \<open>t\<close>. (Stated for callbacks that do not themselves add or cancel
  timers.)\<close>

theorem expiration_runs_due_timers:
  assumes inv: "timers_inv {} s" "alarm_inv s" and t: "0 < t" and no: "no_overflow_until t s"
  shows "\<exists>s'. expire_timers_and_update_alarm no_commands t s = Inr s' \<and>
    calls s' = calls s @ due_calls t (timers s) (map snd (filter (\<lambda>x. fst x \<le> t) (timer_container s))) \<and>
    (\<forall>(u, p) \<in> set (timer_container s). u \<le> t \<longrightarrow> timers s' p = next_timer t (the (timers s p))) \<and>
    set (timer_container s') = {x \<in> set (timer_container s). t < fst x} \<union>
      {(expiration_time_point tm, p) | u p tm. (u, p) \<in> set (timer_container s) \<and> u \<le> t \<and>
         next_timer t (the (timers s p)) = Some tm} \<and>
    (\<forall>x \<in> set (timer_container s'). t < fst x)"
  by (rule expiration_once [OF assms])

definition one_timer_loop :: timer_loop where
  "one_timer_loop =
     new_timer_loop\<lparr>timers := [1 \<mapsto> new_timer 10 5 (- 1) 7], next_address := 2,
       timer_container := [(10, 1)], alarm := Some 10, next_earliest_expiration_time := 10\<rparr>"

theorem expiration_runs_due_timers_witness:
  "\<exists>s'. expire_timers_and_update_alarm no_commands 22 one_timer_loop = Inr s' \<and> calls s' = [7, 7, 7] \<and>
     set (timer_container s') = {(25, 1)}"
proof -
  have s: "timers one_timer_loop = [1 \<mapsto> new_timer 10 5 (- 1) 7]" "calls one_timer_loop = []"
      "timer_container one_timer_loop = [(10, 1)]"
    by (simp_all add: one_timer_loop_def new_timer_loop_def)
  have f: "firings 22 (new_timer 10 5 (- 1) 7) = 3"
    by (simp add: firings_def new_timer_def due_def Let_def)
  have n: "next_timer 22 (new_timer 10 5 (- 1) 7) = Some (new_timer 25 5 (- 1) 7)"
    unfolding next_timer_def f by (simp add: exhausted_def new_timer_def advanced_def)
  have d: "due_calls 22 (timers one_timer_loop) [1] = [7, 7, 7]"
    by (simp add: due_calls_def s f numeral_3_eq_3) (simp add: new_timer_def)
  have "timers_inv {} one_timer_loop" "alarm_inv one_timer_loop" "no_overflow_until 22 one_timer_loop"
    by (auto simp: timers_inv_def alarm_inv_def no_overflow_until_def one_timer_loop_def new_timer_loop_def
        container_ok_def new_timer_def timer_ok_def in_int64_def get_earliest_expiration_time_point_def)
  from expiration_runs_due_timers [OF this(1,2) zero_less_numeral this(3)] obtain s' where
    e: "expire_timers_and_update_alarm no_commands 22 one_timer_loop = Inr s'" and
    c: "calls s' = calls one_timer_loop @ due_calls 22 (timers one_timer_loop)
        (map snd (filter (\<lambda>x. fst x \<le> 22) (timer_container one_timer_loop)))" and
    t: "set (timer_container s') = {x \<in> set (timer_container one_timer_loop). 22 < fst x} \<union>
        {(expiration_time_point tm, p) | u p tm. (u, p) \<in> set (timer_container one_timer_loop) \<and> u \<le> 22 \<and>
           next_timer 22 (the (timers one_timer_loop p)) = Some tm}"
    by blast
  have "calls s' = [7, 7, 7]" using c d by (simp add: s)
  moreover have "set (timer_container s') = {(25, 1)}"
    unfolding t using n by (auto simp: s new_timer_def)
  ultimately show ?thesis using e by blast
qed

section \<open>Cancelling at the wrong moment\<close>

text \<open>Cancelling the only timer takes it out of the container and disarms the alarm, but the timer
  object is never deleted: the branch for an empty container returns before the delete.\<close>

theorem cancel_last_timer_leaks:
  assumes "timers s p = Some tm" "timer_container s = [(expiration_time_point tm, p)]"
  shows "\<exists>s'. cancel_a_timer_and_update_alarm p s = Inr s' \<and> timer_container s' = [] \<and>
           alarm s' = None \<and> timers s' p = Some tm"
  using assms by (simp add: cancel_a_timer_and_update_alarm_def remove_one_def deref_def cancel_alarm_def Let_def)

theorem cancel_last_timer_leaks_witness:
  "\<exists>s'. cancel_a_timer_and_update_alarm 1
       (new_timer_loop\<lparr>timers := [1 \<mapsto> new_timer 10 0 0 7], timer_container := [(10, 1)]\<rparr>) = Inr s' \<and>
     timer_container s' = [] \<and> alarm s' = None \<and> timers s' 1 = Some (new_timer 10 0 0 7)"
  by (rule cancel_last_timer_leaks) (simp_all add: new_timer_def)

text \<open>A one-shot timer that has fired has been deleted, so cancelling it through the identifier
  its creation returned reads a dangling pointer, for every time and callback (the comment in the
  source expects the call to be harmless).\<close>

theorem cancel_fired_timer_undefined:
  assumes "0 < t" "t \<le> now" "in_int64 (now + 1)"
  shows "\<exists>s s'. run_at_time_point t 0 n cb new_timer_loop = Inr (1, s) \<and>
           expire_timers_and_update_alarm no_commands now s = Inr s' \<and> calls s' = [cb] \<and>
           cancel_a_timer_and_update_alarm 1 s' = Inl (Undefined ''dangling timer pointer'')"
proof -
  have inv: "timers_inv {} new_timer_loop" "alarm_inv new_timer_loop"
    using loop_inv_initial [of 1] by (simp_all add: loop_inv_def)
  have t: "in_int64 t" using assms by (auto simp: in_int64_def)
  obtain s where s: "run_at_time_point t 0 n cb new_timer_loop = Inr (1, s)" "evolves {} new_timer_loop s"
    using run_at_evolves [OF inv assms(1) t, of 0 n cb] by (auto simp: new_timer_loop_def)
  let ?tm = "new_timer t 0 n cb"
  have st: "timer_container s = [(t, 1)]" "timers s 1 = Some ?tm" "calls s = []"
    using s(1) by (auto simp: run_at_time_point_def new_timer_loop_def add_a_timer_and_update_alarm_def
        insert_one_def deref_def set_insert_def new_timer_def advance_alarm_def set_alarm_at_time_point_def
        outcome_simps Let_def split: if_splits option.splits)
  have tm: "expiration_time_point ?tm = t" "repetition_time_interval ?tm = 0" "timer_callback ?tm = cb"
    by (simp_all add: new_timer_def)
  have "no_overflow_until now s" using st tm assms by (auto simp: no_overflow_until_def in_int64_def)
  with s(2) assms(1,2) obtain s' where s': "expire_timers_and_update_alarm no_commands now s = Inr s'"
      "calls s' = calls s @ due_calls now (timers s) (map snd (filter (\<lambda>x. fst x \<le> now) (timer_container s)))"
      "\<forall>(u, p) \<in> set (timer_container s). u \<le> now \<longrightarrow> timers s' p = next_timer now (the (timers s p))"
    using expiration_once [of s now] by (auto simp: evolves_def)
  have "timers s' 1 = None" "calls s' = [cb]"
    using s'(2,3) st assms(2) tm
    by (simp_all add: next_timer_def exhausted_def due_calls_def firings_def)
  then show ?thesis
    using s(1) s'(1) by (auto simp: cancel_a_timer_and_update_alarm_def remove_one_def deref_def)
qed

theorem cancel_fired_timer_undefined_witness:
  "\<exists>s s'. run_at_time_point 10 0 0 7 new_timer_loop = Inr (1, s) \<and>
     expire_timers_and_update_alarm no_commands 12 s = Inr s' \<and> calls s' = [7] \<and>
     cancel_a_timer_and_update_alarm 1 s' = Inl (Undefined ''dangling timer pointer'')"
  by (rule cancel_fired_timer_undefined) (simp_all add: in_int64_def)

end
