(* ===== verification/Functor_Queues.thy ===== *)
theory Functor_Queues
  imports Server_Prelude
begin

text \<open>
  The two queues an event loop can be built with: \<^verbatim>\<open>BlockingQueue\<close> (include/util/blocking_queue.h,
  src/util/blocking_queue.cc) and the single-producer, single-consumer \<^verbatim>\<open>SpscLockFreeQueue\<close>
  (include/util/lock_free_queue.h). The lock-free queue is modelled on a heap of nodes, first
  operation by operation and then access by access, with the producer and the consumer
  interleaved; touching a deleted node is a crash. Memory accesses are sequentially consistent.
\<close>

section \<open>The interface\<close>

locale fifo_queue =
  fixes invar :: "'q \<Rightarrow> bool"
    and items :: "'q \<Rightarrow> 'a list"
    and push :: "'a \<Rightarrow> 'q \<Rightarrow> 'q outcome"
    and pop :: "'q \<Rightarrow> ('a option \<times> 'q) outcome"
  assumes push_total: "invar q \<Longrightarrow> \<exists>q'. push x q = Inr q' \<and> invar q' \<and> items q' = items q @ [x]"
    and pop_total: "invar q \<Longrightarrow> \<exists>q'. pop q = Inr (case items q of [] \<Rightarrow> None | x # xs \<Rightarrow> Some x, q') \<and>
          invar q' \<and> items q' = tl (items q)"
begin

text \<open>\<open>while ((functor_ptr = queue->pop())) (*functor_ptr)();\<close>, with fuel for the number of pops.\<close>

fun drain :: "nat \<Rightarrow> 'q \<Rightarrow> ('a list \<times> 'q) outcome" where
  "drain 0 q = Inl Diverges"
| "drain (Suc n) q =
     obind (pop q) (\<lambda>(r, q').
       case r of None \<Rightarrow> Inr ([], q')
       | Some x \<Rightarrow> obind (drain n q') (\<lambda>(xs, q''). Inr (x # xs, q'')))"

lemma drain_total:
  "invar q \<Longrightarrow> length (items q) < n \<Longrightarrow>
     \<exists>q'. drain n q = Inr (items q, q') \<and> invar q' \<and> items q' = []"
proof (induction n arbitrary: q)
  case (Suc n)
  obtain q' where q': "pop q = Inr (case items q of [] \<Rightarrow> None | x # xs \<Rightarrow> Some x, q')" "invar q'"
      "items q' = tl (items q)" using pop_total [OF Suc.prems(1)] by blast
  show ?case
  proof (cases "items q")
    case Nil
    with q' show ?thesis by simp
  next
    case (Cons x xs)
    with q' Suc.prems(2) Suc.IH [of q'] show ?thesis by auto
  qed
qed simp

fun push_all :: "'a list \<Rightarrow> 'q \<Rightarrow> 'q outcome" where
  "push_all [] q = Inr q"
| "push_all (x # xs) q = obind (push x q) (push_all xs)"

lemma push_all_total:
  "invar q \<Longrightarrow> \<exists>q'. push_all xs q = Inr q' \<and> invar q' \<and> items q' = items q @ xs"
proof (induction xs arbitrary: q)
  case (Cons x xs)
  obtain q1 where "push x q = Inr q1" "invar q1" "items q1 = items q @ [x]"
    using push_total [OF Cons.prems] by blast
  with Cons.IH [of q1] show ?case by auto
qed simp

lemma push_drain:
  assumes "invar q" "items q = []" "length xs < n"
  shows "\<exists>q'. obind (push_all xs q) (drain n) = Inr (xs, q') \<and> invar q' \<and> items q' = []"
  using push_all_total [OF assms(1), of xs] drain_total assms(2,3) by fastforce

end

section \<open>The blocking queue\<close>

text \<open>\<open>None\<close> is a call that waits on the condition variable.\<close>

record 'a blocking_queue =
  bq_queue :: "'a list"
  bq_capacity :: nat

definition new_blocking_queue :: "nat \<Rightarrow> 'a blocking_queue" where
  "new_blocking_queue n = \<lparr>bq_queue = [], bq_capacity = n\<rparr>"

definition bq_push :: "'a \<Rightarrow> 'a blocking_queue \<Rightarrow> 'a blocking_queue option" where
  "bq_push x q =
     (if length (bq_queue q) \<ge> bq_capacity q then None
      else Some (q\<lparr>bq_queue := bq_queue q @ [x]\<rparr>))"

definition bq_pop :: "'a blocking_queue \<Rightarrow> ('a \<times> 'a blocking_queue) option" where
  "bq_pop q =
     (case bq_queue q of [] \<Rightarrow> None | x # xs \<Rightarrow> Some (x, q\<lparr>bq_queue := xs\<rparr>))"

definition bq_pop_all :: "'a blocking_queue \<Rightarrow> 'a list \<times> 'a blocking_queue" where
  "bq_pop_all q = (bq_queue q, q\<lparr>bq_queue := []\<rparr>)"

text \<open>
  Threads calling the queue in any order; a call that would wait is not enabled. The trace says
  what went in and what came out.
\<close>

datatype 'a bq_event = Pushed 'a | Popped 'a | Popped_All "'a list"

inductive bq_step :: "'a blocking_queue \<Rightarrow> 'a bq_event \<Rightarrow> 'a blocking_queue \<Rightarrow> bool" where
  "bq_push x q = Some q' \<Longrightarrow> bq_step q (Pushed x) q'"
| "bq_pop q = Some (x, q') \<Longrightarrow> bq_step q (Popped x) q'"
| "bq_pop_all q = (xs, q') \<Longrightarrow> bq_step q (Popped_All xs) q'"

inductive bq_run :: "'a blocking_queue \<Rightarrow> 'a bq_event list \<Rightarrow> 'a blocking_queue \<Rightarrow> bool" where
  "bq_run q [] q"
| "bq_run q es q' \<Longrightarrow> bq_step q' e q'' \<Longrightarrow> bq_run q (es @ [e]) q''"

fun ins :: "'a bq_event list \<Rightarrow> 'a list" where
  "ins [] = []"
| "ins (Pushed x # es) = x # ins es"
| "ins (_ # es) = ins es"

fun outs :: "'a bq_event list \<Rightarrow> 'a list" where
  "outs [] = []"
| "outs (Popped x # es) = x # outs es"
| "outs (Popped_All xs # es) = xs @ outs es"
| "outs (_ # es) = outs es"

lemma ins_append [simp]: "ins (es @ fs) = ins es @ ins fs"
  by (induction es rule: ins.induct) auto

lemma outs_append [simp]: "outs (es @ fs) = outs es @ outs fs"
  by (induction es rule: outs.induct) auto

lemma bq_run_inv:
  "bq_run q es q' \<Longrightarrow> length (bq_queue q) \<le> bq_capacity q \<Longrightarrow>
     bq_capacity q' = bq_capacity q \<and> length (bq_queue q') \<le> bq_capacity q \<and>
     bq_queue q @ ins es = outs es @ bq_queue q'"
proof (induction rule: bq_run.induct)
  case (2 q es q' e q'')
  from 2(2) show ?case
    using 2(3) [OF 2(4)]
  proof cases
    case (1 x)
    with 2(3) [OF 2(4)] show ?thesis
      by (auto simp: bq_push_def append_assoc [symmetric] simp del: append_assoc split: if_splits)
  qed (auto simp: bq_pop_def bq_pop_all_def split: list.splits)
qed simp

text \<open>Whatever threads push, pop and drain a blocking queue in whatever order, elements come out in
  exactly the order they went in, none lost and none invented, and the queue never holds more than
  its capacity.\<close>

theorem blocking_queue_fifo:
  assumes "bq_run (new_blocking_queue n) es q"
  shows "ins es = outs es @ bq_queue q \<and> length (bq_queue q) \<le> n"
  using bq_run_inv [OF assms] by (simp add: new_blocking_queue_def)

theorem blocking_queue_fifo_witness:
  "ins [Pushed (5::nat), Popped 5] = outs [Pushed 5, Popped 5] @ bq_queue (new_blocking_queue 1) \<and>
   length (bq_queue (new_blocking_queue 1 :: nat blocking_queue)) \<le> 1"
proof -
  have "bq_run (new_blocking_queue 1) ([] @ [Pushed (5::nat)]) \<lparr>bq_queue = [5], bq_capacity = 1\<rparr>"
    by (rule bq_run.intros(2) [OF bq_run.intros(1)], rule bq_step.intros(1))
      (simp add: bq_push_def new_blocking_queue_def)
  then have "bq_run (new_blocking_queue 1) (([] @ [Pushed (5::nat)]) @ [Popped 5]) (new_blocking_queue 1)"
    by (rule bq_run.intros(2), intro bq_step.intros(2)) (simp add: bq_pop_def new_blocking_queue_def)
  from blocking_queue_fifo [OF this] show ?thesis by simp
qed

section \<open>The lock-free queue, operation by operation\<close>

record 'a node =
  node_next :: "nat option"
  node_value :: "'a option"

record 'a spsc =
  nodes :: "nat \<rightharpoonup> 'a node"
  fresh :: nat
  q_head :: nat
  q_tail :: nat

definition new_spsc :: "'a spsc" where
  "new_spsc =
     \<lparr>nodes = [0 \<mapsto> \<lparr>node_next = None, node_value = None\<rparr>], fresh = 1, q_head = 0, q_tail = 0\<rparr>"

definition get_node :: "'a spsc \<Rightarrow> nat \<Rightarrow> 'a node outcome" where
  "get_node q p =
     (case nodes q p of Some n \<Rightarrow> Inr n | None \<Rightarrow> Inl (Undefined ''access to a deleted node''))"

definition spsc_push :: "'a \<Rightarrow> 'a spsc \<Rightarrow> 'a spsc outcome" where
  "spsc_push v q =
     (let new_node = fresh q;
          old_tail = q_tail q;
          q1 = q\<lparr>nodes := (nodes q)(new_node \<mapsto> \<lparr>node_next = None, node_value = Some v\<rparr>),
                 fresh := Suc new_node, q_tail := new_node\<rparr>
      in obind (get_node q1 old_tail) (\<lambda>n.
           Inr (q1\<lparr>nodes := (nodes q1)(old_tail \<mapsto> n\<lparr>node_next := Some new_node\<rparr>)\<rparr>)))"

definition spsc_pop :: "'a spsc \<Rightarrow> ('a option \<times> 'a spsc) outcome" where
  "spsc_pop q =
     obind (get_node q (q_head q)) (\<lambda>h.
       case node_next h of
         None \<Rightarrow> Inr (None, q)
       | Some next_node \<Rightarrow>
           obind (get_node q next_node) (\<lambda>n.
             let q1 = q\<lparr>nodes := (nodes q)(next_node \<mapsto> n\<lparr>node_value := None\<rparr>)\<rparr>;
                 old_head = q_head q1
             in Inr (node_value n,
                     q1\<lparr>q_head := next_node, nodes := (nodes q1)(old_head := None)\<rparr>)))"

text \<open>\<open>chain h (p # ps)\<close>: the nodes \<open>p # ps\<close> are linked in that order and the last has no successor.\<close>

fun chain :: "(nat \<rightharpoonup> 'a node) \<Rightarrow> nat list \<Rightarrow> bool" where
  "chain h [] \<longleftrightarrow> False"
| "chain h [p] \<longleftrightarrow> (\<exists>v. h p = Some \<lparr>node_next = None, node_value = v\<rparr>)"
| "chain h (p # q # ps) \<longleftrightarrow>
     (\<exists>v. h p = Some \<lparr>node_next = Some q, node_value = v\<rparr>) \<and> chain h (q # ps)"

definition values_of :: "(nat \<rightharpoonup> 'a node) \<Rightarrow> nat list \<Rightarrow> 'a option list" where
  "values_of h ps = map (\<lambda>p. node_value (the (h p))) ps"

lemma chain_nonempty: "chain h ps \<Longrightarrow> ps \<noteq> []"
  by (cases ps) auto

lemma chain_dom: "chain h ps \<Longrightarrow> p \<in> set ps \<Longrightarrow> \<exists>n. h p = Some n"
  by (induction h ps rule: chain.induct) auto

lemma chain_cong: "(\<And>p. p \<in> set ps \<Longrightarrow> h p = h' p) \<Longrightarrow> chain h ps = chain h' ps"
  by (induction h ps rule: chain.induct) auto

lemma values_cong: "(\<And>p. p \<in> set ps \<Longrightarrow> h p = h' p) \<Longrightarrow> values_of h ps = values_of h' ps"
  by (simp add: values_of_def)

lemma chain_upd_other [simp]: "p \<notin> set ps \<Longrightarrow> chain (h(p := x)) ps = chain h ps"
  by (rule chain_cong) auto

lemma values_upd_other [simp]: "p \<notin> set ps \<Longrightarrow> values_of (h(p := x)) ps = values_of h ps"
  by (rule values_cong) auto

lemma chain_last: "chain h ps \<Longrightarrow> \<exists>v. h (last ps) = Some \<lparr>node_next = None, node_value = v\<rparr>"
  by (induction h ps rule: chain.induct) auto

lemma chain_link:
  assumes "chain h ps" "distinct ps" "p \<notin> set ps" "h (last ps) = Some n"
    and "h p = Some \<lparr>node_next = None, node_value = v\<rparr>"
  shows "chain (h(last ps \<mapsto> n\<lparr>node_next := Some p\<rparr>)) (ps @ [p])"
  using assms
proof (induction h ps rule: chain.induct)
  case (3 h a b ps)
  then have "a \<noteq> last (b # ps)" by (metis distinct.simps(2) last_in_set list.distinct(1))
  with 3 show ?case by auto
qed auto

lemma chain_tl: "chain h (p # q # ps) \<Longrightarrow> chain h (q # ps)"
  by simp

lemma chain_set_value:
  assumes "chain h ps" "h p = Some n"
  shows "chain (h(p \<mapsto> n\<lparr>node_value := v\<rparr>)) ps"
  using assms by (induction h ps rule: chain.induct) auto

definition spsc_ok :: "'a spsc \<Rightarrow> nat list \<Rightarrow> 'a list \<Rightarrow> bool" where
  "spsc_ok q ps xs \<longleftrightarrow>
     chain (nodes q) (q_head q # ps) \<and> distinct (q_head q # ps) \<and> q_tail q = last (q_head q # ps) \<and>
     values_of (nodes q) ps = map Some xs \<and> (\<forall>p. nodes q p \<noteq> None \<longrightarrow> p < fresh q)"

lemma spsc_ok_push:
  assumes ok: "spsc_ok q ps xs"
  shows "\<exists>q'. spsc_push v q = Inr q' \<and> spsc_ok q' (ps @ [fresh q]) (xs @ [v])"
proof -
  let ?ps = "q_head q # ps" and ?p = "fresh q"
  let ?h = "(nodes q)(?p \<mapsto> \<lparr>node_next = None, node_value = Some v\<rparr>)"
  have new: "?p \<notin> set ?ps"
    using ok chain_dom [of "nodes q" ?ps ?p] by (auto simp: spsc_ok_def)
  have ch: "chain ?h ?ps"
    using ok new by (simp add: spsc_ok_def)
  obtain n where n: "?h (last ?ps) = Some n" using chain_last [OF ch] by blast
  define h' where "h' = ?h(last ?ps \<mapsto> n\<lparr>node_next := Some ?p\<rparr>)"
  have "chain h' (?ps @ [?p])"
    unfolding h'_def
    by (rule chain_link [OF ch _ new n, of "Some v"]) (use ok in \<open>simp_all add: spsc_ok_def\<close>)
  moreover have "values_of h' (ps @ [?p]) = map Some (xs @ [v])"
  proof -
    have "node_value (the (h' x)) = node_value (the (nodes q x))" if "x \<in> set ps" for x
      using that new n by (auto simp: h'_def)
    then have "values_of h' ps = values_of (nodes q) ps" by (simp add: values_of_def)
    moreover have "node_value (the (h' ?p)) = Some v" using new by (auto simp: h'_def)
    moreover have "values_of h' (ps @ [?p]) = values_of h' ps @ [node_value (the (h' ?p))]"
      by (simp add: values_of_def)
    ultimately show ?thesis using ok by (simp add: spsc_ok_def)
  qed
  moreover have "\<forall>p. h' p \<noteq> None \<longrightarrow> p < Suc ?p"
    using ok n by (auto simp: h'_def spsc_ok_def less_Suc_eq split: if_splits)
  moreover have "spsc_push v q = Inr (q\<lparr>nodes := h', fresh := Suc ?p, q_tail := ?p\<rparr>)"
    using ok n by (simp add: h'_def spsc_push_def get_node_def spsc_ok_def Let_def)
  ultimately show ?thesis
    using ok new by (auto simp: spsc_ok_def)
qed

lemma spsc_ok_pop:
  assumes ok: "spsc_ok q ps xs"
  shows "(ps = [] \<and> xs = [] \<and> spsc_pop q = Inr (None, q)) \<or>
    (\<exists>q' p ps' x xs'. ps = p # ps' \<and> xs = x # xs' \<and> spsc_pop q = Inr (Some x, q') \<and> spsc_ok q' ps' xs')"
proof (cases ps)
  case Nil
  with ok show ?thesis by (auto simp: spsc_ok_def values_of_def spsc_pop_def get_node_def)
next
  case (Cons p ps')
  then obtain x xs' where xs: "xs = x # xs'" using ok by (cases xs) (auto simp: spsc_ok_def values_of_def)
  from ok Cons obtain v n where h: "nodes q (q_head q) = Some \<lparr>node_next = Some p, node_value = v\<rparr>"
      and n: "nodes q p = Some n" "node_value n = Some x"
    using chain_dom [of "nodes q" "q_head q # ps" p] xs by (auto simp: spsc_ok_def values_of_def)
  let ?h = "((nodes q)(p \<mapsto> n\<lparr>node_value := None\<rparr>))(q_head q := None)"
  let ?q = "q\<lparr>nodes := ?h, q_head := p\<rparr>"
  have pop: "spsc_pop q = Inr (Some x, ?q)"
    using h n by (simp add: spsc_pop_def get_node_def Let_def)
  have "chain ((nodes q)(p \<mapsto> n\<lparr>node_value := None\<rparr>)) (p # ps')"
    using ok Cons n by (intro chain_set_value) (auto simp: spsc_ok_def)
  then have "chain ?h (p # ps')"
    using ok Cons by (subst chain_upd_other) (auto simp: spsc_ok_def)
  moreover have "values_of ?h ps' = values_of (nodes q) ps'"
    using ok Cons by (intro values_cong) (auto simp: spsc_ok_def)
  moreover have "\<forall>x. ?h x \<noteq> None \<longrightarrow> x < fresh q"
    using ok n by (auto simp: spsc_ok_def split: if_splits)
  ultimately have "spsc_ok ?q ps' xs'"
    using ok Cons xs by (simp add: spsc_ok_def) (simp add: values_of_def)
  with Cons xs pop show ?thesis by blast
qed

text \<open>The elements, read off the list with the number of allocated nodes as fuel.\<close>

fun follow :: "nat \<Rightarrow> (nat \<rightharpoonup> 'a node) \<Rightarrow> nat \<Rightarrow> 'a list" where
  "follow 0 h p = []"
| "follow (Suc k) h p =
     (case h p of None \<Rightarrow> []
      | Some n \<Rightarrow> (case node_next n of None \<Rightarrow> []
         | Some q \<Rightarrow> (case h q of None \<Rightarrow> []
            | Some m \<Rightarrow> (case node_value m of None \<Rightarrow> [] | Some v \<Rightarrow> v # follow k h q))))"

definition spsc_items :: "'a spsc \<Rightarrow> 'a list" where
  "spsc_items q = follow (fresh q) (nodes q) (q_head q)"

definition spsc_invar :: "'a spsc \<Rightarrow> bool" where
  "spsc_invar q \<longleftrightarrow> (\<exists>ps xs. spsc_ok q ps xs)"

lemma follow_chain:
  "chain h (p # ps) \<Longrightarrow> values_of h ps = map Some xs \<Longrightarrow> length ps \<le> k \<Longrightarrow> follow k h p = xs"
proof (induction ps arbitrary: p xs k)
  case Nil
  then show ?case by (cases k) (auto simp: values_of_def)
next
  case (Cons q ps)
  then obtain x xs' where xs: "xs = x # xs'" by (cases xs) (auto simp: values_of_def)
  obtain k' where k: "k = Suc k'" using Cons.prems(3) by (cases k) auto
  obtain m where "h q = Some m" "node_value m = Some x"
    using chain_dom [OF Cons.prems(1), of q] Cons.prems(2) xs by (auto simp: values_of_def)
  with Cons.prems Cons.IH [of q xs' k'] xs k show ?case by (auto simp: values_of_def)
qed

lemma spsc_items_ok:
  assumes "spsc_ok q ps xs"
  shows "spsc_items q = xs"
proof -
  have "set (q_head q # ps) \<subseteq> {..<fresh q}"
    using assms chain_dom [of "nodes q" "q_head q # ps"] by (fastforce simp: spsc_ok_def)
  then have "card (set (q_head q # ps)) \<le> fresh q"
    by (metis card_lessThan card_mono finite_lessThan)
  moreover have "card (set (q_head q # ps)) = Suc (length ps)"
    using assms by (subst distinct_card) (auto simp: spsc_ok_def)
  ultimately show ?thesis
    using assms by (auto simp: spsc_items_def spsc_ok_def intro!: follow_chain)
qed

lemma spsc_invar_new [simp]: "spsc_invar new_spsc" "spsc_items new_spsc = []"
proof -
  have "spsc_ok new_spsc [] []" by (auto simp: spsc_ok_def new_spsc_def values_of_def)
  then show "spsc_invar new_spsc" "spsc_items new_spsc = []"
    using spsc_items_ok by (auto simp: spsc_invar_def)
qed

interpretation sq: fifo_queue spsc_invar spsc_items spsc_push spsc_pop
proof
  fix q :: "'a spsc" and x
  assume "spsc_invar q"
  then obtain ps xs where ok: "spsc_ok q ps xs" by (auto simp: spsc_invar_def)
  note items = spsc_items_ok [OF ok]
  obtain q1 where q1: "spsc_push x q = Inr q1" "spsc_ok q1 (ps @ [fresh q]) (xs @ [x])"
    using spsc_ok_push [OF ok] by blast
  then show "\<exists>q'. spsc_push x q = Inr q' \<and> spsc_invar q' \<and> spsc_items q' = spsc_items q @ [x]"
    using spsc_items_ok [OF q1(2)] items by (auto simp: spsc_invar_def)
  from spsc_ok_pop [OF ok] consider "xs = []" "spsc_pop q = Inr (None, q)"
    | q' ps' y ys where "xs = y # ys" "spsc_pop q = Inr (Some y, q')" "spsc_ok q' ps' ys" by blast
  then show "\<exists>q'. spsc_pop q = Inr (case spsc_items q of [] \<Rightarrow> None | x # xs \<Rightarrow> Some x, q') \<and>
      spsc_invar q' \<and> spsc_items q' = tl (spsc_items q)"
  proof cases
    case 1
    with items \<open>spsc_invar q\<close> show ?thesis by simp
  next
    case 2
    with items spsc_items_ok [OF 2(3)] show ?thesis by (auto simp: spsc_invar_def)
  qed
qed

text \<open>\<^verbatim>\<open>EventLoop::_invoke_all_functors\<close> over one lock-free queue.\<close>

fun spsc_drain :: "nat \<Rightarrow> 'a spsc \<Rightarrow> ('a list \<times> 'a spsc) outcome" where
  "spsc_drain 0 q = Inl Diverges"
| "spsc_drain (Suc n) q =
     obind (spsc_pop q) (\<lambda>(r, q').
       case r of None \<Rightarrow> Inr ([], q')
       | Some x \<Rightarrow> obind (spsc_drain n q') (\<lambda>(xs, q''). Inr (x # xs, q'')))"

fun spsc_push_all :: "'a list \<Rightarrow> 'a spsc \<Rightarrow> 'a spsc outcome" where
  "spsc_push_all [] q = Inr q"
| "spsc_push_all (x # xs) q = obind (spsc_push x q) (spsc_push_all xs)"

lemma spsc_drain_eq: "spsc_drain n q = sq.drain n q"
  by (induction n arbitrary: q) (auto intro!: obind_cong split: option.splits)

lemma spsc_push_all_eq: "spsc_push_all xs q = sq.push_all xs q"
  by (induction xs arbitrary: q) (auto intro!: obind_cong)

text \<open>Pushing any functors onto an empty lock-free queue and then popping until it reports empty
  (one pop more than there are functors is enough) yields them all, in order, without touching a
  deleted node, and leaves a queue that is empty and usable again.\<close>

theorem spsc_push_then_drain:
  assumes "length xs < n"
  shows "\<exists>q'. obind (spsc_push_all xs new_spsc) (spsc_drain n) = Inr (xs, q') \<and>
           spsc_invar q' \<and> spsc_items q' = []"
  using sq.push_drain [OF spsc_invar_new assms]
  by (simp add: spsc_push_all_eq spsc_drain_eq [abs_def])

theorem spsc_push_then_drain_witness:
  "\<exists>q'. obind (spsc_push_all [3, 4 :: nat] new_spsc) (spsc_drain 3) = Inr ([3, 4], q') \<and>
     spsc_invar q' \<and> spsc_items q' = []"
  by (rule spsc_push_then_drain) simp

section \<open>The lock-free queue, access by access\<close>

text \<open>
  The producer inside \<^verbatim>\<open>_push\<close> has moved the tail and not yet linked the new node; the consumer
  inside \<^verbatim>\<open>pop\<close> has loaded the next node, or has taken its value and not yet moved the head and
  deleted the old one.
\<close>

datatype producer = P_Idle | P_Publish nat nat

datatype consumer = C_Idle | C_Loaded nat | C_Taken nat

record 'a spsc_system =
  sys_queue :: "'a spsc"
  producer :: producer
  consumer :: consumer
  pushed_values :: "'a list"
  popped_values :: "'a option list"

definition new_spsc_system :: "'a spsc_system" where
  "new_spsc_system =
     \<lparr>sys_queue = new_spsc, producer = P_Idle, consumer = C_Idle, pushed_values = [], popped_values = []\<rparr>"

datatype 'a access = Begin_Push 'a | Publish | Load | Take | Free

fun enabled :: "'a access \<Rightarrow> 'a spsc_system \<Rightarrow> bool" where
  "enabled (Begin_Push v) s \<longleftrightarrow> producer s = P_Idle"
| "enabled Publish s \<longleftrightarrow> producer s \<noteq> P_Idle"
| "enabled Load s \<longleftrightarrow> consumer s = C_Idle"
| "enabled Take s \<longleftrightarrow> (\<exists>n. consumer s = C_Loaded n)"
| "enabled Free s \<longleftrightarrow> (\<exists>n. consumer s = C_Taken n)"

fun perform :: "'a access \<Rightarrow> 'a spsc_system \<Rightarrow> 'a spsc_system outcome" where
  "perform (Begin_Push v) s =
     (let q = sys_queue s; new_node = fresh q; old_tail = q_tail q in
      Inr (s\<lparr>sys_queue := q\<lparr>nodes := (nodes q)(new_node \<mapsto> \<lparr>node_next = None, node_value = Some v\<rparr>),
                           fresh := Suc new_node, q_tail := new_node\<rparr>,
             producer := P_Publish old_tail new_node, pushed_values := pushed_values s @ [v]\<rparr>))"
| "perform Publish s =
     (case producer s of P_Idle \<Rightarrow> Inr s
      | P_Publish old_tail new_node \<Rightarrow>
          let q = sys_queue s in
          obind (get_node q old_tail) (\<lambda>n.
            Inr (s\<lparr>sys_queue := q\<lparr>nodes := (nodes q)(old_tail \<mapsto> n\<lparr>node_next := Some new_node\<rparr>)\<rparr>,
                   producer := P_Idle\<rparr>)))"
| "perform Load s =
     obind (get_node (sys_queue s) (q_head (sys_queue s))) (\<lambda>h.
       case node_next h of None \<Rightarrow> Inr s | Some n \<Rightarrow> Inr (s\<lparr>consumer := C_Loaded n\<rparr>))"
| "perform Take s =
     (case consumer s of
        C_Loaded p \<Rightarrow>
          let q = sys_queue s in
          obind (get_node q p) (\<lambda>n.
            Inr (s\<lparr>sys_queue := q\<lparr>nodes := (nodes q)(p \<mapsto> n\<lparr>node_value := None\<rparr>)\<rparr>,
                   consumer := C_Taken p, popped_values := popped_values s @ [node_value n]\<rparr>))
      | _ \<Rightarrow> Inr s)"
| "perform Free s =
     (case consumer s of
        C_Taken p \<Rightarrow>
          let q = sys_queue s; old_head = q_head q in
          obind (get_node q old_head) (\<lambda>_.
            Inr (s\<lparr>sys_queue := q\<lparr>q_head := p, nodes := (nodes q)(old_head := None)\<rparr>,
                   consumer := C_Idle\<rparr>))
      | _ \<Rightarrow> Inr s)"

text \<open>A schedule interleaves the two threads; an access that is not its thread's next one is skipped.\<close>

fun run_schedule :: "'a access list \<Rightarrow> 'a spsc_system \<Rightarrow> 'a spsc_system outcome" where
  "run_schedule [] s = Inr s"
| "run_schedule (a # as) s =
     (if enabled a s then obind (perform a s) (run_schedule as) else run_schedule as s)"

definition linked_ok :: "'a spsc_system \<Rightarrow> nat list \<Rightarrow> bool" where
  "linked_ok s ps \<longleftrightarrow>
     (let q = sys_queue s in
      chain (nodes q) (q_head q # ps) \<and> distinct (q_head q # ps) \<and>
      (\<forall>p. nodes q p \<noteq> None \<longrightarrow> p < fresh q))"

definition producer_ok :: "'a spsc_system \<Rightarrow> nat list \<Rightarrow> 'a list \<Rightarrow> bool" where
  "producer_ok s ps flight \<longleftrightarrow>
     (let q = sys_queue s in
      case producer s of
        P_Idle \<Rightarrow> q_tail q = last (q_head q # ps) \<and> flight = []
      | P_Publish old new \<Rightarrow>
          old = last (q_head q # ps) \<and> q_tail q = new \<and> new \<notin> set (q_head q # ps) \<and>
          (\<exists>v. nodes q new = Some \<lparr>node_next = None, node_value = Some v\<rparr> \<and> flight = [v]))"

definition consumer_ok :: "'a spsc_system \<Rightarrow> nat list \<Rightarrow> 'a list \<Rightarrow> bool" where
  "consumer_ok s ps xs \<longleftrightarrow>
     (let h = nodes (sys_queue s) in
      case consumer s of
        C_Idle \<Rightarrow> values_of h ps = map Some xs
      | C_Loaded n \<Rightarrow> ps \<noteq> [] \<and> hd ps = n \<and> values_of h ps = map Some xs
      | C_Taken n \<Rightarrow> ps \<noteq> [] \<and> hd ps = n \<and> values_of h (tl ps) = map Some xs)"

definition system_ok :: "'a spsc_system \<Rightarrow> nat list \<Rightarrow> 'a list \<Rightarrow> 'a list \<Rightarrow> bool" where
  "system_ok s ps xs flight \<longleftrightarrow>
     linked_ok s ps \<and> producer_ok s ps flight \<and> consumer_ok s ps xs \<and>
     map Some (pushed_values s) = popped_values s @ map Some (xs @ flight)"

lemmas system_defs = system_ok_def linked_ok_def producer_ok_def consumer_ok_def

lemma system_ok_begin:
  assumes ok: "system_ok s ps xs flight" and idle: "producer s = P_Idle"
  shows "\<exists>s'. perform (Begin_Push v) s = Inr s' \<and> system_ok s' ps xs [v]"
proof -
  let ?q = "sys_queue s"
  have new: "fresh ?q \<notin> set (q_head ?q # ps)"
    using ok chain_dom [of "nodes ?q" "q_head ?q # ps" "fresh ?q"] by (auto simp: system_defs Let_def)
  then have "fresh ?q \<notin> set ps" "fresh ?q \<notin> set (tl ps)" by (cases ps; simp)+
  with ok idle new show ?thesis
    by (auto simp: system_defs Let_def less_Suc_eq split: consumer.splits)
qed

lemma system_ok_publish:
  assumes ok: "system_ok s ps xs flight" and pub: "producer s = P_Publish old new"
  shows "\<exists>s' v. perform Publish s = Inr s' \<and> flight = [v] \<and> system_ok s' (ps @ [new]) (xs @ [v]) []"
proof -
  let ?q = "sys_queue s" and ?ps = "q_head (sys_queue s) # ps"
  from ok pub obtain v where v: "nodes ?q new = Some \<lparr>node_next = None, node_value = Some v\<rparr>"
      "flight = [v]" "old = last ?ps" "q_tail ?q = new" "new \<notin> set ?ps"
    by (auto simp: system_defs Let_def)
  have ch: "chain (nodes ?q) ?ps" "distinct ?ps" using ok by (auto simp: system_defs Let_def)
  obtain n where n: "nodes ?q old = Some n" using chain_last [OF ch(1)] v(3) by auto
  define h where "h = (nodes ?q)(old \<mapsto> n\<lparr>node_next := Some new\<rparr>)"
  have ch': "chain h (?ps @ [new])"
    unfolding h_def v(3) by (rule chain_link [OF ch v(5) _ v(1)]) (use n v(3) in simp)
  have val: "node_value (the (h x)) = node_value (the (nodes ?q x))" for x
    using n by (simp add: h_def)
  have "old \<noteq> new" using v(3,5) last_in_set [of ?ps] by auto
  then have "node_value (the (h new)) = Some v" using v(1) by (simp add: h_def)
  then have vals: "values_of h (zs @ [new]) = values_of (nodes ?q) zs @ [Some v]" for zs
    by (simp add: values_of_def val)
  let ?s = "s\<lparr>sys_queue := ?q\<lparr>nodes := h\<rparr>, producer := P_Idle\<rparr>"
  have "perform Publish s = Inr ?s" using pub n by (simp add: get_node_def h_def Let_def)
  moreover have "linked_ok ?s (ps @ [new])"
    using ch' ch(2) v(5) ok n by (auto simp: linked_ok_def system_ok_def h_def Let_def)
  moreover have "producer_ok ?s (ps @ [new]) []" using v(4) by (simp add: producer_ok_def)
  moreover have "consumer_ok ?s (ps @ [new]) (xs @ [v])"
    using ok vals by (auto simp: consumer_ok_def system_ok_def Let_def tl_append split: consumer.splits list.splits)
  ultimately show ?thesis using ok v(2) by (auto simp: system_ok_def)
qed

lemma system_ok_load:
  assumes ok: "system_ok s ps xs flight" and idle: "consumer s = C_Idle"
  shows "\<exists>s'. perform Load s = Inr s' \<and> system_ok s' ps xs flight"
proof (cases ps)
  case Nil
  with ok idle show ?thesis by (auto simp: system_defs Let_def get_node_def)
next
  case (Cons p ps')
  then obtain v where "nodes (sys_queue s) (q_head (sys_queue s)) = Some \<lparr>node_next = Some p, node_value = v\<rparr>"
    using ok by (auto simp: system_defs Let_def)
  with ok idle Cons show ?thesis
    by (simp add: system_defs Let_def get_node_def split: producer.splits)
qed

lemma system_ok_take:
  assumes ok: "system_ok s ps xs flight" and ld: "consumer s = C_Loaded p"
  shows "\<exists>s'. perform Take s = Inr s' \<and> system_ok s' ps (tl xs) flight"
proof -
  let ?q = "sys_queue s"
  obtain ps' where ps: "ps = p # ps'" using ok ld by (cases ps) (auto simp: system_defs Let_def)
  obtain x xs' where xs: "xs = x # xs'" using ok ld ps by (cases xs) (auto simp: system_defs Let_def values_of_def)
  have ch: "chain (nodes ?q) (q_head ?q # ps)" "distinct (q_head ?q # ps)"
    using ok by (auto simp: system_defs Let_def)
  obtain n where n: "nodes ?q p = Some n" using chain_dom [OF ch(1), of p] ps by auto
  have x: "node_value n = Some x" using ok ld ps xs n by (simp add: system_defs Let_def values_of_def)
  let ?h = "(nodes ?q)(p \<mapsto> n\<lparr>node_value := None\<rparr>)"
  let ?s = "s\<lparr>sys_queue := ?q\<lparr>nodes := ?h\<rparr>, consumer := C_Taken p, popped_values := popped_values s @ [Some x]\<rparr>"
  have "perform Take s = Inr ?s" using ld n x by (simp add: get_node_def Let_def)
  moreover have "linked_ok ?s ps"
    using chain_set_value [OF ch(1) n] ch(2) ok n by (auto simp: linked_ok_def system_ok_def Let_def)
  moreover have "producer_ok ?s ps flight"
    using ok ps by (auto simp: producer_ok_def system_ok_def Let_def split: producer.splits)
  moreover have "consumer_ok ?s ps xs'"
    using ok ld ps xs ch(2) by (simp add: consumer_ok_def system_ok_def Let_def) (simp add: values_of_def)
  ultimately show ?thesis using ok xs by (simp add: system_ok_def)
qed

lemma system_ok_free:
  assumes ok: "system_ok s ps xs flight" and tk: "consumer s = C_Taken p"
  shows "\<exists>s'. perform Free s = Inr s' \<and> system_ok s' (tl ps) xs flight"
proof -
  let ?q = "sys_queue s"
  obtain ps' where ps: "ps = p # ps'" using ok tk by (cases ps) (auto simp: system_defs Let_def)
  obtain h where h: "nodes ?q (q_head ?q) = Some h" using ok ps by (auto simp: system_defs Let_def)
  let ?s = "s\<lparr>sys_queue := ?q\<lparr>q_head := p, nodes := (nodes ?q)(q_head ?q := None)\<rparr>, consumer := C_Idle\<rparr>"
  have "perform Free s = Inr ?s" using tk h by (simp add: get_node_def Let_def)
  moreover have "linked_ok ?s ps'"
    using ok ps by (auto simp: linked_ok_def system_ok_def Let_def split: if_splits)
  moreover have "producer_ok ?s ps' flight"
    using ok ps by (auto simp: producer_ok_def system_ok_def Let_def split: producer.splits)
  moreover have "consumer_ok ?s ps' xs"
    using ok ps tk by (simp add: consumer_ok_def system_ok_def linked_ok_def Let_def)
  ultimately show ?thesis using ok ps by (simp add: system_ok_def)
qed

lemma perform_ok:
  assumes "system_ok s ps xs flight" "enabled a s"
  shows "\<exists>s' ps' xs' flight'. perform a s = Inr s' \<and> system_ok s' ps' xs' flight'"
  using assms system_ok_begin system_ok_publish system_ok_load system_ok_take system_ok_free
  by (cases a; cases "producer s"; fastforce simp del: perform.simps)

lemma run_schedule_ok:
  "system_ok s ps xs flight \<Longrightarrow>
     \<exists>s' ps' xs' flight'. run_schedule as s = Inr s' \<and> system_ok s' ps' xs' flight'"
proof (induction as arbitrary: s ps xs flight)
  case (Cons a as)
  show ?case
  proof (cases "enabled a s")
    case True
    with Cons.prems obtain s' ps' xs' flight' where "perform a s = Inr s'" "system_ok s' ps' xs' flight'"
      using perform_ok by blast
    with True Cons.IH show ?thesis by simp
  next
    case False
    with Cons show ?thesis by simp
  qed
qed auto

lemma system_ok_new: "system_ok new_spsc_system [] [] []"
  by (auto simp: system_defs new_spsc_system_def new_spsc_def values_of_def)

text \<open>Under every interleaving of the producer's and the consumer's memory accesses, the lock-free
  queue never touches a deleted node, and what has been popped is exactly the values pushed so far,
  in order, without loss or repetition, up to those still in the queue.\<close>

theorem spsc_interleaving_fifo:
  "\<exists>s pending. run_schedule as new_spsc_system = Inr s \<and>
     map Some (pushed_values s) = popped_values s @ map Some pending \<and>
     (producer s = P_Idle \<and> consumer s = C_Idle \<longrightarrow> pending = spsc_items (sys_queue s))"
proof -
  obtain s ps xs flight where s: "run_schedule as new_spsc_system = Inr s" "system_ok s ps xs flight"
    using run_schedule_ok [OF system_ok_new] by blast
  moreover have "xs @ flight = spsc_items (sys_queue s)" if "producer s = P_Idle" "consumer s = C_Idle"
  proof -
    have "spsc_ok (sys_queue s) ps xs" "flight = []"
      using s(2) that by (auto simp: system_defs spsc_ok_def Let_def)
    then show ?thesis using spsc_items_ok by fastforce
  qed
  ultimately show ?thesis
    by (intro exI [of _ s] exI [of _ "xs @ flight"]) (auto simp: system_ok_def)
qed

theorem spsc_interleaving_fifo_witness:
  "\<exists>s pending. run_schedule [Begin_Push (5::nat), Load, Publish, Load, Begin_Push 6, Take, Publish, Free]
       new_spsc_system = Inr s \<and>
     map Some (pushed_values s) = popped_values s @ map Some pending"
  using spsc_interleaving_fifo [of "[Begin_Push (5::nat), Load, Publish, Load, Begin_Push 6, Take, Publish, Free]"]
  by blast

end
