(* ===== verification/Loop_Wakeup.thy ===== *)
theory Loop_Wakeup
  imports Functor_Queues
begin

text \<open>
  How other threads hand functors to an \<^verbatim>\<open>EventLoop\<close> (src/event_loop.cc: \<^verbatim>\<open>run\<close>,
  \<^verbatim>\<open>_leave_to_owner_thread\<close>, \<^verbatim>\<open>_wake_up_this_loop\<close>, \<^verbatim>\<open>_invoke_all_functors\<close>, the eventfd callback of
  the constructor) through one queue and its \<^verbatim>\<open>Eventfd\<close> (src/eventfd.cc). A caller pushes, then tries to
  switch the pilot lamp on, and only the caller that succeeds writes to the eventfd; the loop reads the
  eventfd, switches the lamp off, and runs what is queued. Any number of calling threads are
  interleaved with the loop, step by step.
\<close>

section \<open>State\<close>

datatype caller_phase = Idle | Queued | Ringing

datatype loop_phase = Polling | Reading | Dispatching

record 'f loop_system =
  functor_queue :: "'f blocking_queue"
  pilot_lamp :: bool
  eventfd_counter :: nat
  eventfd_triggered :: bool
  need_stop :: bool
  loop_phase :: loop_phase
  callers :: "nat \<Rightarrow> caller_phase"
  submitted :: "'f list"
  executed :: "'f list"

definition FUNCTOR_QUEUE_CAPACITY :: nat where
  "FUNCTOR_QUEUE_CAPACITY = 1000"

definition new_loop_system :: "'f loop_system" where
  "new_loop_system =
     \<lparr>functor_queue = new_blocking_queue FUNCTOR_QUEUE_CAPACITY, pilot_lamp = False, eventfd_counter = 0,
      eventfd_triggered = False, need_stop = False, loop_phase = Polling, callers = (\<lambda>_. Idle),
      submitted = [], executed = []\<rparr>"

section \<open>The calling threads\<close>

text \<open>The first half of \<^verbatim>\<open>_leave_to_owner_thread\<close>; \<open>None\<close> while the queue is full.\<close>

definition leave_to_owner_thread :: "nat \<Rightarrow> 'f \<Rightarrow> 'f loop_system \<Rightarrow> 'f loop_system option" where
  "leave_to_owner_thread t f s =
     (case bq_push f (functor_queue s) of None \<Rightarrow> None
      | Some q \<Rightarrow> Some (s\<lparr>functor_queue := q, submitted := submitted s @ [f],
                        callers := (callers s)(t := Queued)\<rparr>))"

text \<open>The compare-and-exchange of \<^verbatim>\<open>_wake_up_this_loop\<close>.\<close>

definition wake_up_this_loop :: "nat \<Rightarrow> 'f loop_system \<Rightarrow> 'f loop_system" where
  "wake_up_this_loop t s =
     (if \<not> pilot_lamp s then s\<lparr>pilot_lamp := True, callers := (callers s)(t := Ringing)\<rparr>
      else s\<lparr>callers := (callers s)(t := Idle)\<rparr>)"

definition increment_by_value :: "nat \<Rightarrow> nat \<Rightarrow> 'f loop_system \<Rightarrow> 'f loop_system" where
  "increment_by_value v t s =
     s\<lparr>eventfd_counter := eventfd_counter s + v, callers := (callers s)(t := Idle)\<rparr>"

definition ask_to_stop :: "nat \<Rightarrow> 'f loop_system \<Rightarrow> 'f loop_system" where
  "ask_to_stop t s = s\<lparr>need_stop := True, callers := (callers s)(t := Queued)\<rparr>"

section \<open>The loop's thread\<close>

definition retrieve_the_sum :: "'f loop_system \<Rightarrow> nat \<times> 'f loop_system" where
  "retrieve_the_sum s = (eventfd_counter s, s\<lparr>eventfd_counter := 0\<rparr>)"

text \<open>The message callback the constructor installs.\<close>

definition eventfd_message_callback :: "'f loop_system \<Rightarrow> 'f loop_system" where
  "eventfd_message_callback s = s\<lparr>pilot_lamp := False, eventfd_triggered := True\<rparr>"

definition invoke_all_functors :: "'f loop_system \<Rightarrow> 'f loop_system" where
  "invoke_all_functors s =
     (case bq_pop_all (functor_queue s) of (queued, q) \<Rightarrow>
        s\<lparr>functor_queue := q, executed := executed s @ queued\<rparr>)"

text \<open>\<^verbatim>\<open>run\<close>: at once in the owner thread, through the queue otherwise.\<close>

definition run_in_loop ::
  "bool \<Rightarrow> nat \<Rightarrow> 'f \<Rightarrow> 'f loop_system \<Rightarrow> 'f loop_system option" where
  "run_in_loop in_owner_thread t f s =
     (if in_owner_thread then Some (s\<lparr>executed := executed s @ [f]\<rparr>) else leave_to_owner_thread t f s)"

section \<open>Interleaving\<close>

text \<open>
  The last rule is the loop running its functors because another queue's eventfd reported.
\<close>

inductive wake_step :: "'f loop_system \<Rightarrow> 'f loop_system \<Rightarrow> bool" where
  submit: "callers s t = Idle \<Longrightarrow> leave_to_owner_thread t f s = Some s' \<Longrightarrow> wake_step s s'"
| stop: "callers s t = Idle \<Longrightarrow> wake_step s (ask_to_stop t s)"
| wake: "callers s t = Queued \<Longrightarrow> wake_step s (wake_up_this_loop t s)"
| ring: "callers s t = Ringing \<Longrightarrow> wake_step s (increment_by_value 1 t s)"
| poll: "loop_phase s = Polling \<Longrightarrow> 0 < eventfd_counter s \<Longrightarrow>
     wake_step s ((snd (retrieve_the_sum s))\<lparr>loop_phase := Reading\<rparr>)"
| callback: "loop_phase s = Reading \<Longrightarrow>
     wake_step s ((eventfd_message_callback s)\<lparr>loop_phase := Dispatching\<rparr>)"
| invoke: "loop_phase s = Dispatching \<Longrightarrow>
     wake_step s ((invoke_all_functors s)\<lparr>eventfd_triggered := False, loop_phase := Polling\<rparr>)"
| other: "loop_phase s = Polling \<Longrightarrow> wake_step s (invoke_all_functors s)"

inductive_simps wake_step_simps: "wake_step s s'"

definition ringing :: "'f loop_system \<Rightarrow> nat set" where
  "ringing s = {t. callers s t = Ringing}"

text \<open>The lamp is on exactly while one notification is on its way: being written, in the eventfd, or
  read and not yet acknowledged.\<close>

definition lamp_inv :: "'f loop_system \<Rightarrow> bool" where
  "lamp_inv s \<longleftrightarrow>
     finite (ringing s) \<and>
     card (ringing s) + eventfd_counter s + (if loop_phase s = Reading then 1 else 0) =
       (if pilot_lamp s then 1 else 0)"

definition wake_inv :: "'f loop_system \<Rightarrow> bool" where
  "wake_inv s \<longleftrightarrow>
     lamp_inv s \<and>
     (bq_queue (functor_queue s) \<noteq> [] \<longrightarrow>
        (\<exists>t. callers s t = Queued) \<or> pilot_lamp s \<or> loop_phase s = Dispatching)"

definition order_inv :: "'f loop_system \<Rightarrow> bool" where
  "order_inv s \<longleftrightarrow> submitted s = executed s @ bq_queue (functor_queue s)"

lemma ringing_other:
  "callers s t \<noteq> Ringing \<Longrightarrow> x \<noteq> Ringing \<Longrightarrow> ringing (s'\<lparr>callers := (callers s)(t := x)\<rparr>) = ringing s"
  by (auto simp: ringing_def)

lemma ringing_add:
  "ringing (s'\<lparr>callers := (callers s)(t := Ringing)\<rparr>) = insert t (ringing s)"
  by (auto simp: ringing_def)

lemma ringing_remove:
  "x \<noteq> Ringing \<Longrightarrow> ringing (s'\<lparr>callers := (callers s)(t := x)\<rparr>) = ringing s - {t}"
  by (auto simp: ringing_def)

lemma lamp_inv_step: "wake_step s s' \<Longrightarrow> lamp_inv s \<Longrightarrow> lamp_inv s'"
proof (induction rule: wake_step.induct)
  case (submit s t f s')
  then obtain q where "s' = s\<lparr>functor_queue := q, submitted := submitted s @ [f],
      callers := (callers s)(t := Queued)\<rparr>"
    by (auto simp: leave_to_owner_thread_def split: option.splits)
  with submit show ?case
    by (simp add: lamp_inv_def ringing_other)
next
  case (stop s t)
  then show ?case by (simp add: lamp_inv_def ask_to_stop_def ringing_other)
next
  case (wake s t)
  then have "t \<notin> ringing s" by (simp add: ringing_def)
  with wake show ?case
    by (auto simp: lamp_inv_def wake_up_this_loop_def ringing_add ringing_remove split: if_splits)
next
  case (ring s t)
  then have "t \<in> ringing s" by (simp add: ringing_def)
  moreover then have "0 < card (ringing s)" using ring by (auto simp: lamp_inv_def card_gt_0_iff)
  ultimately show ?case
    using ring by (simp add: lamp_inv_def increment_by_value_def ringing_remove)
next
  case (poll s)
  then have "eventfd_counter s = 1" by (auto simp: lamp_inv_def split: if_splits)
  with poll show ?case
    by (auto simp: lamp_inv_def retrieve_the_sum_def ringing_def split: if_splits)
qed (auto simp: lamp_inv_def eventfd_message_callback_def invoke_all_functors_def bq_pop_all_def
    ringing_def split: if_splits)

lemma wake_inv_step: "wake_step s s' \<Longrightarrow> wake_inv s \<Longrightarrow> wake_inv s'"
proof -
  assume step: "wake_step s s'" and inv: "wake_inv s"
  have "lamp_inv s'" using lamp_inv_step [OF step] inv by (simp add: wake_inv_def)
  moreover have "bq_queue (functor_queue s') \<noteq> [] \<longrightarrow>
      (\<exists>t. callers s' t = Queued) \<or> pilot_lamp s' \<or> loop_phase s' = Dispatching"
    using step inv
  proof cases
    case (ring t)
    then have "callers s' = (callers s)(t := Idle)" by (simp add: increment_by_value_def)
    then have "(\<exists>u. callers s u = Queued) \<longrightarrow> (\<exists>u. callers s' u = Queued)"
      using ring(2) by (metis caller_phase.distinct(5) fun_upd_other)
    moreover have "functor_queue s' = functor_queue s" "pilot_lamp s' = pilot_lamp s"
        "loop_phase s' = loop_phase s"
      using ring by (simp_all add: increment_by_value_def)
    ultimately show ?thesis using inv unfolding wake_inv_def by metis
  qed (auto simp: wake_inv_def leave_to_owner_thread_def ask_to_stop_def wake_up_this_loop_def
        retrieve_the_sum_def eventfd_message_callback_def invoke_all_functors_def
        bq_pop_all_def split: option.splits if_splits)
  ultimately show ?thesis by (simp add: wake_inv_def)
qed

lemma order_inv_step: "wake_step s s' \<Longrightarrow> order_inv s \<Longrightarrow> order_inv s'"
  by (induction rule: wake_step.induct)
    (auto simp: order_inv_def leave_to_owner_thread_def ask_to_stop_def wake_up_this_loop_def
      increment_by_value_def retrieve_the_sum_def eventfd_message_callback_def invoke_all_functors_def
      bq_pop_all_def bq_push_def split: option.splits if_splits)

lemma new_loop_inv: "wake_inv new_loop_system" "order_inv new_loop_system"
  by (simp_all add: wake_inv_def lamp_inv_def order_inv_def new_loop_system_def ringing_def
      new_blocking_queue_def)

lemma reachable_inv:
  assumes "wake_step\<^sup>*\<^sup>* new_loop_system s"
  shows "wake_inv s \<and> order_inv s"
  using assms new_loop_inv
  by (induction rule: rtranclp_induct) (auto intro: wake_inv_step order_inv_step)

text \<open>No wake-up is lost: in every state reachable by any interleaving of any number of calling
  threads with the loop, if functors are queued while the loop waits in its poller and no call is in
  progress, the eventfd is readable, so the poll returns. At most one notification is ever
  outstanding, and functors run exactly once, in the order they were queued.\<close>

theorem no_lost_wakeup:
  assumes "wake_step\<^sup>*\<^sup>* new_loop_system s"
  shows "submitted s = executed s @ bq_queue (functor_queue s) \<and> eventfd_counter s \<le> 1 \<and>
    (bq_queue (functor_queue s) \<noteq> [] \<and> loop_phase s = Polling \<and> (\<forall>t. callers s t = Idle) \<longrightarrow>
       eventfd_counter s = 1)"
proof -
  have inv: "lamp_inv s" "wake_inv s" "order_inv s"
    using reachable_inv [OF assms] by (auto simp: wake_inv_def)
  then have "eventfd_counter s \<le> 1" by (auto simp: lamp_inv_def split: if_splits)
  moreover have "eventfd_counter s = 1"
    if "bq_queue (functor_queue s) \<noteq> []" "loop_phase s = Polling" "\<forall>t. callers s t = Idle"
  proof -
    have "pilot_lamp s" using inv(2) that by (auto simp: wake_inv_def)
    moreover have "ringing s = {}" using that(3) by (auto simp: ringing_def)
    ultimately show ?thesis using inv(1) that(2) by (simp add: lamp_inv_def)
  qed
  ultimately show ?thesis using inv(3) by (simp add: order_inv_def)
qed

text \<open>Once the callers are done, three steps of the loop alone (read the eventfd, acknowledge,
  run the functors) execute everything that was ever submitted and leave the queue empty, the
  lamp off and the loop polling again.\<close>

theorem wakeup_runs_everything:
  assumes "wake_step\<^sup>*\<^sup>* new_loop_system s" "bq_queue (functor_queue s) \<noteq> []" "loop_phase s = Polling"
    and "\<forall>t. callers s t = Idle"
  shows "\<exists>s1 s2 s3. wake_step s s1 \<and> wake_step s1 s2 \<and> wake_step s2 s3 \<and> executed s3 = submitted s \<and>
    bq_queue (functor_queue s3) = [] \<and> \<not> pilot_lamp s3 \<and> loop_phase s3 = Polling \<and>
    eventfd_counter s3 = 0"
proof -
  have inv: "lamp_inv s" "wake_inv s" "order_inv s"
    using reachable_inv [OF assms(1)] by (auto simp: wake_inv_def)
  have "pilot_lamp s" using inv(2) assms by (auto simp: wake_inv_def)
  moreover have "ringing s = {}" using assms(4) by (auto simp: ringing_def)
  ultimately have c: "0 < eventfd_counter s" using inv(1) assms(3) by (simp add: lamp_inv_def)
  let ?s1 = "(snd (retrieve_the_sum s))\<lparr>loop_phase := Reading\<rparr>"
  let ?s2 = "(eventfd_message_callback ?s1)\<lparr>loop_phase := Dispatching\<rparr>"
  let ?s3 = "(invoke_all_functors ?s2)\<lparr>eventfd_triggered := False, loop_phase := Polling\<rparr>"
  have "wake_step s ?s1" by (rule poll [OF assms(3) c])
  moreover have "wake_step ?s1 ?s2" by (rule callback) simp
  moreover have "wake_step ?s2 ?s3" by (rule invoke) simp
  moreover have "executed ?s3 = submitted s" "bq_queue (functor_queue ?s3) = []" "\<not> pilot_lamp ?s3"
      "loop_phase ?s3 = Polling" "eventfd_counter ?s3 = 0"
    using inv(3) by (simp_all add: order_inv_def invoke_all_functors_def bq_pop_all_def
        eventfd_message_callback_def retrieve_the_sum_def)
  ultimately show ?thesis by blast
qed

text \<open>One functor handed over by one thread.\<close>

definition one_submitted :: "nat loop_system" where
  "one_submitted =
     new_loop_system\<lparr>functor_queue := (new_blocking_queue FUNCTOR_QUEUE_CAPACITY)\<lparr>bq_queue := [7]\<rparr>,
       pilot_lamp := True, eventfd_counter := 1, submitted := [7]\<rparr>"

lemma one_submitted_reachable: "wake_step\<^sup>*\<^sup>* new_loop_system one_submitted"
proof -
  let ?q = "(new_blocking_queue FUNCTOR_QUEUE_CAPACITY)\<lparr>bq_queue := [7 :: nat]\<rparr>"
  let ?s1 = "new_loop_system\<lparr>functor_queue := ?q, submitted := [7], callers := (\<lambda>_. Idle)(0 := Queued)\<rparr>"
  have 1: "wake_step new_loop_system ?s1"
    by (rule submit [where t = 0 and f = 7])
      (simp_all add: leave_to_owner_thread_def bq_push_def new_loop_system_def new_blocking_queue_def
        FUNCTOR_QUEUE_CAPACITY_def)
  have 2: "wake_step ?s1 (wake_up_this_loop 0 ?s1)" by (rule wake) simp
  have "wake_step (wake_up_this_loop 0 ?s1) (increment_by_value 1 0 (wake_up_this_loop 0 ?s1))"
    by (rule ring) (simp add: wake_up_this_loop_def new_loop_system_def)
  moreover have "increment_by_value 1 0 (wake_up_this_loop 0 ?s1) = one_submitted"
    by (simp add: increment_by_value_def wake_up_this_loop_def one_submitted_def new_loop_system_def
        fun_upd_idem)
  ultimately show ?thesis using 1 2 by (metis r_into_rtranclp rtranclp.rtrancl_into_rtrancl)
qed

theorem no_lost_wakeup_witness:
  "submitted one_submitted = executed one_submitted @ bq_queue (functor_queue one_submitted) \<and>
   bq_queue (functor_queue one_submitted) = [7] \<and> eventfd_counter one_submitted = 1"
  using no_lost_wakeup [OF one_submitted_reachable]
  by (simp add: one_submitted_def new_loop_system_def)

theorem wakeup_runs_everything_witness:
  "\<exists>s1 s2 s3. wake_step one_submitted s1 \<and> wake_step s1 s2 \<and> wake_step s2 s3 \<and>
     executed s3 = submitted one_submitted \<and> bq_queue (functor_queue s3) = [] \<and> \<not> pilot_lamp s3 \<and>
     loop_phase s3 = Polling \<and> eventfd_counter s3 = 0"
  by (rule wakeup_runs_everything [OF one_submitted_reachable])
    (simp_all add: one_submitted_def new_loop_system_def)

end
