(* ===== verification/Event_Poller.thy ===== *)
theory Event_Poller
  imports Server_Prelude
begin

text \<open>
  \<^verbatim>\<open>EventPoller\<close> (include/event_poller.h, src/event_poller.cc) and \<^verbatim>\<open>PollableFileDescriptor\<close>
  (include/pollable_file_descriptor.h, src/pollable_file_descriptor.cc): the interest flags of the
  descriptors, the array of attached descriptors and the kernel's epoll instance, which is modelled
  as its manual page documents it. All operations run in the loop's own thread, where
  \<^verbatim>\<open>EventLoop::run\<close> calls its argument at once.
\<close>

unbundle bit_operations_syntax

section \<open>Event masks\<close>

type_synonym events = "32 word"

definition EPOLLIN :: events where "EPOLLIN = 0x001"
definition EPOLLPRI :: events where "EPOLLPRI = 0x002"
definition EPOLLOUT :: events where "EPOLLOUT = 0x004"
definition EPOLLERR :: events where "EPOLLERR = 0x008"
definition EPOLLHUP :: events where "EPOLLHUP = 0x010"
definition EPOLLRDHUP :: events where "EPOLLRDHUP = 0x2000"
definition EPOLLET :: events where "EPOLLET = 0x80000000"

definition EVENT_TYPE_READ :: events where
  "EVENT_TYPE_READ = EPOLLIN OR EPOLLPRI OR EPOLLRDHUP"

definition EVENT_TYPE_WRITE :: events where
  "EVENT_TYPE_WRITE = EPOLLOUT"

definition EVENT_TYPE_CLOSE :: events where
  "EVENT_TYPE_CLOSE = EPOLLHUP"

definition EVENT_TYPE_ERROR :: events where
  "EVENT_TYPE_ERROR = EPOLLERR"

definition EVENT_TYPE_ALL :: events where
  "EVENT_TYPE_ALL = EVENT_TYPE_READ OR EVENT_TYPE_WRITE"

lemmas mask_defs = EPOLLIN_def EPOLLPRI_def EPOLLOUT_def EPOLLERR_def EPOLLHUP_def EPOLLRDHUP_def
  EPOLLET_def EVENT_TYPE_READ_def EVENT_TYPE_WRITE_def EVENT_TYPE_CLOSE_def EVENT_TYPE_ERROR_def
  EVENT_TYPE_ALL_def

section \<open>The poller\<close>

text \<open>\<open>interest\<close> is the kernel's interest list; the two other fields are the poller's own.\<close>

record event_poller =
  interest :: "nat \<rightharpoonup> events"
  fds_that_are_listening_on :: "bool list"
  number_of_fds_that_are_listening_on :: nat

definition new_event_poller :: "nat \<Rightarrow> event_poller" where
  "new_event_poller limit =
     \<lparr>interest = Map.empty, fds_that_are_listening_on = replicate limit False,
      number_of_fds_that_are_listening_on = 0\<rparr>"

datatype ctl = EPOLL_CTL_ADD | EPOLL_CTL_MOD | EPOLL_CTL_DEL

text \<open>\<^verbatim>\<open>epoll_ctl\<close> on an open descriptor: \<open>None\<close> is -1 (EEXIST or ENOENT).\<close>

fun epoll_ctl :: "ctl \<Rightarrow> nat \<Rightarrow> events \<Rightarrow> (nat \<rightharpoonup> events) \<Rightarrow> (nat \<rightharpoonup> events) option" where
  "epoll_ctl EPOLL_CTL_ADD fd ev m = (if fd \<in> dom m then None else Some (m(fd \<mapsto> ev)))"
| "epoll_ctl EPOLL_CTL_MOD fd ev m = (if fd \<in> dom m then Some (m(fd \<mapsto> ev)) else None)"
| "epoll_ctl EPOLL_CTL_DEL fd ev m = (if fd \<in> dom m then Some (m(fd := None)) else None)"

definition register_event_for_fd :: "nat \<Rightarrow> events \<Rightarrow> event_poller \<Rightarrow> event_poller outcome" where
  "register_event_for_fd fd ev ep =
     (if fd \<ge> length (fds_that_are_listening_on ep) then Inl (Undefined ''index out of range'')
      else
        let is_attached = fds_that_are_listening_on ep ! fd in
        case epoll_ctl (if is_attached then EPOLL_CTL_MOD else EPOLL_CTL_ADD) fd ev (interest ep) of
          None \<Rightarrow> Inl (Fatal ''epoll_ctl failed'')
        | Some m \<Rightarrow>
            let ep1 = ep\<lparr>interest := m\<rparr> in
            if \<not> is_attached then
              Inr (ep1\<lparr>fds_that_are_listening_on := (fds_that_are_listening_on ep1)[fd := True],
                       number_of_fds_that_are_listening_on := number_of_fds_that_are_listening_on ep1 + 1\<rparr>)
            else Inr ep1)"

definition detach_fd :: "nat \<Rightarrow> event_poller \<Rightarrow> event_poller outcome" where
  "detach_fd fd ep =
     (if fd \<ge> length (fds_that_are_listening_on ep) then Inl (Undefined ''index out of range'')
      else if \<not> fds_that_are_listening_on ep ! fd then Inr ep
      else case epoll_ctl EPOLL_CTL_DEL fd 0 (interest ep) of
          None \<Rightarrow> Inl (Fatal ''epoll_ctl failed'')
        | Some m \<Rightarrow>
            Inr (ep\<lparr>interest := m,
                   fds_that_are_listening_on := (fds_that_are_listening_on ep)[fd := False],
                   number_of_fds_that_are_listening_on :=
                     size_sub (number_of_fds_that_are_listening_on ep) 1\<rparr>))"

definition poller_size :: "event_poller \<Rightarrow> nat" where
  "poller_size ep = number_of_fds_that_are_listening_on ep"

definition poller_empty :: "event_poller \<Rightarrow> bool" where
  "poller_empty ep \<longleftrightarrow> poller_size ep = 0"

text \<open>\<^verbatim>\<open>set_limit_of_max_number_of_opened_file_descriptors_per_process\<close> on the soft and the hard limit.\<close>

definition set_limit_of_max_number_of_opened_file_descriptors ::
  "nat \<Rightarrow> nat \<times> nat \<Rightarrow> nat \<times> nat" where
  "set_limit_of_max_number_of_opened_file_descriptors n limit =
     (case limit of (rlim_cur, rlim_max) \<Rightarrow> (min n rlim_max, rlim_max))"

text \<open>
  \<^verbatim>\<open>epoll_wait\<close> is retried while it is interrupted. The answers of the kernel are a list; a list that
  runs out is a call that never returns.
\<close>

datatype wait_result = Interrupted | Wait_Failed | Ready "(nat \<times> events) list"

fun poll_for_active_events :: "wait_result list \<Rightarrow> (nat \<times> events) list outcome" where
  "poll_for_active_events [] = Inl Diverges"
| "poll_for_active_events (Interrupted # rs) = poll_for_active_events rs"
| "poll_for_active_events (Wait_Failed # rs) = Inl (Fatal ''epoll_wait failed'')"
| "poll_for_active_events (Ready evs # rs) = Inr evs"

section \<open>Descriptors\<close>

record pollable_fd =
  is_reading :: bool
  is_writing :: bool
  is_detached :: bool
  pfd_fd :: nat
  initial_epoll_event :: events
  event :: events
  active_events :: events
  has_read_callback :: bool
  has_write_callback :: bool
  has_close_callback :: bool
  has_error_callback :: bool

definition new_pollable_fd :: "int \<Rightarrow> bool \<Rightarrow> pollable_fd outcome" where
  "new_pollable_fd fd prefer_et =
     (if fd < 0 then Inl (Fatal ''invalid file descriptor (must be non-negative)'')
      else let init = (if prefer_et then EPOLLET else 0) in
        Inr \<lparr>is_reading = False, is_writing = False, is_detached = True, pfd_fd = nat fd,
             initial_epoll_event = init, event = init, active_events = 0,
             has_read_callback = False, has_write_callback = False,
             has_close_callback = False, has_error_callback = False\<rparr>)"

definition O_NONBLOCK :: "32 word" where
  "O_NONBLOCK = 0x800"

definition set_fd_as_blocking :: "32 word \<Rightarrow> 32 word" where
  "set_fd_as_blocking flags = flags AND NOT O_NONBLOCK"

definition set_fd_as_nonblocking :: "32 word \<Rightarrow> 32 word" where
  "set_fd_as_nonblocking flags = flags OR O_NONBLOCK"

definition register_event :: "pollable_fd \<Rightarrow> event_poller \<Rightarrow> (pollable_fd \<times> event_poller) outcome" where
  "register_event d ep =
     (let d1 = d\<lparr>is_detached := False\<rparr> in
      obind (register_event_for_fd (pfd_fd d1) (event d1) ep) (\<lambda>ep'. Inr (d1, ep')))"

definition enable_read_event :: "pollable_fd \<Rightarrow> event_poller \<Rightarrow> (pollable_fd \<times> event_poller) outcome" where
  "enable_read_event d ep =
     (if is_reading d then Inr (d, ep)
      else register_event (d\<lparr>is_reading := True, event := event d OR EVENT_TYPE_READ\<rparr>) ep)"

definition disable_read_event :: "pollable_fd \<Rightarrow> event_poller \<Rightarrow> (pollable_fd \<times> event_poller) outcome" where
  "disable_read_event d ep =
     (if \<not> is_reading d then Inr (d, ep)
      else register_event (d\<lparr>is_reading := False, event := event d AND NOT EVENT_TYPE_READ\<rparr>) ep)"

definition enable_write_event :: "pollable_fd \<Rightarrow> event_poller \<Rightarrow> (pollable_fd \<times> event_poller) outcome" where
  "enable_write_event d ep =
     (if is_writing d then Inr (d, ep)
      else register_event (d\<lparr>is_writing := True, event := event d OR EVENT_TYPE_WRITE\<rparr>) ep)"

definition disable_write_event :: "pollable_fd \<Rightarrow> event_poller \<Rightarrow> (pollable_fd \<times> event_poller) outcome" where
  "disable_write_event d ep =
     (if \<not> is_writing d then Inr (d, ep)
      else register_event (d\<lparr>is_writing := False, event := event d AND NOT EVENT_TYPE_WRITE\<rparr>) ep)"

definition detach_from_poller :: "pollable_fd \<Rightarrow> event_poller \<Rightarrow> (pollable_fd \<times> event_poller) outcome" where
  "detach_from_poller d ep =
     (if is_detached d then Inr (d, ep)
      else
        let d1 = d\<lparr>is_detached := True, is_reading := False, is_writing := False,
                   event := initial_epoll_event d\<rparr>
        in obind (detach_fd (pfd_fd d1) ep) (\<lambda>ep'. Inr (d1, ep')))"

text \<open>The kernel drops a closed descriptor from every epoll instance.\<close>

definition close_fd :: "nat \<Rightarrow> event_poller \<Rightarrow> event_poller" where
  "close_fd fd ep = ep\<lparr>interest := (interest ep)(fd := None)\<rparr>"

definition reset_to :: "int \<Rightarrow> pollable_fd \<Rightarrow> event_poller \<Rightarrow> (pollable_fd \<times> event_poller) outcome" where
  "reset_to new_fd d ep =
     (if new_fd < 0 then Inl (Fatal ''invalid file descriptor (must be non-negative)'')
      else obind (detach_from_poller d ep) (\<lambda>(d1, ep1).
        Inr (d1\<lparr>pfd_fd := nat new_fd\<rparr>, close_fd (pfd_fd d1) ep1)))"

section \<open>Dispatching\<close>

datatype callback = Close_Callback | Error_Callback | Read_Callback | Write_Callback

definition dispatch_events :: "pollable_fd \<Rightarrow> callback list" where
  "dispatch_events d =
     (if active_events d AND EVENT_TYPE_CLOSE \<noteq> 0 \<and> has_close_callback d then [Close_Callback] else []) @
     (if active_events d AND EVENT_TYPE_ERROR \<noteq> 0 \<and> has_error_callback d then [Error_Callback] else []) @
     (if active_events d AND EVENT_TYPE_READ \<noteq> 0 \<and> has_read_callback d then [Read_Callback] else []) @
     (if active_events d AND EVENT_TYPE_WRITE \<noteq> 0 \<and> has_write_callback d then [Write_Callback] else [])"

text \<open>\<open>guard\<close> is \<open>None\<close> when no lifetime guard is registered, and else whether locking it succeeds.\<close>

definition dispatch_active_events :: "bool option \<Rightarrow> pollable_fd \<Rightarrow> callback list outcome" where
  "dispatch_active_events guard d =
     (case guard of
        None \<Rightarrow> Inr (dispatch_events d)
      | Some alive \<Rightarrow>
          if alive then Inr (dispatch_events d)
          else Inl (Fatal ''assert: execution flow never reaches here''))"

section \<open>Invariant\<close>

definition wanted :: "pollable_fd \<Rightarrow> events" where
  "wanted d = initial_epoll_event d OR (if is_reading d then EVENT_TYPE_READ else 0)
              OR (if is_writing d then EVENT_TYPE_WRITE else 0)"

definition pfd_ok :: "pollable_fd \<Rightarrow> bool" where
  "pfd_ok d \<longleftrightarrow>
     event d = wanted d \<and> (is_detached d \<longrightarrow> \<not> is_reading d \<and> \<not> is_writing d) \<and>
     initial_epoll_event d \<in> {0, EPOLLET}"

definition poller_ok :: "event_poller \<Rightarrow> bool" where
  "poller_ok ep \<longleftrightarrow>
     (\<forall>fd < length (fds_that_are_listening_on ep).
        fds_that_are_listening_on ep ! fd \<longleftrightarrow> fd \<in> dom (interest ep)) \<and>
     (\<forall>fd \<in> dom (interest ep). fd < length (fds_that_are_listening_on ep)) \<and>
     number_of_fds_that_are_listening_on ep = length (filter id (fds_that_are_listening_on ep))"

lemma filter_id_True:
  "i < length bs \<Longrightarrow> \<not> bs ! i \<Longrightarrow> length (filter id (bs[i := True])) = length (filter id bs) + 1"
  by (induction bs arbitrary: i) (auto simp: nth_Cons' less_Suc_eq_0_disj)

lemma filter_id_False:
  "i < length bs \<Longrightarrow> bs ! i \<Longrightarrow> length (filter id (bs[i := False])) + 1 = length (filter id bs)"
  by (induction bs arbitrary: i) (auto simp: nth_Cons' less_Suc_eq_0_disj)

lemma register_event_ok:
  assumes "poller_ok ep" "fd < length (fds_that_are_listening_on ep)"
  shows "\<exists>ep'. register_event_for_fd fd ev ep = Inr ep' \<and> poller_ok ep' \<and>
    interest ep' = (interest ep)(fd \<mapsto> ev) \<and>
    length (fds_that_are_listening_on ep') = length (fds_that_are_listening_on ep)"
proof (cases "fds_that_are_listening_on ep ! fd")
  case True
  with assms have "fd \<in> dom (interest ep)" by (auto simp: poller_ok_def)
  moreover have "\<not> length (fds_that_are_listening_on ep) \<le> fd" using assms(2) by simp
  ultimately show ?thesis
    using True assms by (simp add: register_event_for_fd_def Let_def domIff) (auto simp: poller_ok_def)
next
  case False
  with assms have "fd \<notin> dom (interest ep)" by (auto simp: poller_ok_def)
  with False assms show ?thesis
    by (auto simp: register_event_for_fd_def Let_def poller_ok_def filter_id_True nth_list_update)
qed

lemma detach_fd_ok:
  assumes "poller_ok ep" "fd < length (fds_that_are_listening_on ep)"
  shows "\<exists>ep'. detach_fd fd ep = Inr ep' \<and> poller_ok ep' \<and> interest ep' = (interest ep)(fd := None) \<and>
    length (fds_that_are_listening_on ep') = length (fds_that_are_listening_on ep)"
proof (cases "fds_that_are_listening_on ep ! fd")
  case True
  with assms have "fd \<in> dom (interest ep)" by (auto simp: poller_ok_def)
  moreover have "length (filter id ((fds_that_are_listening_on ep)[fd := False])) + 1 =
      number_of_fds_that_are_listening_on ep"
    using True assms filter_id_False by (auto simp: poller_ok_def)
  moreover have "\<not> length (fds_that_are_listening_on ep) \<le> fd" using assms(2) by simp
  ultimately show ?thesis
    using True assms
    by (simp add: detach_fd_def domIff) (auto simp: poller_ok_def nth_list_update split: if_splits)
next
  case False
  with assms have "fd \<notin> dom (interest ep)" by (auto simp: poller_ok_def)
  then have "(interest ep)(fd := None) = interest ep" by (auto simp: fun_upd_idem_iff domIff)
  with False assms show ?thesis by (simp add: detach_fd_def)
qed

lemma wanted_changes:
  assumes "initial_epoll_event d \<in> {0, EPOLLET}"
  shows "\<not> is_reading d \<Longrightarrow> wanted d OR EVENT_TYPE_READ = wanted (d\<lparr>is_reading := True\<rparr>)"
    and "is_reading d \<Longrightarrow> wanted d AND NOT EVENT_TYPE_READ = wanted (d\<lparr>is_reading := False\<rparr>)"
    and "\<not> is_writing d \<Longrightarrow> wanted d OR EVENT_TYPE_WRITE = wanted (d\<lparr>is_writing := True\<rparr>)"
    and "is_writing d \<Longrightarrow> wanted d AND NOT EVENT_TYPE_WRITE = wanted (d\<lparr>is_writing := False\<rparr>)"
  using assms by (cases "is_reading d"; cases "is_writing d"; auto simp: wanted_def mask_defs)+

lemma wanted_other [simp]:
  "wanted (d\<lparr>event := e\<rparr>) = wanted d" "wanted (d\<lparr>is_detached := b\<rparr>) = wanted d"
  by (simp_all add: wanted_def)

section \<open>Descriptors and the kernel agree\<close>

text \<open>Many descriptors share one poller; \<open>ds fd\<close> is the descriptor object of the file descriptor \<open>fd\<close>.\<close>

datatype fd_op = Enable_Read | Disable_Read | Enable_Write | Disable_Write | Detach

fun fd_exec :: "fd_op \<Rightarrow> pollable_fd \<Rightarrow> event_poller \<Rightarrow> (pollable_fd \<times> event_poller) outcome" where
  "fd_exec Enable_Read = enable_read_event"
| "fd_exec Disable_Read = disable_read_event"
| "fd_exec Enable_Write = enable_write_event"
| "fd_exec Disable_Write = disable_write_event"
| "fd_exec Detach = detach_from_poller"

fun fd_run ::
  "(nat \<times> fd_op) list \<Rightarrow> (nat \<Rightarrow> pollable_fd) \<times> event_poller
   \<Rightarrow> ((nat \<Rightarrow> pollable_fd) \<times> event_poller) outcome" where
  "fd_run [] st = Inr st"
| "fd_run ((fd, c) # cs) st =
     obind (fd_exec c (fst st fd) (snd st)) (\<lambda>(d, ep). fd_run cs ((fst st)(fd := d), ep))"

definition agree :: "nat \<Rightarrow> (nat \<Rightarrow> pollable_fd) \<times> event_poller \<Rightarrow> bool" where
  "agree limit st \<longleftrightarrow>
     (case st of (ds, ep) \<Rightarrow>
        poller_ok ep \<and> length (fds_that_are_listening_on ep) = limit \<and>
        (\<forall>fd < limit. pfd_fd (ds fd) = fd \<and> pfd_ok (ds fd) \<and>
           interest ep fd = (if is_detached (ds fd) then None else Some (wanted (ds fd)))))"

lemma register_agree:
  assumes "agree limit (ds, ep)" "fd < limit" "pfd_fd d = fd" "event d = wanted d"
    "initial_epoll_event d \<in> {0, EPOLLET}"
  shows "\<exists>d' ep'. register_event d ep = Inr (d', ep') \<and> agree limit (ds(fd := d'), ep')"
proof -
  let ?d = "d\<lparr>is_detached := False\<rparr>"
  obtain ep' where ep': "register_event_for_fd fd (wanted d) ep = Inr ep'" "poller_ok ep'"
      "interest ep' = (interest ep)(fd \<mapsto> wanted d)"
      "length (fds_that_are_listening_on ep') = length (fds_that_are_listening_on ep)"
    using register_event_ok [of ep fd] assms(1,2) by (auto simp: agree_def)
  have "register_event d ep = Inr (?d, ep')"
    using ep'(1) assms(3,4) by (simp add: register_event_def Let_def)
  moreover have "agree limit (ds(fd := ?d), ep')"
    using assms ep'(2-4) by (auto simp: agree_def pfd_ok_def)
  ultimately show ?thesis by blast
qed

lemma fd_exec_agree:
  assumes ag: "agree limit (ds, ep)" and fd: "fd < limit"
  shows "\<exists>d' ep'. fd_exec c (ds fd) ep = Inr (d', ep') \<and> agree limit (ds(fd := d'), ep')"
proof -
  let ?d = "ds fd"
  have d: "pfd_fd ?d = fd" "event ?d = wanted ?d" "initial_epoll_event ?d \<in> {0, EPOLLET}"
    using ag fd by (auto simp: agree_def pfd_ok_def)
  have same: "agree limit (ds(fd := ?d), ep)" using ag by simp
  note reg = register_agree [OF ag fd]
  show ?thesis
  proof (cases c)
    case Enable_Read
    then show ?thesis using same wanted_changes(1) [OF d(3)] d
      by (cases "is_reading ?d") (auto simp: enable_read_event_def intro!: reg)
  next
    case Disable_Read
    then show ?thesis using same wanted_changes(2) [OF d(3)] d
      by (cases "is_reading ?d") (auto simp: disable_read_event_def intro!: reg)
  next
    case Enable_Write
    then show ?thesis using same wanted_changes(3) [OF d(3)] d
      by (cases "is_writing ?d") (auto simp: enable_write_event_def intro!: reg)
  next
    case Disable_Write
    then show ?thesis using same wanted_changes(4) [OF d(3)] d
      by (cases "is_writing ?d") (auto simp: disable_write_event_def intro!: reg)
  next
    case Detach
    show ?thesis
    proof (cases "is_detached ?d")
      case True
      with Detach same show ?thesis by (auto simp: detach_from_poller_def)
    next
      case False
      let ?d1 = "?d\<lparr>is_detached := True, is_reading := False, is_writing := False,
                   event := initial_epoll_event ?d\<rparr>"
      obtain ep' where ep': "detach_fd fd ep = Inr ep'" "poller_ok ep'"
          "interest ep' = (interest ep)(fd := None)"
          "length (fds_that_are_listening_on ep') = length (fds_that_are_listening_on ep)"
        using detach_fd_ok [of ep fd] ag fd by (auto simp: agree_def)
      have "fd_exec c ?d ep = Inr (?d1, ep')"
        using Detach False ep'(1) d(1) by (simp add: detach_from_poller_def Let_def)
      moreover have "agree limit (ds(fd := ?d1), ep')"
        using ag ep'(2-4) d fd by (auto simp: agree_def pfd_ok_def wanted_def)
      ultimately show ?thesis by blast
    qed
  qed
qed

lemma fd_run_agree:
  "agree limit st \<Longrightarrow> (\<forall>(fd, c) \<in> set cs. fd < limit) \<Longrightarrow>
     \<exists>st'. fd_run cs st = Inr st' \<and> agree limit st'"
proof (induction cs arbitrary: st)
  case (Cons fc cs)
  obtain fd c ds ep where [simp]: "fc = (fd, c)" "st = (ds, ep)" by (cases fc; cases st)
  from Cons.prems obtain d' ep' where "fd_exec c (ds fd) ep = Inr (d', ep')"
      "agree limit (ds(fd := d'), ep')"
    using fd_exec_agree [of limit ds ep fd c] by auto
  with Cons show ?case by simp
qed simp

lemma card_attached:
  assumes "agree limit (ds, ep)"
  shows "poller_size ep = card {fd. fd < limit \<and> \<not> is_detached (ds fd)}"
proof -
  have "poller_size ep = length (filter id (fds_that_are_listening_on ep))"
    using assms by (simp add: agree_def poller_ok_def poller_size_def)
  also have "\<dots> = card {i. i < length (fds_that_are_listening_on ep) \<and> fds_that_are_listening_on ep ! i}"
    by (simp add: length_filter_conv_card)
  also have "{i. i < length (fds_that_are_listening_on ep) \<and> fds_that_are_listening_on ep ! i} =
      {fd. fd < limit \<and> \<not> is_detached (ds fd)}"
    using assms by (auto simp: agree_def poller_ok_def domIff)
  finally show ?thesis .
qed

definition all_new :: "bool \<Rightarrow> nat \<Rightarrow> pollable_fd" where
  "all_new prefer_et fd =
     (case new_pollable_fd (int fd) prefer_et of Inr d \<Rightarrow> d | Inl _ \<Rightarrow> undefined)"

lemma agree_new: "agree limit (all_new et, new_event_poller limit)"
  by (auto simp: agree_def all_new_def new_pollable_fd_def new_event_poller_def poller_ok_def
      pfd_ok_def wanted_def Let_def)

text \<open>C9: Whatever descriptors below the limit enable, disable and detach their events in whatever
  order, no \<^verbatim>\<open>epoll_ctl\<close> call ever fails, the kernel's interest in every descriptor is exactly
  what its reading and writing flags say (and absent when it is detached), and the poller's size is
  the number of attached descriptors.\<close>

theorem descriptors_agree_with_kernel:
  assumes "\<forall>(fd, c) \<in> set cs. fd < limit"
  shows "\<exists>ds ep. fd_run cs (all_new et, new_event_poller limit) = Inr (ds, ep) \<and>
    (\<forall>fd < limit. interest ep fd =
       (if is_detached (ds fd) then None
        else Some (initial_epoll_event (ds fd) OR (if is_reading (ds fd) then EVENT_TYPE_READ else 0)
                   OR (if is_writing (ds fd) then EVENT_TYPE_WRITE else 0)))) \<and>
    poller_size ep = card {fd. fd < limit \<and> \<not> is_detached (ds fd)}"
proof -
  obtain ds ep where st: "fd_run cs (all_new et, new_event_poller limit) = Inr (ds, ep)"
      "agree limit (ds, ep)"
    using fd_run_agree [OF agree_new assms, of et] by auto
  then show ?thesis
    using card_attached [OF st(2)] by (auto simp: agree_def wanted_def)
qed

theorem descriptors_agree_with_kernel_witness:
  "\<exists>ds ep. fd_run [(3, Enable_Read), (5, Enable_Write), (3, Detach)] (all_new True, new_event_poller 8)
       = Inr (ds, ep) \<and>
    (\<forall>fd < 8. interest ep fd =
       (if is_detached (ds fd) then None
        else Some (initial_epoll_event (ds fd) OR (if is_reading (ds fd) then EVENT_TYPE_READ else 0)
                   OR (if is_writing (ds fd) then EVENT_TYPE_WRITE else 0)))) \<and>
    poller_size ep = card {fd. fd < 8 \<and> \<not> is_detached (ds fd)}"
  by (rule descriptors_agree_with_kernel) simp

end
