(* ===== verification/Event_Loop.thy ===== *)
theory Event_Loop
  imports Loop_Timers Loop_Wakeup Event_Poller
begin

text \<open>
  \<^verbatim>\<open>EventLoop\<close> as a whole (src/event_loop.cc): the constructor, \<^verbatim>\<open>loop()\<close> and the operations its
  callbacks use, composed from the timers, the functor queues with their eventfds, and the poller.
  The finer interleaving of callers with one queue is in \<open>Loop_Wakeup\<close>; here a submission is one step.
\<close>

section \<open>State\<close>

text \<open>The last two fields are a history: which functors were accepted by and run from which queue.\<close>

record 'f event_loop =
  eventfd_fds :: "nat list"
  timerfd_fd :: nat
  functor_queues :: "'f blocking_queue list"
  pilot_lamps :: "bool list"
  eventfd_counters :: "nat list"
  eventfd_flag :: bool
  loop_timers :: timer_loop
  loop_poller :: event_poller
  stop_asked :: bool
  queued_log :: "(nat \<times> 'f) list"
  ran_log :: "(nat \<times> 'f) list"

text \<open>\<^verbatim>\<open>Eventfd::start\<close> and \<^verbatim>\<open>Timerfd::start\<close> on a descriptor.\<close>

definition start_fd :: "nat \<Rightarrow> event_poller \<Rightarrow> event_poller outcome" where
  "start_fd fd ep =
     obind (new_pollable_fd (int fd) True) (\<lambda>d.
     obind (enable_read_event (d\<lparr>has_read_callback := True\<rparr>) ep) (\<lambda>(d', ep'). Inr ep'))"

fun start_fds :: "nat list \<Rightarrow> event_poller \<Rightarrow> event_poller outcome" where
  "start_fds [] ep = Inr ep"
| "start_fds (fd # fds) ep = obind (start_fd fd ep) (start_fds fds)"

text \<open>
  The constructor: \<open>fds\<close> and \<open>tfd\<close> are the descriptors the kernel returns, one for each queue and the timer's.
  \<open>yell\<close> names the functor of the repeated timer set up at the end.
\<close>

definition new_event_loop :: "nat \<Rightarrow> nat list \<Rightarrow> nat \<Rightarrow> nat \<Rightarrow> int \<Rightarrow> 'f event_loop outcome" where
  "new_event_loop limit fds tfd yell now =
     obind (start_fds fds (new_event_poller limit)) (\<lambda>ep1.
     obind (start_fd tfd ep1) (\<lambda>ep.
     obind (run_after_time_interval now (3 * SECOND) (3 * SECOND) (- 1) yell new_timer_loop) (\<lambda>(p, ts).
       Inr \<lparr>eventfd_fds = fds, timerfd_fd = tfd,
            functor_queues = replicate (length fds) (new_blocking_queue FUNCTOR_QUEUE_CAPACITY),
            pilot_lamps = replicate (length fds) False, eventfd_counters = replicate (length fds) 0,
            eventfd_flag = False, loop_timers = ts, loop_poller = ep, stop_asked = False,
            queued_log = [], ran_log = []\<rparr>)))"

section \<open>Other threads\<close>

definition loop_wake_up :: "nat \<Rightarrow> 'f event_loop \<Rightarrow> 'f event_loop" where
  "loop_wake_up i s =
     (if pilot_lamps s ! i then s
      else s\<lparr>pilot_lamps := (pilot_lamps s)[i := True],
             eventfd_counters := (eventfd_counters s)[i := eventfd_counters s ! i + 1]\<rparr>)"

text \<open>While the queue is full, the caller waits and nothing has been submitted.\<close>

definition loop_submit :: "nat \<Rightarrow> 'f \<Rightarrow> 'f event_loop \<Rightarrow> 'f event_loop outcome" where
  "loop_submit i f s =
     (if i \<ge> length (functor_queues s) then Inl (Undefined ''index out of range'')
      else case bq_push f (functor_queues s ! i) of
          None \<Rightarrow> Inr s
        | Some q \<Rightarrow> Inr (loop_wake_up i (s\<lparr>functor_queues := (functor_queues s)[i := q], queued_log := queued_log s @ [(i, f)]\<rparr>)))"

definition loop_ask_to_stop :: "'f event_loop \<Rightarrow> 'f event_loop" where
  "loop_ask_to_stop s = loop_wake_up 0 (s\<lparr>stop_asked := True\<rparr>)"

section \<open>What callbacks ask of the loop\<close>

text \<open>Functors and the callbacks of descriptors run in the loop's thread, where these happen at once.\<close>

datatype loop_request = Register_Fd nat events | Detach_Fd nat | Timer_Request loop_cmd | Ask_To_Stop

fun serve :: "loop_request \<Rightarrow> 'f event_loop \<Rightarrow> 'f event_loop outcome" where
  "serve (Register_Fd fd ev) s = obind (register_event_for_fd fd ev (loop_poller s)) (\<lambda>ep. Inr (s\<lparr>loop_poller := ep\<rparr>))"
| "serve (Detach_Fd fd) s = obind (detach_fd fd (loop_poller s)) (\<lambda>ep. Inr (s\<lparr>loop_poller := ep\<rparr>))"
| "serve (Timer_Request c) s = obind (exec_cmd c (loop_timers s)) (\<lambda>ts. Inr (s\<lparr>loop_timers := ts\<rparr>))"
| "serve Ask_To_Stop s = Inr (loop_ask_to_stop s)"

fun serve_all :: "loop_request list \<Rightarrow> 'f event_loop \<Rightarrow> 'f event_loop outcome" where
  "serve_all [] s = Inr s"
| "serve_all (r # rs) s = obind (serve r s) (serve_all rs)"

section \<open>The loop\<close>

text \<open>
  The callbacks are parameters: \<open>call f s\<close> is what the functor \<open>f\<close> asks in state \<open>s\<close>, \<open>dispatch fd ev s\<close> what the
  callbacks of the descriptor \<open>fd\<close> ask for the events \<open>ev\<close>, \<open>body\<close> what the callbacks of the timers ask.
\<close>

fun run_each :: "('f \<Rightarrow> 'f event_loop \<Rightarrow> loop_request list) \<Rightarrow> nat \<Rightarrow> 'f list \<Rightarrow> 'f event_loop \<Rightarrow> 'f event_loop outcome" where
  "run_each call i [] s = Inr s"
| "run_each call i (f # fs) s =
     obind (serve_all (call f s) (s\<lparr>ran_log := ran_log s @ [(i, f)]\<rparr>)) (run_each call i fs)"

fun invoke_queues :: "('f \<Rightarrow> 'f event_loop \<Rightarrow> loop_request list) \<Rightarrow> nat list \<Rightarrow> 'f event_loop \<Rightarrow> 'f event_loop outcome" where
  "invoke_queues call [] s = Inr s"
| "invoke_queues call (i # is) s =
     (case bq_pop_all (functor_queues s ! i) of (queued, q) \<Rightarrow>
        obind (run_each call i queued (s\<lparr>functor_queues := (functor_queues s)[i := q]\<rparr>)) (invoke_queues call is))"

definition loop_invoke_all_functors ::
  "('f \<Rightarrow> 'f event_loop \<Rightarrow> loop_request list) \<Rightarrow> 'f event_loop \<Rightarrow> 'f event_loop outcome" where
  "loop_invoke_all_functors call s = invoke_queues call [0..<length (functor_queues s)] s"

definition loop_expire_timers ::
  "(nat \<Rightarrow> timer_loop \<Rightarrow> loop_cmd list) \<Rightarrow> int \<Rightarrow> 'f event_loop \<Rightarrow> 'f event_loop outcome" where
  "loop_expire_timers body now s =
     obind (expire_timers_and_update_alarm body now (loop_timers s)) (\<lambda>ts. Inr (s\<lparr>loop_timers := ts\<rparr>))"

text \<open>The read callback of the eventfd of queue \<open>i\<close>, with the message callback of the constructor.\<close>

definition eventfd_read_event_callback :: "nat \<Rightarrow> 'f event_loop \<Rightarrow> 'f event_loop" where
  "eventfd_read_event_callback i s =
     s\<lparr>eventfd_counters := (eventfd_counters s)[i := 0], pilot_lamps := (pilot_lamps s)[i := False], eventfd_flag := True\<rparr>"

definition timerfd_read_event_callback :: "'f event_loop \<Rightarrow> 'f event_loop" where
  "timerfd_read_event_callback s = s\<lparr>loop_timers := timerfd_message_callback (loop_timers s)\<rparr>"

fun position :: "'a \<Rightarrow> 'a list \<Rightarrow> nat option" where
  "position y [] = None"
| "position y (x # xs) = (if x = y then Some 0 else map_option Suc (position y xs))"

text \<open>The loop's own descriptors have read callbacks only.\<close>

definition dispatch_one ::
  "(nat \<Rightarrow> events \<Rightarrow> 'f event_loop \<Rightarrow> loop_request list) \<Rightarrow> nat \<times> events \<Rightarrow> 'f event_loop \<Rightarrow> 'f event_loop outcome" where
  "dispatch_one dispatch fe s =
     (case fe of (fd, ev) \<Rightarrow>
        case position fd (eventfd_fds s) of
          Some i \<Rightarrow> Inr (if ev AND EVENT_TYPE_READ \<noteq> 0 then eventfd_read_event_callback i s else s)
        | None \<Rightarrow>
            if fd = timerfd_fd s
            then Inr (if ev AND EVENT_TYPE_READ \<noteq> 0 then timerfd_read_event_callback s else s)
            else serve_all (dispatch fd ev s) s)"

fun dispatch_all ::
  "(nat \<Rightarrow> events \<Rightarrow> 'f event_loop \<Rightarrow> loop_request list) \<Rightarrow> (nat \<times> events) list \<Rightarrow> 'f event_loop \<Rightarrow> 'f event_loop outcome" where
  "dispatch_all dispatch [] s = Inr s"
| "dispatch_all dispatch (fe # fes) s = obind (dispatch_one dispatch fe s) (dispatch_all dispatch fes)"

text \<open>The two checks after dispatching.\<close>

definition check_eventfd ::
  "('f \<Rightarrow> 'f event_loop \<Rightarrow> loop_request list) \<Rightarrow> 'f event_loop \<Rightarrow> 'f event_loop outcome" where
  "check_eventfd call s =
     (if eventfd_flag s then obind (loop_invoke_all_functors call s) (\<lambda>t. Inr (t\<lparr>eventfd_flag := False\<rparr>)) else Inr s)"

definition check_timerfd ::
  "(nat \<Rightarrow> timer_loop \<Rightarrow> loop_cmd list) \<Rightarrow> int \<Rightarrow> 'f event_loop \<Rightarrow> 'f event_loop outcome" where
  "check_timerfd body now s =
     (if timerfd_triggered (loop_timers s)
      then obind (loop_expire_timers body now s)
             (\<lambda>t. Inr (t\<lparr>loop_timers := (loop_timers t)\<lparr>timerfd_triggered := False\<rparr>\<rparr>))
      else Inr s)"

text \<open>One round of \<^verbatim>\<open>loop()\<close>; the flag tells whether it returned. \<open>now\<close> is the time it reads for the timers.\<close>

definition loop_round ::
  "('f \<Rightarrow> 'f event_loop \<Rightarrow> loop_request list) \<Rightarrow> (nat \<Rightarrow> events \<Rightarrow> 'f event_loop \<Rightarrow> loop_request list)
   \<Rightarrow> (nat \<Rightarrow> timer_loop \<Rightarrow> loop_cmd list) \<Rightarrow> wait_result list \<Rightarrow> int \<Rightarrow> 'f event_loop \<Rightarrow> (bool \<times> 'f event_loop) outcome" where
  "loop_round call dispatch body answers now s =
     (if stop_asked s \<and> poller_size (loop_poller s) = 1 + length (functor_queues s) then
        obind (loop_invoke_all_functors call s) (\<lambda>s1.
        obind (loop_expire_timers body now s1) (\<lambda>s2. Inr (True, s2)))
      else
        obind (poll_for_active_events answers) (\<lambda>event_dispatchers.
        obind (dispatch_all dispatch event_dispatchers s) (\<lambda>s1.
        obind (check_eventfd call s1) (\<lambda>s2.
        obind (check_timerfd body now s2) (\<lambda>s3. Inr (False, s3))))))"

section \<open>Invariant\<close>

definition own_fds :: "'f event_loop \<Rightarrow> nat set" where
  "own_fds s = insert (timerfd_fd s) (set (eventfd_fds s))"

definition lamps_ok :: "'f event_loop \<Rightarrow> bool" where
  "lamps_ok s \<longleftrightarrow>
     length (functor_queues s) = length (eventfd_fds s) \<and> length (pilot_lamps s) = length (eventfd_fds s) \<and>
     length (eventfd_counters s) = length (eventfd_fds s) \<and> eventfd_fds s \<noteq> [] \<and>
     (\<forall>i < length (eventfd_fds s). eventfd_counters s ! i = (if pilot_lamps s ! i then 1 else 0))"

definition fds_ok :: "'f event_loop \<Rightarrow> bool" where
  "fds_ok s \<longleftrightarrow>
     poller_ok (loop_poller s) \<and> distinct (timerfd_fd s # eventfd_fds s) \<and>
     (\<forall>fd \<in> own_fds s. interest (loop_poller s) fd = Some (EPOLLET OR EVENT_TYPE_READ))"

definition of_queue :: "nat \<Rightarrow> (nat \<times> 'f) list \<Rightarrow> 'f list" where
  "of_queue i log = map snd (filter (\<lambda>x. fst x = i) log)"

definition queues_ok :: "'f event_loop \<Rightarrow> bool" where
  "queues_ok s \<longleftrightarrow>
     (\<forall>i < length (functor_queues s). of_queue i (queued_log s) = of_queue i (ran_log s) @ bq_queue (functor_queues s ! i))"

text \<open>What is queued has a lamp on or is about to be run.\<close>

definition bells_ok :: "'f event_loop \<Rightarrow> bool" where
  "bells_ok s \<longleftrightarrow>
     (\<forall>i < length (functor_queues s). bq_queue (functor_queues s ! i) \<noteq> [] \<longrightarrow> pilot_lamps s ! i \<or> eventfd_flag s)"

definition loop_ok :: "'f event_loop \<Rightarrow> bool" where
  "loop_ok s \<longleftrightarrow> lamps_ok s \<and> fds_ok s \<and> queues_ok s \<and> bells_ok s"

lemmas loop_ok_defs = lamps_ok_def fds_ok_def queues_ok_def bells_ok_def own_fds_def

text \<open>Callbacks that leave the loop's own descriptors alone.\<close>

fun leaves_own :: "nat set \<Rightarrow> loop_request \<Rightarrow> bool" where
  "leaves_own own (Register_Fd fd ev) \<longleftrightarrow> fd \<notin> own"
| "leaves_own own (Detach_Fd fd) \<longleftrightarrow> fd \<notin> own"
| "leaves_own own _ \<longleftrightarrow> True"

definition callbacks_ok ::
  "nat set \<Rightarrow> ('f \<Rightarrow> 'f event_loop \<Rightarrow> loop_request list) \<Rightarrow> (nat \<Rightarrow> events \<Rightarrow> 'f event_loop \<Rightarrow> loop_request list) \<Rightarrow> bool" where
  "callbacks_ok own call dispatch \<longleftrightarrow>
     (\<forall>f s. list_all (leaves_own own) (call f s)) \<and> (\<forall>fd ev s. list_all (leaves_own own) (dispatch fd ev s))"

lemma of_queue_simps [simp]:
  "of_queue i [] = []" "of_queue i (xs @ ys) = of_queue i xs @ of_queue i ys"
  "of_queue i [(j, f)] = (if i = j then [f] else [])"
  by (simp_all add: of_queue_def)

lemma register_Inr:
  assumes "register_event_for_fd fd ev ep = Inr ep'" "poller_ok ep"
  shows "poller_ok ep' \<and> interest ep' = (interest ep)(fd \<mapsto> ev)"
proof (cases "fd < length (fds_that_are_listening_on ep)")
  case True
  from register_event_ok [OF assms(2) this, of ev] assms(1) show ?thesis by auto
next
  case False
  with assms(1) show ?thesis by (simp add: register_event_for_fd_def)
qed

lemma detach_Inr:
  assumes "detach_fd fd ep = Inr ep'" "poller_ok ep"
  shows "poller_ok ep' \<and> interest ep' = (interest ep)(fd := None)"
proof (cases "fd < length (fds_that_are_listening_on ep)")
  case True
  from detach_fd_ok [OF assms(2) this] assms(1) show ?thesis by auto
next
  case False
  with assms(1) show ?thesis by (simp add: detach_fd_def)
qed

text \<open>What no request of a callback changes: queues and history; lamps only go on.\<close>

definition kept :: "'f event_loop \<Rightarrow> 'f event_loop \<Rightarrow> bool" where
  "kept s s' \<longleftrightarrow>
     functor_queues s' = functor_queues s \<and> queued_log s' = queued_log s \<and> ran_log s' = ran_log s \<and>
     eventfd_flag s' = eventfd_flag s \<and> eventfd_fds s' = eventfd_fds s \<and> timerfd_fd s' = timerfd_fd s \<and>
     (stop_asked s \<longrightarrow> stop_asked s') \<and> (\<forall>i. pilot_lamps s ! i \<longrightarrow> pilot_lamps s' ! i)"

lemma kept_refl: "kept s s" by (simp add: kept_def)

lemma kept_trans: "kept s t \<Longrightarrow> kept t u \<Longrightarrow> kept s u" by (simp add: kept_def)

lemma wake_up_ok:
  assumes "i < length (eventfd_fds s)" "lamps_ok s"
  shows "lamps_ok (loop_wake_up i s) \<and> pilot_lamps (loop_wake_up i s) ! i \<and> (\<forall>j. pilot_lamps s ! j \<longrightarrow> pilot_lamps (loop_wake_up i s) ! j)"
  using assms by (auto simp: loop_wake_up_def lamps_ok_def nth_list_update)

lemma wake_up_frame [simp]:
  "functor_queues (loop_wake_up i s) = functor_queues s" "queued_log (loop_wake_up i s) = queued_log s"
  "ran_log (loop_wake_up i s) = ran_log s" "eventfd_flag (loop_wake_up i s) = eventfd_flag s"
  "eventfd_fds (loop_wake_up i s) = eventfd_fds s" "timerfd_fd (loop_wake_up i s) = timerfd_fd s"
  "loop_poller (loop_wake_up i s) = loop_poller s" "stop_asked (loop_wake_up i s) = stop_asked s"
  "loop_timers (loop_wake_up i s) = loop_timers s"
  by (simp_all add: loop_wake_up_def)

lemma serve_ok:
  assumes "serve r s = Inr s'" "leaves_own (own_fds s) r" "lamps_ok s" "fds_ok s"
  shows "lamps_ok s' \<and> fds_ok s' \<and> kept s s'"
proof (cases r)
  case (Register_Fd fd ev)
  then obtain ep where ep: "register_event_for_fd fd ev (loop_poller s) = Inr ep" "s' = s\<lparr>loop_poller := ep\<rparr>"
    using assms(1) by (auto simp: obind_eq_Inr_iff)
  have "poller_ok (loop_poller s)" using assms(4) by (simp add: fds_ok_def)
  from register_Inr [OF ep(1) this] ep(2) Register_Fd assms(2-4) show ?thesis
    by (simp add: loop_ok_defs kept_def)
next
  case (Detach_Fd fd)
  then obtain ep where ep: "detach_fd fd (loop_poller s) = Inr ep" "s' = s\<lparr>loop_poller := ep\<rparr>"
    using assms(1) by (auto simp: obind_eq_Inr_iff)
  have "poller_ok (loop_poller s)" using assms(4) by (simp add: fds_ok_def)
  from detach_Inr [OF ep(1) this] ep(2) Detach_Fd assms(2-4) show ?thesis
    by (auto simp: loop_ok_defs kept_def)
next
  case (Timer_Request c)
  with assms show ?thesis by (auto simp: loop_ok_defs kept_def obind_eq_Inr_iff)
next
  case Ask_To_Stop
  let ?t = "s\<lparr>stop_asked := True\<rparr>"
  have "lamps_ok ?t" "0 < length (eventfd_fds ?t)" using assms(3) by (simp_all add: lamps_ok_def)
  from wake_up_ok [OF this(2,1)] Ask_To_Stop assms show ?thesis
    by (auto simp: loop_ask_to_stop_def fds_ok_def own_fds_def kept_def)
qed

lemma serve_all_ok:
  "serve_all rs s = Inr s' \<Longrightarrow> list_all (leaves_own (own_fds s)) rs \<Longrightarrow> lamps_ok s \<Longrightarrow> fds_ok s \<Longrightarrow>
     lamps_ok s' \<and> fds_ok s' \<and> kept s s'"
proof (induction rs arbitrary: s)
  case Nil
  then show ?case by (simp add: kept_refl)
next
  case (Cons r rs)
  then obtain s1 where s1: "serve r s = Inr s1" "serve_all rs s1 = Inr s'" by (auto simp: obind_eq_Inr_iff)
  from serve_ok [OF s1(1)] Cons.prems have ok: "lamps_ok s1" "fds_ok s1" "kept s s1" by auto
  then have "own_fds s1 = own_fds s" by (simp add: kept_def own_fds_def)
  with Cons.IH [OF s1(2)] Cons.prems ok show ?case using kept_trans by auto
qed

section \<open>Functors\<close>

lemma run_each_ok:
  "run_each call i fs s = Inr s' \<Longrightarrow> callbacks_ok (own_fds s) call dispatch \<Longrightarrow> lamps_ok s \<Longrightarrow> fds_ok s \<Longrightarrow>
     lamps_ok s' \<and> fds_ok s' \<and> kept (s\<lparr>ran_log := ran_log s @ map (Pair i) fs\<rparr>) s'"
proof (induction fs arbitrary: s)
  case Nil
  then show ?case by (simp add: kept_refl)
next
  case (Cons f fs)
  let ?s = "s\<lparr>ran_log := ran_log s @ [(i, f)]\<rparr>"
  obtain s1 where s1: "serve_all (call f s) ?s = Inr s1" "run_each call i fs s1 = Inr s'"
    using Cons.prems(1) by (auto simp: obind_eq_Inr_iff)
  have own: "own_fds ?s = own_fds s" by (simp add: own_fds_def)
  have "lamps_ok ?s" "fds_ok ?s" using Cons.prems by (simp_all add: loop_ok_defs)
  moreover have "list_all (leaves_own (own_fds ?s)) (call f s)" using Cons.prems(2) own by (simp add: callbacks_ok_def)
  ultimately have ok: "lamps_ok s1" "fds_ok s1" "kept ?s s1" using serve_all_ok [OF s1(1)] by auto
  then have "own_fds s1 = own_fds s" by (simp add: kept_def own_fds_def)
  with Cons.IH [OF s1(2)] Cons.prems(2) ok show ?case by (auto simp: kept_def)
qed

text \<open>Invoking queues: those named are emptied and their functors run; the others stay.\<close>

definition invoked :: "nat set \<Rightarrow> 'f event_loop \<Rightarrow> 'f event_loop \<Rightarrow> bool" where
  "invoked is s s' \<longleftrightarrow>
     length (functor_queues s') = length (functor_queues s) \<and> queued_log s' = queued_log s \<and>
     eventfd_flag s' = eventfd_flag s \<and> eventfd_fds s' = eventfd_fds s \<and> timerfd_fd s' = timerfd_fd s \<and>
     (stop_asked s \<longrightarrow> stop_asked s') \<and> (\<forall>i. pilot_lamps s ! i \<longrightarrow> pilot_lamps s' ! i) \<and>
     (\<forall>i < length (functor_queues s).
        if i \<in> is then bq_queue (functor_queues s' ! i) = [] \<and>
             of_queue i (ran_log s') = of_queue i (ran_log s) @ bq_queue (functor_queues s ! i)
        else functor_queues s' ! i = functor_queues s ! i \<and> of_queue i (ran_log s') = of_queue i (ran_log s))"

lemma of_queue_pairs: "of_queue j (map (Pair i) fs) = (if j = i then fs else [])"
  by (induction fs) (auto simp: of_queue_def)

lemma invoke_queues_ok:
  "invoke_queues call is s = Inr s' \<Longrightarrow> callbacks_ok (own_fds s) call dispatch \<Longrightarrow> lamps_ok s \<Longrightarrow> fds_ok s \<Longrightarrow>
     distinct is \<Longrightarrow> \<forall>i \<in> set is. i < length (functor_queues s) \<Longrightarrow>
     lamps_ok s' \<and> fds_ok s' \<and> invoked (set is) s s'"
proof (induction "is" arbitrary: s)
  case Nil
  then show ?case by (simp add: invoked_def)
next
  case (Cons i "is")
  let ?q = "functor_queues s ! i"
  let ?s = "s\<lparr>functor_queues := (functor_queues s)[i := ?q\<lparr>bq_queue := []\<rparr>]\<rparr>"
  obtain s1 where s1: "run_each call i (bq_queue ?q) ?s = Inr s1" "invoke_queues call is s1 = Inr s'"
    using Cons.prems(1) by (auto simp: obind_eq_Inr_iff bq_pop_all_def)
  have own: "own_fds ?s = own_fds s" by (simp add: own_fds_def)
  have "lamps_ok ?s" "fds_ok ?s" using Cons.prems by (simp_all add: loop_ok_defs)
  with run_each_ok [OF s1(1), of dispatch] own Cons.prems(2)
  have ok: "lamps_ok s1" "fds_ok s1" and k: "kept (?s\<lparr>ran_log := ran_log s @ map (Pair i) (bq_queue ?q)\<rparr>) s1" by auto
  have q1: "functor_queues s1 = (functor_queues s)[i := ?q\<lparr>bq_queue := []\<rparr>]"
      "ran_log s1 = ran_log s @ map (Pair i) (bq_queue ?q)"
    using k by (simp_all add: kept_def)
  have "own_fds s1 = own_fds s" using k by (simp add: kept_def own_fds_def)
  with Cons.IH [OF s1(2)] Cons.prems ok q1(1) have IH: "lamps_ok s'" "fds_ok s'" "invoked (set is) s1 s'" by auto
  have "invoked (set (i # is)) s s'"
    unfolding invoked_def
  proof (intro conjI allI impI)
    fix j assume j: "j < length (functor_queues s)"
    show "if j \<in> set (i # is) then bq_queue (functor_queues s' ! j) = [] \<and>
             of_queue j (ran_log s') = of_queue j (ran_log s) @ bq_queue (functor_queues s ! j)
        else functor_queues s' ! j = functor_queues s ! j \<and> of_queue j (ran_log s') = of_queue j (ran_log s)"
      using IH(3) j q1 Cons.prems(5) by (auto simp: invoked_def of_queue_pairs nth_list_update split: if_splits)
  qed (use IH(3) k in \<open>auto simp: invoked_def kept_def\<close>)
  with IH show ?case by blast
qed

lemma invoke_all_ok:
  assumes "loop_invoke_all_functors call s = Inr s'" "callbacks_ok (own_fds s) call dispatch" "loop_ok s"
  shows "loop_ok s' \<and> (\<forall>i < length (functor_queues s'). bq_queue (functor_queues s' ! i) = []) \<and>
    own_fds s' = own_fds s \<and> eventfd_fds s' = eventfd_fds s"
proof -
  have "lamps_ok s'" "fds_ok s'" "invoked {0..<length (functor_queues s)} s s'"
    using invoke_queues_ok [of call "[0..<length (functor_queues s)]" s s' dispatch] assms
    by (auto simp: loop_invoke_all_functors_def loop_ok_def)
  then show ?thesis using assms(3) by (auto simp: loop_ok_def queues_ok_def bells_ok_def invoked_def own_fds_def)
qed

lemma expire_ok:
  "loop_expire_timers body now s = Inr s' \<Longrightarrow> \<exists>ts. s' = s\<lparr>loop_timers := ts\<rparr>"
  by (auto simp: loop_expire_timers_def obind_eq_Inr_iff)

lemma loop_ok_frame [simp]:
  "loop_ok (s\<lparr>loop_timers := ts\<rparr>) = loop_ok s" "own_fds (s\<lparr>loop_timers := ts\<rparr>) = own_fds s"
  by (simp_all add: loop_ok_def loop_ok_defs)

lemma serve_all_loop_ok:
  assumes "serve_all rs s = Inr s'" "list_all (leaves_own (own_fds s)) rs" "loop_ok s"
  shows "loop_ok s' \<and> kept s s'"
proof -
  have "lamps_ok s'" "fds_ok s'" "kept s s'" using serve_all_ok [OF assms(1,2)] assms(3) by (auto simp: loop_ok_def)
  then show ?thesis using assms(3) by (auto simp: loop_ok_def queues_ok_def bells_ok_def kept_def)
qed

section \<open>Dispatching\<close>

lemma position_Some: "position y xs = Some i \<Longrightarrow> i < length xs \<and> xs ! i = y"
  by (induction xs arbitrary: i) (auto split: if_splits)

lemma position_None: "position y xs = None \<longleftrightarrow> y \<notin> set xs"
  by (induction xs) auto

text \<open>The frame of dispatching: as \<open>kept\<close>, but lamps may go off, and then the flag is set.\<close>

definition dispatched :: "'f event_loop \<Rightarrow> 'f event_loop \<Rightarrow> bool" where
  "dispatched s s' \<longleftrightarrow>
     functor_queues s' = functor_queues s \<and> queued_log s' = queued_log s \<and> ran_log s' = ran_log s \<and>
     (eventfd_flag s \<longrightarrow> eventfd_flag s') \<and> eventfd_fds s' = eventfd_fds s \<and> timerfd_fd s' = timerfd_fd s \<and>
     (stop_asked s \<longrightarrow> stop_asked s')"

lemma eventfd_read_ok:
  assumes "loop_ok s" "i < length (eventfd_fds s)"
  shows "loop_ok (eventfd_read_event_callback i s) \<and> dispatched s (eventfd_read_event_callback i s) \<and>
    eventfd_flag (eventfd_read_event_callback i s)"
  using assms
  by (auto simp: eventfd_read_event_callback_def loop_ok_def loop_ok_defs dispatched_def nth_list_update)

lemma dispatch_one_ok:
  assumes "dispatch_one dispatch fe s = Inr s'" "callbacks_ok (own_fds s) call dispatch" "loop_ok s"
  shows "loop_ok s' \<and> dispatched s s' \<and>
    (fst fe \<in> set (eventfd_fds s) \<and> snd fe AND EVENT_TYPE_READ \<noteq> 0 \<longrightarrow> eventfd_flag s')"
proof -
  obtain fd ev where fe: "fe = (fd, ev)" by fastforce
  show ?thesis
  proof (cases "position fd (eventfd_fds s)")
    case (Some i)
    with position_Some [OF Some] assms fe eventfd_read_ok [OF assms(3), of i] show ?thesis
      by (cases "ev AND EVENT_TYPE_READ = 0") (simp_all add: dispatch_one_def dispatched_def)
  next
    case None
    then have "fd \<notin> set (eventfd_fds s)" by (simp add: position_None)
    then show ?thesis
      using None assms fe serve_all_loop_ok [of "dispatch fd ev s" s s']
      by (auto simp: dispatch_one_def timerfd_read_event_callback_def callbacks_ok_def kept_def dispatched_def split: if_splits)
  qed
qed

lemma dispatch_all_ok:
  "dispatch_all dispatch fes s = Inr s' \<Longrightarrow> callbacks_ok (own_fds s) call dispatch \<Longrightarrow> loop_ok s \<Longrightarrow>
     loop_ok s' \<and> dispatched s s' \<and>
     ((\<exists>(fd, ev) \<in> set fes. fd \<in> set (eventfd_fds s) \<and> ev AND EVENT_TYPE_READ \<noteq> 0) \<longrightarrow> eventfd_flag s')"
proof (induction fes arbitrary: s)
  case Nil
  then show ?case by (simp add: dispatched_def)
next
  case (Cons fe fes)
  then obtain s1 where s1: "dispatch_one dispatch fe s = Inr s1" "dispatch_all dispatch fes s1 = Inr s'"
    by (auto simp: obind_eq_Inr_iff)
  note one = dispatch_one_ok [OF s1(1) Cons.prems(2,3)]
  then have "own_fds s1 = own_fds s" by (auto simp: dispatched_def own_fds_def)
  with Cons.IH [OF s1(2)] Cons.prems(2) one show ?case by (auto simp: dispatched_def)
qed

section \<open>Rounds\<close>

text \<open>The state between rounds.\<close>

definition between_rounds :: "'f event_loop \<Rightarrow> bool" where
  "between_rounds s \<longleftrightarrow> loop_ok s \<and> \<not> eventfd_flag s"

lemma flag_off:
  "loop_ok t \<Longrightarrow> \<forall>i < length (functor_queues t). bq_queue (functor_queues t ! i) = [] \<Longrightarrow> loop_ok (t\<lparr>eventfd_flag := False\<rparr>)"
  "own_fds (t\<lparr>eventfd_flag := b\<rparr>) = own_fds t"
  by (simp_all add: loop_ok_def loop_ok_defs)

lemma round_False:
  "loop_round call dispatch body answers now s = Inr (False, s') \<Longrightarrow>
     \<exists>evs s1 s2. poll_for_active_events answers = Inr evs \<and> dispatch_all dispatch evs s = Inr s1 \<and>
       check_eventfd call s1 = Inr s2 \<and> check_timerfd body now s2 = Inr s'"
  by (auto simp: loop_round_def obind_eq_Inr_iff split: if_splits)

lemma check_timerfd_Inr: "check_timerfd body now s = Inr s' \<Longrightarrow> \<exists>ts. s' = s\<lparr>loop_timers := ts\<rparr>"
  by (rule exI [of _ "loop_timers s'"])
    (auto simp: check_timerfd_def loop_expire_timers_def obind_eq_Inr_iff split: if_splits)

lemma round_goes_on:
  assumes "loop_round call dispatch body answers now s = Inr (False, s')"
    and "callbacks_ok (own_fds s) call dispatch" "between_rounds s"
  shows "between_rounds s' \<and> own_fds s' = own_fds s \<and> eventfd_fds s' = eventfd_fds s"
proof -
  obtain evs s1 s2 where r: "dispatch_all dispatch evs s = Inr s1" "check_eventfd call s1 = Inr s2"
      "check_timerfd body now s2 = Inr s'"
    using round_False [OF assms(1)] by auto
  have d: "loop_ok s1" "dispatched s s1" using dispatch_all_ok [OF r(1) assms(2)] assms(3) by (auto simp: between_rounds_def)
  then have own: "own_fds s1 = own_fds s" by (simp add: dispatched_def own_fds_def)
  have i: "loop_ok s2 \<and> \<not> eventfd_flag s2 \<and> own_fds s2 = own_fds s1 \<and> eventfd_fds s2 = eventfd_fds s1"
  proof (cases "eventfd_flag s1")
    case False
    then show ?thesis using r(2) d(1) by (simp add: check_eventfd_def)
  next
    case True
    then obtain t where t: "loop_invoke_all_functors call s1 = Inr t" "s2 = t\<lparr>eventfd_flag := False\<rparr>"
      using r(2) by (auto simp: obind_eq_Inr_iff check_eventfd_def)
    with invoke_all_ok [OF t(1), of dispatch] own assms(2) d(1) t(2) flag_off(1) [of t] show ?thesis
      by (simp add: flag_off(2))
  qed
  moreover note check_timerfd_Inr [OF r(3)]
  ultimately show ?thesis using own d(2) by (auto simp: between_rounds_def dispatched_def)
qed

lemma round_runs_functors:
  assumes "loop_round call dispatch body [Ready evs] now s = Inr (False, s')"
    and "callbacks_ok (own_fds s) call dispatch" "between_rounds s"
    and "(fd, ev) \<in> set evs" "fd \<in> set (eventfd_fds s)" "ev AND EVENT_TYPE_READ \<noteq> 0"
  shows "\<forall>q \<in> set (functor_queues s'). bq_queue q = []"
proof -
  obtain s1 s2 where r: "dispatch_all dispatch evs s = Inr s1" "check_eventfd call s1 = Inr s2"
      "check_timerfd body now s2 = Inr s'"
    using round_False [OF assms(1)] by auto
  have d: "loop_ok s1" "dispatched s s1" "eventfd_flag s1"
    using dispatch_all_ok [OF r(1) assms(2)] assms(3-6) by (auto simp: between_rounds_def)
  then have own: "own_fds s1 = own_fds s" by (simp add: dispatched_def own_fds_def)
  obtain t where t: "loop_invoke_all_functors call s1 = Inr t" "s2 = t\<lparr>eventfd_flag := False\<rparr>"
    using r(2) d(3) by (auto simp: obind_eq_Inr_iff check_eventfd_def)
  note check_timerfd_Inr [OF r(3)]
  with invoke_all_ok [OF t(1), of dispatch] own assms(2) d(1) t(2) show ?thesis
    by (auto simp: all_set_conv_all_nth)
qed

text \<open>Counting: as many descriptors as the loop owns are its own.\<close>

lemma attached_own:
  assumes "fds_ok s" "poller_size (loop_poller s) = 1 + length (eventfd_fds s)"
  shows "dom (interest (loop_poller s)) = own_fds s"
proof -
  let ?bs = "fds_that_are_listening_on (loop_poller s)"
  have ok: "poller_ok (loop_poller s)" and d: "distinct (timerfd_fd s # eventfd_fds s)" using assms(1) by (simp_all add: fds_ok_def)
  have dom: "dom (interest (loop_poller s)) = {fd. fd < length ?bs \<and> ?bs ! fd}"
    using ok by (auto simp: poller_ok_def)
  have "card {fd. fd < length ?bs \<and> ?bs ! fd} = length (filter id ?bs)"
    using length_filter_conv_card [of id ?bs] by simp
  then have "card (dom (interest (loop_poller s))) = 1 + length (eventfd_fds s)"
    using ok assms(2) dom by (simp add: poller_ok_def poller_size_def)
  moreover have "card (own_fds s) = 1 + length (eventfd_fds s)"
    using d distinct_card [of "timerfd_fd s # eventfd_fds s"] by (simp add: own_fds_def)
  moreover have "own_fds s \<subseteq> dom (interest (loop_poller s))" using assms(1) by (auto simp: fds_ok_def)
  moreover have "finite (dom (interest (loop_poller s)))" unfolding dom by simp
  ultimately show ?thesis using card_subset_eq by metis
qed

lemma round_returns:
  assumes "loop_round call dispatch body answers now s = Inr (True, s')"
    and "callbacks_ok (own_fds s) call dispatch" "between_rounds s"
  shows "stop_asked s \<and> dom (interest (loop_poller s)) = own_fds s \<and> loop_ok s' \<and>
    (\<forall>i < length (functor_queues s'). bq_queue (functor_queues s' ! i) = []) \<and> eventfd_fds s' = eventfd_fds s"
proof -
  have c: "stop_asked s" "poller_size (loop_poller s) = 1 + length (functor_queues s)"
    using assms(1) by (auto simp: loop_round_def obind_eq_Inr_iff split: if_splits)
  then obtain s1 s2 where r: "loop_invoke_all_functors call s = Inr s1" "loop_expire_timers body now s1 = Inr s'"
    using assms(1) by (auto simp: loop_round_def obind_eq_Inr_iff)
  have ok: "loop_ok s" "length (functor_queues s) = length (eventfd_fds s)"
    using assms(3) by (simp_all add: between_rounds_def loop_ok_def lamps_ok_def)
  have "fds_ok s" using ok(1) by (simp add: loop_ok_def)
  with invoke_all_ok [OF r(1) assms(2) ok(1)] expire_ok [OF r(2)] c ok(2) attached_own [of s]
  show ?thesis by auto
qed

section \<open>Every reachable state\<close>

text \<open>Other threads submit and ask to stop between the rounds of the loop.\<close>

inductive event_loop_reaches ::
  "('f \<Rightarrow> 'f event_loop \<Rightarrow> loop_request list) \<Rightarrow> (nat \<Rightarrow> events \<Rightarrow> 'f event_loop \<Rightarrow> loop_request list)
   \<Rightarrow> (nat \<Rightarrow> timer_loop \<Rightarrow> loop_cmd list) \<Rightarrow> 'f event_loop \<Rightarrow> 'f event_loop \<Rightarrow> bool"
  for call dispatch body s0 where
  started: "event_loop_reaches call dispatch body s0 s0"
| submitted_to: "event_loop_reaches call dispatch body s0 s \<Longrightarrow> loop_submit i f s = Inr s' \<Longrightarrow>
     event_loop_reaches call dispatch body s0 s'"
| asked: "event_loop_reaches call dispatch body s0 s \<Longrightarrow> event_loop_reaches call dispatch body s0 (loop_ask_to_stop s)"
| went_round: "event_loop_reaches call dispatch body s0 s \<Longrightarrow> loop_round call dispatch body answers now s = Inr (False, s') \<Longrightarrow>
     event_loop_reaches call dispatch body s0 s'"

lemma start_fd_Inr:
  assumes "start_fd fd ep = Inr ep'" "poller_ok ep"
  shows "poller_ok ep' \<and> interest ep' = (interest ep)(fd \<mapsto> EPOLLET OR EVENT_TYPE_READ)"
proof -
  have "register_event_for_fd fd (EPOLLET OR EVENT_TYPE_READ) ep = Inr ep'"
    using assms(1) by (auto simp: start_fd_def new_pollable_fd_def enable_read_event_def register_event_def obind_eq_Inr_iff)
  from register_Inr [OF this assms(2)] show ?thesis .
qed

lemma start_fds_Inr:
  "start_fds fds ep = Inr ep' \<Longrightarrow> poller_ok ep \<Longrightarrow>
     poller_ok ep' \<and> (\<forall>x. interest ep' x = (if x \<in> set fds then Some (EPOLLET OR EVENT_TYPE_READ) else interest ep x))"
proof (induction fds arbitrary: ep)
  case (Cons fd fds)
  then obtain ep1 where "start_fd fd ep = Inr ep1" "start_fds fds ep1 = Inr ep'" by (auto simp: obind_eq_Inr_iff)
  with Cons start_fd_Inr show ?case by fastforce
qed simp

lemma new_event_loop_ok:
  assumes "new_event_loop limit fds tfd yell now = Inr s" "distinct (tfd # fds)" "fds \<noteq> []"
  shows "between_rounds s \<and> eventfd_fds s = fds \<and> timerfd_fd s = tfd"
proof -
  obtain ep1 ep where ep: "start_fds fds (new_event_poller limit) = Inr ep1" "start_fd tfd ep1 = Inr ep" "loop_poller s = ep"
    using assms(1) by (auto simp: new_event_loop_def obind_eq_Inr_iff)
  have "poller_ok (new_event_poller limit)"
    by (simp add: poller_ok_def new_event_poller_def)
  from start_fds_Inr [OF ep(1) this] start_fd_Inr [OF ep(2)]
  have "poller_ok ep" "\<forall>fd \<in> insert tfd (set fds). interest ep fd = Some (EPOLLET OR EVENT_TYPE_READ)" by auto
  with assms ep(3) show ?thesis
    by (auto simp: between_rounds_def loop_ok_def loop_ok_defs new_event_loop_def obind_eq_Inr_iff new_blocking_queue_def)
qed

lemma submit_ok:
  assumes "loop_submit i f s = Inr s'" "between_rounds s"
  shows "between_rounds s' \<and> own_fds s' = own_fds s \<and> eventfd_fds s' = eventfd_fds s"
proof (cases "bq_push f (functor_queues s ! i)")
  case None
  with assms show ?thesis by (auto simp: loop_submit_def split: if_splits)
next
  case (Some q)
  let ?t = "s\<lparr>functor_queues := (functor_queues s)[i := q], queued_log := queued_log s @ [(i, f)]\<rparr>"
  have i: "i < length (functor_queues s)" and s': "s' = loop_wake_up i ?t"
    using assms(1) Some by (auto simp: loop_submit_def split: if_splits)
  have q: "bq_queue q = bq_queue (functor_queues s ! i) @ [f]" using Some by (auto simp: bq_push_def split: if_splits)
  have ok: "lamps_ok s" "fds_ok s" "queues_ok s" "bells_ok s" "\<not> eventfd_flag s"
    using assms(2) by (simp_all add: between_rounds_def loop_ok_def)
  have "lamps_ok ?t" "i < length (eventfd_fds ?t)" using ok(1) i by (simp_all add: lamps_ok_def)
  note w = wake_up_ok [OF this(2,1)]
  have "fds_ok (loop_wake_up i ?t)" using ok(2) by (simp add: fds_ok_def own_fds_def)
  moreover have "queues_ok (loop_wake_up i ?t)"
    using ok(3) q i by (auto simp: queues_ok_def nth_list_update)
  moreover have "bells_ok (loop_wake_up i ?t)"
    using ok(4) ok(5) w i by (auto simp: bells_ok_def nth_list_update split: if_splits)
  ultimately show ?thesis using s' w ok(5) by (simp add: between_rounds_def loop_ok_def own_fds_def)
qed

lemma ask_to_stop_ok:
  assumes "between_rounds s"
  shows "between_rounds (loop_ask_to_stop s) \<and> own_fds (loop_ask_to_stop s) = own_fds s \<and>
    eventfd_fds (loop_ask_to_stop s) = eventfd_fds s"
  using serve_all_loop_ok [of "[Ask_To_Stop]" s "loop_ask_to_stop s"] assms
  by (auto simp: between_rounds_def kept_def own_fds_def)

lemma event_loop_invariant:
  assumes "event_loop_reaches call dispatch body s0 s" "between_rounds s0" "callbacks_ok (own_fds s0) call dispatch"
  shows "between_rounds s \<and> own_fds s = own_fds s0 \<and> eventfd_fds s = eventfd_fds s0"
  using assms
proof (induction rule: event_loop_reaches.induct)
  case (went_round s answers now s')
  with round_goes_on [OF went_round.hyps(2)] show ?case by simp
qed (auto dest: submit_ok ask_to_stop_ok)

lemma reaches_between:
  assumes "new_event_loop limit fds tfd yell now = Inr s0" "distinct (tfd # fds)" "fds \<noteq> []"
    "callbacks_ok (set (tfd # fds)) call dispatch" "event_loop_reaches call dispatch body s0 s"
  shows "between_rounds s \<and> own_fds s = set (tfd # fds) \<and> eventfd_fds s = fds"
  using new_event_loop_ok [OF assms(1-3)] event_loop_invariant [OF assms(5)] assms(4) by (auto simp: own_fds_def)

text \<open>C5: From its construction on, as long as its callbacks leave its own descriptors alone, an event loop hears of
  every functor: what was accepted by each queue is what was run from it followed by what is still in it, a queue
  that is not empty has its eventfd written, that eventfd is in the interest list of the poller for reading, and a
  round whose poll reports an eventfd runs the functors of all queues.\<close>

theorem event_loop_hears_functors:
  assumes "new_event_loop limit fds tfd yell now = Inr s0" "distinct (tfd # fds)" "fds \<noteq> []"
    and "callbacks_ok (set (tfd # fds)) call dispatch" "event_loop_reaches call dispatch body s0 s"
  shows "(\<forall>i < length fds.
      of_queue i (queued_log s) = of_queue i (ran_log s) @ bq_queue (functor_queues s ! i) \<and>
      (bq_queue (functor_queues s ! i) \<noteq> [] \<longrightarrow> eventfd_counters s ! i = 1) \<and>
      interest (loop_poller s) (fds ! i) = Some (EPOLLET OR EVENT_TYPE_READ)) \<and>
    (\<forall>evs fd ev t s'. (fd, ev) \<in> set evs \<and> fd \<in> set fds \<and> ev AND EVENT_TYPE_READ \<noteq> 0 \<and>
       loop_round call dispatch body [Ready evs] t s = Inr (False, s') \<longrightarrow>
       (\<forall>q \<in> set (functor_queues s'). bq_queue q = []))"
proof -
  note r = reaches_between [OF assms]
  then have "lamps_ok s" "fds_ok s" "queues_ok s" "bells_ok s" "\<not> eventfd_flag s"
    by (simp_all add: between_rounds_def loop_ok_def)
  then have "\<forall>i < length fds. of_queue i (queued_log s) = of_queue i (ran_log s) @ bq_queue (functor_queues s ! i) \<and>
      (bq_queue (functor_queues s ! i) \<noteq> [] \<longrightarrow> eventfd_counters s ! i = 1) \<and>
      interest (loop_poller s) (fds ! i) = Some (EPOLLET OR EVENT_TYPE_READ)"
    using r by (auto simp: loop_ok_defs)
  moreover have "\<forall>q \<in> set (functor_queues s'). bq_queue q = []"
    if "(fd, ev) \<in> set evs" "fd \<in> set fds" "ev AND EVENT_TYPE_READ \<noteq> 0"
      "loop_round call dispatch body [Ready evs] t s = Inr (False, s')" for evs fd ev t s'
    using round_runs_functors [OF that(4) _ _ that(1) _ that(3)] that(2) r assms(4) by simp
  ultimately show ?thesis by blast
qed


section \<open>Destruction\<close>

text \<open>The destructors of an eventfd or timerfd, and of the loop: queues still holding functors are dropped.\<close>

definition destroy_fd :: "nat \<Rightarrow> event_poller \<Rightarrow> event_poller outcome" where
  "destroy_fd fd ep = obind (detach_fd fd ep) (\<lambda>ep'. Inr (close_fd fd ep'))"

fun destroy_fds :: "nat list \<Rightarrow> event_poller \<Rightarrow> event_poller outcome" where
  "destroy_fds [] ep = Inr ep"
| "destroy_fds (fd # fds) ep = obind (destroy_fd fd ep) (destroy_fds fds)"

definition destroy_event_loop :: "'f event_loop \<Rightarrow> (timer_loop \<times> event_poller) outcome" where
  "destroy_event_loop s =
     obind (release_all_timers (loop_timers s)) (\<lambda>ts.
     obind (destroy_fds (eventfd_fds s) (loop_poller s)) (\<lambda>ep.
     obind (destroy_fd (timerfd_fd s) ep) (\<lambda>ep'. Inr (ts, ep'))))"

lemma destroy_fd_Inr:
  assumes "destroy_fd fd ep = Inr ep'" "poller_ok ep"
  shows "poller_ok ep' \<and> interest ep' = (interest ep)(fd := None)"
proof -
  obtain ep1 where ep1: "detach_fd fd ep = Inr ep1" "ep' = close_fd fd ep1"
    using assms(1) by (auto simp: destroy_fd_def obind_eq_Inr_iff)
  from detach_Inr [OF ep1(1) assms(2)] have "poller_ok ep1" "interest ep1 = (interest ep)(fd := None)" by auto
  moreover from this(2) have "close_fd fd ep1 = ep1" by (cases ep1) (simp add: close_fd_def fun_upd_idem_iff)
  ultimately show ?thesis using ep1(2) by simp
qed

lemma destroy_fds_Inr:
  "destroy_fds fds ep = Inr ep' \<Longrightarrow> poller_ok ep \<Longrightarrow>
     poller_ok ep' \<and> (\<forall>x. interest ep' x = (if x \<in> set fds then None else interest ep x))"
proof (induction fds arbitrary: ep)
  case (Cons fd fds)
  then obtain ep1 where "destroy_fd fd ep = Inr ep1" "destroy_fds fds ep1 = Inr ep'" by (auto simp: obind_eq_Inr_iff)
  with Cons destroy_fd_Inr show ?case by fastforce
qed simp

lemma destruction_leaves_nothing:
  assumes "destroy_event_loop s = Inr (ts, ep)" "fds_ok s" "dom (interest (loop_poller s)) = own_fds s"
  shows "interest ep = Map.empty"
proof -
  obtain ep1 where ep1: "destroy_fds (eventfd_fds s) (loop_poller s) = Inr ep1" "destroy_fd (timerfd_fd s) ep1 = Inr ep"
    using assms(1) by (auto simp: destroy_event_loop_def obind_eq_Inr_iff)
  have "poller_ok (loop_poller s)" using assms(2) by (simp add: fds_ok_def)
  with destroy_fds_Inr [OF ep1(1)] destroy_fd_Inr [OF ep1(2)]
  have "interest ep x = (if x \<in> own_fds s then None else interest (loop_poller s) x)" for x
    by (auto simp: own_fds_def)
  then show ?thesis using assms(3) by (auto simp: fun_eq_iff domIff)
qed

section \<open>A loop with one queue\<close>

definition demo_timers :: timer_loop where
  "demo_timers = new_timer_loop\<lparr>timers := [1 \<mapsto> new_timer 3000001000 3000000000 (- 1) 9], next_address := 2,
     timer_container := [(3000001000, 1)], alarm := Some 3000001000, next_earliest_expiration_time := 3000001000\<rparr>"

definition demo_loop :: "nat event_loop" where
  "demo_loop =
     \<lparr>eventfd_fds = [3], timerfd_fd = 4, functor_queues = [new_blocking_queue 1000], pilot_lamps = [False],
      eventfd_counters = [0], eventfd_flag = False, loop_timers = demo_timers,
      loop_poller = \<lparr>interest = [3 \<mapsto> EPOLLET OR EVENT_TYPE_READ, 4 \<mapsto> EPOLLET OR EVENT_TYPE_READ],
        fds_that_are_listening_on = [False, False, False, True, True, False], number_of_fds_that_are_listening_on = 2\<rparr>,
      stop_asked = False, queued_log = [], ran_log = []\<rparr>"
lemma start_fd_registers: "start_fd fd ep = register_event_for_fd fd (EPOLLET OR EVENT_TYPE_READ) ep"
  by (simp add: start_fd_def new_pollable_fd_def enable_read_event_def register_event_def obind_def split: sum.splits)

lemma demo_starts: "new_event_loop 6 [3] 4 9 1000 = Inr demo_loop"
proof -
  have "run_after_time_interval 1000 (3 * SECOND) (3 * SECOND) (- 1) 9 new_timer_loop = Inr (1, demo_timers)"
    by (simp add: run_after_time_interval_def time_add_def run_at_time_point_def new_timer_loop_def
        add_a_timer_and_update_alarm_def insert_one_def
        deref_def new_timer_def set_insert_def advance_alarm_def Let_def SECOND_def demo_timers_def
        get_earliest_expiration_time_point_def time_sub_def int64_result_def in_int64_def FOREVER_def set_alarm_pos)
  then show ?thesis
    by (simp add: new_event_loop_def start_fd_registers register_event_for_fd_def Let_def new_event_poller_def
        demo_loop_def numeral_eq_Suc FUNCTOR_QUEUE_CAPACITY_def)
qed

lemma demo_expires: "expire_timers_and_update_alarm (\<lambda>_ _. []) 2000 demo_timers = Inr demo_timers"
  by (simp add: expire_timers_and_update_alarm_def move_out_before_or_at_def demo_timers_def delay_alarm_def
      get_earliest_expiration_time_point_def Let_def time_add_def int64_result_def in_int64_def)

theorem event_loop_hears_functors_witness:
  "\<exists>s :: nat event_loop. new_event_loop 6 [3] 4 9 1000 = Inr demo_loop \<and> loop_submit 0 7 demo_loop = Inr s \<and>
     of_queue 0 (queued_log s) = [7] \<and> of_queue 0 (ran_log s) @ bq_queue (functor_queues s ! 0) = [7] \<and>
     eventfd_counters s ! 0 = 1 \<and> interest (loop_poller s) 3 = Some (EPOLLET OR EVENT_TYPE_READ)"
proof -
  obtain s where s: "loop_submit 0 7 demo_loop = Inr s" "bq_queue (functor_queues s ! 0) = [7]" "queued_log s = [(0, 7)]"
    by (simp add: loop_submit_def bq_push_def demo_loop_def new_blocking_queue_def loop_wake_up_def)
  have r: "event_loop_reaches (\<lambda>_ _. []) (\<lambda>_ _ _. []) (\<lambda>_ _. []) demo_loop s"
    by (rule submitted_to [OF started s(1)])
  have "callbacks_ok (set [4, 3]) (\<lambda>_ _. []) (\<lambda>_ _ _. [])" by (simp add: callbacks_ok_def)
  from event_loop_hears_functors [OF demo_starts _ _ this r] s demo_starts show ?thesis by auto
qed


end
