(* ===== verification/Any_Value.thy ===== *)
theory Any_Value
  imports Server_Prelude
begin

text \<open>
  \<^verbatim>\<open>util::Any\<close> (include/util/any.h): an object owns at most one holder on the heap, which keeps a value with
  the identity of its type. Objects are named by variables; a variable that is not bound is outside its
  lifetime. Type arguments of casts are values of a type of type identities.
\<close>

section \<open>State\<close>

record ('ty, 'v) holder =
  holder_type :: 'ty
  holder_value :: 'v

text \<open>\<open>any_objects s x\<close> is the \<^verbatim>\<open>_holder_base\<close> of \<open>x\<close>. The values that casts to references returned are recorded.\<close>

record ('x, 'ty, 'v) any_store =
  holders :: "nat \<rightharpoonup> ('ty, 'v) holder"
  next_holder :: nat
  any_objects :: "'x \<rightharpoonup> nat option"
  cast_values :: "'v list"

definition empty_store :: "('x, 'ty, 'v) any_store" where
  "empty_store = \<lparr>holders = Map.empty, next_holder = 0, any_objects = Map.empty, cast_values = []\<rparr>"

section \<open>Holders\<close>

definition new_holder :: "'ty \<Rightarrow> 'v \<Rightarrow> ('x, 'ty, 'v) any_store \<Rightarrow> nat \<times> ('x, 'ty, 'v) any_store" where
  "new_holder ty v s =
     (next_holder s,
      s\<lparr>holders := (holders s)(next_holder s \<mapsto> \<lparr>holder_type = ty, holder_value = v\<rparr>), next_holder := Suc (next_holder s)\<rparr>)"

text \<open>The virtual \<^verbatim>\<open>clone\<close> and \<^verbatim>\<open>type\<close> through a pointer, and \<^verbatim>\<open>delete\<close>.\<close>

definition deref_holder :: "nat option \<Rightarrow> ('x, 'ty, 'v) any_store \<Rightarrow> ('ty, 'v) holder outcome" where
  "deref_holder h s =
     (case h of
        None \<Rightarrow> Inl (Undefined ''null pointer'')
      | Some p \<Rightarrow> (case holders s p of None \<Rightarrow> Inl (Undefined ''dangling pointer'') | Some ho \<Rightarrow> Inr ho))"

definition clone :: "nat option \<Rightarrow> ('x, 'ty, 'v) any_store \<Rightarrow> (nat \<times> ('x, 'ty, 'v) any_store) outcome" where
  "clone h s = obind (deref_holder h s) (\<lambda>ho. Inr (new_holder (holder_type ho) (holder_value ho) s))"

definition delete_holder :: "nat option \<Rightarrow> ('x, 'ty, 'v) any_store \<Rightarrow> ('x, 'ty, 'v) any_store outcome" where
  "delete_holder h s =
     (case h of None \<Rightarrow> Inr s
      | Some p \<Rightarrow> obind (deref_holder h s) (\<lambda>_. Inr (s\<lparr>holders := (holders s)(p := None)\<rparr>)))"

section \<open>Objects\<close>

definition holder_base :: "'x \<Rightarrow> ('x, 'ty, 'v) any_store \<Rightarrow> nat option outcome" where
  "holder_base x s =
     (case any_objects s x of None \<Rightarrow> Inl (Undefined ''object outside its lifetime'') | Some h \<Rightarrow> Inr h)"

definition set_holder_base :: "'x \<Rightarrow> nat option \<Rightarrow> ('x, 'ty, 'v) any_store \<Rightarrow> ('x, 'ty, 'v) any_store" where
  "set_holder_base x h s = s\<lparr>any_objects := (any_objects s)(x \<mapsto> h)\<rparr>"

text \<open>A constructor begins the lifetime of its object.\<close>

definition construct :: "'x \<Rightarrow> nat option \<Rightarrow> ('x, 'ty, 'v) any_store \<Rightarrow> ('x, 'ty, 'v) any_store outcome" where
  "construct x h s =
     (if x \<in> dom (any_objects s) then Inl (Undefined ''object outside its lifetime'') else Inr (set_holder_base x h s))"

definition any_default :: "'x \<Rightarrow> ('x, 'ty, 'v) any_store \<Rightarrow> ('x, 'ty, 'v) any_store outcome" where
  "any_default x s = construct x None s"

definition any_of_value :: "'x \<Rightarrow> 'ty \<Rightarrow> 'v \<Rightarrow> ('x, 'ty, 'v) any_store \<Rightarrow> ('x, 'ty, 'v) any_store outcome" where
  "any_of_value x ty v s = (case new_holder ty v s of (p, s1) \<Rightarrow> construct x (Some p) s1)"

definition any_copy :: "'x \<Rightarrow> 'x \<Rightarrow> ('x, 'ty, 'v) any_store \<Rightarrow> ('x, 'ty, 'v) any_store outcome" where
  "any_copy x y s =
     obind (holder_base y s) (\<lambda>h. obind (clone h s) (\<lambda>(p, s1). construct x (Some p) s1))"

definition any_move :: "'x \<Rightarrow> 'x \<Rightarrow> ('x, 'ty, 'v) any_store \<Rightarrow> ('x, 'ty, 'v) any_store outcome" where
  "any_move x y s =
     obind (holder_base y s) (\<lambda>h. obind (construct x h s) (\<lambda>s1. Inr (set_holder_base y None s1)))"

definition any_destroy :: "'x \<Rightarrow> ('x, 'ty, 'v) any_store \<Rightarrow> ('x, 'ty, 'v) any_store outcome" where
  "any_destroy x s =
     obind (holder_base x s) (\<lambda>h. obind (delete_holder h s) (\<lambda>s1. Inr (s1\<lparr>any_objects := (any_objects s1)(x := None)\<rparr>)))"

definition any_swap :: "'x \<Rightarrow> 'x \<Rightarrow> ('x, 'ty, 'v) any_store \<Rightarrow> ('x, 'ty, 'v) any_store outcome" where
  "any_swap x other s =
     obind (holder_base x s) (\<lambda>temp. obind (holder_base other s) (\<lambda>h.
       Inr (set_holder_base other temp (set_holder_base x h s))))"

text \<open>
  \<^verbatim>\<open>Any(...).swap(*this)\<close> with a temporary whose holder is \<open>h\<close>: afterwards the temporary is destroyed with what \<open>x\<close>
  had before.
\<close>

definition swap_with_temporary ::
  "nat option \<Rightarrow> 'x \<Rightarrow> ('x, 'ty, 'v) any_store \<Rightarrow> ('x, 'ty, 'v) any_store outcome" where
  "swap_with_temporary h x s =
     obind (holder_base x s) (\<lambda>old. delete_holder old (set_holder_base x h s))"

definition any_copy_assign :: "'x \<Rightarrow> 'x \<Rightarrow> ('x, 'ty, 'v) any_store \<Rightarrow> ('x, 'ty, 'v) any_store outcome" where
  "any_copy_assign x other s =
     obind (holder_base other s) (\<lambda>h. obind (clone h s) (\<lambda>(p, s1). swap_with_temporary (Some p) x s1))"

definition any_move_assign :: "'x \<Rightarrow> 'x \<Rightarrow> ('x, 'ty, 'v) any_store \<Rightarrow> ('x, 'ty, 'v) any_store outcome" where
  "any_move_assign x other s = obind (any_swap other x s) (swap_with_temporary None other)"

definition any_value_assign :: "'x \<Rightarrow> 'ty \<Rightarrow> 'v \<Rightarrow> ('x, 'ty, 'v) any_store \<Rightarrow> ('x, 'ty, 'v) any_store outcome" where
  "any_value_assign x ty v s = (case new_holder ty v s of (p, s1) \<Rightarrow> swap_with_temporary (Some p) x s1)"

definition any_clear :: "'x \<Rightarrow> ('x, 'ty, 'v) any_store \<Rightarrow> ('x, 'ty, 'v) any_store outcome" where
  "any_clear x s = swap_with_temporary None x s"

definition any_empty :: "'x \<Rightarrow> ('x, 'ty, 'v) any_store \<Rightarrow> bool outcome" where
  "any_empty x s = obind (holder_base x s) (\<lambda>h. Inr (h = None))"

text \<open>The type of an empty object is \<^verbatim>\<open>void\<close>, which is \<open>None\<close>.\<close>

definition any_type :: "'x \<Rightarrow> ('x, 'ty, 'v) any_store \<Rightarrow> 'ty option outcome" where
  "any_type x s =
     obind (holder_base x s) (\<lambda>h.
       if h \<noteq> None then obind (deref_holder h s) (\<lambda>ho. Inr (Some (holder_type ho))) else Inr None)"

text \<open>\<^verbatim>\<open>make_any\<close>: the local object, its holder set, is returned as \<open>x\<close>.\<close>

definition make_any :: "'x \<Rightarrow> 'ty \<Rightarrow> 'v \<Rightarrow> ('x, 'ty, 'v) any_store \<Rightarrow> ('x, 'ty, 'v) any_store outcome" where
  "make_any x ty v s =
     obind (any_default x s) (\<lambda>s1. case new_holder ty v s1 of (p, s2) \<Rightarrow> Inr (set_holder_base x (Some p) s2))"

section \<open>Casts\<close>

text \<open>A cast to a pointer gives the address of the value, which is that of its holder here.\<close>

definition any_cast_pointer :: "'ty \<Rightarrow> 'x \<Rightarrow> ('x, 'ty, 'v) any_store \<Rightarrow> nat option outcome" where
  "any_cast_pointer ty x s =
     obind (any_type x s) (\<lambda>t. if t = Some ty then holder_base x s else Inr None)"

definition any_cast_reference :: "'ty \<Rightarrow> 'x \<Rightarrow> ('x, 'ty, 'v) any_store \<Rightarrow> nat outcome" where
  "any_cast_reference ty x s =
     obind (any_cast_pointer ty x s) (\<lambda>value_ptr.
       case value_ptr of None \<Rightarrow> Inl (Uncaught ''bad any_cast'') | Some p \<Rightarrow> Inr p)"

text \<open>Reading and writing the value through what a cast returned.\<close>

definition read_value :: "'ty \<Rightarrow> 'x \<Rightarrow> ('x, 'ty, 'v) any_store \<Rightarrow> ('x, 'ty, 'v) any_store outcome" where
  "read_value ty x s =
     obind (any_cast_reference ty x s) (\<lambda>p. obind (deref_holder (Some p) s) (\<lambda>ho.
       Inr (s\<lparr>cast_values := cast_values s @ [holder_value ho]\<rparr>)))"

definition write_value :: "'ty \<Rightarrow> 'v \<Rightarrow> 'x \<Rightarrow> ('x, 'ty, 'v) any_store \<Rightarrow> ('x, 'ty, 'v) any_store outcome" where
  "write_value ty v x s =
     obind (any_cast_pointer ty x s) (\<lambda>value_ptr.
       case value_ptr of None \<Rightarrow> Inr s
       | Some p \<Rightarrow> obind (deref_holder (Some p) s) (\<lambda>ho.
           Inr (s\<lparr>holders := (holders s)(p \<mapsto> ho\<lparr>holder_value := v\<rparr>)\<rparr>)))"

section \<open>Programs\<close>

datatype ('x, 'ty, 'v) any_cmd =
    New_Default 'x
  | New_Value 'x 'ty 'v
  | New_Copy 'x 'x
  | New_Move 'x 'x
  | New_Made 'x 'ty 'v
  | Assign_Copy 'x 'x
  | Assign_Move 'x 'x
  | Assign_Value 'x 'ty 'v
  | Swap_Objects 'x 'x
  | Clear_Object 'x
  | Destroy_Object 'x
  | Read_Value 'ty 'x
  | Write_Value 'ty 'v 'x

fun any_exec :: "('x, 'ty, 'v) any_cmd \<Rightarrow> ('x, 'ty, 'v) any_store \<Rightarrow> ('x, 'ty, 'v) any_store outcome" where
  "any_exec (New_Default x) = any_default x"
| "any_exec (New_Value x ty v) = any_of_value x ty v"
| "any_exec (New_Copy x y) = any_copy x y"
| "any_exec (New_Move x y) = any_move x y"
| "any_exec (New_Made x ty v) = make_any x ty v"
| "any_exec (Assign_Copy x y) = any_copy_assign x y"
| "any_exec (Assign_Move x y) = any_move_assign x y"
| "any_exec (Assign_Value x ty v) = any_value_assign x ty v"
| "any_exec (Swap_Objects x y) = any_swap x y"
| "any_exec (Clear_Object x) = any_clear x"
| "any_exec (Destroy_Object x) = any_destroy x"
| "any_exec (Read_Value ty x) = read_value ty x"
| "any_exec (Write_Value ty v x) = write_value ty v x"

fun any_run :: "('x, 'ty, 'v) any_cmd list \<Rightarrow> ('x, 'ty, 'v) any_store \<Rightarrow> ('x, 'ty, 'v) any_store outcome" where
  "any_run [] s = Inr s"
| "any_run (c # cs) s = obind (any_exec c s) (any_run cs)"

text \<open>The specification: objects are values, optional and tagged with their type.\<close>

type_synonym ('x, 'ty, 'v) any_values = "('x \<rightharpoonup> ('ty \<times> 'v) option) \<times> 'v list"

definition look :: "'x \<Rightarrow> ('x, 'ty, 'v) any_values \<Rightarrow> ('ty \<times> 'v) option outcome" where
  "look x m = (case fst m x of None \<Rightarrow> Inl (Undefined ''object outside its lifetime'') | Some a \<Rightarrow> Inr a)"

definition put :: "'x \<Rightarrow> ('ty \<times> 'v) option \<Rightarrow> ('x, 'ty, 'v) any_values \<Rightarrow> ('x, 'ty, 'v) any_values" where
  "put x a m = ((fst m)(x \<mapsto> a), snd m)"

definition put_new :: "'x \<Rightarrow> ('ty \<times> 'v) option \<Rightarrow> ('x, 'ty, 'v) any_values \<Rightarrow> ('x, 'ty, 'v) any_values outcome" where
  "put_new x a m =
     (if x \<in> dom (fst m) then Inl (Undefined ''object outside its lifetime'') else Inr (put x a m))"

definition copied :: "('ty \<times> 'v) option \<Rightarrow> ('ty \<times> 'v) option outcome" where
  "copied a = (if a = None then Inl (Undefined ''null pointer'') else Inr a)"

fun value_exec :: "('x, 'ty, 'v) any_cmd \<Rightarrow> ('x, 'ty, 'v) any_values \<Rightarrow> ('x, 'ty, 'v) any_values outcome" where
  "value_exec (New_Default x) m = put_new x None m"
| "value_exec (New_Value x ty v) m = put_new x (Some (ty, v)) m"
| "value_exec (New_Copy x y) m = obind (look y m) (\<lambda>a. obind (copied a) (\<lambda>b. put_new x b m))"
| "value_exec (New_Move x y) m = obind (look y m) (\<lambda>a. obind (put_new x a m) (\<lambda>m'. Inr (put y None m')))"
| "value_exec (New_Made x ty v) m = put_new x (Some (ty, v)) m"
| "value_exec (Assign_Copy x y) m = obind (look y m) (\<lambda>a. obind (copied a) (\<lambda>b. obind (look x m) (\<lambda>_. Inr (put x b m))))"
| "value_exec (Assign_Move x y) m = obind (look y m) (\<lambda>a. obind (look x m) (\<lambda>_. Inr (put y None (put x a m))))"
| "value_exec (Assign_Value x ty v) m = obind (look x m) (\<lambda>_. Inr (put x (Some (ty, v)) m))"
| "value_exec (Swap_Objects x y) m = obind (look x m) (\<lambda>a. obind (look y m) (\<lambda>b. Inr (put y a (put x b m))))"
| "value_exec (Clear_Object x) m = obind (look x m) (\<lambda>_. Inr (put x None m))"
| "value_exec (Destroy_Object x) m = obind (look x m) (\<lambda>_. Inr ((fst m)(x := None), snd m))"
| "value_exec (Read_Value ty x) m =
     obind (look x m) (\<lambda>a. case a of
         None \<Rightarrow> Inl (Uncaught ''bad any_cast'')
       | Some (t, v) \<Rightarrow> if t = ty then Inr (fst m, snd m @ [v]) else Inl (Uncaught ''bad any_cast''))"
| "value_exec (Write_Value ty v x) m =
     obind (look x m) (\<lambda>a. case a of
         None \<Rightarrow> Inr m
       | Some (t, _) \<Rightarrow> if t = ty then Inr (put x (Some (ty, v)) m) else Inr m)"

fun value_run :: "('x, 'ty, 'v) any_cmd list \<Rightarrow> ('x, 'ty, 'v) any_values \<Rightarrow> ('x, 'ty, 'v) any_values outcome" where
  "value_run [] m = Inr m"
| "value_run (c # cs) m = obind (value_exec c m) (value_run cs)"

section \<open>Ownership\<close>

definition owned :: "('x, 'ty, 'v) any_store \<Rightarrow> nat set" where
  "owned s = {p. \<exists>x. any_objects s x = Some (Some p)}"

text \<open>Every holder has exactly one owner: an object, or one of the temporaries \<open>T\<close>.\<close>

definition any_ok :: "nat set \<Rightarrow> ('x, 'ty, 'v) any_store \<Rightarrow> bool" where
  "any_ok T s \<longleftrightarrow>
     (\<forall>x y p. any_objects s x = Some (Some p) \<longrightarrow> any_objects s y = Some (Some p) \<longrightarrow> x = y) \<and>
     dom (holders s) = owned s \<union> T \<and> owned s \<inter> T = {} \<and> (\<forall>p \<in> dom (holders s). p < next_holder s)"

definition value_of :: "('x, 'ty, 'v) any_store \<Rightarrow> nat option \<Rightarrow> ('ty \<times> 'v) option" where
  "value_of s h = (case h of None \<Rightarrow> None | Some p \<Rightarrow> map_option (\<lambda>ho. (holder_type ho, holder_value ho)) (holders s p))"

definition any_values :: "('x, 'ty, 'v) any_store \<Rightarrow> ('x, 'ty, 'v) any_values" where
  "any_values s = (\<lambda>x. map_option (value_of s) (any_objects s x), cast_values s)"

lemma owned_deref: "any_ok T s \<Longrightarrow> any_objects s x = Some (Some p) \<Longrightarrow> \<exists>ho. holders s p = Some ho"
  unfolding any_ok_def owned_def by blast

lemma look_values: "look x (any_values s) = obind (holder_base x s) (\<lambda>h. Inr (value_of s h))"
  by (simp add: look_def any_values_def holder_base_def split: option.split)

lemma dom_values [simp]: "dom (fst (any_values s)) = dom (any_objects s)"
  by (auto simp: any_values_def)

text \<open>A new holder belongs to a temporary.\<close>

lemma new_holder_ok:
  assumes "new_holder ty v s = (p, s1)" "any_ok T s"
  shows "any_ok (insert p T) s1 \<and> p \<notin> T \<and> p \<notin> owned s \<and> any_values s1 = any_values s \<and> any_objects s1 = any_objects s \<and>
    value_of s1 (Some p) = Some (ty, v)"
proof -
  have p: "p = next_holder s" and s1: "s1 = s\<lparr>holders := (holders s)(p \<mapsto> \<lparr>holder_type = ty, holder_value = v\<rparr>), next_holder := Suc p\<rparr>"
    using assms(1) by (auto simp: new_holder_def)
  have fresh: "p \<notin> dom (holders s)" using assms(2) p by (auto simp: any_ok_def)
  then have no: "p \<notin> owned s" "p \<notin> T" using assms(2) by (auto simp: any_ok_def)
  have owned_s1: "owned s1 = owned s" using s1 by (simp add: owned_def)
  have "value_of s1 h = value_of s h" if "any_objects s x = Some h" for x h
    using that s1 no by (auto simp: value_of_def owned_def split: option.split)
  then have "any_values s1 = any_values s"
    using s1 by (auto simp: any_values_def fun_eq_iff map_option_case split: option.split)
  moreover have "any_ok (insert p T) s1"
    unfolding any_ok_def owned_s1 using assms(2) p no by (auto simp: any_ok_def s1 less_Suc_eq)
  ultimately show ?thesis using no s1 by (simp add: value_of_def)
qed

lemma set_base_simps [simp]:
  "value_of (set_holder_base x h s) = value_of s" "cast_values (set_holder_base x h s) = cast_values s"
  "any_objects (set_holder_base x h s) = (any_objects s)(x \<mapsto> h)" "holders (set_holder_base x h s) = holders s"
  "next_holder (set_holder_base x h s) = next_holder s"
  by (simp_all add: value_of_def set_holder_base_def fun_eq_iff split: option.split)

lemma value_of_objects: "value_of (s\<lparr>any_objects := f\<rparr>) = value_of s"
  by (simp add: value_of_def fun_eq_iff split: option.split)

text \<open>Exchanging what an object owns with what a temporary owns.\<close>

lemma set_base_ok:
  assumes "any_objects s x = Some old" "any_ok (set_option h) s"
  shows "any_ok (set_option old) (set_holder_base x h s) \<and>
    any_values (set_holder_base x h s) = put x (value_of s h) (any_values s)"
proof
  have old: "set_option old \<subseteq> owned s" using assms(1) by (auto simp: owned_def)
  have inj: "any_objects s y = Some (Some p) \<Longrightarrow> p \<in> set_option old \<Longrightarrow> y = x" for y p
    using assms by (auto simp: any_ok_def)
  have own: "owned (set_holder_base x h s) = (owned s - set_option old) \<union> set_option h"
  proof (intro set_eqI iffI)
    fix p assume "p \<in> owned (set_holder_base x h s)"
    then obtain y where "((any_objects s)(x \<mapsto> h)) y = Some (Some p)" by (auto simp: owned_def)
    then show "p \<in> (owned s - set_option old) \<union> set_option h"
      using inj [of y p] by (cases "y = x") (auto simp: owned_def)
  next
    fix p assume "p \<in> (owned s - set_option old) \<union> set_option h"
    then consider y where "any_objects s y = Some (Some p)" "old \<noteq> Some p" | "h = Some p" by (auto simp: owned_def)
    then show "p \<in> owned (set_holder_base x h s)"
    proof cases
      case 1
      then have "y \<noteq> x" using assms(1) by auto
      with 1 show ?thesis by (auto simp: owned_def intro: exI [of _ y])
    qed (auto simp: owned_def intro: exI [of _ x])
  qed
  have "y = z" if "any_objects (set_holder_base x h s) y = Some (Some p)" "any_objects (set_holder_base x h s) z = Some (Some p)" for y z p
    using that assms(2) by (auto simp: any_ok_def owned_def split: if_splits)
  moreover have d: "dom (holders s) = owned s \<union> set_option h" "owned s \<inter> set_option h = {}"
      "\<forall>p \<in> dom (holders s). p < next_holder s"
    using assms(2) by (simp_all add: any_ok_def)
  have "dom (holders s) = ((owned s - set_option old) \<union> set_option h) \<union> set_option old"
    using old d(1) by blast
  moreover have "((owned s - set_option old) \<union> set_option h) \<inter> set_option old = {}" using old d(2) by blast
  ultimately show "any_ok (set_option old) (set_holder_base x h s)"
    unfolding any_ok_def own using d(3) by (simp del: fun_upd_apply)
  show "any_values (set_holder_base x h s) = put x (value_of s h) (any_values s)"
    by (auto simp: any_values_def put_def fun_eq_iff)
qed

lemma construct_ok:
  assumes "any_ok (set_option h) s" "x \<notin> dom (any_objects s)"
  shows "any_ok {} (set_holder_base x h s) \<and> any_values (set_holder_base x h s) = put x (value_of s h) (any_values s)"
proof
  have "owned (set_holder_base x h s) = owned s \<union> set_option h"
    using assms(2) by (auto simp: owned_def set_holder_base_def)
  then show "any_ok {} (set_holder_base x h s)"
    using assms by (auto simp: any_ok_def set_holder_base_def owned_def split: if_splits)
  show "any_values (set_holder_base x h s) = put x (value_of s h) (any_values s)"
    by (auto simp: any_values_def put_def fun_eq_iff)
qed

lemma delete_ok:
  assumes "any_ok (set_option h) s"
  shows "\<exists>s'. delete_holder h s = Inr s' \<and> any_ok {} s' \<and> any_values s' = any_values s \<and> any_objects s' = any_objects s"
proof (cases h)
  case (Some p)
  then have "p \<in> dom (holders s)" using assms by (simp add: any_ok_def)
  then obtain ho where ho: "holders s p = Some ho" by blast
  have no: "p \<notin> owned s" using assms Some by (auto simp: any_ok_def)
  let ?s = "s\<lparr>holders := (holders s)(p := None)\<rparr>"
  have "value_of ?s h = value_of s h" if "any_objects s x = Some h" for x h
    using that no by (auto simp: value_of_def owned_def split: option.split)
  then have "any_values ?s = any_values s"
    by (auto simp: any_values_def fun_eq_iff map_option_case split: option.split)
  moreover have "any_ok {} ?s" using assms Some no by (auto simp: any_ok_def owned_def)
  ultimately show ?thesis using Some ho by (simp add: delete_holder_def deref_holder_def)
qed (use assms in \<open>simp add: delete_holder_def\<close>)

section \<open>The operations refine those on values\<close>

definition refines ::
  "('x, 'ty, 'v) any_store outcome \<Rightarrow> ('x, 'ty, 'v) any_values outcome \<Rightarrow> bool" where
  "refines r a \<longleftrightarrow> (case r of Inl e \<Rightarrow> a = Inl e | Inr s \<Rightarrow> any_ok {} s \<and> a = Inr (any_values s))"

lemma refines_Inr [intro]: "any_ok {} s \<Longrightarrow> a = Inr (any_values s) \<Longrightarrow> refines (Inr s) a"
  by (simp add: refines_def)

lemma refines_Inl [simp]: "refines (Inl e) a \<longleftrightarrow> a = Inl e"
  by (simp add: refines_def)

lemma refines_obind:
  assumes "refines r a" "\<And>s. r = Inr s \<Longrightarrow> any_ok {} s \<Longrightarrow> refines (f s) (g (any_values s))"
  shows "refines (obind r f) (obind a g)"
  using assms by (cases r) (auto simp: refines_def)

text \<open>The objects an operation names are bound, or both sides fail alike.\<close>

lemma refines_base:
  assumes "\<And>h. any_objects s x = Some h \<Longrightarrow> refines (f h) (g (value_of s h))"
  shows "refines (obind (holder_base x s) f) (obind (look x (any_values s)) g)"
  using assms by (cases "any_objects s x") (simp_all add: look_values holder_base_def)

lemma swap_with_temporary_ok:
  assumes "any_ok (set_option h) s"
  shows "refines (swap_with_temporary h x s) (obind (look x (any_values s)) (\<lambda>_. Inr (put x (value_of s h) (any_values s))))"
  unfolding swap_with_temporary_def
proof (rule refines_base)
  fix old assume "any_objects s x = Some old"
  note set = set_base_ok [OF this assms]
  then obtain s' where "delete_holder old (set_holder_base x h s) = Inr s'" "any_ok {} s'"
      "any_values s' = put x (value_of s h) (any_values s)"
    using delete_ok [of old "set_holder_base x h s"] by auto
  then show "refines (delete_holder old (set_holder_base x h s)) (Inr (put x (value_of s h) (any_values s)))"
    by auto
qed

lemma construct_refines:
  assumes "any_ok (set_option h) s"
  shows "refines (construct x h s) (put_new x (value_of s h) (any_values s))"
  using construct_ok [OF assms, of x]
  by (cases "x \<in> dom (any_objects s)") (simp_all add: construct_def put_new_def refines_def)

lemma clone_refines:
  assumes "any_ok {} s" "any_objects s y = Some h"
    and "\<And>p s1. any_ok {p} s1 \<Longrightarrow> any_values s1 = any_values s \<Longrightarrow> value_of s1 (Some p) = value_of s h \<Longrightarrow>
      refines (f (p, s1)) (g (value_of s h))"
  shows "refines (obind (clone h s) f) (obind (copied (value_of s h)) g)"
proof (cases h)
  case None
  then show ?thesis by (simp add: clone_def deref_holder_def value_of_def copied_def)
next
  case (Some q)
  then obtain ho where ho: "holders s q = Some ho" using owned_deref [OF assms(1), of y q] assms(2) by auto
  obtain p s1 where n: "new_holder (holder_type ho) (holder_value ho) s = (p, s1)" by fastforce
  from new_holder_ok [OF n assms(1)] have "refines (f (p, s1)) (g (value_of s h))"
    using Some ho by (intro assms(3)) (simp_all add: value_of_def)
  then show ?thesis using Some ho n by (simp add: clone_def deref_holder_def value_of_def copied_def)
qed

lemma swap_refines:
  assumes "any_ok {} s"
  shows "refines (any_swap x y s)
    (obind (look x (any_values s)) (\<lambda>a. obind (look y (any_values s)) (\<lambda>b. Inr (put y a (put x b (any_values s))))))"
  unfolding any_swap_def
proof (intro refines_base)
  fix a b assume ab: "any_objects s x = Some a" "any_objects s y = Some b"
  let ?s = "set_holder_base y a (set_holder_base x b s)"
  define g where "g z = (if z = y then x else if z = x then y else z)" for z
  have g: "any_objects ?s z = any_objects s (g z)" "g (g z) = z" for z
    using ab by (auto simp: g_def)
  have "(\<exists>z. any_objects s (g z) = h) \<longleftrightarrow> (\<exists>z. any_objects s z = h)" for h
  proof
    assume "\<exists>z. any_objects s z = h"
    then obtain z where "any_objects s z = h" ..
    then have "any_objects s (g (g z)) = h" by (simp only: g(2))
    then show "\<exists>z. any_objects s (g z) = h" ..
  qed blast
  then have own: "owned ?s = owned s" unfolding owned_def by (simp only: g(1))
  have inj: "u = v" if "any_objects ?s u = Some (Some p)" "any_objects ?s v = Some (Some p)" for u v p
  proof -
    have "g u = g v" using that assms unfolding g(1) any_ok_def by blast
    then have "g (g u) = g (g v)" by (rule arg_cong)
    then show ?thesis by (simp only: g(2))
  qed
  have "any_ok {} ?s"
    unfolding any_ok_def own
  proof (intro conjI allI impI)
    show "u = v" if "any_objects ?s u = Some (Some p)" "any_objects ?s v = Some (Some p)" for u v p
      using that by (rule inj)
  qed (use assms in \<open>simp_all add: any_ok_def\<close>)
  moreover have "any_values ?s = put y (value_of s a) (put x (value_of s b) (any_values s))"
    by (auto simp: any_values_def put_def fun_eq_iff)
  ultimately show "refines (Inr ?s) (Inr (put y (value_of s a) (put x (value_of s b) (any_values s))))" by auto
qed

lemma cast_pointer_eq:
  assumes "any_ok {} s" "any_objects s x = Some h"
  shows "any_cast_pointer ty x s =
    Inr (case value_of s h of None \<Rightarrow> None | Some (t, v) \<Rightarrow> if t = ty then h else None)"
proof (cases h)
  case None
  then show ?thesis using assms(2) by (simp add: any_cast_pointer_def any_type_def holder_base_def value_of_def)
next
  case (Some p)
  then obtain ho where "holders s p = Some ho" using owned_deref [OF assms(1), of x p] assms(2) by auto
  then show ?thesis
    using assms(2) Some by (simp add: any_cast_pointer_def any_type_def holder_base_def value_of_def deref_holder_def)
qed

lemma cast_pointer_unbound: "any_objects s x = None \<Longrightarrow> any_cast_pointer ty x s = Inl (Undefined ''object outside its lifetime'')"
  by (simp add: any_cast_pointer_def any_type_def holder_base_def)

lemma read_refines:
  assumes "any_ok {} s"
  shows "refines (read_value ty x s) (value_exec (Read_Value ty x) (any_values s))"
proof (cases "any_objects s x")
  case None
  then show ?thesis by (simp add: read_value_def any_cast_reference_def cast_pointer_unbound look_values holder_base_def)
next
  case (Some h)
  note c = cast_pointer_eq [OF assms Some, of ty]
  show ?thesis
  proof (cases h)
    case None
    then show ?thesis using c Some by (simp add: read_value_def any_cast_reference_def look_values holder_base_def value_of_def)
  next
    case (Some p)
    then obtain ho where ho: "holders s p = Some ho" using owned_deref [OF assms, of x p] \<open>any_objects s x = Some h\<close> by auto
    have "any_ok {} (s\<lparr>cast_values := cast_values s @ [holder_value ho]\<rparr>)"
      using assms by (simp add: any_ok_def owned_def)
    moreover have "any_values (s\<lparr>cast_values := cast_values s @ [holder_value ho]\<rparr>) =
        (fst (any_values s), snd (any_values s) @ [holder_value ho])"
      by (auto simp: any_values_def value_of_def fun_eq_iff map_option_case split: option.split)
    ultimately show ?thesis
      using c ho Some \<open>any_objects s x = Some h\<close>
      by (auto simp: read_value_def any_cast_reference_def look_values holder_base_def value_of_def deref_holder_def refines_def)
  qed
qed

lemma write_refines:
  assumes "any_ok {} s"
  shows "refines (write_value ty v x s) (value_exec (Write_Value ty v x) (any_values s))"
proof (cases "any_objects s x")
  case None
  then show ?thesis by (simp add: write_value_def cast_pointer_unbound look_values holder_base_def)
next
  case (Some h)
  note c = cast_pointer_eq [OF assms Some, of ty]
  show ?thesis
  proof (cases h)
    case None
    then show ?thesis using c Some assms by (auto simp: write_value_def look_values holder_base_def value_of_def)
  next
    case (Some p)
    then obtain ho where ho: "holders s p = Some ho" using owned_deref [OF assms, of x p] \<open>any_objects s x = Some h\<close> by auto
    let ?s = "s\<lparr>holders := (holders s)(p \<mapsto> ho\<lparr>holder_value := v\<rparr>)\<rparr>"
    have "any_ok {} ?s" using assms ho by (auto simp: any_ok_def owned_def)
    moreover have "any_values ?s = put x (Some (holder_type ho, v)) (any_values s)"
    proof -
      have "y = x" if "any_objects s y = Some (Some p)" for y
        using that assms \<open>any_objects s x = Some h\<close> Some unfolding any_ok_def by blast
      then have "value_of ?s k = value_of s k" if "any_objects s y = Some k" "y \<noteq> x" for y k
        using that by (auto simp: value_of_def split: option.split)
      then show ?thesis
        using Some \<open>any_objects s x = Some h\<close>
        by (auto simp: any_values_def put_def fun_eq_iff map_option_case value_of_def split: option.split)
    qed
    ultimately show ?thesis
      using c ho Some \<open>any_objects s x = Some h\<close> assms
      by (auto simp: write_value_def look_values holder_base_def value_of_def deref_holder_def refines_def)
  qed
qed

lemma destroy_refines:
  assumes "any_ok {} s"
  shows "refines (any_destroy x s) (value_exec (Destroy_Object x) (any_values s))"
  unfolding any_destroy_def value_exec.simps
proof (rule refines_base)
  fix h assume x: "any_objects s x = Some h"
  have set: "any_ok (set_option h) (set_holder_base x None s)" "any_values (set_holder_base x None s) = put x None (any_values s)"
    using set_base_ok [OF x, of None] assms by (simp_all add: value_of_def)
  then obtain t where t: "delete_holder h (set_holder_base x None s) = Inr t" "any_ok {} t"
      "any_values t = put x None (any_values s)" "any_objects t = (any_objects s)(x \<mapsto> None)"
    using delete_ok by fastforce
  let ?u = "t\<lparr>any_objects := (any_objects t)(x := None)\<rparr>"
  have "owned ?u = owned t" using t(4) by (auto simp: owned_def)
  then have "any_ok {} ?u" using t(2) by (auto simp: any_ok_def split: if_splits)
  moreover have "any_values ?u = ((fst (any_values t))(x := None), snd (any_values t))"
    by (auto simp: any_values_def fun_eq_iff value_of_objects)
  moreover have "obind (delete_holder h s) (\<lambda>s1. Inr (s1\<lparr>any_objects := (any_objects s1)(x := None)\<rparr>)) = Inr ?u"
    using t(1) owned_deref [OF assms, of x] x
    by (cases h) (auto simp: delete_holder_def deref_holder_def set_holder_base_def)
  ultimately show "refines (obind (delete_holder h s) (\<lambda>s1. Inr (s1\<lparr>any_objects := (any_objects s1)(x := None)\<rparr>)))
      (Inr ((fst (any_values s))(x := None), snd (any_values s)))"
    using t(3) by (simp add: refines_def put_def)
qed

lemma make_any_eq: "make_any x ty v s = any_of_value x ty v s"
  by (auto simp: make_any_def any_of_value_def any_default_def construct_def new_holder_def set_holder_base_def)

lemma any_ok_new:
  assumes "any_ok {} s" "new_holder ty v s = (p, s1)"
  shows "any_ok (set_option (Some p)) s1" "any_values s1 = any_values s" "value_of s1 (Some p) = Some (ty, v)"
  using new_holder_ok [OF assms(2,1)] by simp_all

lemma any_exec_refines:
  assumes "any_ok {} s"
  shows "refines (any_exec c s) (value_exec c (any_values s))"
proof (cases c)
  case (New_Default x)
  then show ?thesis using construct_refines [of None s x] assms by (simp add: any_default_def value_of_def)
next
  case (New_Value x ty v)
  obtain p s1 where n: "new_holder ty v s = (p, s1)" by fastforce
  show ?thesis
    using New_Value construct_refines [OF any_ok_new(1) [OF assms n], of x] any_ok_new(2,3) [OF assms n] n
    by (simp add: any_of_value_def)
next
  case (New_Made x ty v)
  obtain p s1 where n: "new_holder ty v s = (p, s1)" by fastforce
  show ?thesis
    using New_Made construct_refines [OF any_ok_new(1) [OF assms n], of x] any_ok_new(2,3) [OF assms n] n
    by (simp add: make_any_eq any_of_value_def)
next
  case (New_Copy x y)
  have "refines (any_copy x y s) (obind (look y (any_values s)) (\<lambda>a. obind (copied a) (\<lambda>b. put_new x b (any_values s))))"
    unfolding any_copy_def
  proof (rule refines_base, rule clone_refines [OF assms])
    fix h p s1 assume "any_ok {p} s1" "any_values s1 = any_values s" "value_of s1 (Some p) = value_of s h"
    with construct_refines [of "Some p" s1 x]
    show "refines (case (p, s1) of (p, s1) \<Rightarrow> construct x (Some p) s1) (put_new x (value_of s h) (any_values s))" by simp
  qed
  then show ?thesis using New_Copy by simp
next
  case (New_Move x y)
  have "refines (any_move x y s)
      (obind (look y (any_values s)) (\<lambda>a. obind (put_new x a (any_values s)) (\<lambda>m'. Inr (put y None m'))))"
    unfolding any_move_def
  proof (rule refines_base)
    fix h assume y: "any_objects s y = Some h"
    note set = set_base_ok [OF y, of None]
    show "refines (obind (construct x h s) (\<lambda>s1. Inr (set_holder_base y None s1)))
        (obind (put_new x (value_of s h) (any_values s)) (\<lambda>m'. Inr (put y None m')))"
    proof (cases "x \<in> dom (any_objects s)")
      case True
      then show ?thesis by (simp add: construct_def put_new_def)
    next
      case False
      with y have ne: "x \<noteq> y" by auto
      let ?t = "set_holder_base y None s"
      have swap: "set_holder_base y None (set_holder_base x h s) = set_holder_base x h ?t"
        using ne by (simp add: set_holder_base_def fun_upd_twist)
      have "any_ok (set_option h) ?t" "any_values ?t = put y None (any_values s)"
        using set assms by (simp_all add: value_of_def)
      with construct_ok [of h ?t x] False ne
      have "any_ok {} (set_holder_base x h ?t)" "any_values (set_holder_base x h ?t) = put x (value_of s h) (put y None (any_values s))"
        by auto
      moreover have "put y None (put x (value_of s h) (any_values s)) = put x (value_of s h) (put y None (any_values s))"
        using ne by (simp add: put_def fun_upd_twist)
      moreover have "construct x h s = Inr (set_holder_base x h s)"
          "put_new x (value_of s h) (any_values s) = Inr (put x (value_of s h) (any_values s))"
        using False by (simp_all only: construct_def put_new_def dom_values if_False)
      ultimately show ?thesis by (simp only: obind_Inr swap refines_def sum.case simp_thms)
    qed
  qed
  then show ?thesis using New_Move by simp
next
  case (Assign_Copy x y)
  have "refines (any_copy_assign x y s)
      (obind (look y (any_values s)) (\<lambda>a. obind (copied a) (\<lambda>b. obind (look x (any_values s)) (\<lambda>_. Inr (put x b (any_values s))))))"
    unfolding any_copy_assign_def
  proof (rule refines_base, rule clone_refines [OF assms])
    fix h p s1 assume "any_ok {p} s1" "any_values s1 = any_values s" "value_of s1 (Some p) = value_of s h"
    with swap_with_temporary_ok [of "Some p" s1 x]
    show "refines (case (p, s1) of (p, s1) \<Rightarrow> swap_with_temporary (Some p) x s1)
        (obind (look x (any_values s)) (\<lambda>_. Inr (put x (value_of s h) (any_values s))))" by simp
  qed
  then show ?thesis using Assign_Copy by simp
next
  case (Assign_Move x y)
  have "refines (any_move_assign x y s)
      (obind (obind (look y (any_values s)) (\<lambda>a. obind (look x (any_values s)) (\<lambda>b. Inr (put x a (put y b (any_values s))))))
        (\<lambda>m. obind (look y m) (\<lambda>_. Inr (put y None m))))"
    unfolding any_move_assign_def
  proof (rule refines_obind [OF swap_refines [OF assms]])
    fix t :: "('a, 'b, 'c) any_store" assume "any_ok {} t"
    then show "refines (swap_with_temporary None y t) (obind (look y (any_values t)) (\<lambda>_. Inr (put y None (any_values t))))"
      using swap_with_temporary_ok [of None t y] by (simp add: value_of_def)
  qed
  moreover have "obind (obind (look y m) (\<lambda>a. obind (look x m) (\<lambda>b. Inr (put x a (put y b m))))) (\<lambda>m. obind (look y m) (\<lambda>_. Inr (put y None m)))
      = obind (look y m) (\<lambda>a. obind (look x m) (\<lambda>_. Inr (put y None (put x a m))))" for m :: "('a, 'b, 'c) any_values"
    by (cases "fst m y"; cases "fst m x") (auto simp: look_def put_def fun_eq_iff)
  ultimately show ?thesis using Assign_Move by simp
next
  case (Assign_Value x ty v)
  obtain p s1 where n: "new_holder ty v s = (p, s1)" by fastforce
  show ?thesis
    using Assign_Value swap_with_temporary_ok [OF any_ok_new(1) [OF assms n], of x] any_ok_new(2,3) [OF assms n] n
    by (simp add: any_value_assign_def)
next
  case (Swap_Objects x y)
  then show ?thesis using swap_refines [OF assms, of x y] by simp
next
  case (Clear_Object x)
  then show ?thesis using swap_with_temporary_ok [of None s x] assms by (simp add: any_clear_def value_of_def)
qed (use assms destroy_refines read_refines write_refines in simp_all)

lemma any_run_refines: "any_ok {} s \<Longrightarrow> refines (any_run cs s) (value_run cs (any_values s))"
proof (induction cs arbitrary: s)
  case (Cons c cs)
  show ?case
    unfolding any_run.simps value_run.simps
    by (rule refines_obind [OF any_exec_refines [OF Cons.prems]]) (rule Cons.IH)
qed (auto simp: refines_def)

text \<open>C28: \<^verbatim>\<open>Any\<close> objects behave like values: any program of constructions, copies, moves, assignments (to oneself
  included), swaps, casts and destructions fails exactly where the program on optional typed values fails, which
  is where an empty object is copied, a value is read under a wrong type or an object is used outside its
  lifetime, and otherwise ends with the same values; no holder is leaked, shared, deleted twice or used after it
  was deleted.\<close>

theorem any_refines_values:
  "(case any_run cs empty_store of
      Inl e \<Rightarrow> value_run cs (Map.empty, []) = Inl e
    | Inr s \<Rightarrow> value_run cs (Map.empty, []) = Inr (any_values s) \<and> dom (holders s) = owned s \<and>
        inj_on (any_objects s) {x. \<exists>p. any_objects s x = Some (Some p)})"
proof -
  have "any_ok {} (empty_store :: ('a, 'b, 'c) any_store)" "any_values (empty_store :: ('a, 'b, 'c) any_store) = (Map.empty, [])"
    by (simp_all add: any_ok_def owned_def empty_store_def any_values_def)
  with any_run_refines [of "empty_store :: ('a, 'b, 'c) any_store" cs]
  have ref: "refines (any_run cs empty_store) (value_run cs (Map.empty, []))" by simp
  have "inj_on (any_objects s) {x. \<exists>p. any_objects s x = Some (Some p)} \<and> dom (holders s) = owned s"
    if "any_ok {} s" for s :: "('a, 'b, 'c) any_store"
  proof
    show "inj_on (any_objects s) {x. \<exists>p. any_objects s x = Some (Some p)}"
    proof (rule inj_onI, clarify)
      fix x y p q assume "any_objects s x = any_objects s y" "any_objects s x = Some (Some p)"
      then have "any_objects s x = Some (Some p)" "any_objects s y = Some (Some p)" by simp_all
      then show "x = y" using that unfolding any_ok_def by blast
    qed
  qed (use that in \<open>simp add: any_ok_def\<close>)
  with ref show ?thesis by (cases "any_run cs (empty_store :: ('a, 'b, 'c) any_store)") (simp_all add: refines_def)
qed

end
