(* ===== verification/Threads.thy ===== *)
theory Threads
  imports Time_Point
begin

text \<open>
  Threads and their start: \<^verbatim>\<open>util::Thread\<close>, \<^verbatim>\<open>util::Mutex\<close>, \<^verbatim>\<open>util::ConditionVariable\<close>, \<^verbatim>\<open>this_thread\<close> and
  \<^verbatim>\<open>EventLoopThread\<close>. The second half interleaves the thread that starts an event loop thread with the
  thread that is started, step by step, over two mutexes and two condition variables.
\<close>

section \<open>Wrappers of pthread calls\<close>

text \<open>A result other than 0 aborts the process; a try to lock a taken mutex is no error.\<close>

definition EBUSY :: int where "EBUSY = 16"
definition ETIMEDOUT :: int where "ETIMEDOUT = 110"
definition EDEADLK :: int where "EDEADLK = 35"
definition ESRCH :: int where "ESRCH = 3"

definition pthread_checked :: "int \<Rightarrow> unit outcome" where
  "pthread_checked saved_errno = (if saved_errno \<noteq> 0 then Inl (Fatal ''abort'') else Inr ())"

definition try_lock :: "int \<Rightarrow> bool outcome" where
  "try_lock saved_errno =
     (if saved_errno = 0 then Inr True else if saved_errno = EBUSY then Inr False else Inl (Fatal ''abort''))"

datatype timeout_status = NOT_TIMEOUT | TIMEOUT

definition wait_until :: "int \<Rightarrow> timeout_status outcome" where
  "wait_until saved_errno =
     (if saved_errno = 0 then Inr NOT_TIMEOUT
      else if saved_errno = ETIMEDOUT then Inr TIMEOUT
      else Inl (Fatal ''abort''))"

text \<open>
  Waiting for a predicate until a time: the waits return one after the other, each with its result and the
  value the predicate has then. A list that runs out is a wait that does not return.
\<close>

fun wait_until_predicate :: "bool \<Rightarrow> (int \<times> bool) list \<Rightarrow> bool outcome" where
  "wait_until_predicate predicate [] = (if predicate then Inr True else Inl Diverges)"
| "wait_until_predicate predicate ((r, predicate') # ws) =
     (if predicate then Inr True
      else obind (wait_until r) (\<lambda>st. if st = TIMEOUT then Inr predicate' else wait_until_predicate predicate' ws))"

text \<open>The time until which \<^verbatim>\<open>wait_for\<close> waits.\<close>

definition wait_for :: "int \<Rightarrow> int \<Rightarrow> bool \<Rightarrow> (int \<times> bool) list \<Rightarrow> (int \<times> bool) outcome" where
  "wait_for now time_interval predicate ws =
     obind (time_add now time_interval) (\<lambda>time_point.
       obind (wait_until_predicate predicate ws) (\<lambda>b. Inr (time_point, b)))"

text \<open>The value returned is the one the predicate had last: it is never false while the predicate holds.\<close>

lemma wait_until_predicate_last:
  "wait_until_predicate p ws = Inr b \<Longrightarrow> b \<Longrightarrow> p \<or> (\<exists>r. (r, True) \<in> set ws)"
  by (induction p ws rule: wait_until_predicate.induct)
    (auto simp: wait_until_def obind_eq_Inr_iff split: if_splits)

lemma wait_until_predicate_false:
  "wait_until_predicate p ws = Inr False \<Longrightarrow> \<not> p \<and> (\<exists>us vs. ws = us @ (ETIMEDOUT, False) # vs \<and> list_all (\<lambda>w. fst w = 0 \<and> \<not> snd w) us)"
proof (induction p ws rule: wait_until_predicate.induct)
  case (2 p r p' ws)
  then have np: "\<not> p" by (auto split: if_splits)
  show ?case
  proof (cases "r = 0")
    case True
    then have "wait_until_predicate p' ws = Inr False" using 2(2) np by (simp add: wait_until_def)
    then obtain us vs where "\<not> p'" "ws = us @ (ETIMEDOUT, False) # vs" "list_all (\<lambda>w. fst w = 0 \<and> \<not> snd w) us"
      using 2(1) [of NOT_TIMEOUT] np True by (auto simp: wait_until_def)
    then have "(r, p') # ws = ((r, p') # us) @ (ETIMEDOUT, False) # vs" "list_all (\<lambda>w. fst w = 0 \<and> \<not> snd w) ((r, p') # us)"
      using True by simp_all
    then show ?thesis using np by blast
  next
    case False
    then have "r = ETIMEDOUT" "\<not> p'" using 2(2) np by (auto simp: wait_until_def obind_eq_Inr_iff split: if_splits)
    then have "(r, p') # ws = [] @ (ETIMEDOUT, False) # ws" by simp
    then show ?thesis using np by fastforce
  qed
qed (auto split: if_splits)

section \<open>\<^verbatim>\<open>this_thread\<close>\<close>

text \<open>The thread-local cache of the thread identifier, with its text as \<^verbatim>\<open>"%5d"\<close> prints it.\<close>

record tid_cache =
  cached_tid :: nat
  tid_string :: string
  tid_string_length :: nat

definition initial_tid_cache :: tid_cache where
  "initial_tid_cache = \<lparr>cached_tid = 0, tid_string = [], tid_string_length = 0\<rparr>"

definition cache_tid :: "nat \<Rightarrow> tid_cache \<Rightarrow> tid_cache" where
  "cache_tid tid c =
     (let s = pad_left SP 5 (decimal tid) in \<lparr>cached_tid = tid, tid_string = s, tid_string_length = length s\<rparr>)"

definition refresh_tid :: "nat \<Rightarrow> tid_cache \<Rightarrow> tid_cache" where
  "refresh_tid tid c = (if cached_tid c = 0 then cache_tid tid c else c)"

definition get_tid :: "nat \<Rightarrow> tid_cache \<Rightarrow> nat \<times> tid_cache" where
  "get_tid tid c = (let c' = refresh_tid tid c in (cached_tid c', c'))"

definition get_tid_string :: "nat \<Rightarrow> tid_cache \<Rightarrow> string \<times> tid_cache" where
  "get_tid_string tid c = (let c' = refresh_tid tid c in (tid_string c', c'))"

definition get_tid_string_length :: "nat \<Rightarrow> tid_cache \<Rightarrow> nat \<times> tid_cache" where
  "get_tid_string_length tid c = (let c' = refresh_tid tid c in (tid_string_length c', c'))"

text \<open>Of a thread with identifier \<open>tid\<close>: unset, or set to it.\<close>

definition cache_of :: "nat \<Rightarrow> tid_cache \<Rightarrow> bool" where
  "cache_of tid c \<longleftrightarrow> c = initial_tid_cache \<or> c = cache_tid tid c"

lemma tid_cache_transparent:
  assumes "0 < tid" "cache_of tid c"
  shows "fst (get_tid tid c) = tid" "fst (get_tid_string tid c) = pad_left SP 5 (decimal tid)"
    "fst (get_tid_string_length tid c) = length (pad_left SP 5 (decimal tid))"
    "cache_of tid (snd (get_tid tid c))" "cache_of tid (snd (get_tid_string tid c))"
    "cache_of tid (snd (get_tid_string_length tid c))"
  using assms
  by (auto simp: cache_of_def get_tid_def get_tid_string_def get_tid_string_length_def refresh_tid_def
      initial_tid_cache_def cache_tid_def Let_def)

text \<open>
  Sleeping: \<^verbatim>\<open>nanosleep\<close> ends, is interrupted with the time remaining, or fails. The calls are recorded with the
  time each was asked to sleep.
\<close>

datatype sleep_answer = Slept | Interrupted_With int | Sleep_Failed

fun sleep_for :: "int \<Rightarrow> sleep_answer list \<Rightarrow> int list outcome" where
  "sleep_for duration [] = Inl Diverges"
| "sleep_for duration (Slept # as) = Inr [duration]"
| "sleep_for duration (Interrupted_With remaining # as) =
     obind (sleep_for remaining as) (\<lambda>calls. Inr (duration # calls))"
| "sleep_for duration (Sleep_Failed # as) = Inl (Fatal ''abort'')"

text \<open>What was slept: up to an interruption, the time asked for less the time remaining.\<close>

fun slept :: "int list \<Rightarrow> int" where
  "slept [] = 0"
| "slept [d] = d"
| "slept (d # e # ds) = (d - e) + slept (e # ds)"

lemma sleep_for_first: "sleep_for duration as = Inr (d # ds) \<Longrightarrow> d = duration"
  by (induction duration as arbitrary: d ds rule: sleep_for.induct) (auto simp: obind_eq_Inr_iff)

lemma sleep_for_sleeps: "sleep_for duration as = Inr calls \<Longrightarrow> slept calls = duration \<and> calls \<noteq> []"
proof (induction duration as arbitrary: calls rule: sleep_for.induct)
  case (3 duration remaining as)
  then obtain cs where cs: "sleep_for remaining as = Inr cs" "calls = duration # cs" by (auto simp: obind_eq_Inr_iff)
  from 3(1) [OF cs(1)] have s: "slept cs = remaining" "cs \<noteq> []" by auto
  then obtain d ds where d: "cs = d # ds" by (cases cs) auto
  have "d = remaining" using sleep_for_first cs(1) d by blast
  then show ?case using s cs(2) d by simp
qed auto

section \<open>\<^verbatim>\<open>Thread\<close>, sequentially\<close>

text \<open>\<open>thread_tid\<close> is the identifier the new thread stores; -1 until then. Creating a thread may fail.\<close>

record thread =
  is_started :: bool
  is_joinable :: bool
  is_joined :: bool
  thread_tid :: int

definition new_thread :: thread where
  "new_thread = \<lparr>is_started = False, is_joinable = False, is_joined = False, thread_tid = - 1\<rparr>"

text \<open>\<open>created\<close> is the result of \<^verbatim>\<open>pthread_create\<close>, and \<open>tid\<close> what the wait on the condition variable ends with.\<close>

definition thread_start :: "int \<Rightarrow> int \<Rightarrow> thread \<Rightarrow> thread outcome" where
  "thread_start created tid t =
     (if is_started t then Inr t
      else if created \<noteq> 0 then Inl (Fatal ''abort'')
      else if tid > 0 then Inr (t\<lparr>thread_tid := tid, is_started := True\<rparr>)
      else Inl Diverges)"

definition thread_get_tid :: "int \<Rightarrow> int \<Rightarrow> thread \<Rightarrow> (int \<times> thread) outcome" where
  "thread_get_tid created tid t = obind (thread_start created tid t) (\<lambda>t'. Inr (thread_tid t', t'))"

text \<open>\<open>r\<close> is the result of \<^verbatim>\<open>pthread_join\<close> and \<open>e\<close> the value of \<^verbatim>\<open>errno\<close>, which that call does not set.\<close>

definition thread_join :: "int \<Rightarrow> int \<Rightarrow> int \<Rightarrow> int \<Rightarrow> thread \<Rightarrow> thread outcome" where
  "thread_join created tid r e t =
     obind (thread_start created tid t) (\<lambda>t1.
       if is_joined t1 then Inr t1
       else if r \<noteq> 0 \<and> (e = EDEADLK \<or> e = EINVAL \<or> e = ESRCH) then Inl (Fatal ''abort'')
       else Inr (t1\<lparr>is_joined := True\<rparr>))"

definition thread_destroy :: "thread \<Rightarrow> unit outcome" where
  "thread_destroy t = (if \<not> is_joined t then Inl (Fatal ''abort'') else Inr ())"

lemma thread_lifecycle:
  assumes "tid > 0" "thread_join 0 tid 0 e new_thread = Inr t"
  shows "is_started t \<and> is_joined t \<and> thread_tid t = tid \<and> thread_destroy t = Inr () \<and> thread_join c u r e' t = Inr t"
  using assms by (auto simp: thread_join_def thread_start_def thread_destroy_def new_thread_def)

text \<open>A thread that joins itself is taken for joined: the call reports EDEADLK by its result.\<close>

lemma deadlock_taken_for_joined:
  "tid > 0 \<Longrightarrow> \<exists>t. thread_join 0 tid EDEADLK 0 new_thread = Inr t \<and> is_joined t"
  by (simp add: thread_join_def thread_start_def new_thread_def EDEADLK_def EINVAL_def ESRCH_def)

text \<open>The destructor of an event loop thread.\<close>

definition event_loop_thread_destroy :: "thread \<Rightarrow> unit outcome" where
  "event_loop_thread_destroy t =
     (if \<not> is_joined t then Inl (Fatal ''event loop thread must be joined before destruction'') else thread_destroy t)"

section \<open>Starting an event loop thread\<close>

text \<open>
  Where the starting thread is: in \<^verbatim>\<open>EventLoopThread::start\<close>, which holds its mutex (E) while it calls
  \<^verbatim>\<open>Thread::start\<close>, which takes its own (T). \<open>Wait\<close> is inside \<^verbatim>\<open>pthread_cond_wait\<close> before it is notified,
  \<open>Retake\<close> after that.
\<close>

datatype starter =
    Lock_E | Lock_T | Create | Test_T | Wait_T | Retake_T | Test_E | Wait_E | Retake_E | Returned

datatype worker =
    Not_Created | Worker_Lock_T | Set_Tid | Notify_T | Construct_Loop | Worker_Lock_E | Set_Loop | Notify_E
  | Initialize | Looping | Loop_Destroyed | Exited

datatype who = Starter | Worker

record handshake =
  starter :: starter
  worker :: worker
  mutex_E :: "who option"
  mutex_T :: "who option"
  tid :: int
  loop_ptr :: "nat option"
  loop_alive :: bool
  started :: bool
  joinable :: bool

definition new_handshake :: handshake where
  "new_handshake =
     \<lparr>starter = Lock_E, worker = Not_Created, mutex_E = None, mutex_T = None, tid = - 1, loop_ptr = None,
      loop_alive = False, started = False, joinable = False\<rparr>"

text \<open>One step of the starting thread; \<open>None\<close> while it is blocked, or has returned.\<close>

definition starter_step :: "handshake \<Rightarrow> handshake option" where
  "starter_step s =
     (case starter s of
        Lock_E \<Rightarrow> if mutex_E s = None then Some (s\<lparr>mutex_E := Some Starter, starter := Lock_T\<rparr>) else None
      | Lock_T \<Rightarrow> if mutex_T s = None then Some (s\<lparr>mutex_T := Some Starter, starter := Create\<rparr>) else None
      | Create \<Rightarrow> Some (s\<lparr>worker := Worker_Lock_T, starter := Test_T\<rparr>)
      | Test_T \<Rightarrow>
          if tid s > 0 then Some (s\<lparr>mutex_T := None, started := True, starter := Test_E\<rparr>)
          else Some (s\<lparr>mutex_T := None, starter := Wait_T\<rparr>)
      | Wait_T \<Rightarrow> None
      | Retake_T \<Rightarrow> if mutex_T s = None then Some (s\<lparr>mutex_T := Some Starter, starter := Test_T\<rparr>) else None
      | Test_E \<Rightarrow>
          if loop_ptr s \<noteq> None then Some (s\<lparr>mutex_E := None, starter := Returned\<rparr>)
          else Some (s\<lparr>mutex_E := None, starter := Wait_E\<rparr>)
      | Wait_E \<Rightarrow> None
      | Retake_E \<Rightarrow> if mutex_E s = None then Some (s\<lparr>mutex_E := Some Starter, starter := Test_E\<rparr>) else None
      | Returned \<Rightarrow> None)"

text \<open>One step of the thread that is started; \<open>t\<close> is its identifier and \<open>l\<close> the address of its loop.\<close>

definition worker_step :: "int \<Rightarrow> nat \<Rightarrow> handshake \<Rightarrow> handshake option" where
  "worker_step t l s =
     (case worker s of
        Not_Created \<Rightarrow> None
      | Worker_Lock_T \<Rightarrow> if mutex_T s = None then Some (s\<lparr>mutex_T := Some Worker, worker := Set_Tid\<rparr>) else None
      | Set_Tid \<Rightarrow> Some (s\<lparr>tid := t, mutex_T := None, worker := Notify_T\<rparr>)
      | Notify_T \<Rightarrow> Some (s\<lparr>starter := (if starter s = Wait_T then Retake_T else starter s), worker := Construct_Loop\<rparr>)
      | Construct_Loop \<Rightarrow> Some (s\<lparr>loop_alive := True, worker := Worker_Lock_E\<rparr>)
      | Worker_Lock_E \<Rightarrow> if mutex_E s = None then Some (s\<lparr>mutex_E := Some Worker, worker := Set_Loop\<rparr>) else None
      | Set_Loop \<Rightarrow> Some (s\<lparr>loop_ptr := Some l, mutex_E := None, worker := Notify_E\<rparr>)
      | Notify_E \<Rightarrow> Some (s\<lparr>starter := (if starter s = Wait_E then Retake_E else starter s), worker := Initialize\<rparr>)
      | Initialize \<Rightarrow> Some (s\<lparr>worker := Looping\<rparr>)
      | Looping \<Rightarrow> Some (s\<lparr>loop_alive := False, worker := Loop_Destroyed\<rparr>)
      | Loop_Destroyed \<Rightarrow> Some (s\<lparr>joinable := True, worker := Exited\<rparr>)
      | Exited \<Rightarrow> None)"

text \<open>A wait may also end without a notification.\<close>

definition spurious_step :: "handshake \<Rightarrow> handshake option" where
  "spurious_step s =
     (case starter s of
        Wait_T \<Rightarrow> Some (s\<lparr>starter := Retake_T\<rparr>)
      | Wait_E \<Rightarrow> Some (s\<lparr>starter := Retake_E\<rparr>)
      | _ \<Rightarrow> None)"

datatype turn = Starter_Turn | Worker_Turn | Spurious_Turn

definition take_turn :: "int \<Rightarrow> nat \<Rightarrow> turn \<Rightarrow> handshake \<Rightarrow> handshake option" where
  "take_turn t l u s =
     (case u of Starter_Turn \<Rightarrow> starter_step s | Worker_Turn \<Rightarrow> worker_step t l s | Spurious_Turn \<Rightarrow> spurious_step s)"

text \<open>A schedule names whose turn it is; the turn of a blocked thread passes.\<close>

fun handshake_run :: "int \<Rightarrow> nat \<Rightarrow> turn list \<Rightarrow> handshake \<Rightarrow> handshake" where
  "handshake_run t l [] s = s"
| "handshake_run t l (u # us) s =
     handshake_run t l us (case take_turn t l u s of None \<Rightarrow> s | Some s' \<Rightarrow> s')"

section \<open>Invariant and progress\<close>

fun worker_rank :: "worker \<Rightarrow> nat" where
  "worker_rank Not_Created = 0"
| "worker_rank Worker_Lock_T = 1"
| "worker_rank Set_Tid = 2"
| "worker_rank Notify_T = 3"
| "worker_rank Construct_Loop = 4"
| "worker_rank Worker_Lock_E = 5"
| "worker_rank Set_Loop = 6"
| "worker_rank Notify_E = 7"
| "worker_rank Initialize = 8"
| "worker_rank Looping = 9"
| "worker_rank Loop_Destroyed = 10"
| "worker_rank Exited = 11"

fun starter_left :: "starter \<Rightarrow> nat" where
  "starter_left Lock_E = 12"
| "starter_left Lock_T = 11"
| "starter_left Create = 10"
| "starter_left Retake_T = 9"
| "starter_left Test_T = 8"
| "starter_left Wait_T = 7"
| "starter_left Retake_E = 6"
| "starter_left Test_E = 5"
| "starter_left Wait_E = 4"
| "starter_left Returned = 0"

definition steps_left :: "handshake \<Rightarrow> nat" where
  "steps_left s = 16 * (11 - worker_rank (worker s)) + starter_left (starter s)"

definition holds_E :: "starter \<Rightarrow> bool" where
  "holds_E st \<longleftrightarrow> st \<in> {Lock_T, Create, Test_T, Wait_T, Retake_T, Test_E}"

definition holds_T :: "starter \<Rightarrow> bool" where
  "holds_T st \<longleftrightarrow> st \<in> {Create, Test_T}"

definition past_T :: "starter \<Rightarrow> bool" where
  "past_T st \<longleftrightarrow> st \<in> {Test_E, Wait_E, Retake_E, Returned}"

text \<open>Which phases of the two threads go together.\<close>

definition phases_ok :: "starter \<Rightarrow> worker \<Rightarrow> bool" where
  "phases_ok st w \<longleftrightarrow>
     (w = Not_Created \<longleftrightarrow> st \<in> {Lock_E, Lock_T, Create}) \<and>
     \<not> (holds_E st \<and> w = Set_Loop) \<and> \<not> (holds_T st \<and> w = Set_Tid) \<and>
     (st = Wait_T \<longrightarrow> worker_rank w \<le> 3) \<and> (st = Wait_E \<longrightarrow> worker_rank w \<le> 7) \<and>
     (past_T st \<longrightarrow> 3 \<le> worker_rank w) \<and> (st = Returned \<longrightarrow> 7 \<le> worker_rank w)"

definition handshake_inv :: "int \<Rightarrow> nat \<Rightarrow> handshake \<Rightarrow> bool" where
  "handshake_inv t l s \<longleftrightarrow>
     phases_ok (starter s) (worker s) \<and>
     mutex_E s = (if holds_E (starter s) then Some Starter else if worker s = Set_Loop then Some Worker else None) \<and>
     mutex_T s = (if holds_T (starter s) then Some Starter else if worker s = Set_Tid then Some Worker else None) \<and>
     tid s = (if worker_rank (worker s) < 3 then - 1 else t) \<and>
     loop_ptr s = (if worker_rank (worker s) < 7 then None else Some l) \<and>
     (loop_alive s \<longleftrightarrow> 5 \<le> worker_rank (worker s) \<and> worker_rank (worker s) \<le> 9) \<and>
     (started s \<longleftrightarrow> past_T (starter s)) \<and> (joinable s \<longleftrightarrow> worker s = Exited)"

lemmas handshake_defs = handshake_inv_def phases_ok_def holds_E_def holds_T_def past_T_def steps_left_def

lemma starter_step_inv:
  assumes "handshake_inv t l s" "0 < t"
  shows "case starter_step s of None \<Rightarrow> True | Some s' \<Rightarrow> handshake_inv t l s' \<and> steps_left s' < steps_left s"
  using assms
  by (cases "starter s"; cases "worker s") (simp_all add: starter_step_def handshake_defs)

lemma worker_step_inv:
  assumes "handshake_inv t l s" "0 < t"
  shows "case worker_step t l s of None \<Rightarrow> True | Some s' \<Rightarrow> handshake_inv t l s' \<and> steps_left s' < steps_left s"
  using assms
  by (cases "worker s"; cases "starter s") (simp_all add: worker_step_def handshake_defs)

lemma spurious_step_inv:
  assumes "handshake_inv t l s"
  shows "case spurious_step s of None \<Rightarrow> True | Some s' \<Rightarrow> handshake_inv t l s'"
  using assms by (cases "starter s") (simp_all add: spurious_step_def handshake_defs)

lemma new_handshake_inv: "handshake_inv t l new_handshake"
  by (simp add: handshake_defs new_handshake_def)

lemma handshake_run_inv:
  assumes "0 < t"
  shows "handshake_inv t l s \<Longrightarrow> handshake_inv t l (handshake_run t l us s)"
proof (induction us arbitrary: s)
  case (Cons u us)
  have "handshake_inv t l (case take_turn t l u s of None \<Rightarrow> s | Some s' \<Rightarrow> s')"
    using starter_step_inv [OF Cons.prems assms] worker_step_inv [OF Cons.prems assms] spurious_step_inv [OF Cons.prems] Cons.prems
    by (cases u) (auto simp: take_turn_def split: option.splits)
  from Cons.IH [OF this] show ?case by simp
qed simp

lemma handshake_run_append: "handshake_run t l (us @ vs) s = handshake_run t l vs (handshake_run t l us s)"
  by (induction us arbitrary: s) simp_all

text \<open>As long as the start has not returned, one of the two threads can go on.\<close>

lemma handshake_progress:
  assumes "handshake_inv t l s" "0 < t" "starter s \<noteq> Returned"
  shows "starter_step s \<noteq> None \<or> worker_step t l s \<noteq> None"
  using assms
  by (cases "starter s"; cases "worker s") (simp_all add: starter_step_def worker_step_def handshake_defs)

lemma handshake_returns:
  assumes "0 < t"
  shows "handshake_inv t l s \<Longrightarrow>
    \<exists>vs. length vs \<le> steps_left s \<and> Spurious_Turn \<notin> set vs \<and> starter (handshake_run t l vs s) = Returned"
proof (induction "steps_left s" arbitrary: s rule: less_induct)
  case less
  show ?case
  proof (cases "starter s = Returned")
    case True
    then show ?thesis by (intro exI [of _ "[]"]) simp
  next
    case False
    then obtain u s' where u: "u \<noteq> Spurious_Turn" "take_turn t l u s = Some s'"
      using handshake_progress [OF less.prems assms False] that [of Starter_Turn] that [of Worker_Turn]
      by (auto simp: take_turn_def)
    then have s': "handshake_inv t l s'" "steps_left s' < steps_left s"
      using starter_step_inv [OF less.prems assms] worker_step_inv [OF less.prems assms]
      by (cases u; simp add: take_turn_def)+
    then obtain vs where "length vs \<le> steps_left s'" "Spurious_Turn \<notin> set vs" "starter (handshake_run t l vs s') = Returned"
      using less.hyps by blast
    with u s' show ?thesis by (intro exI [of _ "u # vs"]) auto
  qed
qed





end
