(* ===== verification/Tcp_Server.thy ===== *)
theory Tcp_Server
  imports Tcp_Connection
begin

text \<open>
  \<^verbatim>\<open>TcpServer\<close> (src/tcp_server.cc), \<^verbatim>\<open>ListenSocketfd\<close> (src/listen_socketfd.cc) and \<^verbatim>\<open>EventLoopThreadPool\<close>
  (src/event_loop_thread_pool.cc): accepting connections, distributing them over the worker loops, and
  the registry of connections, which the main loop changes in functors that the workers post to it. A
  connection object outlives its entry in the registry for as long as a worker holds a pointer to it.
\<close>

section \<open>The thread pool\<close>

record loop_pool =
  thread_pool_capacity :: nat
  pool_started :: bool
  pool_stopped :: bool
  pool_joined :: bool
  worker_loops :: "nat list"
  loops_asked_to_stop :: "nat list"
  next_loop_index_counter :: "32 word"

definition new_loop_pool :: "nat \<Rightarrow> loop_pool outcome" where
  "new_loop_pool n =
     (if n = 0 then Inl (Fatal ''zero capacity given for initializing thread pool'')
      else Inr \<lparr>thread_pool_capacity = n, pool_started = False, pool_stopped = False, pool_joined = False,
                worker_loops = [], loops_asked_to_stop = [], next_loop_index_counter = 0\<rparr>)"

definition pool_start :: "loop_pool \<Rightarrow> loop_pool" where
  "pool_start p =
     (if pool_started p then p
      else p\<lparr>worker_loops := worker_loops p @ [0..<thread_pool_capacity p], pool_started := True\<rparr>)"

definition pool_stop :: "loop_pool \<Rightarrow> loop_pool outcome" where
  "pool_stop p =
     (if pool_stopped p then Inr p
      else if \<not> pool_started p then Inl (Fatal ''tried to stop a thread pool before starting it'')
      else Inr (p\<lparr>loops_asked_to_stop := worker_loops p, pool_stopped := True\<rparr>))"

definition pool_join :: "loop_pool \<Rightarrow> loop_pool" where
  "pool_join p = (if pool_joined p then p else p\<lparr>pool_joined := True\<rparr>)"

definition pool_destroy :: "loop_pool \<Rightarrow> loop_pool outcome" where
  "pool_destroy p =
     (if \<not> pool_stopped p then Inl (Fatal ''tried to destruct a thread pool before stopping it'')
      else Inr (if pool_joined p then p else pool_join p))"

text \<open>
  The counter is an \<^verbatim>\<open>int\<close> that wraps around; the remainder is taken after the conversion to \<^verbatim>\<open>size_t\<close>,
  which extends the sign.
\<close>

definition get_next_loop :: "loop_pool \<Rightarrow> (nat \<times> loop_pool) outcome" where
  "get_next_loop p =
     (let next_loop_index = unat (scast (next_loop_index_counter p) :: 64 word) mod thread_pool_capacity p in
      if next_loop_index < length (worker_loops p)
      then Inr (worker_loops p ! next_loop_index, p\<lparr>next_loop_index_counter := next_loop_index_counter p + 1\<rparr>)
      else Inl (Undefined ''vector index out of bounds''))"

section \<open>The server\<close>

text \<open>
  The registry \<open>tcp_connect_socketfds\<close> holds the identifiers in the order of \<^verbatim>\<open>std::map\<close>, and \<open>objects\<close> the
  connection of every identifier with the index of its loop. Functors for the main loop either remove a
  connection or apply a callback to all of them.
\<close>

datatype 'ctx main_functor =
    Close_Connection "64 word"
  | For_Each "'ctx connection \<Rightarrow> 'ctx connection"

record 'ctx tcp_server =
  srv_started :: bool
  srv_stopped :: bool
  srv_message_callback :: bool
  srv_write_complete_callback :: "conn_action list option"
  srv_connect_success_callback :: "'ctx connection \<Rightarrow> 'ctx connection"
  listening :: bool
  listen_stopped :: bool
  tcp_connect_socketfds :: "64 word list"
  objects :: "64 word \<rightharpoonup> nat \<times> 'ctx connection"
  tcp_connection_id_counter :: "64 word"
  srv_pool_capacity :: nat
  srv_pool :: "loop_pool option"
  main_functors :: "'ctx main_functor list"
  max_number_of_connections :: nat
  transferring :: bool
  current_to_be_destroyed :: "64 word list"
  vectors_to_be_destroyed :: "64 word list list"
  destroying_functors :: nat

text \<open>A server whose callbacks and capacity have been set.\<close>

definition new_tcp_server ::
  "nat \<Rightarrow> bool \<Rightarrow> conn_action list option \<Rightarrow> ('ctx connection \<Rightarrow> 'ctx connection) \<Rightarrow> bool \<Rightarrow> 'ctx tcp_server" where
  "new_tcp_server n message write_comp connect_success transfer =
     \<lparr>srv_started = False, srv_stopped = False, srv_message_callback = message, srv_write_complete_callback = write_comp,
      srv_connect_success_callback = connect_success, listening = False, listen_stopped = False, tcp_connect_socketfds = [],
      objects = Map.empty, tcp_connection_id_counter = 0, srv_pool_capacity = n, srv_pool = None, main_functors = [],
      max_number_of_connections = 0, transferring = transfer, current_to_be_destroyed = [], vectors_to_be_destroyed = [],
      destroying_functors = 0\<rparr>"

definition MAX_TO_BE_DESTROYED :: nat where
  "MAX_TO_BE_DESTROYED = 512"

text \<open>The main loop has index 0 for the functors of its own thread.\<close>

definition choose_loop :: "'ctx tcp_server \<Rightarrow> (nat \<times> 'ctx tcp_server) outcome" where
  "choose_loop s =
     (if srv_pool_capacity s > 0
      then (case srv_pool s of
              None \<Rightarrow> Inl (Undefined ''null pointer'')
            | Some p \<Rightarrow> obind (get_next_loop p) (\<lambda>(i, p'). Inr (i, s\<lparr>srv_pool := Some p'\<rparr>)))
      else Inr (0, s))"

definition new_connection_callback :: "'ctx tcp_server \<Rightarrow> 'ctx tcp_server outcome" where
  "new_connection_callback s =
     (let cid = tcp_connection_id_counter s in
      obind (choose_loop (s\<lparr>tcp_connection_id_counter := cid + 1\<rparr>)) (\<lambda>(chosen_loop, s1).
        if cid \<in> set (tcp_connect_socketfds s1) then Inl (Fatal ''execution flow never reaches here'')
        else
          let ids = insort cid (tcp_connect_socketfds s1);
              c1 = srv_connect_success_callback s1 new_connection;
              c2 = c1\<lparr>has_message_callback := srv_message_callback s1,
                      write_complete_callback := srv_write_complete_callback s1, has_close_callback := True\<rparr>
          in obind (conn_start c2) (\<lambda>c3.
               Inr (s1\<lparr>tcp_connect_socketfds := ids, objects := (objects s1)(cid \<mapsto> (chosen_loop, c3)),
                       max_number_of_connections := max (max_number_of_connections s1) (length ids)\<rparr>))))"

text \<open>What the close callback of a connection posts to the main loop.\<close>

definition close_callback :: "64 word \<Rightarrow> 'ctx tcp_server \<Rightarrow> 'ctx tcp_server" where
  "close_callback cid s = s\<lparr>main_functors := main_functors s @ [Close_Connection cid]\<rparr>"

definition transfer_tcp_connections_to_background_thread :: "'ctx tcp_server \<Rightarrow> 'ctx tcp_server" where
  "transfer_tcp_connections_to_background_thread s =
     s\<lparr>vectors_to_be_destroyed := vectors_to_be_destroyed s @ [current_to_be_destroyed s],
       current_to_be_destroyed := [], destroying_functors := destroying_functors s + 1\<rparr>"

text \<open>The functor the background thread runs: it destroys the last vector.\<close>

definition run_destroying_functor :: "'ctx tcp_server \<Rightarrow> 'ctx tcp_server outcome" where
  "run_destroying_functor s =
     (if vectors_to_be_destroyed s = [] then Inl (Undefined ''back of an empty vector'')
      else Inr (s\<lparr>vectors_to_be_destroyed := butlast (vectors_to_be_destroyed s),
                  destroying_functors := destroying_functors s - 1\<rparr>))"

definition run_for_each_connection :: "('ctx connection \<Rightarrow> 'ctx connection) \<Rightarrow> 'ctx tcp_server \<Rightarrow> 'ctx tcp_server" where
  "run_for_each_connection callback s = s\<lparr>main_functors := main_functors s @ [For_Each callback]\<rparr>"

text \<open>
  A change of a connection by whatever happens on its loop; every call of its close callback posts one
  functor.
\<close>

definition update_connection :: "64 word \<Rightarrow> 'ctx connection \<Rightarrow> 'ctx tcp_server \<Rightarrow> 'ctx tcp_server" where
  "update_connection cid c s =
     (case objects s cid of
        None \<Rightarrow> s
      | Some (i, old) \<Rightarrow>
          (close_callback cid ^^ (close_calls c - close_calls old)) (s\<lparr>objects := (objects s)(cid \<mapsto> (i, c))\<rparr>))"

definition run_close_functor :: "64 word \<Rightarrow> 'ctx tcp_server \<Rightarrow> 'ctx tcp_server outcome" where
  "run_close_functor connection_id s =
     (if connection_id \<notin> set (tcp_connect_socketfds s) then Inl (Fatal ''never reaches here'')
      else
        let s1 = (if transferring s
                  then let s0 = s\<lparr>current_to_be_destroyed := current_to_be_destroyed s @ [connection_id]\<rparr> in
                       if length (current_to_be_destroyed s0) \<ge> MAX_TO_BE_DESTROYED
                       then transfer_tcp_connections_to_background_thread s0 else s0
                  else s)
        in Inr (s1\<lparr>tcp_connect_socketfds := remove1 connection_id (tcp_connect_socketfds s1)\<rparr>))"

fun for_each :: "('ctx connection \<Rightarrow> 'ctx connection) \<Rightarrow> 64 word list \<Rightarrow> 'ctx tcp_server \<Rightarrow> 'ctx tcp_server" where
  "for_each callback [] s = s"
| "for_each callback (cid # ids) s =
     for_each callback ids
       (case objects s cid of None \<Rightarrow> s | Some (i, c) \<Rightarrow> update_connection cid (callback c) s)"

definition run_main_functor :: "nat \<Rightarrow> 'ctx tcp_server \<Rightarrow> 'ctx tcp_server outcome" where
  "run_main_functor i s =
     (if i < length (main_functors s)
      then let s1 = s\<lparr>main_functors := take i (main_functors s) @ drop (Suc i) (main_functors s)\<rparr> in
           (case main_functors s ! i of
              Close_Connection cid \<Rightarrow> run_close_functor cid s1
            | For_Each callback \<Rightarrow> Inr (for_each callback (tcp_connect_socketfds s1) s1))
      else Inr s)"

section \<open>Starting, stopping and accepting\<close>

definition server_start :: "'ctx tcp_server \<Rightarrow> 'ctx tcp_server outcome" where
  "server_start s =
     (if srv_started s then Inr s
      else if \<not> srv_message_callback s then Inl (Fatal ''missing message callback'')
      else
        let s1 = s\<lparr>listening := True\<rparr> in
        obind (if srv_pool_capacity s1 > 0
               then obind (new_loop_pool (srv_pool_capacity s1)) (\<lambda>p. Inr (s1\<lparr>srv_pool := Some (pool_start p)\<rparr>))
               else Inr s1) (\<lambda>s2. Inr (s2\<lparr>srv_started := True\<rparr>)))"

definition listen_stop :: "'ctx tcp_server \<Rightarrow> 'ctx tcp_server" where
  "listen_stop s = (if listen_stopped s then s else s\<lparr>listening := False, listen_stopped := True\<rparr>)"

definition server_stop :: "'ctx tcp_server \<Rightarrow> 'ctx tcp_server outcome" where
  "server_stop s =
     (if srv_stopped s then Inr s
      else if \<not> srv_started s then Inl (Fatal ''tried to stop tcp server before starting it'')
      else
        let s1 = listen_stop s in
        obind (if srv_pool_capacity s1 > 0
               then (case srv_pool s1 of
                       None \<Rightarrow> Inl (Undefined ''null pointer'')
                     | Some p \<Rightarrow> obind (pool_stop p) (\<lambda>p'. Inr (s1\<lparr>srv_pool := Some (pool_join p')\<rparr>)))
               else Inr s1) (\<lambda>s2. Inr (s2\<lparr>srv_stopped := True\<rparr>)))"

text \<open>The destructor resets the connections that are left.\<close>

fun reset_all :: "64 word list \<Rightarrow> 'ctx tcp_server \<Rightarrow> 'ctx tcp_server outcome" where
  "reset_all [] s = Inr s"
| "reset_all (cid # ids) s =
     (case objects s cid of
        None \<Rightarrow> Inl (Undefined ''null pointer'')
      | Some (i, c) \<Rightarrow> obind (reset_connection c) (\<lambda>c'. reset_all ids (update_connection cid c' s)))"

definition server_destroy :: "'ctx tcp_server \<Rightarrow> 'ctx tcp_server outcome" where
  "server_destroy s =
     (if \<not> srv_stopped s then Inl (Fatal ''tried to destruct tcp server before stopping it'')
      else reset_all (tcp_connect_socketfds s) s)"

text \<open>The answers of \<^verbatim>\<open>accept4\<close>; after the last one it would block.\<close>

datatype accept_answer = Accepted | Accept_Again | Connection_Aborted | Too_Many_Files | Accept_Error

fun accept_loop :: "nat \<Rightarrow> accept_answer list \<Rightarrow> 'ctx tcp_server \<Rightarrow> 'ctx tcp_server outcome" where
  "accept_loop 0 as s = Inr s"
| "accept_loop (Suc i) [] s = Inr s"
| "accept_loop (Suc i) (a # as) s =
     (case a of
        Accepted \<Rightarrow> obind (new_connection_callback s) (accept_loop i as)
      | Accept_Again \<Rightarrow> Inr s
      | Connection_Aborted \<Rightarrow> accept_loop i as s
      | Too_Many_Files \<Rightarrow> Inr s
      | Accept_Error \<Rightarrow> Inl (Fatal ''unknown error''))"

definition max_number_of_new_connections_at_a_time :: nat where
  "max_number_of_new_connections_at_a_time = 1000"

definition listen_read_event_callback :: "accept_answer list \<Rightarrow> 'ctx tcp_server \<Rightarrow> 'ctx tcp_server outcome" where
  "listen_read_event_callback as s =
     (if listen_stopped s then Inr s else accept_loop max_number_of_new_connections_at_a_time as s)"

section \<open>The life of the registry\<close>

text \<open>
  Commands: the listening socket is readable, a connection changes, the main loop runs one of its functors
  (in any order, since every worker has its own queue), a callback is run for all connections, the
  background thread destroys a vector of connections. A close callback cannot be uncalled.
\<close>

datatype 'ctx srv_cmd =
    Listen_Readable "accept_answer list"
  | Connection_Changes "64 word" "'ctx connection"
  | Main_Runs nat
  | Ask_For_Each "'ctx connection \<Rightarrow> 'ctx connection"
  | Background_Runs

definition close_calls_of :: "64 word \<Rightarrow> 'ctx tcp_server \<Rightarrow> nat" where
  "close_calls_of cid s = (case objects s cid of None \<Rightarrow> 0 | Some (i, c) \<Rightarrow> close_calls c)"

definition server_exec :: "'ctx srv_cmd \<Rightarrow> 'ctx tcp_server \<Rightarrow> 'ctx tcp_server outcome" where
  "server_exec cmd s =
     (case cmd of
        Listen_Readable as \<Rightarrow> listen_read_event_callback as s
      | Connection_Changes cid c \<Rightarrow> Inr (if close_calls_of cid s \<le> close_calls c then update_connection cid c s else s)
      | Main_Runs i \<Rightarrow> run_main_functor i s
      | Ask_For_Each callback \<Rightarrow> Inr (run_for_each_connection callback s)
      | Background_Runs \<Rightarrow> if destroying_functors s = 0 then Inr s else run_destroying_functor s)"

fun server_run :: "'ctx srv_cmd list \<Rightarrow> 'ctx tcp_server \<Rightarrow> 'ctx tcp_server outcome" where
  "server_run [] s = Inr s"
| "server_run (cmd # cmds) s = obind (server_exec cmd s) (server_run cmds)"

fun close_ids :: "'ctx main_functor list \<Rightarrow> 64 word list" where
  "close_ids [] = []"
| "close_ids (Close_Connection cid # fs) = cid # close_ids fs"
| "close_ids (For_Each callback # fs) = close_ids fs"

lemma close_ids_append [simp]: "close_ids (xs @ ys) = close_ids xs @ close_ids ys"
  by (induction xs rule: close_ids.induct) auto

text \<open>A callback that does not call the close callback itself.\<close>

definition quiet :: "('ctx connection \<Rightarrow> 'ctx connection) \<Rightarrow> bool" where
  "quiet callback \<longleftrightarrow> (\<forall>c. close_calls (callback c) = close_calls c)"

definition setup_ok :: "'ctx tcp_server \<Rightarrow> bool" where
  "setup_ok s \<longleftrightarrow> srv_message_callback s \<and> quiet (srv_connect_success_callback s) \<and>
     (srv_pool_capacity s > 0 \<longrightarrow>
        (\<exists>p. srv_pool s = Some p \<and> 0 < thread_pool_capacity p \<and> length (worker_loops p) = thread_pool_capacity p))"

text \<open>
  The identifiers below \<open>n\<close> have been given out. A connection is registered exactly when its close callback
  has not been called or its removal is still to be run, and every removal is asked for once.
\<close>

definition registry_ok :: "nat \<Rightarrow> 'ctx tcp_server \<Rightarrow> bool" where
  "registry_ok n s \<longleftrightarrow>
     sorted (tcp_connect_socketfds s) \<and> distinct (tcp_connect_socketfds s) \<and>
     tcp_connection_id_counter s = of_nat n \<and> (\<forall>cid \<in> dom (objects s). unat cid < n) \<and>
     set (tcp_connect_socketfds s) \<subseteq> dom (objects s) \<and>
     (\<forall>cid. close_calls_of cid s \<le> 1) \<and>
     (\<forall>cid \<in> dom (objects s). close_calls_of cid s = 0 \<longrightarrow> cid \<in> set (tcp_connect_socketfds s)) \<and>
     distinct (close_ids (main_functors s)) \<and>
     set (close_ids (main_functors s)) = {cid \<in> set (tcp_connect_socketfds s). close_calls_of cid s = 1} \<and>
     (\<forall>callback. For_Each callback \<in> set (main_functors s) \<longrightarrow> quiet callback) \<and>
     length (vectors_to_be_destroyed s) = destroying_functors s \<and>
     length (tcp_connect_socketfds s) \<le> max_number_of_connections s"

lemma registry_okI:
  assumes "sorted (tcp_connect_socketfds s)" "distinct (tcp_connect_socketfds s)" "tcp_connection_id_counter s = of_nat n"
    and "\<And>cid. cid \<in> dom (objects s) \<Longrightarrow> unat cid < n" "set (tcp_connect_socketfds s) \<subseteq> dom (objects s)"
    and "\<And>cid. close_calls_of cid s \<le> 1"
    and "\<And>cid. cid \<in> dom (objects s) \<Longrightarrow> close_calls_of cid s = 0 \<Longrightarrow> cid \<in> set (tcp_connect_socketfds s)"
    and "distinct (close_ids (main_functors s))"
    and "set (close_ids (main_functors s)) = {cid \<in> set (tcp_connect_socketfds s). close_calls_of cid s = 1}"
    and "\<And>callback. For_Each callback \<in> set (main_functors s) \<Longrightarrow> quiet callback"
    and "length (vectors_to_be_destroyed s) = destroying_functors s"
    and "length (tcp_connect_socketfds s) \<le> max_number_of_connections s"
  shows "registry_ok n s"
  using assms unfolding registry_ok_def by blast

lemma registry_okD:
  assumes "registry_ok n s"
  shows "sorted (tcp_connect_socketfds s)" "distinct (tcp_connect_socketfds s)" "tcp_connection_id_counter s = of_nat n"
    and "cid \<in> dom (objects s) \<Longrightarrow> unat cid < n" "set (tcp_connect_socketfds s) \<subseteq> dom (objects s)"
    and "close_calls_of cid s \<le> 1"
    and "cid \<in> dom (objects s) \<Longrightarrow> close_calls_of cid s = 0 \<Longrightarrow> cid \<in> set (tcp_connect_socketfds s)"
    and "distinct (close_ids (main_functors s))"
    and "set (close_ids (main_functors s)) = {cid \<in> set (tcp_connect_socketfds s). close_calls_of cid s = 1}"
    and "For_Each callback \<in> set (main_functors s) \<Longrightarrow> quiet callback"
    and "length (vectors_to_be_destroyed s) = destroying_functors s"
    and "length (tcp_connect_socketfds s) \<le> max_number_of_connections s"
  using assms unfolding registry_ok_def by blast+

lemma registry_ok_le: "registry_ok n s \<Longrightarrow> n \<le> m \<Longrightarrow> \<exists>n' \<le> m. registry_ok n' s"
  by blast

text \<open>The round robin stays within the pool, also when the counter has wrapped around.\<close>

lemma get_next_loop_ok:
  assumes "0 < thread_pool_capacity p" "length (worker_loops p) = thread_pool_capacity p"
  shows "\<exists>i. get_next_loop p = Inr (i, p\<lparr>next_loop_index_counter := next_loop_index_counter p + 1\<rparr>) \<and> i \<in> set (worker_loops p)"
  using assms by (simp add: get_next_loop_def Let_def)

lemma choose_loop_ok:
  assumes "setup_ok s"
  shows "\<exists>i q. choose_loop s = Inr (i, s\<lparr>srv_pool := q\<rparr>) \<and> setup_ok (s\<lparr>srv_pool := q\<rparr>)"
proof (cases "srv_pool_capacity s > 0")
  case True
  then obtain p where p: "srv_pool s = Some p" "0 < thread_pool_capacity p" "length (worker_loops p) = thread_pool_capacity p"
    using assms by (auto simp: setup_ok_def)
  obtain i where i: "get_next_loop p = Inr (i, p\<lparr>next_loop_index_counter := next_loop_index_counter p + 1\<rparr>)"
    using get_next_loop_ok [OF p(2,3)] by blast
  let ?q = "Some (p\<lparr>next_loop_index_counter := next_loop_index_counter p + 1\<rparr>)"
  have "setup_ok (s\<lparr>srv_pool := ?q\<rparr>)" using assms p by (auto simp: setup_ok_def)
  moreover have "choose_loop s = Inr (i, s\<lparr>srv_pool := ?q\<rparr>)" using True p(1) i by (simp add: choose_loop_def)
  ultimately show ?thesis by blast
next
  case False
  have "s\<lparr>srv_pool := srv_pool s\<rparr> = s" by simp
  with False assms show ?thesis unfolding choose_loop_def by metis
qed

lemma new_connection_callback_ok:
  assumes "setup_ok s" "registry_ok n s" "n < 2 ^ 64"
  shows "\<exists>s'. new_connection_callback s = Inr s' \<and> setup_ok s' \<and> registry_ok (Suc n) s' \<and>
    set (tcp_connect_socketfds s') = insert (of_nat n) (set (tcp_connect_socketfds s)) \<and> listen_stopped s' = listen_stopped s"
proof -
  let ?cid = "of_nat n :: 64 word"
  have u: "unat ?cid = n" using assms(3) by (simp add: unat_of_nat)
  note r = registry_okD [OF assms(2)]
  have fresh: "?cid \<notin> dom (objects s)" using r(4) [of ?cid] u by auto
  then have new: "?cid \<notin> set (tcp_connect_socketfds s)" using r(5) by blast
  let ?s0 = "s\<lparr>tcp_connection_id_counter := ?cid + 1\<rparr>"
  have "setup_ok ?s0" using assms(1) by (simp add: setup_ok_def)
  then obtain i q where q: "choose_loop ?s0 = Inr (i, ?s0\<lparr>srv_pool := q\<rparr>)" "setup_ok (?s0\<lparr>srv_pool := q\<rparr>)"
    using choose_loop_ok by blast
  let ?c = "(srv_connect_success_callback s new_connection)\<lparr>has_message_callback := True,
      write_complete_callback := srv_write_complete_callback s, has_close_callback := True\<rparr>"
  have m: "srv_message_callback s" "close_calls ?c = 0"
    using assms(1) by (simp_all add: setup_ok_def quiet_def new_connection_def)
  obtain c where c: "conn_start ?c = Inr c" "close_calls c = 0"
    using conn_start_ok [of ?c] m(2) by auto
  let ?s = "?s0\<lparr>srv_pool := q, tcp_connect_socketfds := insort ?cid (tcp_connect_socketfds s),
      objects := (objects s)(?cid \<mapsto> (i, c)),
      max_number_of_connections := max (max_number_of_connections s) (length (insort ?cid (tcp_connect_socketfds s)))\<rparr>"
  have eq: "new_connection_callback s = Inr ?s"
    using q(1) r(3) new m(1) c(1) by (simp add: new_connection_callback_def Let_def)
  have none: "objects s ?cid = None" using fresh by blast
  have calls: "close_calls_of j ?s = close_calls_of j s" for j
    using none c(2) by (simp add: close_calls_of_def)
  have c0: "close_calls_of ?cid s = 0" using none by (simp add: close_calls_of_def)
  have "registry_ok (Suc n) ?s"
  proof (rule registry_okI, goal_cases)
    case (4 j)
    then have "j = ?cid \<or> j \<in> dom (objects s)" by auto
    then show ?case using r(4) u less_SucI by (metis lessI)
  next
    case 5
    then show ?case using r(5) by (auto simp: set_insort_key)
  next
    case (6 j)
    then show ?case using calls r(6) by simp
  next
    case (7 j)
    then have "j = ?cid \<or> j \<in> dom (objects s)" by auto
    with 7(2) show ?case using r(7) [of j] calls by (auto simp: set_insort_key)
  next
    case 9
    then show ?case using r(9) c0 calls by (auto simp: set_insort_key)
  qed (use r(1-3,8,10,11) new in \<open>auto simp: sorted_insort distinct_insort\<close>)
  moreover have "setup_ok ?s" using q(2) by (simp add: setup_ok_def)
  ultimately show ?thesis using eq by (simp add: set_insort_key)
qed

lemma accept_loop_ok:
  "setup_ok s \<Longrightarrow> registry_ok n s \<Longrightarrow> n + k \<le> 2 ^ 64 \<Longrightarrow> Accept_Error \<notin> set as \<Longrightarrow>
     \<exists>s' n'. accept_loop k as s = Inr s' \<and> setup_ok s' \<and> n' \<le> n + k \<and> registry_ok n' s'"
proof (induction k as s arbitrary: n rule: accept_loop.induct)
  case (3 k a as s)
  show ?case
  proof (cases a)
    case Accepted
    obtain s1 where s1: "new_connection_callback s = Inr s1" "setup_ok s1" "registry_ok (Suc n) s1"
      using new_connection_callback_ok [OF "3.prems"(1,2)] "3.prems"(3) by auto
    with "3.IH"(1) [OF Accepted s1] "3.prems"(3,4) Accepted show ?thesis by simp
  next
    case Connection_Aborted
    from "3.IH"(2) [OF Connection_Aborted "3.prems"(1,2)] "3.prems"(3,4) Connection_Aborted show ?thesis
      by (auto intro: le_SucI)
  qed (use "3.prems" in \<open>auto intro!: registry_ok_le\<close>)
qed (auto intro!: registry_ok_le)

lemma close_callback_pow:
  "(close_callback cid ^^ k) s = s\<lparr>main_functors := main_functors s @ replicate k (Close_Connection cid)\<rparr>"
  by (induction k) (simp_all add: close_callback_def replicate_append_same)

lemma close_ids_replicate [simp]: "close_ids (replicate k (Close_Connection cid)) = replicate k cid"
  by (induction k) auto

lemma update_connection_ok:
  assumes "registry_ok n s" "close_calls_of cid s \<le> close_calls c" "close_calls c \<le> 1"
  shows "registry_ok n (update_connection cid c s) \<and>
    tcp_connect_socketfds (update_connection cid c s) = tcp_connect_socketfds s"
proof (cases "objects s cid")
  case (Some x)
  obtain i old where x: "x = (i, old)" by (cases x)
  let ?k = "close_calls c - close_calls old"
  have calls: "close_calls_of cid s = close_calls old" using Some x by (simp add: close_calls_of_def)
  let ?s = "s\<lparr>objects := (objects s)(cid \<mapsto> (i, c)), main_functors := main_functors s @ replicate ?k (Close_Connection cid)\<rparr>"
  have eq: "update_connection cid c s = ?s" using Some x by (simp add: update_connection_def close_callback_pow)
  have new: "close_calls_of j ?s = (if j = cid then close_calls c else close_calls_of j s)" for j
    by (simp add: close_calls_of_def)
  have dom: "dom (objects ?s) = dom (objects s)" using Some by auto
  have reg: "cid \<in> set (tcp_connect_socketfds s)" if "close_calls old = 0"
    using registry_okD(7) [OF assms(1), of cid] Some that calls by auto
  note r = registry_okD [OF assms(1)]
  consider "?k = 0" "close_calls c = close_calls old" | "?k = 1" "close_calls old = 0" "close_calls c = 1"
    using assms(2,3) calls by linarith
  then have "registry_ok n ?s"
  proof cases
    case 1
    then have "close_calls_of j ?s = close_calls_of j s" for j using calls new by simp
    with assms(1) 1 dom show ?thesis unfolding registry_ok_def by simp
  next
    case 2
    then have "cid \<notin> set (close_ids (main_functors s))" using r(9) calls by simp
    moreover have "set (close_ids (main_functors ?s)) = {j \<in> set (tcp_connect_socketfds ?s). close_calls_of j ?s = 1}"
      using 2 r(9) reg new by auto
    moreover have "close_calls_of j ?s \<le> 1" for j using new r(6) [of j] 2 by simp
    moreover have "j \<in> set (tcp_connect_socketfds ?s)" if "j \<in> dom (objects ?s)" "close_calls_of j ?s = 0" for j
      using that r(7) [of j] new 2 dom by (simp split: if_splits)
    ultimately show ?thesis using r(1-5,8,10-12) 2 dom by (intro registry_okI) auto
  qed
  with eq show ?thesis by simp
qed (simp add: update_connection_def assms(1))

lemma for_each_ok:
  assumes "quiet callback"
  shows "registry_ok n s \<Longrightarrow> registry_ok n (for_each callback ids s)"
proof (induction ids arbitrary: s)
  case (Cons cid ids)
  show ?case
  proof (cases "objects s cid")
    case (Some x)
    obtain i c where x: "x = (i, c)" by (cases x)
    then have c: "close_calls_of cid s = close_calls c" using Some by (simp add: close_calls_of_def)
    moreover have "close_calls c \<le> 1" using Cons.prems c unfolding registry_ok_def by metis
    ultimately have "registry_ok n (update_connection cid (callback c) s)"
      using update_connection_ok [OF Cons.prems, of cid "callback c"] assms by (simp add: quiet_def)
    with Cons.IH Some x show ?thesis by simp
  qed (use Cons in simp)
qed simp

lemma run_close_functor_ok:
  assumes "registry_ok n s" "main_functors s = xs @ Close_Connection cid # ys"
  shows "\<exists>s'. run_close_functor cid (s\<lparr>main_functors := xs @ ys\<rparr>) = Inr s' \<and> registry_ok n s'"
proof -
  note r = registry_okD [OF assms(1)]
  have d: "distinct (close_ids xs @ cid # close_ids ys)"
      "set (close_ids xs @ cid # close_ids ys) = {j \<in> set (tcp_connect_socketfds s). close_calls_of j s = 1}"
    using r(8,9) assms(2) by simp_all
  then have reg: "cid \<in> set (tcp_connect_socketfds s)" "close_calls_of cid s = 1" by auto
  have rest: "set (close_ids xs @ close_ids ys) = {j \<in> set (remove1 cid (tcp_connect_socketfds s)). close_calls_of j s = 1}"
    using d r(2) by auto
  have ok: "registry_ok n s'" if s': "tcp_connect_socketfds s' = remove1 cid (tcp_connect_socketfds s)" "main_functors s' = xs @ ys"
      "objects s' = objects s" "tcp_connection_id_counter s' = tcp_connection_id_counter s"
      "max_number_of_connections s' = max_number_of_connections s"
      "length (vectors_to_be_destroyed s') = destroying_functors s'" for s' :: "'a tcp_server"
  proof (rule registry_okI, goal_cases)
    case 5
    then show ?case using r(5) set_remove1_subset [of cid "tcp_connect_socketfds s"] s' by auto
  next
    case (7 j)
    then have "close_calls_of j s = 0" "j \<in> dom (objects s)" using s' by (simp_all add: close_calls_of_def)
    with r(7) [of j] reg(2) s'(1) show ?case by (cases "j = cid") auto
  next
    case 9
    then show ?case using rest s' by (simp add: close_calls_of_def)
  next
    case 12
    have "length (remove1 cid (tcp_connect_socketfds s)) \<le> length (tcp_connect_socketfds s)" by (simp add: length_remove1)
    then show ?case using r(12) s' by simp
  next
    case (6 j)
    then show ?case using r(6) [of j] s' by (simp add: close_calls_of_def)
  next
    case (10 callback)
    then show ?case using r(10) [of callback] s' assms(2) by auto
  qed (use r(1-4) d(1) s' in \<open>simp_all add: sorted_remove1\<close>)
  note len = r(11)
  have "\<exists>s'. run_close_functor cid (s\<lparr>main_functors := xs @ ys\<rparr>) = Inr s' \<and>
      tcp_connect_socketfds s' = remove1 cid (tcp_connect_socketfds s) \<and> main_functors s' = xs @ ys \<and>
      objects s' = objects s \<and> tcp_connection_id_counter s' = tcp_connection_id_counter s \<and>
      max_number_of_connections s' = max_number_of_connections s \<and> length (vectors_to_be_destroyed s') = destroying_functors s'"
    using reg(1) len by (simp add: run_close_functor_def transfer_tcp_connections_to_background_thread_def Let_def)
  with ok show ?thesis by blast
qed

lemma setup_ok_keep:
  "setup_ok (s\<lparr>main_functors := fs\<rparr>) = setup_ok s" "setup_ok (s\<lparr>objects := os\<rparr>) = setup_ok s"
  "setup_ok (s\<lparr>tcp_connect_socketfds := ids\<rparr>) = setup_ok s" "setup_ok (s\<lparr>current_to_be_destroyed := cur\<rparr>) = setup_ok s"
  "setup_ok (s\<lparr>vectors_to_be_destroyed := vs\<rparr>) = setup_ok s" "setup_ok (s\<lparr>destroying_functors := k\<rparr>) = setup_ok s"
  by (simp_all add: setup_ok_def)

lemma setup_ok_update: "setup_ok (update_connection cid c s) = setup_ok s"
  by (auto simp: update_connection_def close_callback_pow setup_ok_keep split: option.splits)

lemma setup_ok_for_each: "setup_ok (for_each callback ids s) = setup_ok s"
  by (induction ids arbitrary: s) (auto simp: setup_ok_update split: option.splits)

lemma setup_ok_close: "run_close_functor cid s = Inr s' \<Longrightarrow> setup_ok s' = setup_ok s"
  by (auto simp: run_close_functor_def transfer_tcp_connections_to_background_thread_def Let_def setup_ok_keep split: if_splits)

lemma run_main_functor_ok:
  assumes "setup_ok s" "registry_ok n s"
  shows "\<exists>s'. run_main_functor i s = Inr s' \<and> setup_ok s' \<and> registry_ok n s'"
proof (cases "i < length (main_functors s)")
  case True
  let ?xs = "take i (main_functors s)" and ?ys = "drop (Suc i) (main_functors s)"
  let ?s = "s\<lparr>main_functors := ?xs @ ?ys\<rparr>"
  have split: "main_functors s = ?xs @ (main_functors s ! i) # ?ys" using id_take_nth_drop [OF True] .
  show ?thesis
  proof (cases "main_functors s ! i")
    case (Close_Connection cid)
    from run_close_functor_ok [OF assms(2), of ?xs cid ?ys] split Close_Connection
    obtain s' where s': "run_close_functor cid ?s = Inr s'" "registry_ok n s'" by auto
    then show ?thesis
      using True Close_Connection setup_ok_close [OF s'(1)] assms(1) by (simp add: run_main_functor_def setup_ok_keep)
  next
    case (For_Each callback)
    have q: "quiet callback" using registry_okD(10) [OF assms(2), of callback] For_Each True nth_mem by metis
    have "close_ids (main_functors s) = close_ids (?xs @ ?ys)" using split For_Each
      by (metis close_ids.simps(3) close_ids_append)
    moreover have "set (?xs @ ?ys) \<subseteq> set (main_functors s)" by (auto dest: in_set_takeD in_set_dropD)
    moreover have "close_calls_of j ?s = close_calls_of j s" for j by (simp add: close_calls_of_def)
    ultimately have "registry_ok n ?s"
      using registry_okD [OF assms(2)] by (intro registry_okI) (auto simp: subset_iff)
    with for_each_ok [OF q this] For_Each True assms(1) show ?thesis
      by (simp add: run_main_functor_def setup_ok_for_each setup_ok_keep)
  qed
qed (use assms in \<open>simp add: run_main_functor_def\<close>)

text \<open>The commands that are considered: no connection calls its close callback twice.\<close>

fun cmd_ok :: "'ctx srv_cmd \<Rightarrow> bool" where
  "cmd_ok (Listen_Readable as) \<longleftrightarrow> Accept_Error \<notin> set as"
| "cmd_ok (Connection_Changes cid c) \<longleftrightarrow> close_calls c \<le> 1"
| "cmd_ok (Ask_For_Each callback) \<longleftrightarrow> quiet callback"
| "cmd_ok _ \<longleftrightarrow> True"

lemma server_exec_ok:
  assumes "setup_ok s" "registry_ok n s" "n + 1000 \<le> 2 ^ 64" "cmd_ok cmd"
  shows "\<exists>s' n'. server_exec cmd s = Inr s' \<and> setup_ok s' \<and> n' \<le> n + 1000 \<and> registry_ok n' s'"
proof (cases cmd)
  case (Listen_Readable as)
  then show ?thesis
    using accept_loop_ok [OF assms(1-3), of as] assms
    by (auto simp: server_exec_def listen_read_event_callback_def max_number_of_new_connections_at_a_time_def intro!: registry_ok_le)
next
  case (Connection_Changes cid c)
  then show ?thesis
    using update_connection_ok [OF assms(2), of cid c] assms by (auto simp: server_exec_def setup_ok_update intro!: registry_ok_le)
next
  case (Main_Runs i)
  then show ?thesis using run_main_functor_ok [OF assms(1,2), of i] by (auto simp: server_exec_def intro!: registry_ok_le)
next
  case (Ask_For_Each callback)
  let ?s = "run_for_each_connection callback s"
  have "close_calls_of j ?s = close_calls_of j s" for j by (simp add: close_calls_of_def run_for_each_connection_def)
  then have "registry_ok n ?s"
    using registry_okD [OF assms(2)] Ask_For_Each assms(4) by (intro registry_okI) (auto simp: run_for_each_connection_def)
  then show ?thesis using assms(1) Ask_For_Each
    by (auto simp: server_exec_def run_for_each_connection_def setup_ok_keep intro!: registry_ok_le)
next
  case Background_Runs
  show ?thesis
  proof (cases "destroying_functors s = 0")
    case True
    then show ?thesis using Background_Runs assms by (auto simp: server_exec_def intro!: registry_ok_le)
  next
    case False
    let ?s = "s\<lparr>vectors_to_be_destroyed := butlast (vectors_to_be_destroyed s), destroying_functors := destroying_functors s - 1\<rparr>"
    have ne: "vectors_to_be_destroyed s \<noteq> []" using registry_okD(11) [OF assms(2)] False by auto
    have "close_calls_of j ?s = close_calls_of j s" for j by (simp add: close_calls_of_def)
    then have "registry_ok n ?s" using registry_okD [OF assms(2)] by (intro registry_okI) auto
    then show ?thesis using Background_Runs False ne assms(1)
      by (auto simp: server_exec_def run_destroying_functor_def setup_ok_keep intro!: registry_ok_le)
  qed
qed

lemma started_ok:
  assumes "server_start (new_tcp_server n True wc success tr) = Inr s" "quiet success"
  shows "setup_ok s" "registry_ok 0 s"
  using assms
  by (auto simp: server_start_def new_tcp_server_def new_loop_pool_def pool_start_def setup_ok_def registry_ok_def
      close_calls_of_def Let_def split: if_splits)

text \<open>C16: From the start of the server on, for every sequence of accepted connections, changes of connections,
  functors of the main loop in any order and of the background thread, as long as no connection calls its
  close callback twice: the registry never meets an unknown or a duplicate identifier, the round robin stays
  within the thread pool, a connection is registered exactly until the functor of its close callback has run,
  and every removal is asked for once.\<close>

theorem registry_consistent:
  assumes "server_start (new_tcp_server n True wc success tr) = Inr s" "quiet success"
    and "\<forall>cmd \<in> set cmds. cmd_ok cmd" "1000 * length cmds \<le> 2 ^ 64"
  shows "\<exists>s' k. server_run cmds s = Inr s' \<and> registry_ok k s'"
proof -
  have "\<exists>s' k. server_run cmds s = Inr s' \<and> registry_ok k s'"
    if "setup_ok s" "registry_ok m s" "m + 1000 * length cmds \<le> 2 ^ 64" "\<forall>cmd \<in> set cmds. cmd_ok cmd" for m s
    using that
  proof (induction cmds arbitrary: m s)
    case (Cons cmd cmds)
    then obtain s1 m1 where s1: "server_exec cmd s = Inr s1" "setup_ok s1" "m1 \<le> m + 1000" "registry_ok m1 s1"
      using server_exec_ok [of s m cmd] by auto
    moreover have "m1 + 1000 * length cmds \<le> 2 ^ 64" using s1(3) Cons.prems(3) by simp
    ultimately show ?case using Cons.IH [of s1 m1] Cons.prems(4) by simp
  qed auto
  from this [OF started_ok [OF assms(1,2)]] assms(3,4) show ?thesis by simp
qed

theorem registry_consistent_witness:
  "\<exists>s' k. server_run [Listen_Readable [Accepted, Connection_Aborted, Accepted], Connection_Changes 1 (new_connection\<lparr>close_calls := 1\<rparr>), Main_Runs 0]
     (projr (server_start (new_tcp_server 2 True None (\<lambda>c. c) True)) :: unit tcp_server) = Inr s' \<and> registry_ok k s'"
proof -
  let ?new = "new_tcp_server 2 True None (\<lambda>c. c) True :: unit tcp_server"
  have "server_start ?new = Inr (projr (server_start ?new))"
    by (simp add: server_start_def new_tcp_server_def new_loop_pool_def)
  from registry_consistent [OF this, of "[Listen_Readable [Accepted, Connection_Aborted, Accepted],
      Connection_Changes 1 (new_connection\<lparr>close_calls := 1\<rparr>), Main_Runs 0]"]
  show ?thesis by (simp add: quiet_def)
qed

section \<open>A connection that closes twice\<close>

lemma run_head_close:
  "main_functors s = Close_Connection cid # fs \<Longrightarrow> server_exec (Main_Runs 0) s = run_close_functor cid (s\<lparr>main_functors := fs\<rparr>)"
  by (simp add: server_exec_def run_main_functor_def)

lemma abort_calls_close:
  assumes "has_close_callback c" "\<not> is_reset c" "\<not> is_aborted c" "fd_open c"
  shows "\<exists>c'. abort_from_event_loop c = Inr c' \<and> close_calls c' = close_calls c + 1"
proof -
  let ?d = "conn_detach c"
  have d: "has_close_callback ?d" "\<not> is_reset ?d" "fd_open ?d" "close_calls ?d = close_calls c"
    using assms by (simp_all add: conn_detach_def)
  then show ?thesis
    using assms(3) by (simp add: abort_from_event_loop_def reset_connection_def call_close_callback_def clear_context_def Let_def)
qed

text \<open>A connection whose close event has been handled and that is then aborted on its loop, as the check
  for inactive connections does with every connection that was registered when the check was asked for,
  calls its close callback twice, and the second removal stops the process with a fatal error.\<close>

theorem close_then_abort_is_fatal:
  assumes "registry_ok n s" "main_functors s = []" "objects s cid = Some (i, c)" "close_calls c = 0" "has_close_callback c"
    and "\<not> is_reset c" "\<not> is_aborted c" "fd_open c"
  shows "\<exists>c2. abort_from_event_loop (close_event_callback c) = Inr c2 \<and>
    server_run [Connection_Changes cid (close_event_callback c), Connection_Changes cid c2, Main_Runs 0, Main_Runs 0] s =
      Inl (Fatal ''never reaches here'')"
proof -
  let ?c1 = "close_event_callback c"
  have c1: "close_calls ?c1 = 1" "has_close_callback ?c1" "\<not> is_reset ?c1" "\<not> is_aborted ?c1" "fd_open ?c1"
    using assms(4-8) by (simp_all add: close_event_callback_def call_close_callback_def conn_detach_def)
  obtain c2 where c2: "abort_from_event_loop ?c1 = Inr c2" "close_calls c2 = 2"
    using abort_calls_close [OF c1(2-5)] c1(1) by auto
  define s1 where "s1 = update_connection cid ?c1 s"
  define s2 where "s2 = update_connection cid c2 s1"
  have s1: "objects s1 cid = Some (i, ?c1)" "main_functors s1 = [Close_Connection cid]" "tcp_connect_socketfds s1 = tcp_connect_socketfds s"
    using assms(2-4) c1(1) by (simp_all add: s1_def update_connection_def close_callback_pow)
  have s2: "main_functors s2 = [Close_Connection cid, Close_Connection cid]" "tcp_connect_socketfds s2 = tcp_connect_socketfds s"
    using s1 c1(1) c2(2) by (simp_all add: s2_def update_connection_def close_callback_pow)
  have e1: "server_exec (Connection_Changes cid ?c1) s = Inr s1"
    using assms(3,4) by (simp add: server_exec_def close_calls_of_def s1_def)
  have e2: "server_exec (Connection_Changes cid c2) s1 = Inr s2"
    using s1(1) c1(1) c2(2) by (simp add: server_exec_def close_calls_of_def s2_def)
  have calls: "close_calls_of cid s = 0" using assms(3,4) by (simp add: close_calls_of_def)
  have "cid \<in> dom (objects s)" using assms(3) by blast
  then have reg: "cid \<in> set (tcp_connect_socketfds s)" "distinct (tcp_connect_socketfds s)"
    using registry_okD(2,7) [OF assms(1)] calls by blast+
  obtain s3 where s3: "run_close_functor cid (s2\<lparr>main_functors := [Close_Connection cid]\<rparr>) = Inr s3"
      "main_functors s3 = [Close_Connection cid]" "tcp_connect_socketfds s3 = remove1 cid (tcp_connect_socketfds s)"
    using reg(1) s2(2) by (simp add: run_close_functor_def transfer_tcp_connections_to_background_thread_def Let_def)
  have e3: "server_exec (Main_Runs 0) s2 = Inr s3" using run_head_close [OF s2(1)] s3(1) by simp
  have "server_exec (Main_Runs 0) s3 = run_close_functor cid (s3\<lparr>main_functors := []\<rparr>)" by (rule run_head_close [OF s3(2)])
  also have "\<dots> = Inl (Fatal ''never reaches here'')"
    using s3(3) reg(2) by (simp add: run_close_functor_def)
  finally have e4: "server_exec (Main_Runs 0) s3 = Inl (Fatal ''never reaches here'')" .
  show ?thesis using c2(1) e1 e2 e3 e4 by (intro exI [of _ c2]) (simp del: One_nat_def)
qed

lemma first_connection:
  defines "s0 \<equiv> projr (server_start (new_tcp_server 0 True None (\<lambda>c. c) False)) :: unit tcp_server"
  shows "registry_ok 1 (projr (new_connection_callback s0)) \<and> main_functors (projr (new_connection_callback s0)) = [] \<and>
    objects (projr (new_connection_callback s0)) 0 =
      Some (0, conn_enable_read (new_connection\<lparr>has_message_callback := True, has_close_callback := True\<rparr>))"
proof -
  have s0: "server_start (new_tcp_server 0 True None (\<lambda>c. c) False) = Inr s0"
    by (simp add: s0_def server_start_def new_tcp_server_def)
  have ok: "setup_ok s0" "registry_ok 0 s0" using started_ok [OF s0] by (simp_all add: quiet_def)
  obtain s1 where s1: "new_connection_callback s0 = Inr s1" "registry_ok (Suc 0) s1"
    using new_connection_callback_ok [OF ok] by auto
  have "main_functors s1 = [] \<and> objects s1 0 = Some (0, conn_enable_read (new_connection\<lparr>has_message_callback := True, has_close_callback := True\<rparr>))"
    using s1(1) by (auto simp: s0_def server_start_def new_tcp_server_def new_connection_callback_def choose_loop_def conn_start_def
        new_connection_def Let_def)
  with s1 show ?thesis by simp
qed

theorem close_then_abort_is_fatal_witness:
  "\<exists>c2. abort_from_event_loop (close_event_callback (conn_enable_read (new_connection\<lparr>has_message_callback := True, has_close_callback := True\<rparr>))) = Inr c2 \<and>
    server_run [Connection_Changes 0 (close_event_callback (conn_enable_read (new_connection\<lparr>has_message_callback := True, has_close_callback := True\<rparr>))),
        Connection_Changes 0 c2, Main_Runs 0, Main_Runs 0]
      (projr (new_connection_callback (projr (server_start (new_tcp_server 0 True None (\<lambda>c. c) False)) :: unit tcp_server))) =
      Inl (Fatal ''never reaches here'')"
  by (rule close_then_abort_is_fatal [where n = 1 and i = 0])
    (use first_connection in \<open>simp_all add: conn_enable_read_def new_connection_def\<close>)

section \<open>Round robin\<close>

lemma counter_value:
  assumes "j < 2 ^ 31"
  shows "unat (scast (of_nat j :: 32 word) :: 64 word) = j"
proof -
  have "sint (of_nat j :: 32 word) = int j"
    using assms by (simp add: sint_uint unsigned_of_nat take_bit_nat_eq_self signed_take_bit_int_eq_self)
  then have "(scast (of_nat j :: 32 word) :: 64 word) = of_nat j" by (simp add: scast_eq)
  then show ?thesis using assms by (simp add: unat_of_nat)
qed

text \<open>The servers that have accepted \<open>j\<close> connections on \<open>n\<close> worker loops.\<close>

definition accepted :: "nat \<Rightarrow> nat \<Rightarrow> 'ctx tcp_server \<Rightarrow> bool" where
  "accepted n j s \<longleftrightarrow> setup_ok s \<and> registry_ok j s \<and> srv_pool_capacity s = n \<and> 0 < n \<and>
     (\<exists>p. srv_pool s = Some p \<and> thread_pool_capacity p = n \<and> worker_loops p = [0..<n] \<and> next_loop_index_counter p = of_nat j)"

lemma accept_one:
  assumes "accepted n j s" "j < 2 ^ 31"
  shows "\<exists>s' c. new_connection_callback s = Inr s' \<and> accepted n (Suc j) s' \<and> objects s' = (objects s)(of_nat j \<mapsto> (j mod n, c))"
proof -
  obtain p where p: "srv_pool s = Some p" "thread_pool_capacity p = n" "worker_loops p = [0..<n]" "next_loop_index_counter p = of_nat j"
      and a: "setup_ok s" "registry_ok j s" "srv_pool_capacity s = n" "0 < n"
    using assms(1) by (auto simp: accepted_def)
  let ?p = "p\<lparr>next_loop_index_counter := of_nat j + 1\<rparr>"
  have "get_next_loop p = Inr (j mod n, ?p)"
    using p a(4) counter_value [OF assms(2)] by (simp add: get_next_loop_def Let_def)
  then have ch: "choose_loop (s\<lparr>tcp_connection_id_counter := x\<rparr>) = Inr (j mod n, s\<lparr>tcp_connection_id_counter := x, srv_pool := Some ?p\<rparr>)" for x
    using p(1) a(3,4) by (simp add: choose_loop_def)
  obtain s' where s': "new_connection_callback s = Inr s'" "setup_ok s'" "registry_ok (Suc j) s'"
    using new_connection_callback_ok [OF a(1,2)] assms(2) by auto
  have "srv_pool_capacity s' = n \<and> srv_pool s' = Some ?p \<and> (\<exists>c. objects s' = (objects s)(of_nat j \<mapsto> (j mod n, c)))"
    using s'(1) registry_okD(3) [OF a(2)] ch a(3)
    by (auto simp: new_connection_callback_def Let_def obind_eq_Inr_iff split: if_splits)
  with s' a(4) p(2,3) show ?thesis by (auto simp: accepted_def)
qed

text \<open>Connections are distributed round robin: when the listening socket of a server that has accepted \<open>j\<close>
  connections on \<open>n\<close> worker loops becomes readable and \<open>k\<close> connections are waiting, at most a thousand, all
  of them are registered under consecutive identifiers, and the one with identifier \<open>i\<close> runs on loop
  \<open>i mod n\<close>; the other connections are left alone.\<close>

theorem connections_round_robin:
  assumes "accepted n j s" "\<not> listen_stopped s" "k \<le> 1000" "j + k \<le> 2 ^ 31"
  shows "\<exists>s'. listen_read_event_callback (replicate k Accepted) s = Inr s' \<and> accepted n (j + k) s' \<and>
    (\<forall>i < j + k. j \<le> i \<longrightarrow> (\<exists>c. objects s' (of_nat i) = Some (i mod n, c))) \<and>
    (\<forall>i < j. objects s' (of_nat i) = objects s (of_nat i))"
proof -
  have "\<exists>s'. accept_loop m (replicate k Accepted) s = Inr s' \<and> accepted n (j + k) s' \<and>
      (\<forall>i < j + k. j \<le> i \<longrightarrow> (\<exists>c. objects s' (of_nat i) = Some (i mod n, c))) \<and>
      (\<forall>i < j. objects s' (of_nat i) = objects s (of_nat i))"
    if "accepted n j s" "k \<le> m" "j + k \<le> 2 ^ 31" for m
    using that
  proof (induction k arbitrary: m j s)
    case 0
    then show ?case by (cases m) auto
  next
    case (Suc k)
    obtain m' where m: "m = Suc m'" using Suc.prems(2) by (cases m) auto
    obtain s1 c where s1: "new_connection_callback s = Inr s1" "accepted n (Suc j) s1" "objects s1 = (objects s)(of_nat j \<mapsto> (j mod n, c))"
      using accept_one [OF Suc.prems(1)] Suc.prems(3) by auto
    obtain s' where s': "accept_loop m' (replicate k Accepted) s1 = Inr s'" "accepted n (Suc j + k) s'"
        "\<forall>i < Suc j + k. Suc j \<le> i \<longrightarrow> (\<exists>c. objects s' (of_nat i) = Some (i mod n, c))"
        "\<forall>i < Suc j. objects s' (of_nat i) = objects s1 (of_nat i)"
      using Suc.IH [OF s1(2), of m'] Suc.prems(2,3) m by auto
    have "(of_nat i :: 64 word) \<noteq> of_nat j" if "i < j" for i
    proof
      assume "(of_nat i :: 64 word) = of_nat j"
      then have "unat (of_nat i :: 64 word) = unat (of_nat j :: 64 word)" by simp
      then show False using that Suc.prems(3) by (simp add: unat_of_nat)
    qed
    then have "\<forall>i < j. objects s' (of_nat i) = objects s (of_nat i)" using s'(4) s1(3) by simp
    moreover have "\<exists>c. objects s' (of_nat i) = Some (i mod n, c)" if "i < j + Suc k" "j \<le> i" for i
      using that s'(3,4) s1(3) by (cases "i = j") auto
    ultimately show ?case using m s1(1) s'(1,2) by simp
  qed
  from this [OF assms(1,3,4)] assms(2) show ?thesis
    by (simp add: listen_read_event_callback_def max_number_of_new_connections_at_a_time_def)
qed

theorem connections_round_robin_witness:
  "\<exists>s' c. listen_read_event_callback (replicate 3 Accepted)
       (projr (server_start (new_tcp_server 2 True None (\<lambda>c. c) False)) :: unit tcp_server) = Inr s' \<and> objects s' 2 = Some (0, c)"
proof -
  let ?s = "projr (server_start (new_tcp_server 2 True None (\<lambda>c. c) False)) :: unit tcp_server"
  have s: "server_start (new_tcp_server 2 True None (\<lambda>c. c) False) = Inr ?s"
    by (simp add: server_start_def new_tcp_server_def new_loop_pool_def)
  have "accepted 2 0 ?s"
    using started_ok [OF s]
    by (simp add: accepted_def quiet_def) (simp add: server_start_def new_tcp_server_def new_loop_pool_def pool_start_def Let_def)
  moreover have "\<not> listen_stopped ?s"
    by (simp add: server_start_def new_tcp_server_def new_loop_pool_def Let_def)
  ultimately obtain s' where s': "listen_read_event_callback (replicate 3 Accepted) ?s = Inr s'"
      "\<forall>i < 0 + 3. 0 \<le> i \<longrightarrow> (\<exists>c. objects s' (of_nat i) = Some (i mod 2, c))"
    using connections_round_robin [of 2 0 ?s 3] by auto
  from s'(2) [rule_format, of 2] s'(1) show ?thesis by auto
qed

end
