(* ===== verification/Server_Application.thy ===== *)
theory Server_Application
  imports Event_Loop Tcp_Server
begin

text \<open>
  Signals (include/signalfd.h, src/signalfd.cc) and how a server program reacts to them (the signal dispatchers of
  example/echo/server and example/http/server): the signal descriptor, the listening socket and the loop's own
  descriptors share the poller of the main loop, and a termination signal takes the server and the loop down.
\<close>

section \<open>Signal sets\<close>

definition SIGHUP :: int where "SIGHUP = 1"
definition SIGINT :: int where "SIGINT = 2"
definition SIGQUIT :: int where "SIGQUIT = 3"
definition SIGKILL :: int where "SIGKILL = 9"
definition SIGTERM :: int where "SIGTERM = 15"
definition SIGSTOP :: int where "SIGSTOP = 19"
definition SIGTSTP :: int where "SIGTSTP = 20"

lemmas signal_defs = SIGHUP_def SIGINT_def SIGQUIT_def SIGKILL_def SIGTERM_def SIGSTOP_def SIGTSTP_def

type_synonym signal_set = "int list"

definition add_signal :: "int \<Rightarrow> signal_set \<Rightarrow> signal_set outcome" where
  "add_signal sig S =
     (if sig = SIGKILL \<or> sig = SIGSTOP then Inl (Fatal ''tried to add SIGKILL and SIGSTOP to a signal set'')
      else Inr (List.insert sig S))"

definition remove_signal :: "int \<Rightarrow> signal_set \<Rightarrow> signal_set" where
  "remove_signal sig S = removeAll sig S"

text \<open>On the signal mask of the calling thread, as \<^verbatim>\<open>sigprocmask\<close> is documented; \<open>r\<close> is its result.\<close>

definition block_signals :: "int \<Rightarrow> signal_set \<Rightarrow> int set \<Rightarrow> int set outcome" where
  "block_signals r S sigmask =
     (if r \<noteq> 0 then Inl (Fatal ''unknown error when blocking signals'') else Inr (sigmask \<union> set S))"

definition unblock_signals :: "int \<Rightarrow> signal_set \<Rightarrow> int set \<Rightarrow> int set outcome" where
  "unblock_signals r S sigmask =
     (if r \<noteq> 0 then Inl (Fatal ''unknown error when unblocking signals'') else Inr (sigmask - set S))"

text \<open>\<open>signalfd\<close> answers flags with a descriptor, or -1 and the value of \<^verbatim>\<open>errno\<close>; no flags stand for the default ones.\<close>

definition SFD_NONBLOCK :: int where "SFD_NONBLOCK = 2048"
definition SFD_CLOEXEC :: int where "SFD_CLOEXEC = 524288"

definition create_signalfd :: "(signal_set \<Rightarrow> int \<Rightarrow> int \<times> int) \<Rightarrow> signal_set \<Rightarrow> int \<Rightarrow> nat outcome" where
  "create_signalfd signalfd S flags =
     (case signalfd S (if flags = 0 then SFD_NONBLOCK + SFD_CLOEXEC else flags) of (fd, errno) \<Rightarrow>
        if fd = - 1 then
          Inl (Fatal (if errno = EINVAL then ''invalid flags are given to create signalfd''
                      else ''failed when trying to create signalfd''))
        else Inr (nat fd))"

text \<open>A signal that was blocked is unblocked by the same set, and no set ever holds the two that cannot be blocked.\<close>

lemma unblock_after_block:
  "block_signals 0 S sigmask = Inr m \<Longrightarrow> unblock_signals 0 S m = Inr (sigmask - set S)"
  by (auto simp: block_signals_def unblock_signals_def)

lemma add_signal_blockable:
  assumes "set S \<inter> {SIGKILL, SIGSTOP} = {}" "add_signal sig S = Inr S'"
  shows "set S' = insert sig (set S)" "set S' \<inter> {SIGKILL, SIGSTOP} = {}"
  using assms by (auto simp: add_signal_def split: if_splits)

section \<open>The signal descriptor\<close>

text \<open>What a read of the descriptor gives: a whole signal, or anything else with the value of \<^verbatim>\<open>errno\<close>.\<close>

datatype signal_read = Got_Signal int | Not_Whole int

definition EAGAIN :: int where "EAGAIN = 11"

fun signalfd_read_event_callback :: "(int \<Rightarrow> 'w \<Rightarrow> 'w outcome) \<Rightarrow> signal_read list \<Rightarrow> 'w \<Rightarrow> 'w outcome" where
  "signalfd_read_event_callback dispatcher [] w = Inl Diverges"
| "signalfd_read_event_callback dispatcher (Got_Signal sig # as) w =
     obind (dispatcher sig w) (signalfd_read_event_callback dispatcher as)"
| "signalfd_read_event_callback dispatcher (Not_Whole errno # as) w =
     (if errno = EAGAIN then Inr w
      else Inl (Fatal ''unknown error occured when trying to read from signalfd''))"

definition signalfd_start :: "bool \<Rightarrow> nat \<Rightarrow> 'f event_loop \<Rightarrow> 'f event_loop outcome" where
  "signalfd_start has_dispatcher fd l =
     (if \<not> has_dispatcher then Inl (Fatal ''missing signal dispatcher'')
      else obind (start_fd fd (loop_poller l)) (\<lambda>ep. Inr (l\<lparr>loop_poller := ep\<rparr>)))"

definition signalfd_stop :: "nat \<Rightarrow> 'f event_loop \<Rightarrow> 'f event_loop outcome" where
  "signalfd_stop fd l = serve (Detach_Fd fd) l"

section \<open>The application\<close>

record ('f, 'ctx) application =
  app_loop :: "'f event_loop"
  app_server :: "'ctx tcp_server"
  signalfd_fd :: nat
  listen_fd :: nat

text \<open>
  While the server stops, the main loop's thread wakes up every second, runs the functors of the main loop and asks
  whether all worker threads can be joined; the answers are a list, and one that runs out is a wait without end.
\<close>

fun await_workers ::
  "('f \<Rightarrow> 'f event_loop \<Rightarrow> loop_request list) \<Rightarrow> bool list \<Rightarrow> 'f event_loop \<Rightarrow> 'f event_loop outcome" where
  "await_workers call [] l = Inl Diverges"
| "await_workers call (joinable # js) l =
     obind (loop_invoke_all_functors call l) (\<lambda>l'. if joinable then Inr l' else await_workers call js l')"

definition stop_application_server ::
  "('f \<Rightarrow> 'f event_loop \<Rightarrow> loop_request list) \<Rightarrow> bool list \<Rightarrow> ('f, 'ctx) application \<Rightarrow> ('f, 'ctx) application outcome" where
  "stop_application_server call js a =
     (if srv_stopped (app_server a) then Inr a
      else obind (server_stop (app_server a)) (\<lambda>srv.
           obind (serve (Detach_Fd (listen_fd a)) (app_loop a)) (\<lambda>l.
           obind (if srv_pool_capacity srv > 0 then await_workers call js l else Inr l) (\<lambda>l'.
             Inr (a\<lparr>app_server := srv, app_loop := l'\<rparr>)))))"

definition reload_server_config :: "('f, 'ctx) application \<Rightarrow> ('f, 'ctx) application" where
  "reload_server_config a = a"

definition signal_dispatcher ::
  "('f \<Rightarrow> 'f event_loop \<Rightarrow> loop_request list) \<Rightarrow> bool list \<Rightarrow> int \<Rightarrow> ('f, 'ctx) application \<Rightarrow> ('f, 'ctx) application outcome" where
  "signal_dispatcher call js sig a =
     (if sig = SIGTSTP then Inr a
      else if sig = SIGHUP then Inr (reload_server_config a)
      else if sig = SIGINT \<or> sig = SIGQUIT \<or> sig = SIGTERM then
        obind (signalfd_stop (signalfd_fd a) (app_loop a)) (\<lambda>l.
        obind (stop_application_server call js (a\<lparr>app_loop := l\<rparr>)) (\<lambda>a'.
          Inr (a'\<lparr>app_loop := loop_ask_to_stop (app_loop a')\<rparr>)))
      else Inl (Fatal ''unknown signal encountered''))"

section \<open>A running and a stopped application\<close>

definition attached :: "('f, 'ctx) application \<Rightarrow> nat set" where
  "attached a = dom (interest (loop_poller (app_loop a)))"

definition fds_known :: "('f, 'ctx) application \<Rightarrow> bool" where
  "fds_known a \<longleftrightarrow>
     signalfd_fd a < length (fds_that_are_listening_on (loop_poller (app_loop a))) \<and>
     listen_fd a < length (fds_that_are_listening_on (loop_poller (app_loop a))) \<and>
     signalfd_fd a \<notin> own_fds (app_loop a) \<and> listen_fd a \<notin> own_fds (app_loop a)"

definition server_running :: "'ctx tcp_server \<Rightarrow> bool" where
  "server_running srv \<longleftrightarrow>
     srv_started srv \<and> \<not> srv_stopped srv \<and>
     (srv_pool_capacity srv > 0 \<longrightarrow> (\<exists>p. srv_pool srv = Some p \<and> pool_started p))"

definition running :: "('f, 'ctx) application \<Rightarrow> bool" where
  "running a \<longleftrightarrow>
     loop_ok (app_loop a) \<and> fds_known a \<and> server_running (app_server a) \<and>
     attached a = {signalfd_fd a, listen_fd a} \<union> own_fds (app_loop a)"

definition stopped :: "('f, 'ctx) application \<Rightarrow> bool" where
  "stopped a \<longleftrightarrow>
     loop_ok (app_loop a) \<and> fds_known a \<and> srv_stopped (app_server a) \<and> \<not> listening (app_server a) \<and>
     attached a = own_fds (app_loop a) \<and> stop_asked (app_loop a)"

text \<open>Detaching a descriptor that is not the loop's own.\<close>

lemma detach_ok:
  assumes "loop_ok l" "fd \<notin> own_fds l" "fd < length (fds_that_are_listening_on (loop_poller l))"
  shows "\<exists>l'. serve (Detach_Fd fd) l = Inr l' \<and> loop_ok l' \<and> kept l l' \<and>
    interest (loop_poller l') = (interest (loop_poller l))(fd := None) \<and>
    length (fds_that_are_listening_on (loop_poller l')) = length (fds_that_are_listening_on (loop_poller l))"
proof -
  have "poller_ok (loop_poller l)" using assms(1) by (simp add: loop_ok_def fds_ok_def)
  from detach_fd_ok [OF this assms(3)] obtain ep where ep: "detach_fd fd (loop_poller l) = Inr ep"
      "interest ep = (interest (loop_poller l))(fd := None)"
      "length (fds_that_are_listening_on ep) = length (fds_that_are_listening_on (loop_poller l))" by blast
  let ?l = "l\<lparr>loop_poller := ep\<rparr>"
  have s: "serve_all [Detach_Fd fd] l = Inr ?l" using ep(1) by simp
  from serve_all_loop_ok [OF s] assms(1,2) have "loop_ok ?l" "kept l ?l" by simp_all
  then show ?thesis using ep by simp
qed

text \<open>Functors that ask nothing of the loop, as those of the registry of connections.\<close>

definition quiet :: "('f \<Rightarrow> 'f event_loop \<Rightarrow> loop_request list) \<Rightarrow> bool" where
  "quiet call \<longleftrightarrow> (\<forall>f s. call f s = [])"

lemma run_each_quiet:
  assumes "quiet call"
  shows "run_each call i fs s = Inr (s\<lparr>ran_log := ran_log s @ map (Pair i) fs\<rparr>)"
  using assms by (induction fs arbitrary: s) (simp_all add: quiet_def)

lemma invoke_queues_quiet:
  assumes "quiet call"
  shows "\<exists>s'. invoke_queues call is s = Inr s' \<and> loop_poller s' = loop_poller s \<and> loop_timers s' = loop_timers s"
proof (induction "is" arbitrary: s)
  case (Cons i "is")
  let ?q = "functor_queues s ! i"
  show ?case
    using Cons.IH [of "s\<lparr>functor_queues := (functor_queues s)[i := ?q\<lparr>bq_queue := []\<rparr>],
      ran_log := ran_log s @ map (Pair i) (bq_queue ?q)\<rparr>"]
    by (simp add: bq_pop_all_def run_each_quiet [OF assms])
qed simp

lemma invoke_all_quiet:
  assumes "quiet call" "loop_ok l"
  shows "\<exists>l'. loop_invoke_all_functors call l = Inr l' \<and> loop_ok l' \<and> own_fds l' = own_fds l \<and> loop_poller l' = loop_poller l \<and>
    (\<forall>i < length (functor_queues l'). bq_queue (functor_queues l' ! i) = [])"
proof -
  obtain l' where l': "loop_invoke_all_functors call l = Inr l'" "loop_poller l' = loop_poller l"
    using invoke_queues_quiet [OF assms(1), of "[0..<length (functor_queues l)]" l] by (auto simp: loop_invoke_all_functors_def)
  have "callbacks_ok (own_fds l) call (\<lambda>_ _ _. [])" using assms(1) by (simp add: callbacks_ok_def quiet_def)
  from invoke_all_ok [OF l'(1) this assms(2)] l' show ?thesis by blast
qed

lemma await_workers_quiet:
  assumes "quiet call" "True \<in> set js"
  shows "loop_ok l \<Longrightarrow> \<exists>l'. await_workers call js l = Inr l' \<and> loop_ok l' \<and> own_fds l' = own_fds l \<and> loop_poller l' = loop_poller l"
  using assms(2)
proof (induction js arbitrary: l)
  case (Cons j js)
  obtain l1 where l1: "loop_invoke_all_functors call l = Inr l1" "loop_ok l1" "own_fds l1 = own_fds l" "loop_poller l1 = loop_poller l"
    using invoke_all_quiet [OF assms(1) Cons.prems(1)] by blast
  then show ?case using Cons.IH [OF l1(2)] Cons.prems(2) by (cases j) auto
qed simp

lemma ask_to_stop_loop_ok:
  assumes "loop_ok l"
  shows "loop_ok (loop_ask_to_stop l)" "own_fds (loop_ask_to_stop l) = own_fds l" "stop_asked (loop_ask_to_stop l)"
    "loop_poller (loop_ask_to_stop l) = loop_poller l"
  using serve_all_loop_ok [of "[Ask_To_Stop]" l "loop_ask_to_stop l"] assms
  by (auto simp: kept_def own_fds_def loop_ask_to_stop_def)

section \<open>Termination signals\<close>

definition terminates :: "int \<Rightarrow> bool" where
  "terminates sig \<longleftrightarrow> sig = SIGINT \<or> sig = SIGQUIT \<or> sig = SIGTERM"

definition handled :: "int \<Rightarrow> bool" where
  "handled sig \<longleftrightarrow> terminates sig \<or> sig = SIGTSTP \<or> sig = SIGHUP"

lemma dispatch_other:
  "handled sig \<Longrightarrow> \<not> terminates sig \<Longrightarrow> signal_dispatcher call js sig a = Inr a"
  by (auto simp: handled_def terminates_def signal_dispatcher_def reload_server_config_def)

lemma dispatch_terminates:
  "terminates sig \<Longrightarrow> signal_dispatcher call js sig a =
     obind (signalfd_stop (signalfd_fd a) (app_loop a)) (\<lambda>l.
     obind (stop_application_server call js (a\<lparr>app_loop := l\<rparr>)) (\<lambda>a'.
       Inr (a'\<lparr>app_loop := loop_ask_to_stop (app_loop a')\<rparr>)))"
  by (auto simp: terminates_def signal_dispatcher_def signal_defs)

lemma server_stop_ok:
  assumes "server_running srv"
  shows "\<exists>srv'. server_stop srv = Inr srv' \<and> srv_stopped srv' \<and> (listen_stopped srv \<longrightarrow> \<not> listening srv \<longrightarrow> \<not> listening srv') \<and>
    (\<not> listen_stopped srv \<longrightarrow> \<not> listening srv') \<and> srv_pool_capacity srv' = srv_pool_capacity srv"
  using assms by (auto simp: server_running_def server_stop_def listen_stop_def Let_def pool_stop_def)

lemma first_termination:
  assumes "running a" "\<not> listen_stopped (app_server a)" "terminates sig" "quiet call" "True \<in> set js"
  shows "\<exists>a'. signal_dispatcher call js sig a = Inr a' \<and> stopped a'"
proof -
  let ?l = "app_loop a"
  have ok: "loop_ok ?l" "fds_known a" "server_running (app_server a)"
      "dom (interest (loop_poller ?l)) = {signalfd_fd a, listen_fd a} \<union> own_fds ?l"
    using assms(1) by (simp_all add: running_def attached_def)
  obtain l1 where l1: "serve (Detach_Fd (signalfd_fd a)) ?l = Inr l1" "loop_ok l1" "kept ?l l1"
      "interest (loop_poller l1) = (interest (loop_poller ?l))(signalfd_fd a := None)"
      "length (fds_that_are_listening_on (loop_poller l1)) = length (fds_that_are_listening_on (loop_poller ?l))"
    using detach_ok [OF ok(1), of "signalfd_fd a"] ok(2) unfolding fds_known_def by blast
  have own1: "own_fds l1 = own_fds ?l" using l1(3) by (simp add: kept_def own_fds_def)
  obtain srv where srv: "server_stop (app_server a) = Inr srv" "srv_stopped srv" "\<not> listening srv"
      "srv_pool_capacity srv = srv_pool_capacity (app_server a)"
    using server_stop_ok [OF ok(3)] assms(2) by blast
  have "listen_fd a \<notin> own_fds l1" "listen_fd a < length (fds_that_are_listening_on (loop_poller l1))"
    using ok(2) own1 l1(5) by (simp_all add: fds_known_def)
  then obtain l2 where l2: "serve (Detach_Fd (listen_fd a)) l1 = Inr l2" "loop_ok l2" "kept l1 l2"
      "interest (loop_poller l2) = (interest (loop_poller l1))(listen_fd a := None)"
      "length (fds_that_are_listening_on (loop_poller l2)) = length (fds_that_are_listening_on (loop_poller l1))"
    using detach_ok [OF l1(2)] by blast
  have own2: "own_fds l2 = own_fds ?l" using l2(3) own1 by (simp add: kept_def own_fds_def)
  obtain l3 where l3: "(if srv_pool_capacity srv > 0 then await_workers call js l2 else Inr l2) = Inr l3" "loop_ok l3"
      "own_fds l3 = own_fds l2" "loop_poller l3 = loop_poller l2"
    using await_workers_quiet [OF assms(4,5) l2(2)] l2(2) by (cases "srv_pool_capacity srv > 0") auto
  let ?a = "a\<lparr>app_server := srv, app_loop := loop_ask_to_stop l3\<rparr>"
  have run: "signal_dispatcher call js sig a = Inr ?a"
    using l1(1) srv(1) l2(1) l3(1) ok(3)
    by (simp add: dispatch_terminates [OF assms(3)] signalfd_stop_def stop_application_server_def server_running_def
        del: serve.simps)
  note ask = ask_to_stop_loop_ok [OF l3(2)]
  have "dom (interest (loop_poller l2)) = own_fds ?l"
    using l1(4) l2(4) ok(2,4) by (auto simp: fds_known_def)
  moreover have "fds_known ?a" using ok(2) ask own2 l3(3,4) l2(5) l1(5) by (simp add: fds_known_def)
  ultimately have "stopped ?a" using ask srv own2 l3(3,4) by (simp add: stopped_def attached_def)
  with run show ?thesis by blast
qed

lemma later_termination:
  assumes "stopped a" "terminates sig"
  shows "\<exists>a'. signal_dispatcher call js sig a = Inr a' \<and> stopped a'"
proof -
  let ?l = "app_loop a"
  have st: "loop_ok ?l" "fds_known a" "srv_stopped (app_server a)" "\<not> listening (app_server a)"
      "dom (interest (loop_poller ?l)) = own_fds ?l" "stop_asked ?l"
    using assms(1) by (simp_all add: stopped_def attached_def)
  obtain l1 where l1: "serve (Detach_Fd (signalfd_fd a)) ?l = Inr l1" "loop_ok l1" "kept ?l l1"
      "interest (loop_poller l1) = (interest (loop_poller ?l))(signalfd_fd a := None)"
      "length (fds_that_are_listening_on (loop_poller l1)) = length (fds_that_are_listening_on (loop_poller ?l))"
    using detach_ok [OF st(1), of "signalfd_fd a"] st(2) unfolding fds_known_def by blast
  have own1: "own_fds l1 = own_fds ?l" using l1(3) by (simp add: kept_def own_fds_def)
  let ?a = "a\<lparr>app_loop := loop_ask_to_stop l1\<rparr>"
  have run: "signal_dispatcher call js sig a = Inr ?a"
    using l1(1) st(3)
    by (simp add: dispatch_terminates [OF assms(2)] signalfd_stop_def stop_application_server_def del: serve.simps)
  note ask = ask_to_stop_loop_ok [OF l1(2)]
  have "dom (interest (loop_poller l1)) = own_fds ?l" using l1(4) st(2,5) by (auto simp: fds_known_def)
  then have "stopped ?a" using ask st own1 l1(5) by (simp add: stopped_def attached_def fds_known_def)
  with run show ?thesis by blast
qed

lemma signals_after_stop:
  "stopped a \<Longrightarrow> \<forall>sig \<in> set sigs. handled sig \<Longrightarrow>
     \<exists>a'. signalfd_read_event_callback (signal_dispatcher call js) (map Got_Signal sigs @ [Not_Whole EAGAIN]) a = Inr a' \<and> stopped a'"
proof (induction sigs arbitrary: a)
  case (Cons sig sigs)
  then show ?case
  proof (cases "terminates sig")
    case True
    then obtain a1 where "signal_dispatcher call js sig a = Inr a1" "stopped a1" using later_termination Cons.prems by blast
    with Cons.IH [of a1] Cons.prems(2) show ?thesis by simp
  qed (simp add: dispatch_other)
qed simp

lemma signals_while_running:
  assumes "quiet call" "True \<in> set js"
  shows "running a \<Longrightarrow> \<not> listen_stopped (app_server a) \<Longrightarrow> \<forall>sig \<in> set sigs. handled sig \<Longrightarrow> \<exists>sig \<in> set sigs. terminates sig \<Longrightarrow>
     \<exists>a'. signalfd_read_event_callback (signal_dispatcher call js) (map Got_Signal sigs @ [Not_Whole EAGAIN]) a = Inr a' \<and> stopped a'"
proof (induction sigs arbitrary: a)
  case (Cons sig sigs)
  then show ?case
  proof (cases "terminates sig")
    case True
    then obtain a1 where "signal_dispatcher call js sig a = Inr a1" "stopped a1"
      using first_termination Cons.prems assms by blast
    with signals_after_stop [of a1 sigs call js] Cons.prems(3) show ?thesis by simp
  qed (simp add: dispatch_other)
qed simp

text \<open>Counting the descriptors of a stopped application: the next test of the loop is passed.\<close>

lemma card_interest:
  assumes "poller_ok ep"
  shows "poller_size ep = card (dom (interest ep))"
proof -
  let ?bs = "fds_that_are_listening_on ep"
  have "dom (interest ep) = {fd. fd < length ?bs \<and> ?bs ! fd}" using assms by (auto simp: poller_ok_def)
  then show ?thesis
    using assms length_filter_conv_card [of id ?bs] by (simp add: poller_ok_def poller_size_def)
qed

lemma stopped_leaves_loop:
  assumes "stopped a" "quiet call" "expire_timers_and_update_alarm body now (loop_timers (app_loop a)) = Inr ts"
  shows "\<exists>l. loop_round call dispatch body [] now (app_loop a) = Inr (True, l)"
proof -
  let ?l = "app_loop a"
  have st: "loop_ok ?l" "dom (interest (loop_poller ?l)) = own_fds ?l" "stop_asked ?l"
    using assms(1) by (simp_all add: stopped_def attached_def)
  have d: "distinct (timerfd_fd ?l # eventfd_fds ?l)" "poller_ok (loop_poller ?l)" "length (functor_queues ?l) = length (eventfd_fds ?l)"
    using st(1) by (simp_all add: loop_ok_def fds_ok_def lamps_ok_def)
  have "card (own_fds ?l) = 1 + length (eventfd_fds ?l)"
    using d(1) distinct_card [of "timerfd_fd ?l # eventfd_fds ?l"] by (simp add: own_fds_def)
  then have "poller_size (loop_poller ?l) = 1 + length (functor_queues ?l)"
    using card_interest [OF d(2)] st(2) d(3) by simp
  moreover obtain l1 where "loop_invoke_all_functors call ?l = Inr l1" "loop_timers l1 = loop_timers ?l"
    using invoke_queues_quiet [OF assms(2), of "[0..<length (functor_queues ?l)]" ?l] by (auto simp: loop_invoke_all_functors_def)
  ultimately show ?thesis using st(3) assms(3) by (simp add: loop_round_def loop_expire_timers_def)
qed

lemma shutdown_waits_for_workers:
  assumes "running a" "\<not> listen_stopped (app_server a)" "terminates sig" "quiet call" "True \<notin> set js"
    and "srv_pool_capacity (app_server a) > 0"
  shows "signal_dispatcher call js sig a = Inl Diverges"
proof -
  let ?l = "app_loop a"
  have ok: "loop_ok ?l" "fds_known a" "server_running (app_server a)"
    using assms(1) by (simp_all add: running_def)
  obtain l1 where l1: "serve (Detach_Fd (signalfd_fd a)) ?l = Inr l1" "loop_ok l1" "kept ?l l1"
      "length (fds_that_are_listening_on (loop_poller l1)) = length (fds_that_are_listening_on (loop_poller ?l))"
    using detach_ok [OF ok(1), of "signalfd_fd a"] ok(2) unfolding fds_known_def by blast
  obtain srv where srv: "server_stop (app_server a) = Inr srv" "srv_pool_capacity srv = srv_pool_capacity (app_server a)"
    using server_stop_ok [OF ok(3)] by blast
  have "listen_fd a \<notin> own_fds l1" "listen_fd a < length (fds_that_are_listening_on (loop_poller l1))"
    using ok(2) l1(3,4) by (simp_all add: fds_known_def kept_def own_fds_def)
  then obtain l2 where l2: "serve (Detach_Fd (listen_fd a)) l1 = Inr l2" "loop_ok l2" using detach_ok [OF l1(2)] by blast
  have "loop_ok l \<Longrightarrow> await_workers call js l = Inl Diverges" for l
    using assms(5)
  proof (induction js arbitrary: l)
    case (Cons j js)
    obtain l1 where "loop_invoke_all_functors call l = Inr l1" "loop_ok l1"
      using invoke_all_quiet [OF assms(4) Cons.prems(1)] by blast
    then show ?case using Cons.IH Cons.prems(2) by simp
  qed simp
  then show ?thesis
    using l1(1) srv l2 ok(3) assms(6)
    by (simp add: dispatch_terminates [OF assms(3)] signalfd_stop_def stop_application_server_def server_running_def
        del: serve.simps)
qed

text \<open>Graceful shutdown: whatever handled signals are pending at once, if one of them is a termination signal and the
  worker threads can be joined at some point, the callback of the signal descriptor returns with the server stopped
  and no longer listening and with nothing but the loop's own descriptors in its poller, however many termination
  signals there were; and at its next test the loop leaves \<^verbatim>\<open>loop()\<close> without waiting for another event.\<close>

theorem graceful_shutdown:
  assumes "running a" "\<not> listen_stopped (app_server a)" "\<forall>sig \<in> set sigs. handled sig" "\<exists>sig \<in> set sigs. terminates sig"
    and "quiet call" "True \<in> set js"
  shows "\<exists>a'. signalfd_read_event_callback (signal_dispatcher call js) (map Got_Signal sigs @ [Not_Whole EAGAIN]) a = Inr a' \<and>
    srv_stopped (app_server a') \<and> \<not> listening (app_server a') \<and> attached a' = own_fds (app_loop a') \<and>
    (\<forall>body dispatch now ts. expire_timers_and_update_alarm body now (loop_timers (app_loop a')) = Inr ts \<longrightarrow>
       (\<exists>l. loop_round call dispatch body [] now (app_loop a') = Inr (True, l)))"
proof -
  obtain a' where a': "signalfd_read_event_callback (signal_dispatcher call js) (map Got_Signal sigs @ [Not_Whole EAGAIN]) a = Inr a'"
      "stopped a'"
    using signals_while_running [OF assms(5,6,1-4)] by blast
  then show ?thesis using stopped_leaves_loop [OF a'(2) assms(5)] by (auto simp: stopped_def)
qed

text \<open>A server with one worker, its listening socket 6 and the signal descriptor 5.\<close>

definition demo_application :: "(nat, unit) application" where
  "demo_application =
     \<lparr>app_loop = demo_loop\<lparr>loop_poller :=
        \<lparr>interest = [3 \<mapsto> EPOLLET OR EVENT_TYPE_READ, 4 \<mapsto> EPOLLET OR EVENT_TYPE_READ, 5 \<mapsto> EPOLLET OR EVENT_TYPE_READ,
                     6 \<mapsto> EPOLLET OR EVENT_TYPE_READ],
         fds_that_are_listening_on = [False, False, False, True, True, True, True], number_of_fds_that_are_listening_on = 4\<rparr>\<rparr>,
      app_server = (new_tcp_server 1 True None id False)\<lparr>srv_started := True, listening := True,
        srv_pool := Some (pool_start \<lparr>thread_pool_capacity = 1, pool_started = False, pool_stopped = False, pool_joined = False,
                worker_loops = [], loops_asked_to_stop = [], next_loop_index_counter = 0\<rparr>)\<rparr>,
      signalfd_fd = 5, listen_fd = 6\<rparr>"

lemma demo_application_running: "running demo_application" "\<not> listen_stopped (app_server demo_application)"
proof -
  let ?a = demo_application
  have "poller_ok (loop_poller (app_loop ?a))"
    by (auto simp: demo_application_def demo_loop_def poller_ok_def nth_Cons' split: if_splits)
  then have "loop_ok (app_loop ?a)"
    by (simp add: loop_ok_def loop_ok_defs) (simp add: demo_application_def demo_loop_def new_blocking_queue_def nth_Cons')
  moreover have "fds_known ?a" by (simp add: fds_known_def own_fds_def demo_application_def demo_loop_def)
  moreover have "server_running (app_server ?a)" by (simp add: server_running_def demo_application_def pool_start_def new_tcp_server_def)
  moreover have "attached ?a = {signalfd_fd ?a, listen_fd ?a} \<union> own_fds (app_loop ?a)"
    by (auto simp: attached_def own_fds_def demo_application_def demo_loop_def)
  ultimately show "running ?a" by (simp add: running_def)
  show "\<not> listen_stopped (app_server ?a)" by (simp add: demo_application_def new_tcp_server_def)
qed

theorem graceful_shutdown_witness:
  "\<exists>a'. signalfd_read_event_callback (signal_dispatcher (\<lambda>_ _. []) [False, True])
       (map Got_Signal [SIGHUP, SIGINT, SIGTERM] @ [Not_Whole EAGAIN]) demo_application = Inr a' \<and>
     srv_stopped (app_server a') \<and> attached a' = own_fds (app_loop a')"
proof -
  have "\<forall>sig \<in> set [SIGHUP, SIGINT, SIGTERM]. handled sig" "\<exists>sig \<in> set [SIGHUP, SIGINT, SIGTERM]. terminates sig"
    by (auto simp: handled_def terminates_def)
  moreover have "quiet (\<lambda>(_ :: nat) _. [])" "True \<in> set [False, True]" by (simp_all add: quiet_def)
  ultimately show ?thesis using graceful_shutdown [OF demo_application_running] by blast
qed

end
