(* ===== verification/Addresses.thy ===== *)
theory Addresses
  imports Server_Prelude
begin

text \<open>
  \<^verbatim>\<open>InetAddress\<close> (include/inet_address.h, src/inet_address.cc) and \<^verbatim>\<open>Socketfd\<close> (src/socketfd.cc). The conversions
  \<^verbatim>\<open>inet_pton\<close> and \<^verbatim>\<open>inet_ntop\<close> of the C library are parameters; the byte order is that of a little-endian machine.
\<close>

unbundle bit_operations_syntax

section \<open>Ports\<close>

definition htons :: "16 word \<Rightarrow> 16 word" where
  "htons w = push_bit 8 w OR drop_bit 8 w"

definition ntohs :: "16 word \<Rightarrow> 16 word" where
  "ntohs w = push_bit 8 w OR drop_bit 8 w"

lemma ntohs_htons [simp]: "ntohs (htons w) = w"
proof (rule bit_word_eqI)
  fix n assume "n < LENGTH(16)"
  then show "bit (ntohs (htons w)) n \<longleftrightarrow> bit w n"
    by (cases "n < 8") (auto simp: ntohs_def htons_def bit_simps not_less)
qed

section \<open>Addresses\<close>

definition AF_INET :: nat where "AF_INET = 2"
definition AF_INET6 :: nat where "AF_INET6 = 10"

datatype inet_address_type = IPv4 | IPv6

text \<open>The union of the two forms of an address: its family, port in network order and IP.\<close>

record 'ip inet_address =
  ss_family :: nat
  sin_port :: "16 word"
  sin_addr :: 'ip

definition family_of :: "inet_address_type \<Rightarrow> nat" where
  "family_of ty = (case ty of IPv4 \<Rightarrow> AF_INET | IPv6 \<Rightarrow> AF_INET6)"

definition new_inet_address ::
  "(nat \<Rightarrow> string \<Rightarrow> 'ip option) \<Rightarrow> string \<Rightarrow> int \<Rightarrow> inet_address_type \<Rightarrow> 'ip inet_address outcome" where
  "new_inet_address pton ip port ty =
     (case pton (family_of ty) ip of
        None \<Rightarrow> Inl (Fatal ''invalid ip given'')
      | Some a \<Rightarrow> Inr \<lparr>ss_family = family_of ty, sin_port = htons (word_of_int port), sin_addr = a\<rparr>)"

definition check_validity :: "'ip inet_address \<Rightarrow> unit outcome" where
  "check_validity a =
     (if ss_family a \<noteq> AF_INET \<and> ss_family a \<noteq> AF_INET6 then Inl (Fatal ''unknown InetAddress protocol'') else Inr ())"

text \<open>From what the kernel reports: copied, or asked for the connection's own or its peer's end.\<close>

definition inet_address_of_sockaddr :: "'ip inet_address \<Rightarrow> 'ip inet_address outcome" where
  "inet_address_of_sockaddr sockaddr = obind (check_validity sockaddr) (\<lambda>_. Inr sockaddr)"

datatype inet_address_direction = LOCAL | PEER

definition inet_address_of_socketfd ::
  "(inet_address_direction \<Rightarrow> nat \<Rightarrow> 'ip inet_address option) \<Rightarrow> nat \<Rightarrow> inet_address_direction \<Rightarrow> 'ip inet_address outcome" where
  "inet_address_of_socketfd get_name fd direction =
     (case get_name direction fd of
        None \<Rightarrow> Inl (Fatal (if direction = LOCAL then ''failed to get local socket address'' else ''failed to get peer socket address''))
      | Some a \<Rightarrow> obind (check_validity a) (\<lambda>_. Inr a))"

definition is_ipv4 :: "'ip inet_address \<Rightarrow> bool" where
  "is_ipv4 a \<longleftrightarrow> ss_family a = AF_INET"

definition get_address_length :: "'ip inet_address \<Rightarrow> nat" where
  "get_address_length a = (if is_ipv4 a then 16 else 28)"

definition get_ip :: "(nat \<Rightarrow> 'ip \<Rightarrow> string) \<Rightarrow> 'ip inet_address \<Rightarrow> string" where
  "get_ip ntop a = (if is_ipv4 a then ntop AF_INET (sin_addr a) else ntop AF_INET6 (sin_addr a))"

definition get_port :: "'ip inet_address \<Rightarrow> int" where
  "get_port a = uint (ntohs (sin_port a))"

definition address_to_string :: "(nat \<Rightarrow> 'ip \<Rightarrow> string) \<Rightarrow> 'ip inet_address \<Rightarrow> string" where
  "address_to_string ntop a = get_ip ntop a @ '':'' @ decimal (nat (get_port a))"

section \<open>Sockets\<close>

definition create_socketfd :: "int \<Rightarrow> nat outcome" where
  "create_socketfd socketfd = (if socketfd = - 1 then Inl (Fatal ''failed to create socketfd'') else Inr (nat socketfd))"

definition get_socketfd_errno :: "int \<Rightarrow> int \<Rightarrow> int outcome" where
  "get_socketfd_errno result saved_errno = (if result < 0 then Inl (Fatal ''getsockopt failed'') else Inr saved_errno)"

section \<open>Round trips\<close>

text \<open>A port survives when it fits 16 bits; any other is cut to its low 16 bits without an error.\<close>

lemma new_address_port:
  "new_inet_address pton ip port ty = Inr a \<Longrightarrow> get_port a = port mod 2 ^ 16"
  by (auto simp: new_inet_address_def get_port_def uint_word_of_int split: option.splits)

text \<open>What the C library prints of the address it read is printed with the port.\<close>

lemma address_text_roundtrip:
  assumes "\<And>af ip a. pton af ip = Some a \<Longrightarrow> ntop af a = ip"
    and "new_inet_address pton ip port ty = Inr a" "0 \<le> port" "port < 2 ^ 16"
  shows "address_to_string ntop a = ip @ '':'' @ decimal (nat port)" "inet_address_of_sockaddr a = Inr a"
    "is_ipv4 a \<longleftrightarrow> ty = IPv4"
proof -
  obtain x where x: "pton (family_of ty) ip = Some x"
      "a = \<lparr>ss_family = family_of ty, sin_port = htons (word_of_int port), sin_addr = x\<rparr>"
    using assms(2) by (auto simp: new_inet_address_def split: option.splits)
  have "get_port a = port" using new_address_port [OF assms(2)] assms(3,4) by simp
  then show "address_to_string ntop a = ip @ '':'' @ decimal (nat port)"
    using assms(1) [OF x(1)] x(2)
    by (cases ty) (simp_all add: address_to_string_def get_ip_def is_ipv4_def family_of_def AF_INET_def AF_INET6_def)
  show "inet_address_of_sockaddr a = Inr a" "is_ipv4 a \<longleftrightarrow> ty = IPv4"
    using x(2)
    by (cases ty; simp add: inet_address_of_sockaddr_def check_validity_def is_ipv4_def family_of_def AF_INET_def AF_INET6_def)+
qed

end
