(* ===== verification/Log_Format.thy ===== *)
theory Log_Format
  imports Server_Prelude "HOL-Library.Signed_Division"
begin

text \<open>
  \<^verbatim>\<open>util::Format\<close> (include/util/format.h): decimal numerals of the eight integer types, hexadecimal
  pointers and base names of paths. Values are integers in the range of their C++ type; the arithmetic on
  them is that of the type, with its overflow.
\<close>

section \<open>Integer types\<close>

datatype int_type = T_short | T_int | T_long | T_long_long | T_ushort | T_uint | T_ulong | T_ulong_long

fun is_signed :: "int_type \<Rightarrow> bool" where
  "is_signed T_short = True" | "is_signed T_int = True" | "is_signed T_long = True" | "is_signed T_long_long = True"
| "is_signed _ = False"

fun int_bits :: "int_type \<Rightarrow> nat" where
  "int_bits T_short = 16" | "int_bits T_ushort = 16" | "int_bits T_int = 32" | "int_bits T_uint = 32"
| "int_bits _ = 64"

definition int_max :: "int_type \<Rightarrow> int" where
  "int_max T = (if is_signed T then 2 ^ (int_bits T - 1) - 1 else 2 ^ int_bits T - 1)"

definition int_min :: "int_type \<Rightarrow> int" where
  "int_min T = (if is_signed T then - (2 ^ (int_bits T - 1)) else 0)"

definition int_in :: "int_type \<Rightarrow> int \<Rightarrow> bool" where
  "int_in T v \<longleftrightarrow> int_min T \<le> v \<and> v \<le> int_max T"

fun log10_floor :: "nat \<Rightarrow> nat" where
  "log10_floor n = (if n < 10 then 0 else 1 + log10_floor (n div 10))"

declare log10_floor.simps [simp del]

definition get_max_number_of_decimal_digits_of_integer_type :: "int_type \<Rightarrow> nat" where
  "get_max_number_of_decimal_digits_of_integer_type T = log10_floor (nat (int_max T)) + 1 + 1"

section \<open>Numerals\<close>

text \<open>
  The value with its sign removed. A \<^verbatim>\<open>short\<close> is negated as an \<^verbatim>\<open>int\<close> and narrowed again; in the wider
  types the negation of the least value is a signed overflow.
\<close>

definition c_negate :: "int_type \<Rightarrow> int \<Rightarrow> int outcome" where
  "c_negate T v =
     (if int_bits T < 32 then Inr ((- v + 2 ^ (int_bits T - 1)) mod 2 ^ int_bits T - 2 ^ (int_bits T - 1))
      else if - v > int_max T then Inl (Undefined ''signed overflow'')
      else Inr (- v))"

text \<open>The loop: the digits, least significant first; division and remainder truncate towards zero.\<close>

function digits_loop :: "int \<Rightarrow> string" where
  "digits_loop x =
     char_of (nat (48 + x smod 10)) # (if x sdiv 10 > 0 then digits_loop (x sdiv 10) else [])"
  by auto

lemma sdiv_10:
  fixes x :: int
  assumes "0 \<le> x"
  shows "x sdiv 10 = x div 10" "x smod 10 = x mod 10"
  using assms by (cases "x = 0"; simp add: signed_divide_int_def signed_modulo_int_def minus_div_mult_eq_mod)+

lemma sdiv_10_less:
  fixes x :: int
  shows "0 < x sdiv 10 \<Longrightarrow> nat (x sdiv 10) < nat x"
proof -
  assume *: "0 < x sdiv 10"
  then have "0 < x"
    by (cases x "0 :: int" rule: linorder_cases) (auto simp: signed_divide_int_def dest: pos_imp_zdiv_nonneg_iff [THEN iffD2, rotated])
  with * show ?thesis by (simp add: sdiv_10)
qed

termination digits_loop
  by (relation "measure nat") (auto dest: sdiv_10_less)

declare digits_loop.simps [simp del]

definition convert_integer_to_decimal_string :: "int_type \<Rightarrow> int \<Rightarrow> string outcome" where
  "convert_integer_to_decimal_string T input_value =
     (let is_negative = is_signed T \<and> input_value < 0 in
      obind (if is_negative then c_negate T input_value else Inr input_value) (\<lambda>x.
        Inr (rev (digits_loop x @ (if is_negative then ''-'' else [])))))"

text \<open>Reading a numeral back.\<close>

fun numeral_value :: "string \<Rightarrow> int" where
  "numeral_value [] = 0"
| "numeral_value (c # cs) =
     (if c = CHR ''-'' then - int (decimal_value 0 cs) else int (decimal_value 0 (c # cs)))"

lemma digits_loop_decimal: "0 \<le> x \<Longrightarrow> rev (digits_loop x) = decimal (nat x)"
proof (induction "nat x" arbitrary: x rule: less_induct)
  case less
  have c: "char_of (nat (48 + x smod 10)) = digit_char (nat x mod 10)"
    using less.prems by (simp add: sdiv_10 digit_char_def nat_add_distrib nat_mod_distrib)
  show ?case
  proof (cases "x < 10")
    case True
    then have "\<not> 0 < x sdiv 10" using less.prems by (simp add: sdiv_10)
    then show ?thesis
      using c True less.prems by (subst digits_loop.simps, subst decimal.simps) (simp add: nat_less_iff)
  next
    case False
    then have pos: "0 < x sdiv 10" using less.prems by (simp add: sdiv_10 pos_imp_zdiv_pos_iff)
    then have "rev (digits_loop (x sdiv 10)) = decimal (nat (x sdiv 10))"
      using less.hyps [OF sdiv_10_less] by simp
    then show ?thesis
      using c False pos less.prems
      by (subst digits_loop.simps, subst decimal.simps) (simp add: sdiv_10 nat_less_iff nat_div_distrib)
  qed
qed

lemma length_decimal: "length (decimal n) = log10_floor n + 1"
  by (induction n rule: decimal.induct) (subst decimal.simps, subst log10_floor.simps, simp)

lemma log10_floor_mono: "m \<le> n \<Longrightarrow> log10_floor m \<le> log10_floor n"
proof (induction n arbitrary: m rule: log10_floor.induct)
  case (1 n)
  show ?case
  proof (cases "n < 10")
    case False
    then show ?thesis
      using 1 by (cases "m < 10") (simp_all add: log10_floor.simps [of m] log10_floor.simps [of n] div_le_mono)
  qed (use 1 in \<open>simp add: log10_floor.simps\<close>)
qed

lemma numeral_value_decimal: "numeral_value (decimal n) = int n"
proof (cases "decimal n")
  case (Cons c cs)
  then have "48 \<le> (of_char c :: nat)" using decimal_digits [of c n] by simp
  then have "c \<noteq> CHR ''-''" by auto
  with Cons show ?thesis using decimal_value_decimal [of n] by simp
qed simp

lemma c_negate_ok:
  assumes "is_signed T" "int_in T v" "v < 0" "v \<noteq> int_min T"
  shows "c_negate T v = Inr (- v)" "- v \<le> int_max T"
  using assms by (cases T; simp add: c_negate_def int_in_def int_min_def int_max_def)+

lemma format_integer_ok:
  assumes "int_in T v" "v \<noteq> int_min T \<or> \<not> is_signed T"
  shows "\<exists>s. convert_integer_to_decimal_string T v = Inr s \<and> numeral_value s = v \<and>
    0 < length s \<and> length s \<le> get_max_number_of_decimal_digits_of_integer_type T"
proof (cases "is_signed T \<and> v < 0")
  case True
  note n = c_negate_ok [of T v]
  then have c: "c_negate T v = Inr (- v)" "- v \<le> int_max T" using assms True by auto
  then have "convert_integer_to_decimal_string T v = Inr (CHR ''-'' # decimal (nat (- v)))"
    using True digits_loop_decimal [of "- v"] by (simp add: convert_integer_to_decimal_string_def)
  moreover have "length (decimal (nat (- v))) \<le> log10_floor (nat (int_max T)) + 1"
    using c(2) by (simp add: length_decimal log10_floor_mono nat_mono)
  ultimately show ?thesis using True by (simp add: get_max_number_of_decimal_digits_of_integer_type_def)
next
  case False
  then have "0 \<le> v" using assms(1) by (auto simp: int_in_def int_min_def split: if_splits)
  then have "convert_integer_to_decimal_string T v = Inr (decimal (nat v))"
    using False digits_loop_decimal [of v] by (auto simp: convert_integer_to_decimal_string_def)
  moreover have "length (decimal (nat v)) \<le> log10_floor (nat (int_max T)) + 1"
    using assms(1) by (simp add: length_decimal log10_floor_mono nat_mono int_in_def)
  ultimately show ?thesis
    using \<open>0 \<le> v\<close> by (simp add: numeral_value_decimal get_max_number_of_decimal_digits_of_integer_type_def)
qed

text \<open>Formatting an integer of any of the eight types, except the least value of a signed type, gives
  a numeral that reads back as the integer and is no longer than the number of characters that the
  type is given, so that the log entry is never written past the space that is checked for.\<close>

theorem integer_format_roundtrip:
  assumes "int_in T v" "v \<noteq> int_min T \<or> \<not> is_signed T"
  shows "\<exists>s. convert_integer_to_decimal_string T v = Inr s \<and> numeral_value s = v \<and>
    0 < length s \<and> length s \<le> get_max_number_of_decimal_digits_of_integer_type T"
  by (rule format_integer_ok [OF assms])

theorem integer_format_roundtrip_witness:
  "\<exists>s. convert_integer_to_decimal_string T_short (- 32767) = Inr s \<and> numeral_value s = - 32767"
  using integer_format_roundtrip [of T_short "- 32767"] by (auto simp: int_in_def int_min_def int_max_def)

text \<open>The least values: a wrong numeral for \<^verbatim>\<open>short\<close>, a signed overflow for the wider types.\<close>

lemma least_short_is_garbled: "convert_integer_to_decimal_string T_short (- 32768) = Inr ''-(''"
  by (simp add: convert_integer_to_decimal_string_def c_negate_def digits_loop.simps signed_divide_int_def
      signed_modulo_int_def) (code_simp)

lemma least_int_overflows:
  "T \<in> {T_int, T_long, T_long_long} \<Longrightarrow> convert_integer_to_decimal_string T (int_min T) = Inl (Undefined ''signed overflow'')"
  by (auto simp: convert_integer_to_decimal_string_def c_negate_def int_min_def int_max_def)

section \<open>Pointers\<close>

definition HEX_ALPHABET_TABLE :: string where
  "HEX_ALPHABET_TABLE = ''0123456789abcdef''"

fun hex_loop :: "nat \<Rightarrow> nat \<Rightarrow> string" where
  "hex_loop 0 value = []"
| "hex_loop (Suc i) value = HEX_ALPHABET_TABLE ! (value mod 16) # hex_loop i (value div 16)"

definition convert_pointer_to_hex_string :: "64 word \<Rightarrow> string" where
  "convert_pointer_to_hex_string pointer = ''0x'' @ rev (hex_loop 16 (unat pointer))"

text \<open>Pointers that print alike are equal, and every pointer takes the 18 characters it is given.\<close>

lemma hex_digit_inj:
  assumes "a < 16" "b < 16" "HEX_ALPHABET_TABLE ! a = HEX_ALPHABET_TABLE ! b"
  shows "a = b"
proof -
  have "distinct HEX_ALPHABET_TABLE" "length HEX_ALPHABET_TABLE = 16" by (simp_all add: HEX_ALPHABET_TABLE_def)
  with assms show ?thesis by (simp add: nth_eq_iff_index_eq)
qed

lemma hex_loop_inj: "hex_loop i v = hex_loop i w \<Longrightarrow> v mod 16 ^ i = w mod 16 ^ i"
proof (induction i arbitrary: v w)
  case (Suc i)
  from Suc.prems have h: "HEX_ALPHABET_TABLE ! (v mod 16) = HEX_ALPHABET_TABLE ! (w mod 16)"
      "hex_loop i (v div 16) = hex_loop i (w div 16)"
    unfolding hex_loop.simps list.inject by blast+
  have "v mod 16 = w mod 16" using hex_digit_inj [OF _ _ h(1)] by simp
  moreover note Suc.IH [OF h(2)]
  ultimately have "v mod 16 = w mod 16" "v div 16 mod 16 ^ i = w div 16 mod 16 ^ i" by blast+
  then show ?case by (simp add: mod_mult2_eq)
qed simp

lemma length_hex_loop [simp]: "length (hex_loop i v) = i"
  by (induction i arbitrary: v) auto

lemma pointer_format_inj:
  assumes "convert_pointer_to_hex_string p = convert_pointer_to_hex_string q"
  shows "p = q"
proof -
  have "unat p mod 16 ^ 16 = unat q mod 16 ^ 16"
    using assms hex_loop_inj [of 16 "unat p" "unat q"] by (simp add: convert_pointer_to_hex_string_def)
  moreover have "unat p < 16 ^ 16" "unat q < 16 ^ 16"
    using unsigned_less [of p] unsigned_less [of q] by simp_all
  ultimately show ?thesis by (metis mod_less unsigned_word_eqI)
qed

lemma length_pointer_format [simp]: "length (convert_pointer_to_hex_string p) = 18"
  by (simp add: convert_pointer_to_hex_string_def)

section \<open>Base names\<close>

fun base_name_from :: "string \<Rightarrow> nat \<Rightarrow> string" where
  "base_name_from path 0 = path"
| "base_name_from path (Suc k) = (if path ! k = CHR ''/'' then drop (Suc k) path else base_name_from path k)"

definition get_base_name_of_path :: "string \<Rightarrow> string" where
  "get_base_name_of_path path = base_name_from path (length path)"

fun base_name_length_from :: "string \<Rightarrow> nat \<Rightarrow> nat \<Rightarrow> nat" where
  "base_name_length_from path 0 total_length = total_length"
| "base_name_length_from path (Suc k) total_length =
     (if path ! k = CHR ''/'' then total_length - Suc k else base_name_length_from path k total_length)"

definition get_base_name_length_of_path :: "string \<Rightarrow> nat" where
  "get_base_name_length_of_path path = base_name_length_from path (length path) (length path)"

lemma base_name_from_append:
  "CHR ''/'' \<notin> set b \<Longrightarrow> base_name_from (a @ b @ c) (length a + length b) = base_name_from (a @ b @ c) (length a)"
proof (induction b arbitrary: c rule: rev_induct)
  case (snoc x xs)
  then have "x \<noteq> CHR ''/''" by auto
  then show ?case using snoc.IH [of "x # c"] snoc.prems by (simp add: nth_append)
qed simp

lemma base_name_of_no_slash: "CHR ''/'' \<notin> set b \<Longrightarrow> get_base_name_of_path b = b"
  using base_name_from_append [of b "[]" "[]"] by (simp add: get_base_name_of_path_def)

lemma base_name_of_slash:
  assumes "CHR ''/'' \<notin> set b"
  shows "get_base_name_of_path (a @ CHR ''/'' # b) = b"
  using base_name_from_append [OF assms, of "a @ ''/''" "[]"] by (simp add: get_base_name_of_path_def)

lemma base_name_cases:
  "(CHR ''/'' \<notin> set path \<and> get_base_name_of_path path = path) \<or>
   (\<exists>a b. path = a @ CHR ''/'' # b \<and> CHR ''/'' \<notin> set b \<and> get_base_name_of_path path = b)"
  using split_list_last [of "CHR ''/''" path] base_name_of_no_slash base_name_of_slash by blast

lemma base_name_length_eq: "k \<le> length path \<Longrightarrow> base_name_length_from path k (length path) = length (base_name_from path k)"
  by (induction k) auto

text \<open>The base name of a path is what follows its last slash, or the whole path when it has none; it
  contains no slash itself, and the length is computed to match.\<close>

theorem base_name_functional:
  "CHR ''/'' \<notin> set (get_base_name_of_path path) \<and>
   (\<exists>a. path = a @ get_base_name_of_path path \<and> (a = [] \<or> last a = CHR ''/'')) \<and>
   get_base_name_length_of_path path = length (get_base_name_of_path path)"
proof -
  have "get_base_name_length_of_path path = length (get_base_name_of_path path)"
    by (simp add: get_base_name_length_of_path_def get_base_name_of_path_def base_name_length_eq)
  moreover have "path = (a @ ''/'') @ b" if "path = a @ CHR ''/'' # b" for a b using that by simp
  ultimately show ?thesis using base_name_cases [of path] by (metis append_Nil last_snoc)
qed

end
