(* ===== verification/Log_Builder.thy ===== *)
theory Log_Builder
  imports Log_Format
begin

text \<open>
  The fixed-size buffer of include/log_buffer.h and \<^verbatim>\<open>LogBuilder\<close> (include/log_builder.h,
  src/log_builder.cc), which assembles one log entry. The date, the thread identifier, the error text and
  the output of \<^verbatim>\<open>%.12g\<close> come from the C library and are arguments.
\<close>

section \<open>Buffers\<close>

text \<open>\<open>buf_bytes\<close> are the bytes before the start of the spare; the rest of the array is indeterminate.\<close>

record log_buffer =
  buf_size :: nat
  buf_bytes :: string

definition LOG_ENTRY_BUFFER_SIZE :: nat where
  "LOG_ENTRY_BUFFER_SIZE = 4000"

definition LOG_CHUNK_BUFFER_SIZE :: nat where
  "LOG_CHUNK_BUFFER_SIZE = 4000000"

definition new_log_buffer :: "nat \<Rightarrow> log_buffer" where
  "new_log_buffer n = \<lparr>buf_size = n, buf_bytes = []\<rparr>"

definition buf_length :: "log_buffer \<Rightarrow> nat" where
  "buf_length b = length (buf_bytes b)"

definition length_of_spare :: "log_buffer \<Rightarrow> nat" where
  "length_of_spare b = size_sub (size_sub (buf_size b) 1) (length (buf_bytes b))"

definition buf_append :: "string \<Rightarrow> log_buffer \<Rightarrow> log_buffer" where
  "buf_append data b =
     (if length data > length_of_spare b then b else b\<lparr>buf_bytes := buf_bytes b @ data\<rparr>)"

definition buf_reset :: "log_buffer \<Rightarrow> log_buffer" where
  "buf_reset b = b\<lparr>buf_bytes := []\<rparr>"

text \<open>
  A conversion writes its text and a terminating zero from the start of the spare on, and the length is
  incremented afterwards by the length of the text.
\<close>

definition buf_fill :: "string \<Rightarrow> log_buffer \<Rightarrow> log_buffer outcome" where
  "buf_fill s b =
     (if length (buf_bytes b) + length s + 1 > buf_size b then Inl (Undefined ''write past the buffer'')
      else Inr (b\<lparr>buf_bytes := buf_bytes b @ s\<rparr>))"

section \<open>The builder\<close>

datatype log_level = TRACE | DEBUG | INFO | WARN | ERROR | FATAL

text \<open>Levels are ordered as they are declared.\<close>

fun level_index :: "log_level \<Rightarrow> nat" where
  "level_index TRACE = 0" | "level_index DEBUG = 1" | "level_index INFO = 2" | "level_index WARN = 3"
| "level_index ERROR = 4" | "level_index FATAL = 5"

lemma level_index_inj: "level_index a = level_index b \<Longrightarrow> a = b"
  by (cases a; cases b) auto

instantiation log_level :: linorder
begin

definition less_eq_log_level :: "log_level \<Rightarrow> log_level \<Rightarrow> bool" where
  "less_eq_log_level a b \<longleftrightarrow> level_index a \<le> level_index b"

definition less_log_level :: "log_level \<Rightarrow> log_level \<Rightarrow> bool" where
  "less_log_level a b \<longleftrightarrow> level_index a < level_index b"

instance
  by standard (auto simp: less_eq_log_level_def less_log_level_def intro: level_index_inj)

end

fun LOG_LEVEL_STRINGS :: "log_level \<Rightarrow> string" where
  "LOG_LEVEL_STRINGS TRACE = ''TRACE''" | "LOG_LEVEL_STRINGS DEBUG = ''DEBUG''"
| "LOG_LEVEL_STRINGS INFO = ''INFO ''" | "LOG_LEVEL_STRINGS WARN = ''WARN ''"
| "LOG_LEVEL_STRINGS ERROR = ''ERROR''" | "LOG_LEVEL_STRINGS FATAL = ''FATAL''"

record log_builder =
  entry_level :: log_level
  entry_buffer :: log_buffer
  source_file_base_name :: "string option"
  line_number :: int
  function_name :: "string option"
  saved_errno :: int

definition log_builder_ctor ::
  "string \<Rightarrow> string \<Rightarrow> log_level \<Rightarrow> string option \<Rightarrow> int \<Rightarrow> string option \<Rightarrow> int \<Rightarrow> log_builder" where
  "log_builder_ctor datetime_string tid_string log_level base_name line fn err =
     (let b0 = new_log_buffer LOG_ENTRY_BUFFER_SIZE;
          b1 = buf_append datetime_string b0;
          b2 = buf_append '' | '' b1;
          b3 = buf_append tid_string b2;
          b4 = buf_append '' | '' b3;
          b5 = buf_append (LOG_LEVEL_STRINGS log_level) b4;
          b6 = buf_append '' | '' b5
      in \<lparr>entry_level = log_level, entry_buffer = b6, source_file_base_name = base_name, line_number = line,
          function_name = fn, saved_errno = err\<rparr>)"

text \<open>The operands of \<^verbatim>\<open><<\<close>; a double comes with the output of \<^verbatim>\<open>%.12g\<close> for it.\<close>

datatype log_item =
    Log_Integer int_type int
  | Log_Double string
  | Log_Bool bool
  | Log_Pointer "64 word"
  | Log_Char char
  | Log_Cstring "string option"
  | Log_String string

definition log_integer :: "int_type \<Rightarrow> int \<Rightarrow> log_buffer \<Rightarrow> log_buffer outcome" where
  "log_integer T i b =
     (if length_of_spare b > get_max_number_of_decimal_digits_of_integer_type T
      then obind (convert_integer_to_decimal_string T i) (\<lambda>s. buf_fill s b)
      else Inr b)"

text \<open>
  \<^verbatim>\<open>snprintf\<close> is given 19 characters, of which it uses 18 for the text and one for the terminating zero, but
  returns the length the whole text would have: a text of 19 characters loses its last one to the zero.
\<close>

definition log_double :: "string \<Rightarrow> log_buffer \<Rightarrow> log_buffer outcome" where
  "log_double s b =
     (if length_of_spare b > 19
      then if length s < 19 then buf_fill s b
           else if length s = 19 then buf_fill (take 18 s @ [CHR 0x00]) b
           else Inl (Undefined ''indeterminate bytes in the entry'')
      else Inr b)"

definition log_pointer :: "64 word \<Rightarrow> log_buffer \<Rightarrow> log_buffer outcome" where
  "log_pointer p b =
     (if length_of_spare b > 18 then buf_fill (convert_pointer_to_hex_string p) b else Inr b)"

definition log_item_to :: "log_item \<Rightarrow> log_buffer \<Rightarrow> log_buffer outcome" where
  "log_item_to x b =
     (case x of
        Log_Integer T i \<Rightarrow> log_integer T i b
      | Log_Double s \<Rightarrow> log_double s b
      | Log_Bool v \<Rightarrow> Inr (buf_append (if v then ''true '' else ''false'') b)
      | Log_Pointer p \<Rightarrow> log_pointer p b
      | Log_Char c \<Rightarrow> Inr (buf_append [c] b)
      | Log_Cstring None \<Rightarrow> Inr b
      | Log_Cstring (Some s) \<Rightarrow> Inr (buf_append (takeWhile (\<lambda>c. c \<noteq> CHR 0x00) s) b)
      | Log_String s \<Rightarrow> Inr (if length s > 0 then buf_append s b else b))"

fun log_items_to :: "log_item list \<Rightarrow> log_buffer \<Rightarrow> log_buffer outcome" where
  "log_items_to [] b = Inr b"
| "log_items_to (x # xs) b = obind (log_item_to x b) (log_items_to xs)"

text \<open>
  The destructor completes the entry. Its result is the entry that is handed to the collector, and
  whether the process is aborted afterwards.
\<close>

definition log_builder_dtor :: "(int \<Rightarrow> string) \<Rightarrow> log_builder \<Rightarrow> (string \<times> bool) outcome" where
  "log_builder_dtor strerror_tl w =
     obind
       (case source_file_base_name w of
          None \<Rightarrow> Inr (entry_buffer w)
        | Some name \<Rightarrow>
            log_integer T_int (line_number w) (buf_append '':'' (buf_append name (buf_append '' | '' (entry_buffer w))))) (\<lambda>b1.
     let b2 = (case function_name w of None \<Rightarrow> b1 | Some name \<Rightarrow> buf_append name (buf_append '' | '' b1)) in
     obind
       (if saved_errno w \<noteq> 0
        then obind (log_item_to (Log_String (strerror_tl (saved_errno w))) (buf_append '' | '' b2)) (\<lambda>b3.
             obind (log_integer T_int (saved_errno w) (buf_append '' (errno='' b3)) (\<lambda>b4. Inr (buf_append '')'' b4)))
        else Inr b2) (\<lambda>b5.
     Inr (buf_bytes (buf_append [LF] b5), entry_level w = FATAL)))"

text \<open>One statement \<^verbatim>\<open>LOG_... << x << y;\<close>, when the level is enabled.\<close>

definition log_statement ::
  "string \<Rightarrow> string \<Rightarrow> (int \<Rightarrow> string) \<Rightarrow> log_level \<Rightarrow> string option \<Rightarrow> int \<Rightarrow> string option \<Rightarrow> int \<Rightarrow> log_item list \<Rightarrow>
   (string \<times> bool) outcome" where
  "log_statement datetime_string tid_string strerror_tl level base_name line fn err xs =
     (let w = log_builder_ctor datetime_string tid_string level base_name line fn err in
      obind (log_items_to xs (entry_buffer w)) (\<lambda>b. log_builder_dtor strerror_tl (w\<lparr>entry_buffer := b\<rparr>)))"

text \<open>The macros: a fatal statement is always executed, another one when its level reaches the mask.\<close>

definition level_enabled :: "log_level \<Rightarrow> log_level \<Rightarrow> bool" where
  "level_enabled log_level_mask level \<longleftrightarrow> level = FATAL \<or> level \<ge> log_level_mask"

definition log_macro ::
  "string \<Rightarrow> string \<Rightarrow> (int \<Rightarrow> string) \<Rightarrow> log_level \<Rightarrow> log_level \<Rightarrow> string \<Rightarrow> int \<Rightarrow> string \<Rightarrow> int option \<Rightarrow> log_item list \<Rightarrow>
   (string \<times> bool) option outcome" where
  "log_macro datetime_string tid_string strerror_tl log_level_mask level path line fn err xs =
     (if \<not> level_enabled log_level_mask level then Inr None
      else
        obind (log_statement datetime_string tid_string strerror_tl level (Some (get_base_name_of_path path)) line
                 (if level = TRACE \<or> level = DEBUG then Some fn else None)
                 (case err of None \<Rightarrow> 0 | Some e \<Rightarrow> e) xs) (\<lambda>r. Inr (Some r)))"

section \<open>Bounds\<close>

text \<open>The size invariant of a buffer of \<open>n\<close> bytes: one byte is always left for the terminating zero.\<close>

definition buf_ok :: "nat \<Rightarrow> log_buffer \<Rightarrow> bool" where
  "buf_ok n b \<longleftrightarrow> buf_size b = n \<and> length (buf_bytes b) < n"

lemma buf_ok_new [simp]: "buf_ok n (new_log_buffer n) \<longleftrightarrow> 0 < n"
  by (simp add: buf_ok_def new_log_buffer_def)

lemma spare_ok: "buf_ok n b \<Longrightarrow> length_of_spare b = n - 1 - length (buf_bytes b)"
  by (auto simp: buf_ok_def length_of_spare_def)

lemma buf_append_ok [simp]: "buf_ok n b \<Longrightarrow> buf_ok n (buf_append s b)"
  using spare_ok [of n b] by (auto simp: buf_ok_def buf_append_def)

lemma buf_fill_ok:
  assumes "buf_ok n b" "length s \<le> length_of_spare b"
  shows "buf_fill s b = Inr (b\<lparr>buf_bytes := buf_bytes b @ s\<rparr>)" "buf_ok n (b\<lparr>buf_bytes := buf_bytes b @ s\<rparr>)"
  using assms spare_ok [of n b] by (auto simp: buf_ok_def buf_fill_def)

text \<open>What is assumed of the operands: no least value of a signed type, and \<^verbatim>\<open>%.12g\<close> gives at most 19 characters.\<close>

fun item_ok :: "log_item \<Rightarrow> bool" where
  "item_ok (Log_Integer T i) \<longleftrightarrow> int_in T i \<and> (i \<noteq> int_min T \<or> \<not> is_signed T)"
| "item_ok (Log_Double s) \<longleftrightarrow> length s \<le> 19"
| "item_ok _ \<longleftrightarrow> True"

text \<open>The text of an operand.\<close>

fun item_text :: "log_item \<Rightarrow> string" where
  "item_text (Log_Integer T i) = (case convert_integer_to_decimal_string T i of Inl _ \<Rightarrow> [] | Inr s \<Rightarrow> s)"
| "item_text (Log_Double s) = (if length s < 19 then s else take 18 s @ [CHR 0x00])"
| "item_text (Log_Bool v) = (if v then ''true '' else ''false'')"
| "item_text (Log_Pointer p) = convert_pointer_to_hex_string p"
| "item_text (Log_Char c) = [c]"
| "item_text (Log_Cstring None) = []"
| "item_text (Log_Cstring (Some s)) = takeWhile (\<lambda>c. c \<noteq> CHR 0x00) s"
| "item_text (Log_String s) = s"

text \<open>
  \<open>extends n s b b'\<close>: the buffer is in order after the step, and \<open>s\<close> has been added to it when there was
  room for \<open>s\<close> and 22 more bytes, more than any conversion checks for.
\<close>

definition extends :: "nat \<Rightarrow> string \<Rightarrow> log_buffer \<Rightarrow> log_buffer \<Rightarrow> bool" where
  "extends n s b b' \<longleftrightarrow>
     buf_ok n b' \<and> (length (buf_bytes b) + length s + 22 < n \<longrightarrow> buf_bytes b' = buf_bytes b @ s)"

lemma extends_refl: "buf_ok n b \<Longrightarrow> extends n [] b b"
  by (simp add: extends_def)

lemma extends_trans: "extends n s b b' \<Longrightarrow> extends n t b' b'' \<Longrightarrow> extends n (s @ t) b b''"
  by (auto simp: extends_def)

lemma extends_append: "buf_ok n b \<Longrightarrow> extends n s b (buf_append s b)"
  using spare_ok [of n b] by (auto simp: extends_def) (auto simp: buf_append_def)

lemma extends_appendI: "buf_ok n b \<Longrightarrow> extends n t (buf_append s b) b' \<Longrightarrow> extends n (s @ t) b b'"
  using extends_trans extends_append by blast

lemma extends_fill: "buf_ok n b \<Longrightarrow> length s \<le> length_of_spare b \<Longrightarrow> \<exists>b'. buf_fill s b = Inr b' \<and> extends n s b b'"
  using buf_fill_ok [of n b s] by (auto simp: extends_def)

lemma extends_skip: "buf_ok n b \<Longrightarrow> \<not> length_of_spare b > k \<Longrightarrow> k \<le> 21 \<Longrightarrow> extends n s b b"
  using spare_ok [of n b] by (auto simp: extends_def)

lemma max_digits_le: "get_max_number_of_decimal_digits_of_integer_type T \<le> 21"
  by (cases T) (simp_all add: get_max_number_of_decimal_digits_of_integer_type_def int_max_def log10_floor.simps)

lemma log_integer_extends:
  assumes "buf_ok n b" "item_ok (Log_Integer T i)"
  shows "\<exists>b'. log_integer T i b = Inr b' \<and> extends n (item_text (Log_Integer T i)) b b'"
proof -
  obtain s where s: "convert_integer_to_decimal_string T i = Inr s" "length s \<le> get_max_number_of_decimal_digits_of_integer_type T"
    using format_integer_ok [of T i] assms(2) by auto
  show ?thesis
  proof (cases "length_of_spare b > get_max_number_of_decimal_digits_of_integer_type T")
    case True
    then show ?thesis using s extends_fill [OF assms(1), of s] by (simp add: log_integer_def)
  next
    case False
    then show ?thesis using s extends_skip [OF assms(1) _ max_digits_le] by (simp add: log_integer_def)
  qed
qed

lemma log_item_extends:
  assumes "buf_ok n b" "item_ok x"
  shows "\<exists>b'. log_item_to x b = Inr b' \<and> extends n (item_text x) b b'"
proof (cases x)
  case (Log_Integer T i)
  then show ?thesis using log_integer_extends assms by (simp add: log_item_to_def)
next
  case (Log_Double s)
  show ?thesis
  proof (cases "length_of_spare b > 19")
    case True
    then show ?thesis using Log_Double assms extends_fill [OF assms(1), of "item_text x"]
      by (auto simp: log_item_to_def log_double_def)
  next
    case False
    then show ?thesis using Log_Double extends_skip [OF assms(1) False] by (simp add: log_item_to_def log_double_def)
  qed
next
  case (Log_Pointer p)
  show ?thesis
  proof (cases "length_of_spare b > 18")
    case True
    then show ?thesis using Log_Pointer extends_fill [OF assms(1), of "item_text x"]
      by (simp add: log_item_to_def log_pointer_def)
  next
    case False
    then show ?thesis using Log_Pointer extends_skip [OF assms(1) False] by (simp add: log_item_to_def log_pointer_def)
  qed
next
  case (Log_Cstring s)
  then show ?thesis using extends_append [OF assms(1)] extends_refl [OF assms(1)]
    by (cases s) (simp_all add: log_item_to_def)
next
  case (Log_String s)
  then show ?thesis using extends_append [OF assms(1), of s] extends_refl [OF assms(1)]
    by (cases s) (simp_all add: log_item_to_def)
qed (use extends_append [OF assms(1)] in \<open>simp_all add: log_item_to_def\<close>)

lemma log_items_extend:
  "buf_ok n b \<Longrightarrow> \<forall>x \<in> set xs. item_ok x \<Longrightarrow> \<exists>b'. log_items_to xs b = Inr b' \<and> extends n (concat (map item_text xs)) b b'"
proof (induction xs arbitrary: b)
  case (Cons x xs)
  obtain b1 where b1: "log_item_to x b = Inr b1" "extends n (item_text x) b b1"
    using log_item_extends Cons.prems by fastforce
  then obtain b2 where "log_items_to xs b1 = Inr b2" "extends n (concat (map item_text xs)) b1 b2"
    using Cons.IH [of b1] Cons.prems by (auto simp: extends_def)
  with b1 extends_trans show ?case by fastforce
qed (simp add: extends_refl)

section \<open>Entries\<close>

definition header_text :: "string \<Rightarrow> string \<Rightarrow> log_level \<Rightarrow> string" where
  "header_text datetime_string tid_string level =
     datetime_string @ '' | '' @ tid_string @ '' | '' @ LOG_LEVEL_STRINGS level @ '' | ''"

definition trailer_text :: "(int \<Rightarrow> string) \<Rightarrow> string option \<Rightarrow> int \<Rightarrow> string option \<Rightarrow> int \<Rightarrow> string" where
  "trailer_text strerror_tl base_name line fn err =
     (case base_name of None \<Rightarrow> [] | Some name \<Rightarrow> '' | '' @ name @ '':'' @ item_text (Log_Integer T_int line)) @
     (case fn of None \<Rightarrow> [] | Some name \<Rightarrow> '' | '' @ name) @
     (if err \<noteq> 0 then '' | '' @ strerror_tl err @ '' (errno='' @ item_text (Log_Integer T_int err) @ '')'' else []) @ [LF]"

lemma extends_ok: "extends n s b b' \<Longrightarrow> buf_ok n b'"
  by (simp add: extends_def)

lemma ctor_extends:
  "extends 4000 (header_text dt tid level) (new_log_buffer LOG_ENTRY_BUFFER_SIZE)
     (entry_buffer (log_builder_ctor dt tid level name line fn err))"
proof -
  have "buf_ok 4000 (new_log_buffer LOG_ENTRY_BUFFER_SIZE)" by (simp add: LOG_ENTRY_BUFFER_SIZE_def)
  then show ?thesis
    unfolding header_text_def log_builder_ctor_def Let_def log_builder.simps
    by (intro extends_appendI extends_append buf_append_ok)
qed

lemma dtor_source_extends:
  assumes "buf_ok n b" "item_ok (Log_Integer T_int line)"
  shows "\<exists>b'. (case name of None \<Rightarrow> Inr b
      | Some name \<Rightarrow> log_integer T_int line (buf_append '':'' (buf_append name (buf_append '' | '' b)))) = Inr b' \<and>
    extends n (case name of None \<Rightarrow> [] | Some name \<Rightarrow> '' | '' @ name @ '':'' @ item_text (Log_Integer T_int line)) b b'"
proof (cases name)
  case (Some f)
  let ?b = "buf_append '':'' (buf_append f (buf_append '' | '' b))"
  have "extends n ('' | '' @ f @ '':'') b ?b"
    using assms(1) by (intro extends_appendI extends_append buf_append_ok)
  then have "\<exists>b'. log_integer T_int line ?b = Inr b' \<and> extends n (('' | '' @ f @ '':'') @ item_text (Log_Integer T_int line)) b b'"
    using log_integer_extends [OF _ assms(2)] extends_trans extends_ok by blast
  with Some show ?thesis by simp
qed (simp add: extends_refl assms(1))

lemma dtor_errno_extends:
  assumes "buf_ok n b" "item_ok (Log_Integer T_int err)"
  shows "\<exists>b'. (if err \<noteq> 0
      then obind (log_item_to (Log_String (strerror_tl err)) (buf_append '' | '' b)) (\<lambda>b3.
           obind (log_integer T_int err (buf_append '' (errno='' b3)) (\<lambda>b4. Inr (buf_append '')'' b4)))
      else Inr b) = Inr b' \<and>
    extends n (if err \<noteq> 0 then '' | '' @ strerror_tl err @ '' (errno='' @ item_text (Log_Integer T_int err) @ '')'' else []) b b'"
proof (cases "err = 0")
  case False
  have e1: "extends n '' | '' b (buf_append '' | '' b)" using extends_append [OF assms(1)] .
  obtain b3 where b3: "log_item_to (Log_String (strerror_tl err)) (buf_append '' | '' b) = Inr b3"
      "extends n (strerror_tl err) (buf_append '' | '' b) b3"
    using log_item_extends [of n _ "Log_String (strerror_tl err)"] extends_ok [OF e1] by auto
  have e3: "extends n '' (errno='' b3 (buf_append '' (errno='' b3)" using extends_append extends_ok [OF b3(2)] .
  obtain b4 where b4: "log_integer T_int err (buf_append '' (errno='' b3) = Inr b4"
      "extends n (item_text (Log_Integer T_int err)) (buf_append '' (errno='' b3) b4"
    using log_integer_extends [OF extends_ok [OF e3] assms(2)] by blast
  have "extends n '')'' b4 (buf_append '')'' b4)" using extends_append extends_ok [OF b4(2)] .
  with e1 b3(2) e3 b4(2) have "extends n ('' | '' @ strerror_tl err @ '' (errno='' @ item_text (Log_Integer T_int err) @ '')'') b (buf_append '')'' b4)"
    by (blast intro: extends_trans)
  with b3(1) b4(1) False show ?thesis by (simp del: item_text.simps append.simps)
qed (simp add: extends_refl assms(1))

lemma dtor_extends:
  assumes "buf_ok n (entry_buffer w)" "item_ok (Log_Integer T_int (line_number w))" "item_ok (Log_Integer T_int (saved_errno w))"
  shows "\<exists>b. log_builder_dtor strerror_tl w = Inr (buf_bytes b, entry_level w = FATAL) \<and>
    extends n (trailer_text strerror_tl (source_file_base_name w) (line_number w) (function_name w) (saved_errno w))
      (entry_buffer w) b"
proof -
  obtain b1 where b1: "(case source_file_base_name w of None \<Rightarrow> Inr (entry_buffer w)
        | Some name \<Rightarrow> log_integer T_int (line_number w) (buf_append '':'' (buf_append name (buf_append '' | '' (entry_buffer w))))) = Inr b1"
      "extends n (case source_file_base_name w of None \<Rightarrow> []
        | Some name \<Rightarrow> '' | '' @ name @ '':'' @ item_text (Log_Integer T_int (line_number w))) (entry_buffer w) b1"
    using dtor_source_extends [OF assms(1,2), of "source_file_base_name w"] by blast
  let ?b2 = "case function_name w of None \<Rightarrow> b1 | Some name \<Rightarrow> buf_append name (buf_append '' | '' b1)"
  have e2: "extends n (case function_name w of None \<Rightarrow> [] | Some name \<Rightarrow> '' | '' @ name) b1 ?b2"
  proof (cases "function_name w")
    case (Some f)
    have "extends n ('' | '' @ f) b1 (buf_append f (buf_append '' | '' b1))"
      using extends_ok [OF b1(2)] by (intro extends_appendI extends_append buf_append_ok)
    with Some show ?thesis by simp
  qed (simp add: extends_refl extends_ok [OF b1(2)])
  obtain b5 where b5: "(if saved_errno w \<noteq> 0
        then obind (log_item_to (Log_String (strerror_tl (saved_errno w))) (buf_append '' | '' ?b2)) (\<lambda>b3.
             obind (log_integer T_int (saved_errno w) (buf_append '' (errno='' b3)) (\<lambda>b4. Inr (buf_append '')'' b4)))
        else Inr ?b2) = Inr b5"
      "extends n (if saved_errno w \<noteq> 0 then '' | '' @ strerror_tl (saved_errno w) @ '' (errno='' @
         item_text (Log_Integer T_int (saved_errno w)) @ '')'' else []) ?b2 b5"
    using dtor_errno_extends [OF extends_ok [OF e2] assms(3), of strerror_tl] by blast
  have eq: "log_builder_dtor strerror_tl w = Inr (buf_bytes (buf_append [LF] b5), entry_level w = FATAL)"
    unfolding log_builder_dtor_def b1(1) obind_Inr Let_def b5(1) ..
  have "extends n [LF] b5 (buf_append [LF] b5)" using extends_append extends_ok [OF b5(2)] .
  with b1(2) e2 b5(2) have "extends n (trailer_text strerror_tl (source_file_base_name w) (line_number w) (function_name w) (saved_errno w))
      (entry_buffer w) (buf_append [LF] b5)"
    unfolding trailer_text_def by (blast intro: extends_trans)
  with eq show ?thesis by blast
qed

text \<open>C38: A log statement whose integer operands are not the least value of a signed type never writes outside
  the buffer of its entry, and the entry it hands to the collector is shorter than the buffer; when 22 bytes
  are left over, the entry is exactly the header, the texts of the operands in order, the source position,
  the function, the error and a newline.\<close>

theorem log_entry_text:
  assumes "\<forall>x \<in> set xs. item_ok x" "item_ok (Log_Integer T_int line)" "item_ok (Log_Integer T_int err)"
  shows "\<exists>e. log_statement dt tid strerror_tl level name line fn err xs = Inr (e, level = FATAL) \<and> length e < 4000 \<and>
    (let text = header_text dt tid level @ concat (map item_text xs) @ trailer_text strerror_tl name line fn err in
     length text + 22 < 4000 \<longrightarrow> e = text)"
proof -
  let ?w = "log_builder_ctor dt tid level name line fn err"
  have c: "extends 4000 (header_text dt tid level) (new_log_buffer LOG_ENTRY_BUFFER_SIZE) (entry_buffer ?w)"
    by (rule ctor_extends)
  obtain b where b: "log_items_to xs (entry_buffer ?w) = Inr b" "extends 4000 (concat (map item_text xs)) (entry_buffer ?w) b"
    using log_items_extend [OF extends_ok [OF c] assms(1)] by blast
  have w: "line_number ?w = line" "saved_errno ?w = err" "source_file_base_name ?w = name" "function_name ?w = fn"
      "entry_level ?w = level"
    by (simp_all add: log_builder_ctor_def Let_def)
  obtain b' where b': "log_builder_dtor strerror_tl (?w\<lparr>entry_buffer := b\<rparr>) = Inr (buf_bytes b', level = FATAL)"
      "extends 4000 (trailer_text strerror_tl name line fn err) b b'"
    using dtor_extends [of 4000 "?w\<lparr>entry_buffer := b\<rparr>" strerror_tl] assms(2,3) extends_ok [OF b(2)] w
    by (auto simp del: item_ok.simps)
  have "extends 4000 (header_text dt tid level @ concat (map item_text xs) @ trailer_text strerror_tl name line fn err)
      (new_log_buffer LOG_ENTRY_BUFFER_SIZE) b'"
    using c b(2) b'(2) by (blast intro: extends_trans)
  with b(1) b'(1) show ?thesis
    by (auto simp: log_statement_def Let_def extends_def buf_ok_def new_log_buffer_def)
qed

theorem log_entry_text_witness:
  "\<exists>e. log_statement ''2024-01-01'' ''17'' (\<lambda>_. ''Broken pipe'') FATAL (Some ''a.cc'') 7 None 32 [Log_Cstring (Some ''send: ''), Log_Bool True] = Inr (e, True) \<and>
     length e < 4000"
  using log_entry_text [of "[Log_Cstring (Some ''send: ''), Log_Bool True]" 7 32 "''2024-01-01''" "''17''" "\<lambda>_. ''Broken pipe''" FATAL
      "Some ''a.cc''" None]
  by (auto simp: int_in_def int_min_def int_max_def)

end
