(* ===== verification/Server_Main.thy ===== *)
theory Server_Main
  imports Server_Application Http_Server Addresses Log_Builder
begin

text \<open>
  How a server program is set up: the listening socket (src/listen_socketfd.cc), \<^verbatim>\<open>TcpServer::start\<close> with its
  descriptors, \<^verbatim>\<open>HttpServer::start\<close>, and the \<^verbatim>\<open>main\<close> of example/echo/server and example/http/server up to the call
  of \<^verbatim>\<open>loop()\<close>. What the kernel answers to the system calls on the way is a record.
\<close>

section \<open>The listening socket\<close>

definition set_socketfd_as_address_reusable :: "int \<Rightarrow> unit outcome" where
  "set_socketfd_as_address_reusable result =
     (if result = - 1 then Inl (Fatal ''failed when setting SO_REUSEADDR to a socketfd'') else Inr ())"

definition bind_socketfd :: "int \<Rightarrow> unit outcome" where
  "bind_socketfd result = (if result = - 1 then Inl (Fatal ''failed when binding a socketfd'') else Inr ())"

definition listen_socketfd :: "int \<Rightarrow> unit outcome" where
  "listen_socketfd result =
     (if result = - 1 then Inl (Fatal ''failed when start listening a socketfd'') else Inr ())"

definition open_spare_fd :: "int \<Rightarrow> int outcome" where
  "open_spare_fd fd = (if fd = - 1 then Inl (Fatal ''unable to open spare fd'') else Inr fd)"

text \<open>The spare descriptor is given up for one connection, which is accepted only to be closed.\<close>

definition drop_connection_using_spare_fd :: "int \<Rightarrow> int \<Rightarrow> int outcome" where
  "drop_connection_using_spare_fd connect_fd reopened =
     (if connect_fd < 0 then Inl (Fatal ''still failed to accept new connections after dropping spare fd'')
      else open_spare_fd reopened)"

definition listen_start :: "bool \<Rightarrow> int \<Rightarrow> pollable_fd \<Rightarrow> event_poller \<Rightarrow> (int \<times> pollable_fd \<times> event_poller) outcome" where
  "listen_start has_new_connection_callback spare d ep =
     (if \<not> has_new_connection_callback then Inl (Fatal ''missing new connection callback'')
      else obind (open_spare_fd spare) (\<lambda>spare_fd.
           obind (enable_read_event (d\<lparr>has_read_callback := True\<rparr>) ep) (\<lambda>(d', ep'). Inr (spare_fd, d', ep'))))"

section \<open>Starting the servers\<close>

record kernel =
  sigprocmask_result :: int
  signalfd_call :: "signal_set \<Rightarrow> int \<Rightarrow> int \<times> int"
  socket_call :: int
  setsockopt_result :: int
  bind_result :: int
  listen_result :: int
  open_dev_null :: int
  eventfd_calls :: "nat list"
  timerfd_call :: nat
  open_file_limits :: "nat \<times> nat"

text \<open>\<^verbatim>\<open>TcpServer::start\<close>: the descriptors; the rest is \<open>server_start\<close>.\<close>

definition start_application_server :: "kernel \<Rightarrow> ('f, 'ctx) application \<Rightarrow> ('f, 'ctx) application outcome" where
  "start_application_server k a =
     (if srv_started (app_server a) then Inr a
      else if \<not> srv_message_callback (app_server a) then Inl (Fatal ''missing message callback'')
      else
        obind (create_socketfd (socket_call k)) (\<lambda>fd.
        obind (set_socketfd_as_address_reusable (setsockopt_result k)) (\<lambda>_.
        obind (bind_socketfd (bind_result k)) (\<lambda>_.
        obind (listen_socketfd (listen_result k)) (\<lambda>_.
        obind (new_pollable_fd (int fd) False) (\<lambda>d.
        obind (listen_start True (open_dev_null k) d (loop_poller (app_loop a))) (\<lambda>(spare_fd, d', ep).
        obind (server_start (app_server a)) (\<lambda>srv.
          Inr (a\<lparr>app_loop := (app_loop a)\<lparr>loop_poller := ep\<rparr>, app_server := srv, listen_fd := fd\<rparr>)))))))))"

text \<open>
  \<^verbatim>\<open>HttpServer::start\<close>: \<open>timeout\<close> is the timeout of connections, \<open>remove_inactive\<close> the functor of its timer and
  \<open>user\<close> the callback registered for successful connections.
\<close>

definition http_server_start ::
  "bool \<Rightarrow> (http_connection \<Rightarrow> http_connection) option \<Rightarrow> int \<Rightarrow> nat \<Rightarrow> int \<Rightarrow> kernel
   \<Rightarrow> ('f, http_parser) application \<Rightarrow> ('f, http_parser) application outcome" where
  "http_server_start has_http_request_callback user timeout remove_inactive now k a =
     (if \<not> has_http_request_callback then Inl (Fatal ''missing http request callback'')
      else
        let srv = (app_server a)\<lparr>srv_connect_success_callback := connect_success_callback_wrapper user,
                                 srv_message_callback := True\<rparr> in
        obind (if timeout < INTERVAL_FOREVER
               then serve (Timer_Request (Run_After now timeout timeout (- 1) remove_inactive)) (app_loop a)
               else Inr (app_loop a)) (\<lambda>l.
          start_application_server k (a\<lparr>app_loop := l, app_server := srv\<rparr>)))"

section \<open>The programs\<close>

record log_settings =
  log_base_name :: string
  need_output_directly_to_terminal :: bool
  log_level_mask :: log_level

record ('f, 'ctx) process =
  signal_mask :: "int set"
  listened_signals :: signal_set
  log_settings :: log_settings
  app :: "('f, 'ctx) application"

fun add_signals :: "int list \<Rightarrow> signal_set \<Rightarrow> signal_set outcome" where
  "add_signals [] S = Inr S"
| "add_signals (sig # sigs) S = obind (add_signal sig S) (add_signals sigs)"

text \<open>
  The beginning of the programs, on a process with signal mask \<open>sigmask\<close>: signals, the loop, the address and the
  signal descriptor. \<open>n\<close> is the number of functor queues and \<open>limit\<close> the limit of open files.
\<close>

definition begin_program ::
  "kernel \<Rightarrow> (nat \<Rightarrow> string \<Rightarrow> 'ip option) \<Rightarrow> nat \<Rightarrow> nat \<Rightarrow> nat \<Rightarrow> int \<Rightarrow> int set
   \<Rightarrow> (int set \<times> signal_set \<times> nat \<times> 'f event_loop) outcome" where
  "begin_program k pton n limit yell now sigmask =
     obind (add_signals [SIGHUP, SIGINT, SIGQUIT, SIGTERM, SIGTSTP] []) (\<lambda>S.
     obind (block_signals (sigprocmask_result k) S sigmask) (\<lambda>sigmask'.
     obind (new_event_loop limit (take n (eventfd_calls k)) (timerfd_call k) yell now) (\<lambda>l.
     obind (new_inet_address pton ''127.0.0.1'' 8080 IPv4) (\<lambda>server_address.
     obind (create_signalfd (signalfd_call k) S 0) (\<lambda>sfd.
     obind (signalfd_start True sfd l) (\<lambda>l'. Inr (sigmask', S, sfd, l')))))))"

text \<open>For the servers, the capacity of the thread pool is the number of queues. The listening socket is not known yet.\<close>

definition set_up ::
  "kernel \<Rightarrow> (nat \<Rightarrow> string \<Rightarrow> 'ip option) \<Rightarrow> nat \<Rightarrow> nat \<Rightarrow> nat \<Rightarrow> int \<Rightarrow> log_settings \<Rightarrow> 'ctx tcp_server \<Rightarrow> int set
   \<Rightarrow> ('f, 'ctx) process outcome" where
  "set_up k pton n limit yell now settings srv sigmask =
     obind (begin_program k pton n limit yell now sigmask) (\<lambda>(sigmask', S, sfd, l).
       Inr \<lparr>signal_mask = sigmask', listened_signals = S, log_settings = settings,
            app = \<lparr>app_loop = l, app_server = srv, signalfd_fd = sfd, listen_fd = 0\<rparr>\<rparr>)"

definition echo_main ::
  "kernel \<Rightarrow> (nat \<Rightarrow> string \<Rightarrow> 'ip option) \<Rightarrow> nat \<Rightarrow> int \<Rightarrow> bool \<Rightarrow> int set \<Rightarrow> ('f, 'ctx) process outcome" where
  "echo_main k pton yell now transfer sigmask =
     obind (set_up k pton 1 (fst (open_file_limits k)) yell now
              \<lparr>log_base_name = ''echo-server'', need_output_directly_to_terminal = False, log_level_mask = FATAL\<rparr>
              (new_tcp_server 1 True None id transfer) sigmask) (\<lambda>p.
     obind (start_application_server k (app p)) (\<lambda>a. Inr (p\<lparr>app := a\<rparr>)))"

text \<open>
  \<open>argv\<close> are the arguments after the name of the program; \<open>benchmark\<close> tells whether it was built for benchmarking.
  More than one argument ends the program.
\<close>

definition http_main ::
  "bool \<Rightarrow> string list \<Rightarrow> kernel \<Rightarrow> (nat \<Rightarrow> string \<Rightarrow> 'ip option) \<Rightarrow> nat \<Rightarrow> nat \<Rightarrow> int \<Rightarrow> bool \<Rightarrow> int set
   \<Rightarrow> ('f, http_parser) process outcome" where
  "http_main benchmark argv k pton yell remove_inactive now transfer sigmask =
     (if length argv > 1 then Inl (Fatal ''Usage: server [log_file_base_name]'')
      else
        let log_file_base_name = (case argv of [] \<Rightarrow> ''http-server'' | name # _ \<Rightarrow> name);
            limits = set_limit_of_max_number_of_opened_file_descriptors 60000 (open_file_limits k);
            timeout = (if benchmark then INTERVAL_FOREVER else 15 * SECOND) in
        obind (set_up k pton 4 (fst limits) yell now
                 \<lparr>log_base_name = log_file_base_name, need_output_directly_to_terminal = False,
                  log_level_mask = (if benchmark then FATAL else INFO)\<rparr>
                 (new_tcp_server 4 False None id transfer) sigmask) (\<lambda>p.
        obind (http_server_start True (Some id) timeout remove_inactive now k (app p)) (\<lambda>a. Inr (p\<lparr>app := a\<rparr>))))"

section \<open>What a started server has registered\<close>

text \<open>The system calls return descriptors that are not open yet.\<close>

definition fresh_fds :: "kernel \<Rightarrow> bool" where
  "fresh_fds k \<longleftrightarrow>
     (\<forall>S flags. distinct (timerfd_call k # eventfd_calls k @ [nat (fst (signalfd_call k S flags)), nat (socket_call k)]))"

lemma register_known:
  assumes "register_event_for_fd fd ev ep = Inr ep'" "poller_ok ep"
  shows "poller_ok ep'" "interest ep' = (interest ep)(fd \<mapsto> ev)" "fd < length (fds_that_are_listening_on ep')"
    "length (fds_that_are_listening_on ep') = length (fds_that_are_listening_on ep)"
proof -
  have fd: "fd < length (fds_that_are_listening_on ep)" using assms(1) by (auto simp: register_event_for_fd_def split: if_splits)
  from register_event_ok [OF assms(2) this, of ev] assms(1) fd
  show "poller_ok ep'" "interest ep' = (interest ep)(fd \<mapsto> ev)" "fd < length (fds_that_are_listening_on ep')"
    "length (fds_that_are_listening_on ep') = length (fds_that_are_listening_on ep)" by auto
qed

lemma listen_start_registers:
  assumes "new_pollable_fd (int fd) False = Inr d" "listen_start True spare d ep = Inr (spare_fd, d', ep')"
  shows "register_event_for_fd fd EVENT_TYPE_READ ep = Inr ep'"
  using assms
  by (auto simp: new_pollable_fd_def listen_start_def enable_read_event_def register_event_def obind_eq_Inr_iff Let_def)

lemma server_start_running:
  assumes "server_start srv = Inr srv'" "\<not> srv_started srv" "\<not> srv_stopped srv" "\<not> listen_stopped srv"
  shows "server_running srv'" "\<not> listen_stopped srv'"
  using assms
  by (auto simp: server_start_def server_running_def new_loop_pool_def pool_start_def Let_def obind_eq_Inr_iff split: if_splits)

text \<open>Starting the server on a loop that listens to its own descriptors and to the signals.\<close>

lemma start_runs:
  assumes "start_application_server k a = Inr a'" "between_rounds (app_loop a)"
    and "\<not> srv_started (app_server a)" "\<not> srv_stopped (app_server a)" "\<not> listen_stopped (app_server a)"
    and "attached a = insert (signalfd_fd a) (own_fds (app_loop a))" "signalfd_fd a \<notin> own_fds (app_loop a)"
    and "signalfd_fd a < length (fds_that_are_listening_on (loop_poller (app_loop a)))"
    and "nat (socket_call k) \<notin> own_fds (app_loop a)"
  shows "running a'" "\<not> listen_stopped (app_server a')" "between_rounds (app_loop a')"
proof -
  obtain fd d sp d' ep srv where r: "create_socketfd (socket_call k) = Inr fd" "new_pollable_fd (int fd) False = Inr d"
      "listen_start True (open_dev_null k) d (loop_poller (app_loop a)) = Inr (sp, d', ep)"
      "server_start (app_server a) = Inr srv"
      "a' = a\<lparr>app_loop := (app_loop a)\<lparr>loop_poller := ep\<rparr>, app_server := srv, listen_fd := fd\<rparr>"
    using assms(1,3) by (auto simp: start_application_server_def obind_eq_Inr_iff split: if_splits)
  let ?l = "app_loop a"
  have fd: "fd = nat (socket_call k)" using r(1) by (auto simp: create_socketfd_def split: if_splits)
  have ok: "loop_ok ?l" "\<not> eventfd_flag ?l" using assms(2) by (simp_all add: between_rounds_def)
  then have "poller_ok (loop_poller ?l)" by (simp add: loop_ok_def fds_ok_def)
  note reg = register_known [OF listen_start_registers [OF r(2,3)] this]
  have "serve_all [Register_Fd fd EVENT_TYPE_READ] ?l = Inr (?l\<lparr>loop_poller := ep\<rparr>)"
    using listen_start_registers [OF r(2,3)] by simp
  then have l: "loop_ok (?l\<lparr>loop_poller := ep\<rparr>)"
    using serve_all_loop_ok [of "[Register_Fd fd EVENT_TYPE_READ]" ?l "?l\<lparr>loop_poller := ep\<rparr>"] ok(1) assms(9) fd by simp
  have own: "own_fds (app_loop a') = own_fds ?l" using r(5) by (simp add: own_fds_def)
  have "fds_known a'" "attached a' = {signalfd_fd a', listen_fd a'} \<union> own_fds (app_loop a')"
    using r(5) reg(2-4) own assms(6-9) fd by (auto simp: fds_known_def attached_def)
  then show "running a'"
    using l server_start_running(1) [OF r(4) assms(3-5)] r(5) by (simp add: running_def)
  show "\<not> listen_stopped (app_server a')" using server_start_running(2) [OF r(4) assms(3-5)] r(5) by simp
  show "between_rounds (app_loop a')" using l ok(2) r(5) by (simp add: between_rounds_def)
qed

lemma five_signals:
  "add_signals [SIGHUP, SIGINT, SIGQUIT, SIGTERM, SIGTSTP] [] = Inr S \<Longrightarrow> set S = {sig. handled sig}"
  by (auto simp: add_signal_def signal_defs handled_def terminates_def obind_eq_Inr_iff split: if_splits)

lemma begin_program_ok:
  fixes l' :: "'f event_loop"
  assumes "begin_program k pton n limit yell now sigmask = Inr (sigmask', S, sfd, l')" "fresh_fds k" "0 < n"
    "n \<le> length (eventfd_calls k)"
  shows "between_rounds l'" "dom (interest (loop_poller l')) = insert sfd (own_fds l')" "sfd \<notin> own_fds l'"
    "sfd < length (fds_that_are_listening_on (loop_poller l'))" "nat (socket_call k) \<notin> own_fds l'"
    "set S = {sig. handled sig}" "{sig. handled sig} \<subseteq> sigmask'" "own_fds l' = set (timerfd_call k # take n (eventfd_calls k))"
proof -
  obtain l where r: "add_signals [SIGHUP, SIGINT, SIGQUIT, SIGTERM, SIGTSTP] [] = Inr S"
      "block_signals (sigprocmask_result k) S sigmask = Inr sigmask'"
      "new_event_loop limit (take n (eventfd_calls k)) (timerfd_call k) yell now = Inr (l :: 'f event_loop)"
      "create_signalfd (signalfd_call k) S 0 = Inr sfd" "signalfd_start True sfd l = Inr l'"
    using assms(1) by (auto simp: begin_program_def obind_eq_Inr_iff simp del: add_signals.simps)
  have sfd: "sfd = nat (fst (signalfd_call k S (SFD_NONBLOCK + SFD_CLOEXEC)))"
    using r(4) by (auto simp: create_signalfd_def split: prod.splits if_splits)
  let ?fds = "take n (eventfd_calls k)"
  have fresh: "distinct (timerfd_call k # eventfd_calls k @ [sfd, nat (socket_call k)])"
    using assms(2) sfd by (simp add: fresh_fds_def)
  then have d: "distinct (timerfd_call k # ?fds)" "?fds \<noteq> []" "sfd \<notin> set (timerfd_call k # ?fds)"
      "nat (socket_call k) \<notin> set (timerfd_call k # ?fds)"
    using assms(3,4) by (auto simp: distinct_take dest: in_set_takeD)
  note new = new_event_loop_ok [OF r(3) d(1,2)]
  have own: "own_fds l = set (timerfd_call k # ?fds)" using new by (simp add: own_fds_def)
  have poller: "poller_ok (loop_poller l)" using new by (simp add: between_rounds_def loop_ok_def fds_ok_def)
  obtain ep where ep: "register_event_for_fd sfd (EPOLLET OR EVENT_TYPE_READ) (loop_poller l) = Inr ep" "l' = l\<lparr>loop_poller := ep\<rparr>"
    using r(5) by (auto simp: signalfd_start_def start_fd_registers obind_eq_Inr_iff)
  note reg = register_known [OF ep(1) poller]
  have dom: "dom (interest (loop_poller l)) = own_fds l"
  proof -
    obtain ep1 where e: "start_fds ?fds (new_event_poller limit) = Inr ep1" "start_fd (timerfd_call k) ep1 = Inr (loop_poller l)"
      using r(3) by (auto simp: new_event_loop_def obind_eq_Inr_iff)
    have "poller_ok (new_event_poller limit)" by (simp add: poller_ok_def new_event_poller_def)
    from start_fds_Inr [OF e(1) this] have e1: "poller_ok ep1" "dom (interest ep1) = set ?fds"
      by (auto simp: new_event_poller_def split: if_splits)
    from start_fd_Inr [OF e(2) e1(1)] e1(2) own show ?thesis by simp
  qed
  have "serve_all [Register_Fd sfd (EPOLLET OR EVENT_TYPE_READ)] l = Inr l'" using ep by simp
  then have "loop_ok l'"
    using serve_all_loop_ok [of "[Register_Fd sfd (EPOLLET OR EVENT_TYPE_READ)]" l l'] new d(3) own by (simp add: between_rounds_def)
  then show "between_rounds l'" using new ep(2) by (simp add: between_rounds_def)
  show own': "own_fds l' = set (timerfd_call k # take n (eventfd_calls k))" using own ep(2) by (simp add: own_fds_def)
  then show "dom (interest (loop_poller l')) = insert sfd (own_fds l')" using dom own reg(2) ep(2) by auto
  show "sfd \<notin> own_fds l'" "nat (socket_call k) \<notin> own_fds l'" using own' d(3,4) by simp_all
  show "sfd < length (fds_that_are_listening_on (loop_poller l'))" using reg(3) ep(2) by simp
  show "set S = {sig. handled sig}" "{sig. handled sig} \<subseteq> sigmask'"
    using five_signals [OF r(1)] r(2) by (auto simp: block_signals_def split: if_splits)
qed

lemma set_up_ok:
  fixes p :: "('f, 'ctx) process"
  assumes "set_up k pton n limit yell now settings srv sigmask = Inr p" "fresh_fds k" "0 < n" "n \<le> length (eventfd_calls k)"
  shows "between_rounds (app_loop (app p))" "attached (app p) = insert (signalfd_fd (app p)) (own_fds (app_loop (app p)))"
    "signalfd_fd (app p) \<notin> own_fds (app_loop (app p))"
    "signalfd_fd (app p) < length (fds_that_are_listening_on (loop_poller (app_loop (app p))))"
    "nat (socket_call k) \<notin> own_fds (app_loop (app p))" "app_server (app p) = srv" "log_settings p = settings"
    "set (listened_signals p) = {sig. handled sig}" "{sig. handled sig} \<subseteq> signal_mask p"
proof -
  obtain sigmask' S sfd and l :: "'f event_loop" where b: "begin_program k pton n limit yell now sigmask = Inr (sigmask', S, sfd, l)"
      "p = \<lparr>signal_mask = sigmask', listened_signals = S, log_settings = settings,
            app = \<lparr>app_loop = l, app_server = srv, signalfd_fd = sfd, listen_fd = 0\<rparr>\<rparr>"
    using assms(1) by (auto simp: set_up_def obind_eq_Inr_iff)
  show "between_rounds (app_loop (app p))" "attached (app p) = insert (signalfd_fd (app p)) (own_fds (app_loop (app p)))"
    "signalfd_fd (app p) \<notin> own_fds (app_loop (app p))"
    "signalfd_fd (app p) < length (fds_that_are_listening_on (loop_poller (app_loop (app p))))"
    "nat (socket_call k) \<notin> own_fds (app_loop (app p))" "app_server (app p) = srv" "log_settings p = settings"
    "set (listened_signals p) = {sig. handled sig}" "{sig. handled sig} \<subseteq> signal_mask p"
    using begin_program_ok [OF b(1) assms(2-4)] b(2) by (simp_all add: attached_def)
qed

text \<open>Asking for the inactivity timer changes the timers only.\<close>

lemma timer_request_frame:
  assumes "serve (Timer_Request c) l = Inr l'" "between_rounds l"
  shows "between_rounds l'" "own_fds l' = own_fds l" "loop_poller l' = loop_poller l"
proof -
  have s: "serve_all [Timer_Request c] l = Inr l'" using assms(1) by simp
  have "loop_ok l' \<and> kept l l'" using serve_all_loop_ok [OF s] assms(2) by (simp add: between_rounds_def)
  then show "between_rounds l'" "own_fds l' = own_fds l" using assms(2) by (auto simp: between_rounds_def kept_def own_fds_def)
  show "loop_poller l' = loop_poller l" using assms(1) by (auto simp: obind_eq_Inr_iff)
qed

lemma http_main_running:
  fixes p :: "('f, http_parser) process"
  assumes "http_main benchmark argv k pton yell remove_inactive now transfer sigmask = Inr p" "fresh_fds k"
    "4 \<le> length (eventfd_calls k)"
  shows "running (app p)" "\<not> listen_stopped (app_server (app p))" "between_rounds (app_loop (app p))"
    "set (listened_signals p) = {sig. handled sig}" "{sig. handled sig} \<subseteq> signal_mask p"
proof -
  let ?limits = "set_limit_of_max_number_of_opened_file_descriptors 60000 (open_file_limits k)"
  let ?timeout = "if benchmark then INTERVAL_FOREVER else 15 * SECOND"
  obtain p0 :: "('f, http_parser) process" and settings a where r:
      "set_up k pton 4 (fst ?limits) yell now settings (new_tcp_server 4 False None id transfer) sigmask = Inr p0"
      "http_server_start True (Some id) ?timeout remove_inactive now k (app p0) = Inr a" "p = p0\<lparr>app := a\<rparr>"
    using assms(1) by (auto simp: http_main_def Let_def obind_eq_Inr_iff split: if_splits)
  note up = set_up_ok [OF r(1) assms(2) _ assms(3), simplified]
  let ?l = "app_loop (app p0)"
  let ?srv = "(app_server (app p0))\<lparr>srv_connect_success_callback := connect_success_callback_wrapper (Some id), srv_message_callback := True\<rparr>"
  obtain l where l: "between_rounds l" "own_fds l = own_fds ?l" "loop_poller l = loop_poller ?l"
      "start_application_server k ((app p0)\<lparr>app_loop := l, app_server := ?srv\<rparr>) = Inr a"
  proof (cases "?timeout < INTERVAL_FOREVER")
    case True
    then obtain l where "serve (Timer_Request (Run_After now ?timeout ?timeout (- 1) remove_inactive)) ?l = Inr l"
        "start_application_server k ((app p0)\<lparr>app_loop := l, app_server := ?srv\<rparr>) = Inr a"
      using r(2) by (auto simp: http_server_start_def obind_eq_Inr_iff Let_def simp del: serve.simps)
    with timer_request_frame [OF this(1) up(1)] that show ?thesis by blast
  next
    case False
    then show ?thesis using r(2) that [OF up(1)] by (simp add: http_server_start_def Let_def)
  qed
  note start = start_runs [OF l(4)]
  have "\<not> srv_started ?srv" "\<not> srv_stopped ?srv" "\<not> listen_stopped ?srv" using up(6) by (simp_all add: new_tcp_server_def)
  then show "running (app p)" "\<not> listen_stopped (app_server (app p))" "between_rounds (app_loop (app p))"
    using start l up r(3) by (simp_all add: attached_def)
  show "set (listened_signals p) = {sig. handled sig}" "{sig. handled sig} \<subseteq> signal_mask p" using up r(3) by simp_all
qed

lemma echo_main_running:
  fixes p :: "('f, 'ctx) process"
  assumes "echo_main k pton yell now transfer sigmask = Inr p" "fresh_fds k" "1 \<le> length (eventfd_calls k)"
  shows "running (app p)" "\<not> listen_stopped (app_server (app p))" "between_rounds (app_loop (app p))"
    "set (listened_signals p) = {sig. handled sig}" "{sig. handled sig} \<subseteq> signal_mask p"
proof -
  obtain p0 :: "('f, 'ctx) process" and settings a where r:
      "set_up k pton 1 (fst (open_file_limits k)) yell now settings (new_tcp_server 1 True None id transfer) sigmask = Inr p0"
      "start_application_server k (app p0) = Inr a" "p = p0\<lparr>app := a\<rparr>"
    using assms(1) by (auto simp: echo_main_def obind_eq_Inr_iff)
  note up = set_up_ok [OF r(1) assms(2) _ assms(3), simplified]
  have "\<not> srv_started (app_server (app p0))" "\<not> srv_stopped (app_server (app p0))" "\<not> listen_stopped (app_server (app p0))"
    using up(6) by (simp_all add: new_tcp_server_def)
  note start = start_runs [OF r(2) up(1) this up(2-5)]
  show "running (app p)" "\<not> listen_stopped (app_server (app p))" "between_rounds (app_loop (app p))"
    using start r(3) by simp_all
  show "set (listened_signals p) = {sig. handled sig}" "{sig. handled sig} \<subseteq> signal_mask p" using up r(3) by simp_all
qed

section \<open>Until the signals come\<close>

text \<open>With a thread pool, callbacks of the main loop ask for timers or to stop, never for other descriptors.\<close>

fun no_fds :: "loop_request \<Rightarrow> bool" where
  "no_fds (Register_Fd fd ev) \<longleftrightarrow> False"
| "no_fds (Detach_Fd fd) \<longleftrightarrow> False"
| "no_fds _ \<longleftrightarrow> True"

definition asks_no_fds ::
  "('f \<Rightarrow> 'f event_loop \<Rightarrow> loop_request list) \<Rightarrow> (nat \<Rightarrow> events \<Rightarrow> 'f event_loop \<Rightarrow> loop_request list) \<Rightarrow> bool" where
  "asks_no_fds call dispatch \<longleftrightarrow> (\<forall>f s. list_all no_fds (call f s)) \<and> (\<forall>fd ev s. list_all no_fds (dispatch fd ev s))"

lemma asks_no_fds_callbacks_ok: "asks_no_fds call dispatch \<Longrightarrow> callbacks_ok own call dispatch"
proof -
  have "no_fds r \<Longrightarrow> leaves_own own r" for r by (cases r) auto
  then show "asks_no_fds call dispatch \<Longrightarrow> callbacks_ok own call dispatch"
    by (auto simp: asks_no_fds_def callbacks_ok_def list_all_iff)
qed

lemma serve_all_no_fds: "serve_all rs l = Inr l' \<Longrightarrow> list_all no_fds rs \<Longrightarrow> loop_poller l' = loop_poller l"
proof (induction rs arbitrary: l)
  case (Cons r rs)
  then obtain l1 where l1: "serve r l = Inr l1" "serve_all rs l1 = Inr l'" by (auto simp: obind_eq_Inr_iff)
  have "no_fds r" using Cons.prems(2) by simp
  then have "loop_poller l1 = loop_poller l"
    using l1(1) by (cases r) (auto simp: obind_eq_Inr_iff loop_ask_to_stop_def)
  with Cons.IH [OF l1(2)] Cons.prems(2) show ?case by simp
qed simp

lemma run_each_no_fds:
  "run_each call i fs l = Inr l' \<Longrightarrow> asks_no_fds call dispatch \<Longrightarrow> loop_poller l' = loop_poller l"
proof (induction fs arbitrary: l)
  case (Cons f fs)
  let ?l = "l\<lparr>ran_log := ran_log l @ [(i, f)]\<rparr>"
  obtain l1 where l1: "serve_all (call f l) ?l = Inr l1" "run_each call i fs l1 = Inr l'"
    using Cons.prems(1) by (auto simp: obind_eq_Inr_iff)
  with Cons.IH [OF l1(2)] serve_all_no_fds [OF l1(1)] Cons.prems(2) show ?case by (simp add: asks_no_fds_def)
qed simp

lemma invoke_queues_no_fds:
  "invoke_queues call is l = Inr l' \<Longrightarrow> asks_no_fds call dispatch \<Longrightarrow> loop_poller l' = loop_poller l"
proof (induction "is" arbitrary: l)
  case (Cons i "is")
  obtain queued q where q: "bq_pop_all (functor_queues l ! i) = (queued, q)" by (cases "bq_pop_all (functor_queues l ! i)")
  let ?l = "l\<lparr>functor_queues := (functor_queues l)[i := q]\<rparr>"
  obtain l1 where l1: "run_each call i queued ?l = Inr l1" "invoke_queues call is l1 = Inr l'"
    using Cons.prems(1) q by (auto simp: obind_eq_Inr_iff)
  with Cons.IH [OF l1(2) Cons.prems(2)] run_each_no_fds [OF l1(1) Cons.prems(2)] show ?case by simp
qed simp

lemma dispatch_one_no_fds:
  assumes "dispatch_one dispatch fe l = Inr l'" "asks_no_fds call dispatch"
  shows "loop_poller l' = loop_poller l"
proof -
  obtain fd ev where fe: "fe = (fd, ev)" by (cases fe)
  show ?thesis
  proof (cases "position fd (eventfd_fds l) = None \<and> fd \<noteq> timerfd_fd l")
    case True
    then have "serve_all (dispatch fd ev l) l = Inr l'" using assms(1) fe by (simp add: dispatch_one_def)
    from serve_all_no_fds [OF this] assms(2) show ?thesis by (simp add: asks_no_fds_def)
  next
    case False
    then show ?thesis
      using assms(1) fe
      by (auto simp: dispatch_one_def eventfd_read_event_callback_def timerfd_read_event_callback_def
          split: option.splits if_splits)
  qed
qed

lemma dispatch_all_no_fds:
  "dispatch_all dispatch fes l = Inr l' \<Longrightarrow> asks_no_fds call dispatch \<Longrightarrow> loop_poller l' = loop_poller l"
proof (induction fes arbitrary: l)
  case (Cons fe fes)
  then obtain l1 where "dispatch_one dispatch fe l = Inr l1" "dispatch_all dispatch fes l1 = Inr l'"
    by (auto simp: obind_eq_Inr_iff)
  with Cons dispatch_one_no_fds [OF _ Cons.prems(2)] show ?case by metis
qed simp

lemma round_no_fds:
  assumes "loop_round call dispatch body answers now l = Inr (False, l')" "asks_no_fds call dispatch"
  shows "loop_poller l' = loop_poller l"
proof -
  obtain evs l1 l2 where r: "dispatch_all dispatch evs l = Inr l1" "check_eventfd call l1 = Inr l2" "check_timerfd body now l2 = Inr l'"
    using assms(1) by (auto simp: loop_round_def obind_eq_Inr_iff split: if_splits)
  have "loop_poller l2 = loop_poller l1"
  proof (cases "eventfd_flag l1")
    case True
    then obtain t where "invoke_queues call [0..<length (functor_queues l1)] l1 = Inr t" "loop_poller l2 = loop_poller t"
      using r(2) by (auto simp: check_eventfd_def loop_invoke_all_functors_def obind_eq_Inr_iff)
    then show ?thesis using invoke_queues_no_fds [OF _ assms(2)] by simp
  next
    case False
    then show ?thesis using r(2) by (simp add: check_eventfd_def)
  qed
  moreover have "loop_poller l' = loop_poller l2" using check_timerfd_Inr [OF r(3)] by auto
  ultimately show ?thesis using dispatch_all_no_fds [OF r(1) assms(2)] by simp
qed

lemma reaches_no_fds:
  assumes "event_loop_reaches call dispatch body l0 l" "asks_no_fds call dispatch"
  shows "loop_poller l = loop_poller l0"
  using assms
proof (induction rule: event_loop_reaches.induct)
  case (submitted_to s i f s')
  then show ?case by (auto simp: loop_submit_def split: if_splits option.splits)
next
  case (asked s)
  then show ?case by (simp add: loop_ask_to_stop_def)
next
  case (went_round s answers now s')
  with round_no_fds show ?case by metis
qed simp

text \<open>What no event of the registry changes about the server.\<close>

definition server_kept :: "'ctx tcp_server \<Rightarrow> 'ctx tcp_server \<Rightarrow> bool" where
  "server_kept s s' \<longleftrightarrow>
     srv_started s' = srv_started s \<and> srv_stopped s' = srv_stopped s \<and> listen_stopped s' = listen_stopped s \<and>
     srv_pool_capacity s' = srv_pool_capacity s \<and> map_option pool_started (srv_pool s') = map_option pool_started (srv_pool s)"

lemma server_kept_refl [simp]: "server_kept s s"
  by (simp add: server_kept_def)

lemma server_kept_trans: "server_kept s t \<Longrightarrow> server_kept t u \<Longrightarrow> server_kept s u"
  by (simp add: server_kept_def)

lemma new_connection_kept: "new_connection_callback s = Inr s' \<Longrightarrow> server_kept s s'"
  by (auto simp: new_connection_callback_def choose_loop_def get_next_loop_def server_kept_def Let_def obind_eq_Inr_iff
      split: if_splits option.splits)

lemma accept_loop_kept: "accept_loop n as s = Inr s' \<Longrightarrow> server_kept s s'"
proof (induction n as s rule: accept_loop.induct)
  case (3 i a as s)
  show ?case
  proof (cases a)
    case Accepted
    then obtain s1 where "new_connection_callback s = Inr s1" "accept_loop i as s1 = Inr s'"
      using 3(3) by (auto simp: obind_eq_Inr_iff)
    with 3(1) [OF Accepted] new_connection_kept server_kept_trans show ?thesis by blast
  qed (use 3 in \<open>auto simp: server_kept_def\<close>)
qed (auto simp: server_kept_def)

lemma update_connection_kept: "server_kept s (update_connection cid c s)"
  by (auto simp: update_connection_def close_callback_pow server_kept_def split: option.splits)

lemma for_each_kept: "server_kept s (for_each callback ids s)"
proof (induction ids arbitrary: s)
  case (Cons cid ids)
  have "server_kept s (case objects s cid of None \<Rightarrow> s | Some (i, c) \<Rightarrow> update_connection cid (callback c) s)"
    using update_connection_kept by (auto simp: server_kept_def split: option.splits)
  with Cons.IH server_kept_trans show ?case by simp blast
qed (simp add: server_kept_def)

lemma server_exec_kept: "server_exec cmd s = Inr s' \<Longrightarrow> server_kept s s'"
proof (cases cmd)
  case (Main_Runs i)
  assume e: "server_exec cmd s = Inr s'"
  let ?s = "s\<lparr>main_functors := take i (main_functors s) @ drop (Suc i) (main_functors s)\<rparr>"
  have k: "server_kept s ?s" by (simp add: server_kept_def)
  show ?thesis
  proof (cases "i < length (main_functors s)")
    case True
    show ?thesis
    proof (cases "main_functors s ! i")
      case (Close_Connection cid)
      then have "run_close_functor cid ?s = Inr s'" using e Main_Runs True by (simp add: server_exec_def run_main_functor_def)
      then show ?thesis
        by (auto simp: run_close_functor_def transfer_tcp_connections_to_background_thread_def server_kept_def Let_def split: if_splits)
    next
      case (For_Each callback)
      then have "s' = for_each callback (tcp_connect_socketfds ?s) ?s"
        using e Main_Runs True by (simp add: server_exec_def run_main_functor_def)
      with for_each_kept k server_kept_trans show ?thesis by blast
    qed
  qed (use e Main_Runs in \<open>simp add: server_exec_def run_main_functor_def server_kept_def\<close>)
qed (auto simp: server_exec_def listen_read_event_callback_def run_for_each_connection_def run_destroying_functor_def
      update_connection_kept server_kept_def [of s "s\<lparr>main_functors := _\<rparr>"]
      server_kept_def [of s "s\<lparr>vectors_to_be_destroyed := _, destroying_functors := _\<rparr>"]
    intro: accept_loop_kept split: if_splits)

lemma server_run_kept: "server_run cmds s = Inr s' \<Longrightarrow> server_kept s s'"
proof (induction cmds arbitrary: s)
  case (Cons cmd cmds)
  then obtain s1 where "server_exec cmd s = Inr s1" "server_run cmds s1 = Inr s'" by (auto simp: obind_eq_Inr_iff)
  with Cons.IH server_exec_kept server_kept_trans show ?case by blast
qed (simp add: server_kept_def)

lemma running_goes_on:
  assumes "running a" "\<not> listen_stopped (app_server a)" "between_rounds (app_loop a)"
    and "event_loop_reaches call dispatch body (app_loop a) l" "asks_no_fds call dispatch"
    and "server_run cmds (app_server a) = Inr srv"
  shows "running (a\<lparr>app_loop := l, app_server := srv\<rparr>)" "\<not> listen_stopped srv"
proof -
  have l: "between_rounds l" "own_fds l = own_fds (app_loop a)" "loop_poller l = loop_poller (app_loop a)"
    using event_loop_invariant [OF assms(4,3) asks_no_fds_callbacks_ok [OF assms(5)]] reaches_no_fds [OF assms(4,5)] by auto
  have k: "server_kept (app_server a) srv" using server_run_kept [OF assms(6)] .
  then show "\<not> listen_stopped srv" using assms(2) by (simp add: server_kept_def)
  have "server_running srv"
    using k assms(1) by (cases "srv_pool srv") (auto simp: running_def server_running_def server_kept_def)
  then show "running (a\<lparr>app_loop := l, app_server := srv\<rparr>)"
    using assms(1) l by (simp add: running_def fds_known_def attached_def between_rounds_def)
qed

section \<open>From main to the end of the loop\<close>

text \<open>C6: The life of the HTTP server program, for any arguments, kernel answers and files: if \<^verbatim>\<open>main\<close> gets as far as
  \<^verbatim>\<open>loop()\<close>, exactly the signals its dispatcher handles are blocked and listened to; whatever rounds the main loop
  goes through, whatever other threads submit and whatever happens to connections until then, any batch of such
  signals with a termination signal among them stops the server without meeting an unknown signal, once the
  workers can be joined, and leaves nothing in the poller but the loop's own descriptors, so that the loop returns
  at its next test.\<close>

theorem http_server_lifecycle:
  fixes p :: "('f, http_parser) process"
  assumes "http_main benchmark argv k pton yell remove_inactive now transfer sigmask = Inr p"
    and "fresh_fds k" "4 \<le> length (eventfd_calls k)"
    and "event_loop_reaches call dispatch body (app_loop (app p)) l" "quiet call" "asks_no_fds call dispatch"
    and "server_run cmds (app_server (app p)) = Inr srv"
    and "set sigs \<subseteq> set (listened_signals p)" "\<exists>sig \<in> set sigs. terminates sig" "True \<in> set js"
  shows "set (listened_signals p) = {SIGHUP, SIGINT, SIGQUIT, SIGTERM, SIGTSTP} \<and> set (listened_signals p) \<subseteq> signal_mask p \<and>
    (\<exists>a'. signalfd_read_event_callback (signal_dispatcher call js) (map Got_Signal sigs @ [Not_Whole EAGAIN])
            ((app p)\<lparr>app_loop := l, app_server := srv\<rparr>) = Inr a' \<and>
       srv_stopped (app_server a') \<and> \<not> listening (app_server a') \<and> attached a' = own_fds (app_loop a') \<and>
       (\<forall>now ts. expire_timers_and_update_alarm body now (loop_timers (app_loop a')) = Inr ts \<longrightarrow>
          (\<exists>l'. loop_round call dispatch body [] now (app_loop a') = Inr (True, l'))))"
proof -
  note up = http_main_running [OF assms(1-3)]
  note go = running_goes_on [OF up(1-3) assms(4,6,7)]
  let ?a = "(app p)\<lparr>app_loop := l, app_server := srv\<rparr>"
  have "\<not> listen_stopped (app_server ?a)" "\<forall>sig \<in> set sigs. handled sig" using go(2) assms(8) up(4) by auto
  from signals_while_running [OF assms(5,10) go(1) this assms(9)]
  obtain a' where a': "signalfd_read_event_callback (signal_dispatcher call js) (map Got_Signal sigs @ [Not_Whole EAGAIN]) ?a = Inr a'"
      "stopped a'" by blast
  have "set (listened_signals p) = {SIGHUP, SIGINT, SIGQUIT, SIGTERM, SIGTSTP}"
    using up(4) by (auto simp: handled_def terminates_def)
  with a' up(4,5) stopped_leaves_loop [OF a'(2) assms(5)] show ?thesis by (auto simp: stopped_def)
qed

definition demo_kernel :: kernel where
  "demo_kernel =
     \<lparr>sigprocmask_result = 0, signalfd_call = \<lambda>S flags. (8, 0), socket_call = 9, setsockopt_result = 0, bind_result = 0,
      listen_result = 0, open_dev_null = 10, eventfd_calls = [3, 4, 5, 6], timerfd_call = 7, open_file_limits = (10, 12)\<rparr>"

lemma start_fd_some:
  assumes "poller_ok ep" "fd < length (fds_that_are_listening_on ep)"
  shows "\<exists>ep'. start_fd fd ep = Inr ep' \<and> poller_ok ep' \<and>
    length (fds_that_are_listening_on ep') = length (fds_that_are_listening_on ep)"
  using register_event_ok [OF assms, of "EPOLLET OR EVENT_TYPE_READ"] by (auto simp: start_fd_registers)

lemma start_fds_some:
  "poller_ok ep \<Longrightarrow> \<forall>fd \<in> set fds. fd < length (fds_that_are_listening_on ep) \<Longrightarrow>
     \<exists>ep'. start_fds fds ep = Inr ep' \<and> poller_ok ep' \<and> length (fds_that_are_listening_on ep') = length (fds_that_are_listening_on ep)"
proof (induction fds arbitrary: ep)
  case (Cons fd fds)
  from start_fd_some [OF Cons.prems(1), of fd] Cons.prems(2) obtain ep1 where ep1: "start_fd fd ep = Inr ep1" "poller_ok ep1"
      "length (fds_that_are_listening_on ep1) = length (fds_that_are_listening_on ep)" by auto
  with Cons.IH [OF ep1(2)] Cons.prems(2) show ?case by simp
qed simp

lemma demo_timers_started: "\<exists>p. run_after_time_interval 1000 (3 * SECOND) (3 * SECOND) (- 1) 9 new_timer_loop = Inr (p, demo_timers)"
  using demo_starts by (auto simp: new_event_loop_def obind_eq_Inr_iff demo_loop_def)

lemma demo_timers_second:
  "\<exists>ts. exec_cmd (Run_After 1000 (15 * SECOND) (15 * SECOND) (- 1) 2) demo_timers = Inr ts"
  by (simp add: run_after_time_interval_def time_add_def run_at_time_point_def demo_timers_def
      new_timer_loop_def add_a_timer_and_update_alarm_def insert_one_def
      deref_def new_timer_def set_insert_def advance_alarm_def Let_def SECOND_def
      get_earliest_expiration_time_point_def time_sub_def int64_result_def in_int64_def FOREVER_def set_alarm_pos)

lemma demo_main:
  "\<exists>p :: (nat, http_parser) process. http_main False [] demo_kernel (\<lambda>_ _. Some ()) 9 2 1000 False {} = Inr p"
proof -
  have p0: "poller_ok (new_event_poller 12)" "length (fds_that_are_listening_on (new_event_poller 12)) = 12"
    by (simp_all add: poller_ok_def new_event_poller_def)
  obtain ep1 where ep1: "start_fds [3, 4, 5, 6] (new_event_poller 12) = Inr ep1" "poller_ok ep1"
      "length (fds_that_are_listening_on ep1) = 12"
    using start_fds_some [OF p0(1), of "[3, 4, 5, 6]"] p0(2) by auto
  obtain ep2 where ep2: "start_fd 7 ep1 = Inr ep2" "poller_ok ep2" "length (fds_that_are_listening_on ep2) = 12"
    using start_fd_some [OF ep1(2), of 7] ep1(3) by auto
  obtain ep3 where ep3: "start_fd 8 ep2 = Inr ep3" "poller_ok ep3" "length (fds_that_are_listening_on ep3) = 12"
    using start_fd_some [OF ep2(2), of 8] ep2(3) by auto
  obtain ep4 where ep4: "register_event_for_fd 9 EVENT_TYPE_READ ep3 = Inr ep4"
    using register_event_ok [OF ep3(2), of 9] ep3(3) by auto
  obtain l :: "nat event_loop" where l: "new_event_loop 12 [3, 4, 5, 6] 7 9 1000 = Inr l" "loop_poller l = ep2" "loop_timers l = demo_timers"
    using ep1(1) ep2(1) demo_timers_started by (auto simp: new_event_loop_def simp del: start_fds.simps)
  obtain S where S: "add_signals [SIGHUP, SIGINT, SIGQUIT, SIGTERM, SIGTSTP] [] = Inr S"
    by (simp add: add_signal_def signal_defs)
  obtain ts where ts: "exec_cmd (Run_After 1000 (15 * SECOND) (15 * SECOND) (- 1) 2) demo_timers = Inr ts"
    using demo_timers_second by blast
  have lim: "fst (set_limit_of_max_number_of_opened_file_descriptors 60000 (open_file_limits demo_kernel)) = 12"
    by (simp add: demo_kernel_def set_limit_of_max_number_of_opened_file_descriptors_def)
  have up: "\<exists>p :: (nat, http_parser) process.
      set_up demo_kernel (\<lambda>_ _. Some ()) 4 12 9 1000 settings (new_tcp_server 4 False None id False) {} = Inr p \<and>
      loop_timers (app_loop (app p)) = demo_timers \<and> loop_poller (app_loop (app p)) = ep3 \<and>
      app_server (app p) = new_tcp_server 4 False None id False" for settings
    using S l ep3(1)
    by (simp add: set_up_def begin_program_def demo_kernel_def block_signals_def create_signalfd_def new_inet_address_def signalfd_start_def
        del: add_signals.simps)
  have "15 * SECOND < INTERVAL_FOREVER" by (simp add: SECOND_def INTERVAL_FOREVER_def)
  then have start: "\<exists>a. http_server_start True (Some id) (15 * SECOND) 2 1000 demo_kernel (app p) = Inr a"
    if "loop_timers (app_loop (app p)) = demo_timers" "loop_poller (app_loop (app p)) = ep3"
       "app_server (app p) = new_tcp_server 4 False None id False" for p :: "(nat, http_parser) process"
    using that ts ep4
    by (simp add: http_server_start_def start_application_server_def demo_kernel_def create_socketfd_def
        set_socketfd_as_address_reusable_def bind_socketfd_def listen_socketfd_def new_pollable_fd_def listen_start_def
        open_spare_fd_def enable_read_event_def register_event_def new_tcp_server_def server_start_def new_loop_pool_def
        Let_def del: exec_cmd.simps)
  obtain p :: "(nat, http_parser) process" where p:
      "set_up demo_kernel (\<lambda>_ _. Some ()) 4 12 9 1000
         \<lparr>log_base_name = ''http-server'', need_output_directly_to_terminal = False, log_level_mask = INFO\<rparr>
         (new_tcp_server 4 False None id False) {} = Inr p"
      "loop_timers (app_loop (app p)) = demo_timers" "loop_poller (app_loop (app p)) = ep3"
      "app_server (app p) = new_tcp_server 4 False None id False"
    using up by blast
  with start [OF p(2-4)] lim show ?thesis by (auto simp: http_main_def Let_def)
qed

theorem http_server_lifecycle_witness:
  "\<exists>p :: (nat, http_parser) process. http_main False [] demo_kernel (\<lambda>_ _. Some ()) 9 2 1000 False {} = Inr p \<and>
     (\<exists>a'. signalfd_read_event_callback (signal_dispatcher (\<lambda>_ _. []) [False, True])
             (map Got_Signal [SIGHUP, SIGTERM] @ [Not_Whole EAGAIN])
             ((app p)\<lparr>app_loop := loop_ask_to_stop (app_loop (app p)), app_server := app_server (app p)\<rparr>) = Inr a' \<and>
        srv_stopped (app_server a') \<and> attached a' = own_fds (app_loop a'))"
proof -
  obtain p :: "(nat, http_parser) process" where p: "http_main False [] demo_kernel (\<lambda>_ _. Some ()) 9 2 1000 False {} = Inr p"
    using demo_main by blast
  have k: "fresh_fds demo_kernel" "4 \<le> length (eventfd_calls demo_kernel)" by (simp_all add: fresh_fds_def demo_kernel_def)
  have calls: "quiet (\<lambda>(_ :: nat) _. [])" "asks_no_fds (\<lambda>(_ :: nat) _. []) (\<lambda>_ _ _. [])"
    by (simp_all add: quiet_def asks_no_fds_def)
  have reach: "event_loop_reaches (\<lambda>(_ :: nat) _. []) (\<lambda>_ _ _. []) (\<lambda>_ _. []) (app_loop (app p)) (loop_ask_to_stop (app_loop (app p)))"
    by (rule event_loop_reaches.asked [OF event_loop_reaches.started])
  have run: "server_run [] (app_server (app p)) = Inr (app_server (app p))" by simp
  have sigs: "set [SIGHUP, SIGTERM] \<subseteq> set (listened_signals p)" "\<exists>sig \<in> set [SIGHUP, SIGTERM]. terminates sig" "True \<in> set [False, True]"
    using http_main_running(4) [OF p k] by (auto simp: handled_def terminates_def)
  show ?thesis using http_server_lifecycle [OF p k reach calls run sigs] p by blast
qed

end
