(* ===== verification/Inactivity.thy ===== *)
theory Inactivity
  imports Http_Server Tcp_Server
begin

text \<open>
  The timeout of connections of \<^verbatim>\<open>HttpServer\<close> (example/http/server/src/http_server.cc) on the registry of
  \<^verbatim>\<open>TcpServer\<close>: a timer of the main loop draws a line, every registered connection that looks inactive is left a
  functor in its own loop, which looks again through a reference to the registry's entry, and an aborted connection
  asks the main loop to remove its entry.
\<close>

section \<open>Checks\<close>

text \<open>
  A check that waits in a worker's queue: the entry of the registry it refers to, and the time and the timeout it
  captured by value.
\<close>

record check_functor =
  check_entry :: "64 word"
  check_time :: int
  check_timeout :: int

record 'ctx http_layer =
  tcp :: "'ctx tcp_server"
  current_time_point :: int
  connection_timeout_interval :: int
  check_functors :: "check_functor list"

text \<open>\<^verbatim>\<open>_check_and_abort_impl\<close> with the second look as its predicate, in the loop of the connection.\<close>

definition run_check :: "check_functor \<Rightarrow> 'ctx tcp_server \<Rightarrow> 'ctx tcp_server outcome" where
  "run_check f s =
     (if check_entry f \<notin> set (tcp_connect_socketfds s) then Inl (Undefined ''reference to an erased entry'')
      else case objects s (check_entry f) of
          None \<Rightarrow> Inl (Undefined ''null pointer'')
        | Some (i, c) \<Rightarrow>
            obind (time_diff (check_time f) (time_stamp c)) (\<lambda>d.
            obind (check_and_abort_impl (\<lambda>_. d > check_timeout f) c) (\<lambda>c'.
              Inr (update_connection (check_entry f) c' s))))"

text \<open>Functors posted since there were \<open>n\<close>, run at once.\<close>

definition run_posted :: "nat \<Rightarrow> 'ctx tcp_server \<Rightarrow> 'ctx tcp_server outcome" where
  "run_posted n s = server_run (replicate (length (main_functors s) - n) (Main_Runs n)) s"

text \<open>
  \<^verbatim>\<open>EventLoop::run\<close> leaves a functor to a loop of another thread and calls it at once in its own: without a thread
  pool the connections belong to the main loop, so that the check and the removal of the entry happen inside the
  iteration over the registry, which then goes on from the entry that is no longer there.
\<close>

definition post_check :: "check_functor \<Rightarrow> 'ctx http_layer \<Rightarrow> 'ctx http_layer outcome" where
  "post_check f h =
     (if srv_pool_capacity (tcp h) > 0 then Inr (h\<lparr>check_functors := check_functors h @ [f]\<rparr>)
      else obind (run_check f (tcp h)) (\<lambda>s.
           obind (run_posted (length (main_functors (tcp h))) s) (\<lambda>s'. Inr (h\<lparr>tcp := s'\<rparr>))))"

fun check_each :: "64 word list \<Rightarrow> 'ctx http_layer \<Rightarrow> 'ctx http_layer outcome" where
  "check_each [] h = Inr h"
| "check_each (cid # ids) h =
     (case objects (tcp h) cid of
        None \<Rightarrow> Inl (Undefined ''null pointer'')
      | Some (i, c) \<Rightarrow>
          obind (check_and_remove_inactive_connection (current_time_point h) (connection_timeout_interval h) c) (\<lambda>functor.
          obind (case functor of
                   None \<Rightarrow> Inr h
                 | Some _ \<Rightarrow> post_check \<lparr>check_entry = cid, check_time = current_time_point h,
                                        check_timeout = connection_timeout_interval h\<rparr> h) (\<lambda>h'.
            if cid \<notin> set (tcp_connect_socketfds (tcp h')) then Inl (Undefined ''iterator of an erased entry'')
            else check_each ids h')))"

text \<open>The functor of the timer, which the main loop runs at \<open>now\<close>.\<close>

definition remove_inactive_connections :: "int \<Rightarrow> 'ctx http_layer \<Rightarrow> 'ctx http_layer outcome" where
  "remove_inactive_connections now h =
     (let h' = h\<lparr>current_time_point := now\<rparr> in check_each (tcp_connect_socketfds (tcp h')) h')"

text \<open>The workers run what they were left.\<close>

fun run_checks :: "check_functor list \<Rightarrow> 'ctx tcp_server \<Rightarrow> 'ctx tcp_server outcome" where
  "run_checks [] s = Inr s"
| "run_checks (f # fs) s = obind (run_check f s) (run_checks fs)"

section \<open>What the checks do\<close>

definition inactive :: "int \<Rightarrow> int \<Rightarrow> 'ctx tcp_server \<Rightarrow> 64 word \<Rightarrow> bool" where
  "inactive now timeout s cid \<longleftrightarrow> (case objects s cid of None \<Rightarrow> False | Some (i, c) \<Rightarrow> now - time_stamp c > timeout)"

text \<open>These connections are registered and open, have their close callback, and their age can be computed.\<close>

definition connections_open :: "int \<Rightarrow> 64 word list \<Rightarrow> 'ctx tcp_server \<Rightarrow> bool" where
  "connections_open now ids s \<longleftrightarrow>
     (\<forall>cid \<in> set ids. cid \<in> set (tcp_connect_socketfds s) \<and>
        (\<exists>i c. objects s cid = Some (i, c) \<and> alive c \<and> has_close_callback c \<and> in_int64 (now - time_stamp c)))"

text \<open>The checks of the connections \<open>ids\<close> that were posted at \<open>now\<close>.\<close>

definition checks_of :: "int \<Rightarrow> int \<Rightarrow> 64 word list \<Rightarrow> check_functor list" where
  "checks_of now timeout ids = map (\<lambda>cid. \<lparr>check_entry = cid, check_time = now, check_timeout = timeout\<rparr>) ids"

lemma abort_closes:
  assumes "alive c" "has_close_callback c"
  shows "\<exists>c'. abort_from_event_loop c = Inr c' \<and> is_aborted c' \<and> \<not> fd_open c' \<and> conn_detached c' \<and> close_calls c' = close_calls c + 1"
  using assms
  by (auto simp: abort_from_event_loop_def reset_connection_def conn_detach_def call_close_callback_def
      alive_def clear_context_def Let_def)

lemma time_diff_some: "in_int64 (a - b) \<Longrightarrow> time_diff a b = Inr (a - b)"
  by (simp add: time_diff_def int64_result_def)

lemma check_effect:
  assumes "cid \<in> set (tcp_connect_socketfds s)" "objects s cid = Some (i, c)" "alive c" "has_close_callback c"
    and "in_int64 (now - time_stamp c)"
  shows "\<exists>c'. run_check \<lparr>check_entry = cid, check_time = now, check_timeout = timeout\<rparr> s =
      Inr (if now - time_stamp c > timeout
           then s\<lparr>objects := (objects s)(cid \<mapsto> (i, c')), main_functors := main_functors s @ [Close_Connection cid]\<rparr> else s) \<and>
    is_aborted c' \<and> \<not> fd_open c' \<and> conn_detached c' \<and> close_calls c' = close_calls c + 1"
proof -
  obtain c' where c': "abort_from_event_loop c = Inr c'" "is_aborted c'" "\<not> fd_open c'" "conn_detached c'"
      "close_calls c' = close_calls c + 1"
    using abort_closes [OF assms(3,4)] by blast
  have "(objects s)(cid \<mapsto> (i, c)) = objects s" using assms(2) by auto
  with c' assms time_diff_some [OF assms(5)] show ?thesis
    by (auto simp: run_check_def check_and_abort_impl_def update_connection_def close_callback_def intro!: exI [of _ c'])
qed

lemma checks_effect:
  assumes "distinct ids" "connections_open now ids s"
  shows "\<exists>s'. run_checks (checks_of now timeout ids) s = Inr s' \<and>
    tcp_connect_socketfds s' = tcp_connect_socketfds s \<and>
    main_functors s' = main_functors s @ map Close_Connection (filter (inactive now timeout s) ids) \<and>
    (\<forall>cid. if cid \<in> set ids \<and> inactive now timeout s cid
       then \<exists>i c. objects s' cid = Some (i, c) \<and> is_aborted c \<and> \<not> fd_open c \<and> conn_detached c
       else objects s' cid = objects s cid)"
  using assms
proof (induction ids arbitrary: s)
  case (Cons cid ids)
  obtain i c where c: "cid \<in> set (tcp_connect_socketfds s)" "objects s cid = Some (i, c)" "alive c" "has_close_callback c"
      "in_int64 (now - time_stamp c)"
    using Cons.prems(2) unfolding connections_open_def by auto
  have P: "inactive now timeout s cid \<longleftrightarrow> now - time_stamp c > timeout" using c(2) by (simp add: inactive_def)
  obtain c' where c': "run_check \<lparr>check_entry = cid, check_time = now, check_timeout = timeout\<rparr> s =
      Inr (if inactive now timeout s cid
           then s\<lparr>objects := (objects s)(cid \<mapsto> (i, c')), main_functors := main_functors s @ [Close_Connection cid]\<rparr> else s)"
      "is_aborted c'" "\<not> fd_open c'" "conn_detached c'"
    using check_effect [OF c, of timeout] P by auto
  let ?s = "if inactive now timeout s cid
     then s\<lparr>objects := (objects s)(cid \<mapsto> (i, c')), main_functors := main_functors s @ [Close_Connection cid]\<rparr> else s"
  have keep: "tcp_connect_socketfds ?s = tcp_connect_socketfds s" "\<And>j. j \<noteq> cid \<Longrightarrow> objects ?s j = objects s j" by simp_all
  have P': "inactive now timeout ?s j = inactive now timeout s j" if "j \<noteq> cid" for j
    using keep(2) [OF that] by (simp add: inactive_def)
  have other: "j \<noteq> cid" if "j \<in> set ids" for j using Cons.prems(1) that by auto
  have "connections_open now ids ?s"
    using Cons.prems(2) keep other unfolding connections_open_def by simp
  from Cons.IH [OF _ this] Cons.prems(1) obtain s' where s': "run_checks (checks_of now timeout ids) ?s = Inr s'"
      "tcp_connect_socketfds s' = tcp_connect_socketfds s"
      "main_functors s' = main_functors ?s @ map Close_Connection (filter (inactive now timeout ?s) ids)"
      "\<And>cid. if cid \<in> set ids \<and> inactive now timeout ?s cid
         then \<exists>i c. objects s' cid = Some (i, c) \<and> is_aborted c \<and> \<not> fd_open c \<and> conn_detached c
         else objects s' cid = objects ?s cid"
    using keep(1) by auto
  have "filter (inactive now timeout ?s) ids = filter (inactive now timeout s) ids" using P' other by (intro filter_cong) auto
  then have m: "main_functors s' = main_functors s @ map Close_Connection (filter (inactive now timeout s) (cid # ids))"
    using s'(3) by simp
  have o': "if j \<in> set (cid # ids) \<and> inactive now timeout s j
       then \<exists>i c. objects s' j = Some (i, c) \<and> is_aborted c \<and> \<not> fd_open c \<and> conn_detached c
       else objects s' j = objects s j" for j
  proof (cases "j = cid")
    case True
    have "objects s' cid = objects ?s cid" using s'(4) [of cid] Cons.prems(1) by simp
    then show ?thesis using True c'(2-4) by simp
  next
    case False
    then show ?thesis using s'(4) [of j] P' [OF False] keep(2) [OF False] by simp
  qed
  have "run_checks (checks_of now timeout (cid # ids)) s = Inr s'" using c'(1) s'(1) by (simp add: checks_of_def)
  with s'(2) m o' show ?case by blast
qed (simp add: checks_of_def)

text \<open>With a thread pool the functor of the timer posts the checks of the inactive connections.\<close>

lemma check_each_posts:
  assumes "srv_pool_capacity (tcp h) > 0" "connections_open (current_time_point h) ids (tcp h)"
  shows "check_each ids h = Inr (h\<lparr>check_functors := check_functors h @ checks_of (current_time_point h) (connection_timeout_interval h)
           (filter (inactive (current_time_point h) (connection_timeout_interval h) (tcp h)) ids)\<rparr>)"
  using assms
proof (induction ids arbitrary: h)
  case (Cons cid ids)
  let ?now = "current_time_point h" and ?timeout = "connection_timeout_interval h"
  obtain i c where c: "cid \<in> set (tcp_connect_socketfds (tcp h))" "objects (tcp h) cid = Some (i, c)" "in_int64 (?now - time_stamp c)"
    using Cons.prems(2) unfolding connections_open_def by auto
  have P: "inactive ?now ?timeout (tcp h) cid \<longleftrightarrow> ?now - time_stamp c > ?timeout" using c(2) by (simp add: inactive_def)
  have open': "connections_open ?now ids (tcp h)" using Cons.prems(2) by (simp add: connections_open_def)
  show ?case
  proof (cases "?now - time_stamp c > ?timeout")
    case True
    let ?h = "h\<lparr>check_functors := check_functors h @ [\<lparr>check_entry = cid, check_time = ?now, check_timeout = ?timeout\<rparr>]\<rparr>"
    have "check_each (cid # ids) h = check_each ids ?h"
      using c True Cons.prems(1) time_diff_some [OF c(3)]
      by (simp add: check_and_remove_inactive_connection_def post_check_def)
    also have "\<dots> = Inr (?h\<lparr>check_functors := check_functors ?h @ checks_of ?now ?timeout (filter (inactive ?now ?timeout (tcp h)) ids)\<rparr>)"
      using Cons.IH [of ?h] Cons.prems(1) open' by simp
    finally show ?thesis using True P by (simp add: checks_of_def)
  next
    case False
    then have "check_each (cid # ids) h = check_each ids h"
      using c time_diff_some [OF c(3)] by (simp add: check_and_remove_inactive_connection_def)
    also have "\<dots> = Inr (h\<lparr>check_functors := check_functors h @ checks_of ?now ?timeout (filter (inactive ?now ?timeout (tcp h)) ids)\<rparr>)"
      using Cons.IH [of h] Cons.prems(1) open' by simp
    finally show ?thesis using False P by simp
  qed
qed (simp add: checks_of_def)

text \<open>The main loop removes the entries it was asked to remove.\<close>

lemma removals_run:
  assumes "main_functors s = map Close_Connection ids" "distinct ids" "set ids \<subseteq> set (tcp_connect_socketfds s)"
    "distinct (tcp_connect_socketfds s)"
  shows "\<exists>s'. server_run (replicate (length ids) (Main_Runs 0)) s = Inr s' \<and> main_functors s' = [] \<and> objects s' = objects s \<and>
    tcp_connect_socketfds s' = filter (\<lambda>cid. cid \<notin> set ids) (tcp_connect_socketfds s)"
  using assms
proof (induction ids arbitrary: s)
  case (Cons cid ids)
  let ?s = "s\<lparr>main_functors := map Close_Connection ids\<rparr>"
  obtain s1 where s1: "run_close_functor cid ?s = Inr s1" "main_functors s1 = map Close_Connection ids" "objects s1 = objects s"
      "tcp_connect_socketfds s1 = remove1 cid (tcp_connect_socketfds s)"
    using Cons.prems(3) by (simp add: run_close_functor_def transfer_tcp_connections_to_background_thread_def Let_def)
  have r: "remove1 cid (tcp_connect_socketfds s) = filter (\<lambda>x. x \<noteq> cid) (tcp_connect_socketfds s)"
    using Cons.prems(4) by (auto simp: distinct_remove1_removeAll removeAll_filter_not_eq intro!: filter_cong)
  have "set ids \<subseteq> set (tcp_connect_socketfds s1)" "distinct (tcp_connect_socketfds s1)"
    using Cons.prems s1(4) r by auto
  from Cons.IH [OF s1(2) _ this] Cons.prems(2) obtain s' where s': "server_run (replicate (length ids) (Main_Runs 0)) s1 = Inr s'"
      "main_functors s' = []" "objects s' = objects s1"
      "tcp_connect_socketfds s' = filter (\<lambda>cid. cid \<notin> set ids) (tcp_connect_socketfds s1)" by auto
  have "server_run (replicate (length (cid # ids)) (Main_Runs 0)) s = Inr s'"
    using s1(1) s'(1) Cons.prems(1) by (simp add: server_exec_def run_main_functor_def)
  moreover have "tcp_connect_socketfds s' = filter (\<lambda>x. x \<notin> set (cid # ids)) (tcp_connect_socketfds s)"
    using s'(4) s1(4) r by (auto intro: filter_cong)
  ultimately show ?case using s'(2,3) s1(3) by auto
qed simp

section \<open>The timeout\<close>


text \<open>Two connections, of which the first has been silent for 100 and the second for 5.\<close>

definition two_connections :: "nat \<Rightarrow> unit tcp_server" where
  "two_connections n =
     (let c = (started_connection [] :: unit connection)\<lparr>has_close_callback := True\<rparr> in
      (new_tcp_server n True None id False)\<lparr>tcp_connect_socketfds := [0, 1],
        objects := [0 \<mapsto> (0, c), 1 \<mapsto> (0, c\<lparr>time_stamp := 95\<rparr>)]\<rparr>)"

lemma two_connections_open: "connections_open 100 (tcp_connect_socketfds (two_connections n)) (two_connections n)"
  by (simp add: connections_open_def two_connections_def Let_def alive_def started_connection_def new_connection_def in_int64_def)

lemma two_connections_inactive:
  "inactive 100 10 (two_connections n) 0" "\<not> inactive 100 10 (two_connections n) 1"
  "tcp_connect_socketfds (two_connections n) = [0, 1]" "srv_pool_capacity (two_connections n) = n"
  "main_functors (two_connections n) = []"
  by (simp_all add: inactive_def two_connections_def Let_def started_connection_def new_connection_def new_tcp_server_def)


section \<open>Without a thread pool\<close>

text \<open>C32: Without a thread pool, where connections belong to the main loop, the first connection found inactive takes the
  server down: its check runs inside the iteration over the registry and erases the entry the iteration stands on.\<close>

theorem single_loop_timeout_is_undefined:
  assumes "srv_pool_capacity s = 0" "connections_open now (tcp_connect_socketfds s) s"
    and "\<exists>cid \<in> set (tcp_connect_socketfds s). inactive now timeout s cid" "distinct (tcp_connect_socketfds s)"
  shows "remove_inactive_connections now
      \<lparr>tcp = s, current_time_point = t0, connection_timeout_interval = timeout, check_functors = []\<rparr> =
    Inl (Undefined ''iterator of an erased entry'')"
proof -
  let ?h = "\<lparr>tcp = s, current_time_point = now, connection_timeout_interval = timeout, check_functors = []\<rparr>"
  have "check_each ids ?h = Inl (Undefined ''iterator of an erased entry'')"
    if "connections_open now ids s" "\<exists>cid \<in> set ids. inactive now timeout s cid" for ids
    using that
  proof (induction ids)
    case (Cons cid ids)
    obtain i c where c: "cid \<in> set (tcp_connect_socketfds s)" "objects s cid = Some (i, c)" "alive c" "has_close_callback c"
        "in_int64 (now - time_stamp c)"
      using Cons.prems(1) unfolding connections_open_def by auto
    show ?case
    proof (cases "now - time_stamp c > timeout")
      case True
      from check_effect [OF c, of timeout] True obtain c' where c': "run_check \<lparr>check_entry = cid, check_time = now, check_timeout = timeout\<rparr> s =
          Inr (s\<lparr>objects := (objects s)(cid \<mapsto> (i, c')), main_functors := main_functors s @ [Close_Connection cid]\<rparr>)" by auto
      let ?s = "s\<lparr>objects := (objects s)(cid \<mapsto> (i, c')), main_functors := main_functors s @ [Close_Connection cid]\<rparr>"
      obtain s' where s': "run_posted (length (main_functors s)) ?s = Inr s'"
          "tcp_connect_socketfds s' = remove1 cid (tcp_connect_socketfds s)"
        using c(1)
        by (simp add: run_posted_def server_exec_def run_main_functor_def run_close_functor_def
            transfer_tcp_connections_to_background_thread_def Let_def)
      have "post_check \<lparr>check_entry = cid, check_time = now, check_timeout = timeout\<rparr> ?h = Inr (?h\<lparr>tcp := s'\<rparr>)"
        using assms(1) c' s'(1) by (simp add: post_check_def)
      then show ?thesis
        using c(2) True time_diff_some [OF c(5)] s'(2) assms(4) by (simp add: check_and_remove_inactive_connection_def)
    next
      case False
      have "connections_open now ids s" "\<exists>cid \<in> set ids. inactive now timeout s cid"
        using Cons.prems False c(2) by (auto simp: connections_open_def inactive_def)
      then show ?thesis
        using Cons.IH c(1,2) False time_diff_some [OF c(5)] by (simp add: check_and_remove_inactive_connection_def)
    qed
  qed simp
  then show ?thesis using assms(2,3) by (simp add: remove_inactive_connections_def Let_def)
qed

theorem single_loop_timeout_is_undefined_witness:
  "remove_inactive_connections 100
      \<lparr>tcp = two_connections 0, current_time_point = 0, connection_timeout_interval = 10, check_functors = []\<rparr> =
    Inl (Undefined ''iterator of an erased entry'')"
  using single_loop_timeout_is_undefined [of "two_connections 0" 100 10 0] two_connections_open [of 0]
    two_connections_inactive [of 0]
  by simp

section \<open>Checks that come too late\<close>

text \<open>The second look goes through a reference to the registry's entry: when the peer closes a connection for which a
  check has been posted, and the main loop removes its entry before the worker gets to the check, the check reads an
  erased entry.\<close>

theorem late_check_is_undefined:
  assumes "srv_pool_capacity s > 0" "connections_open now (tcp_connect_socketfds s) s" "distinct (tcp_connect_socketfds s)"
    and "cid \<in> set (tcp_connect_socketfds s)" "inactive now timeout s cid" "objects s cid = Some (i, c)" "close_calls c = 0"
    and "main_functors s = []"
  shows "\<exists>h s2 f. remove_inactive_connections now
      \<lparr>tcp = s, current_time_point = t0, connection_timeout_interval = timeout, check_functors = []\<rparr> = Inr h \<and>
    server_run [Connection_Changes cid (close_event_callback c), Main_Runs 0] (tcp h) = Inr s2 \<and>
    f \<in> set (check_functors h) \<and> check_entry f = cid \<and> run_check f s2 = Inl (Undefined ''reference to an erased entry'')"
proof -
  let ?ids = "filter (inactive now timeout s) (tcp_connect_socketfds s)"
  let ?start = "\<lparr>tcp = s, current_time_point = now, connection_timeout_interval = timeout, check_functors = []\<rparr>"
  let ?posted = "?start\<lparr>check_functors := checks_of now timeout ?ids\<rparr>"
  let ?f = "\<lparr>check_entry = cid, check_time = now, check_timeout = timeout\<rparr>"
  let ?c = "close_event_callback c"
  have h: "remove_inactive_connections now
      \<lparr>tcp = s, current_time_point = t0, connection_timeout_interval = timeout, check_functors = []\<rparr> = Inr ?posted"
    using check_each_posts [of ?start "tcp_connect_socketfds s"] assms(1,2) by (simp add: remove_inactive_connections_def Let_def)
  have "has_close_callback c" using assms(2,4,6) by (auto simp: connections_open_def)
  then have calls: "close_calls ?c = Suc 0" using assms(7) by (simp add: close_event_callback_def call_close_callback_def conn_detach_def)
  let ?s1 = "s\<lparr>objects := (objects s)(cid \<mapsto> (i, ?c)), main_functors := [Close_Connection cid]\<rparr>"
  have "server_exec (Connection_Changes cid ?c) s = Inr ?s1"
    using assms(6-8) calls by (simp add: server_exec_def close_calls_of_def update_connection_def close_callback_def)
  moreover obtain s2 where s2: "server_exec (Main_Runs 0) ?s1 = Inr s2"
      "tcp_connect_socketfds s2 = remove1 cid (tcp_connect_socketfds s)"
    using assms(4)
    by (simp add: server_exec_def run_main_functor_def run_close_functor_def transfer_tcp_connections_to_background_thread_def Let_def)
  ultimately have run: "server_run [Connection_Changes cid ?c, Main_Runs 0] s = Inr s2" by simp
  have "?f \<in> set (check_functors ?posted)" using assms(4,5) by (simp add: checks_of_def)
  moreover have "run_check ?f s2 = Inl (Undefined ''reference to an erased entry'')"
    using s2(2) assms(3) by (simp add: run_check_def)
  ultimately show ?thesis using h run by (intro exI [of _ ?posted] exI [of _ s2] exI [of _ ?f]) simp
qed

theorem late_check_is_undefined_witness:
  "\<exists>h s2 f c. objects (two_connections 1) 0 = Some (0, c) \<and> remove_inactive_connections 100
      \<lparr>tcp = two_connections 1, current_time_point = 0, connection_timeout_interval = 10, check_functors = []\<rparr> = Inr h \<and>
    server_run [Connection_Changes 0 (close_event_callback c), Main_Runs 0] (tcp h) = Inr s2 \<and>
    f \<in> set (check_functors h) \<and> run_check f s2 = Inl (Undefined ''reference to an erased entry'')"
proof -
  obtain c where c: "objects (two_connections 1) 0 = Some (0, c)" "close_calls c = 0"
    by (simp add: two_connections_def Let_def started_connection_def new_connection_def)
  have "distinct (tcp_connect_socketfds (two_connections 1))" "0 \<in> set (tcp_connect_socketfds (two_connections 1))"
      "srv_pool_capacity (two_connections 1) > 0"
    by (simp_all add: two_connections_inactive)
  from late_check_is_undefined [OF this(3) two_connections_open this(1,2) two_connections_inactive(1) c two_connections_inactive(5), of 0]
  show ?thesis using c(1) by blast
qed

end
