(* ===== verification/Slab_Allocator.thy ===== *)
theory Slab_Allocator
  imports Server_Prelude
begin

text \<open>
  The slab allocators of include/util/slab_allocator.h that serve one slab at a time:
  \<^verbatim>\<open>SimpleSlabAllocator\<close> (and \<^verbatim>\<open>StaticSimpleSlabAllocator\<close>, the same code over static members) and
  \<^verbatim>\<open>StaticThreadLocalSlabAllocator\<close> with its local pools and its central pool. Addresses count slabs,
  so that the slab after \<open>p\<close> is \<open>p + 1\<close>; the memory maps every slab obtained from the system to
  the pointer in its first eight bytes. Both allocators implement the interface \<open>slab_pool\<close>.
\<close>

section \<open>Memory\<close>

type_synonym slab = nat
type_synonym slab_memory = "slab \<rightharpoonup> slab option"

definition read_next :: "slab_memory \<Rightarrow> slab option \<Rightarrow> slab option outcome" where
  "read_next m p =
     (case p of None \<Rightarrow> Inl (Undefined ''null pointer'')
      | Some a \<Rightarrow> (case m a of None \<Rightarrow> Inl (Undefined ''freed memory'') | Some nx \<Rightarrow> Inr nx))"

definition write_next :: "slab \<Rightarrow> slab option \<Rightarrow> slab_memory \<Rightarrow> slab_memory outcome" where
  "write_next a v m =
     (case m a of None \<Rightarrow> Inl (Undefined ''freed memory'') | Some _ \<Rightarrow> Inr (m(a \<mapsto> v)))"

text \<open>A linked list of free slabs.\<close>

fun slabs_at :: "slab_memory \<Rightarrow> slab option \<Rightarrow> slab list \<Rightarrow> bool" where
  "slabs_at m p [] \<longleftrightarrow> p = None"
| "slabs_at m p (a # as) \<longleftrightarrow> p = Some a \<and> (\<exists>nx. m a = Some nx \<and> slabs_at m nx as)"

lemma slabs_at_cong: "(\<And>a. a \<in> set as \<Longrightarrow> m a = m' a) \<Longrightarrow> slabs_at m p as \<longleftrightarrow> slabs_at m' p as"
  by (induction as arbitrary: p) auto

lemma slabs_at_upd [simp]: "a \<notin> set as \<Longrightarrow> slabs_at (m(a := v)) p as \<longleftrightarrow> slabs_at m p as"
  by (rule slabs_at_cong) auto

lemma slabs_at_None [simp]: "slabs_at m None as \<longleftrightarrow> as = []"
  by (cases as) auto

lemma slabs_at_Some: "slabs_at m (Some a) as \<longleftrightarrow> (\<exists>nx bs. as = a # bs \<and> m a = Some nx \<and> slabs_at m nx bs)"
  by (cases as) auto

lemma slabs_at_dom: "slabs_at m p as \<Longrightarrow> set as \<subseteq> dom m"
  by (induction as arbitrary: p) auto

lemma slabs_at_add: "slabs_at m p as \<Longrightarrow> set as \<subseteq> dom m \<Longrightarrow> (\<And>a. a \<in> dom m \<Longrightarrow> m' a = m a) \<Longrightarrow> slabs_at m' p as"
  by (subst slabs_at_cong [of as m' m]) auto

text \<open>\<^verbatim>\<open>alignment::aalloc\<close> never returns a null pointer; a new chunk does not overlap an old one.\<close>

definition NUMBER_OF_SLABS_PER_CHUNK :: nat where
  "NUMBER_OF_SLABS_PER_CHUNK = 4000"

lemma chunk_pos [simp]: "0 < NUMBER_OF_SLABS_PER_CHUNK"
  by (simp add: NUMBER_OF_SLABS_PER_CHUNK_def)

definition aalloc :: "nat \<Rightarrow> nat \<Rightarrow> slab_memory \<Rightarrow> nat \<times> nat \<times> slab_memory" where
  "aalloc slabs brk m = (brk, brk + slabs, \<lambda>a. if brk \<le> a \<and> a < brk + slabs then Some None else m a)"

text \<open>The loop that pushes the slabs of a new chunk one by one.\<close>

fun push_slabs :: "nat \<Rightarrow> slab \<Rightarrow> slab_memory \<Rightarrow> slab option \<Rightarrow> (slab_memory \<times> slab option) outcome" where
  "push_slabs 0 current_node m free = Inr (m, free)"
| "push_slabs (Suc k) current_node m free =
     obind (write_next current_node free m) (\<lambda>m'. push_slabs k (current_node + 1) m' (Some current_node))"

lemma push_slabs_spec:
  "slabs_at m free fs \<Longrightarrow> {a..<a + k} \<subseteq> dom m \<Longrightarrow> set fs \<inter> {a..<a + k} = {} \<Longrightarrow>
     \<exists>m' free'. push_slabs k a m free = Inr (m', free') \<and> slabs_at m' free' (rev [a..<a + k] @ fs) \<and>
       dom m' = dom m \<and> (\<forall>b. b \<notin> {a..<a + k} \<longrightarrow> m' b = m b)"
proof (induction k arbitrary: a m free fs)
  case (Suc k)
  from Suc.prems(2) have "a \<in> dom m" by (rule subsetD) simp
  then obtain v where v: "m a = Some v" by auto
  let ?m = "m(a \<mapsto> free)"
  have "a \<in> {a..<a + Suc k}" by simp
  then have "a \<notin> set fs" using Suc.prems(3) by blast
  then have "slabs_at ?m (Some a) (a # fs)" using Suc.prems(1) by simp
  moreover have sub: "{a + 1..<a + 1 + k} \<subseteq> {a..<a + Suc k}" by auto
  then have "{a + 1..<a + 1 + k} \<subseteq> dom ?m" using Suc.prems(2) by fastforce
  moreover have "set (a # fs) \<inter> {a + 1..<a + 1 + k} = {}" using Suc.prems(3) sub by auto
  ultimately obtain m' free' where m': "push_slabs k (a + 1) ?m (Some a) = Inr (m', free')"
      "slabs_at m' free' (rev [a + 1..<a + 1 + k] @ a # fs)" "dom m' = dom ?m"
      "\<And>b. b \<notin> {a + 1..<a + 1 + k} \<Longrightarrow> m' b = ?m b"
    using Suc.IH [of ?m "Some a" "a # fs" "a + 1"] by blast
  have "rev [a..<a + Suc k] = rev [a + 1..<a + 1 + k] @ [a]"
    by (simp add: upt_conv_Cons del: upt_Suc)
  then show ?case
    using v m' by (auto simp: write_next_def)
qed (auto simp: fun_eq_iff)

text \<open>Null-terminated lists have no repetitions and can be cut and joined.\<close>

lemma slabs_at_unique: "slabs_at m p as \<Longrightarrow> slabs_at m p bs \<Longrightarrow> as = bs"
proof (induction as arbitrary: p bs)
  case Nil
  then show ?case by simp
next
  case (Cons a as)
  then show ?case by (cases bs) auto
qed

lemma slabs_at_suffix: "slabs_at m p (xs @ a # ys) \<Longrightarrow> slabs_at m (Some a) (a # ys)"
  by (induction xs arbitrary: p) auto

lemma slabs_at_distinct: "slabs_at m p as \<Longrightarrow> distinct as"
proof (induction as arbitrary: p)
  case (Cons a as)
  have "a \<notin> set as"
  proof
    assume "a \<in> set as"
    then obtain xs ys where as: "as = xs @ a # ys" by (auto simp: in_set_conv_decomp)
    with Cons.prems have "slabs_at m p (a # xs @ a # ys)" by simp
    then have "slabs_at m (Some a) (a # ys)" using slabs_at_suffix [of m p "a # xs" a ys] by simp
    moreover have "slabs_at m (Some a) (a # as)" using Cons.prems by simp
    ultimately have "a # ys = a # as" by (rule slabs_at_unique)
    with as show False by simp
  qed
  with Cons show ?case by auto
qed simp

lemma slabs_at_cut:
  assumes "slabs_at m p (xs @ ys)" "xs \<noteq> []"
  shows "\<exists>q. m (last xs) = Some q \<and> slabs_at m q ys \<and> slabs_at (m(last xs \<mapsto> None)) p xs"
  using assms
proof (induction xs arbitrary: p)
  case (Cons x xs)
  show ?case
  proof (cases "xs = []")
    case True
    with Cons.prems show ?thesis by auto
  next
    case False
    have d: "distinct (x # xs @ ys)" using slabs_at_distinct [OF Cons.prems(1)] by simp
    then have "x \<noteq> last xs" using False by auto
    moreover obtain nx where nx: "p = Some x" "m x = Some nx" "slabs_at m nx (xs @ ys)" using Cons.prems by auto
    moreover obtain q where "m (last xs) = Some q" "slabs_at m q ys" "slabs_at (m(last xs \<mapsto> None)) nx xs"
      using Cons.IH [OF nx(3) False] by blast
    ultimately show ?thesis using False by (auto simp: fun_upd_def)
  qed
qed simp

section \<open>The interface\<close>

text \<open>
  \<open>invar L s\<close>: the pool is in order and \<open>L\<close> are the slabs in use. Threads are named, and a slab may
  be returned by another thread than the one it was given to; the user may write to slabs in use.
\<close>

datatype pool_cmd = Alloc nat | Dealloc nat slab | Store slab "slab option"

text \<open>
  Running commands against a pool: being given a slab that is in use is reported as a crash; a command
  on a slab that is not in use is not the pool's business and skipped.
\<close>

fun pool_run ::
  "(nat \<Rightarrow> 's \<Rightarrow> (slab \<times> 's) outcome) \<Rightarrow> (nat \<Rightarrow> slab \<Rightarrow> 's \<Rightarrow> 's outcome) \<Rightarrow>
   (slab \<Rightarrow> slab option \<Rightarrow> 's \<Rightarrow> 's outcome) \<Rightarrow> pool_cmd list \<Rightarrow> slab set \<Rightarrow> 's \<Rightarrow> (slab set \<times> 's) outcome" where
  "pool_run alloc dealloc store [] L s = Inr (L, s)"
| "pool_run alloc dealloc store (Alloc t # cs) L s =
     obind (alloc t s) (\<lambda>(p, s').
       if p \<in> L then Inl (Undefined ''slab given out twice'')
       else pool_run alloc dealloc store cs (insert p L) s')"
| "pool_run alloc dealloc store (Dealloc t p # cs) L s =
     (if p \<in> L then obind (dealloc t p s) (pool_run alloc dealloc store cs (L - {p}))
      else pool_run alloc dealloc store cs L s)"
| "pool_run alloc dealloc store (Store p v # cs) L s =
     (if p \<in> L then obind (store p v s) (pool_run alloc dealloc store cs L)
      else pool_run alloc dealloc store cs L s)"

locale slab_pool =
  fixes alloc :: "nat \<Rightarrow> 's \<Rightarrow> (slab \<times> 's) outcome"
    and dealloc :: "nat \<Rightarrow> slab \<Rightarrow> 's \<Rightarrow> 's outcome"
    and store :: "slab \<Rightarrow> slab option \<Rightarrow> 's \<Rightarrow> 's outcome"
    and invar :: "slab set \<Rightarrow> 's \<Rightarrow> bool"
  assumes alloc_fresh: "invar L s \<Longrightarrow> \<exists>p s'. alloc t s = Inr (p, s') \<and> p \<notin> L \<and> invar (insert p L) s'"
    and dealloc_used: "invar L s \<Longrightarrow> p \<in> L \<Longrightarrow> \<exists>s'. dealloc t p s = Inr s' \<and> invar (L - {p}) s'"
    and store_used: "invar L s \<Longrightarrow> p \<in> L \<Longrightarrow> \<exists>s'. store p v s = Inr s' \<and> invar L s'"
begin

lemma pool_run_safe:
  "invar L s \<Longrightarrow> \<exists>L' s'. pool_run alloc dealloc store cs L s = Inr (L', s') \<and> invar L' s'"
proof (induction cs arbitrary: L s)
  case (Cons c cs)
  show ?case
  proof (cases c)
    case (Alloc t)
    from alloc_fresh [OF Cons.prems, of t] obtain p s'
      where "alloc t s = Inr (p, s')" "p \<notin> L" "invar (insert p L) s'" by blast
    with Cons.IH [of "insert p L" s'] Alloc show ?thesis by simp
  next
    case (Dealloc t p)
    show ?thesis
    proof (cases "p \<in> L")
      case True
      from dealloc_used [OF Cons.prems True, of t] obtain s' where "dealloc t p s = Inr s'" "invar (L - {p}) s'"
        by blast
      with Cons.IH [of "L - {p}" s'] Dealloc True show ?thesis by simp
    qed (use Cons Dealloc in simp)
  next
    case (Store p v)
    show ?thesis
    proof (cases "p \<in> L")
      case True
      from store_used [OF Cons.prems True, of v] obtain s' where "store p v s = Inr s'" "invar L s'" by blast
      with Cons.IH [of L s'] Store True show ?thesis by simp
    qed (use Cons Store in simp)
  qed
qed simp

end

section \<open>The single-threaded allocator\<close>

record simple_slabs =
  slab_mem :: slab_memory
  slab_brk :: nat
  linked_list_of_free_slabs :: "slab option"
  allocated_chunks :: "nat list"

definition new_simple_slabs :: simple_slabs where
  "new_simple_slabs =
     \<lparr>slab_mem = Map.empty, slab_brk = 0, linked_list_of_free_slabs = None, allocated_chunks = []\<rparr>"

definition simple_allocate_one_chunk :: "simple_slabs \<Rightarrow> simple_slabs outcome" where
  "simple_allocate_one_chunk s =
     (case aalloc NUMBER_OF_SLABS_PER_CHUNK (slab_brk s) (slab_mem s) of (new_chunk, brk, m) \<Rightarrow>
        obind (push_slabs NUMBER_OF_SLABS_PER_CHUNK new_chunk m (linked_list_of_free_slabs s))
          (\<lambda>(m', free). Inr (s\<lparr>slab_mem := m', slab_brk := brk, linked_list_of_free_slabs := free,
                                allocated_chunks := allocated_chunks s @ [new_chunk]\<rparr>)))"

definition simple_allocate :: "nat \<Rightarrow> simple_slabs \<Rightarrow> (slab \<times> simple_slabs) outcome" where
  "simple_allocate n s =
     (if n \<noteq> 1 then Inl (Uncaught ''std::bad_alloc'')
      else obind (if linked_list_of_free_slabs s = None then simple_allocate_one_chunk s else Inr s) (\<lambda>s1.
        case linked_list_of_free_slabs s1 of
          None \<Rightarrow> Inl (Undefined ''null pointer'')
        | Some chosen_slab \<Rightarrow>
            obind (read_next (slab_mem s1) (Some chosen_slab)) (\<lambda>nx.
              Inr (chosen_slab, s1\<lparr>linked_list_of_free_slabs := nx\<rparr>))))"

definition simple_deallocate :: "slab \<Rightarrow> nat \<Rightarrow> simple_slabs \<Rightarrow> simple_slabs outcome" where
  "simple_deallocate p n s =
     (if n \<noteq> 1 then Inl (Fatal ''multiple slabs are returned at once'')
      else obind (write_next p (linked_list_of_free_slabs s) (slab_mem s)) (\<lambda>m.
        Inr (s\<lparr>slab_mem := m, linked_list_of_free_slabs := Some p\<rparr>)))"

text \<open>The destructor gives the chunks back to the system.\<close>

definition simple_destroy :: "simple_slabs \<Rightarrow> simple_slabs" where
  "simple_destroy s =
     s\<lparr>slab_mem := (\<lambda>a. if \<exists>c \<in> set (allocated_chunks s). c \<le> a \<and> a < c + NUMBER_OF_SLABS_PER_CHUNK
                        then None else slab_mem s a)\<rparr>"

definition simple_store :: "slab \<Rightarrow> slab option \<Rightarrow> simple_slabs \<Rightarrow> simple_slabs outcome" where
  "simple_store p v s = obind (write_next p v (slab_mem s)) (\<lambda>m. Inr (s\<lparr>slab_mem := m\<rparr>))"

definition simple_invar :: "slab set \<Rightarrow> simple_slabs \<Rightarrow> bool" where
  "simple_invar L s \<longleftrightarrow>
     (\<exists>fs. slabs_at (slab_mem s) (linked_list_of_free_slabs s) fs \<and> distinct fs \<and> set fs \<inter> L = {} \<and>
        L \<subseteq> dom (slab_mem s) \<and> dom (slab_mem s) \<subseteq> {..<slab_brk s})"

lemma simple_usedE:
  assumes "simple_invar L s" "p \<in> L"
  obtains fs v where "slabs_at (slab_mem s) (linked_list_of_free_slabs s) fs" "distinct fs" "set fs \<inter> L = {}"
    "L \<subseteq> dom (slab_mem s)" "dom (slab_mem s) \<subseteq> {..<slab_brk s}" "slab_mem s p = Some v" "p \<notin> set fs"
  using assms unfolding simple_invar_def by (metis disjoint_iff domD subsetD)

lemma simple_invar_new: "simple_invar {} new_simple_slabs"
  by (simp add: simple_invar_def new_simple_slabs_def)

lemma aalloc_mem:
  assumes "dom m \<subseteq> {..<brk}" "aalloc k brk m = (c, brk', m')"
  shows "c = brk" "brk' = brk + k" "dom m' = dom m \<union> {brk..<brk + k}" "a \<in> dom m \<Longrightarrow> m' a = m a"
  using assms by (auto simp: aalloc_def split: if_splits)

lemma simple_chunk_invar:
  assumes "simple_invar L s" "linked_list_of_free_slabs s = None"
  shows "\<exists>s'. simple_allocate_one_chunk s = Inr s' \<and> simple_invar L s' \<and> linked_list_of_free_slabs s' \<noteq> None"
proof -
  let ?N = NUMBER_OF_SLABS_PER_CHUNK and ?b = "slab_brk s"
  have L: "L \<subseteq> dom (slab_mem s)" and d: "dom (slab_mem s) \<subseteq> {..<?b}"
    using assms by (auto simp: simple_invar_def)
  obtain c brk m where a: "aalloc ?N ?b (slab_mem s) = (c, brk, m)" by (metis prod_cases3)
  note m = aalloc_mem [OF d a]
  obtain m' free where p: "push_slabs ?N ?b m None = Inr (m', free)"
      "slabs_at m' free (rev [?b..<?b + ?N])" "dom m' = dom m"
    using push_slabs_spec [of m None "[]" ?b ?N] m(3) by auto
  have "rev [?b..<?b + ?N] \<noteq> []" by simp
  then have "free \<noteq> None" using p(2) slabs_at_None by metis
  moreover have "L \<inter> {?b..<?b + ?N} = {}" using L d by fastforce
  ultimately show ?thesis
    using assms(2) a m(1-3) p L d
    by (auto simp: simple_allocate_one_chunk_def simple_invar_def intro!: exI [of _ "rev [?b..<?b + ?N]"])
qed

lemma simple_allocate_fresh:
  assumes "simple_invar L s"
  shows "\<exists>p s'. simple_allocate 1 s = Inr (p, s') \<and> p \<notin> L \<and> simple_invar (insert p L) s'"
proof -
  obtain s1 where s1: "(if linked_list_of_free_slabs s = None then simple_allocate_one_chunk s else Inr s) = Inr s1"
      "simple_invar L s1" "linked_list_of_free_slabs s1 \<noteq> None"
    using simple_chunk_invar [OF assms] assms by (cases "linked_list_of_free_slabs s") auto
  then obtain p where p: "linked_list_of_free_slabs s1 = Some p" by blast
  then obtain fs nx where fs: "slab_mem s1 p = Some nx" "slabs_at (slab_mem s1) nx fs" "distinct (p # fs)"
      "set (p # fs) \<inter> L = {}" "L \<subseteq> dom (slab_mem s1)" "dom (slab_mem s1) \<subseteq> {..<slab_brk s1}"
    using s1(2) by (auto simp: simple_invar_def slabs_at_Some)
  then have "simple_invar (insert p L) (s1\<lparr>linked_list_of_free_slabs := nx\<rparr>)"
    by (auto simp: simple_invar_def intro!: exI [of _ fs])
  moreover have "simple_allocate 1 s = Inr (p, s1\<lparr>linked_list_of_free_slabs := nx\<rparr>)"
    using s1(1) p fs(1) by (simp add: simple_allocate_def read_next_def)
  ultimately show ?thesis using fs(4) by auto
qed

lemma simple_deallocate_used:
  assumes "simple_invar L s" "p \<in> L"
  shows "\<exists>s'. simple_deallocate p 1 s = Inr s' \<and> simple_invar (L - {p}) s'"
proof -
  obtain fs v where fs: "slabs_at (slab_mem s) (linked_list_of_free_slabs s) fs" "distinct fs" "set fs \<inter> L = {}"
      "L \<subseteq> dom (slab_mem s)" "dom (slab_mem s) \<subseteq> {..<slab_brk s}" "slab_mem s p = Some v" "p \<notin> set fs"
    using simple_usedE [OF assms] .
  then show ?thesis
    using assms(2) by (auto simp: simple_deallocate_def write_next_def simple_invar_def intro!: exI [of _ "p # fs"])
qed

lemma simple_store_used:
  assumes "simple_invar L s" "p \<in> L"
  shows "\<exists>s'. simple_store p v s = Inr s' \<and> simple_invar L s'"
proof -
  obtain fs w where fs: "slabs_at (slab_mem s) (linked_list_of_free_slabs s) fs" "distinct fs" "set fs \<inter> L = {}"
      "L \<subseteq> dom (slab_mem s)" "dom (slab_mem s) \<subseteq> {..<slab_brk s}" "slab_mem s p = Some w" "p \<notin> set fs"
    using simple_usedE [OF assms] .
  then show ?thesis
    using assms(2) by (auto simp: simple_store_def write_next_def simple_invar_def intro!: exI [of _ fs])
qed

interpretation simple: slab_pool "\<lambda>_. simple_allocate 1" "\<lambda>_ p. simple_deallocate p 1" simple_store simple_invar
  by unfold_locales (fact simple_allocate_fresh simple_deallocate_used simple_store_used)+

section \<open>The allocator with thread-local pools\<close>

text \<open>
  Local pools belong to one thread; the central pool is only touched under its mutex, once per
  operation, so that every operation is one atomic step. A node of the central pool is the head and
  the tail of a list of a chunk's length.
\<close>

record tl_pool =
  local_free_slabs :: "slab option"
  number_of_free_slabs :: nat
  local_chunks :: "nat list"
  cut_off_threshold :: nat

record tl_slabs =
  tl_mem :: slab_memory
  tl_brk :: nat
  local_pool :: "nat \<Rightarrow> tl_pool"
  free_chunks :: "(slab \<times> slab) list"

definition new_tl_slabs :: tl_slabs where
  "new_tl_slabs =
     \<lparr>tl_mem = Map.empty, tl_brk = 0,
      local_pool = (\<lambda>_. \<lparr>local_free_slabs = None, number_of_free_slabs = 0, local_chunks = [],
                       cut_off_threshold = NUMBER_OF_SLABS_PER_CHUNK\<rparr>),
      free_chunks = []\<rparr>"

definition tl_allocate_one_chunk :: "nat \<Rightarrow> tl_slabs \<Rightarrow> tl_slabs outcome" where
  "tl_allocate_one_chunk t s =
     (case aalloc NUMBER_OF_SLABS_PER_CHUNK (tl_brk s) (tl_mem s) of (new_chunk, brk, m) \<Rightarrow>
        let l = local_pool s t in
        obind (push_slabs NUMBER_OF_SLABS_PER_CHUNK new_chunk m (local_free_slabs l)) (\<lambda>(m', free).
          Inr (s\<lparr>tl_mem := m', tl_brk := brk,
                 local_pool := (local_pool s)(t := l\<lparr>local_free_slabs := free,
                                                 local_chunks := local_chunks l @ [new_chunk]\<rparr>)\<rparr>)))"

text \<open>What \<^verbatim>\<open>allocate\<close> does when the local list is empty: take a chunk of the central pool, or a new one.\<close>

definition tl_refill :: "nat \<Rightarrow> tl_slabs \<Rightarrow> tl_slabs outcome" where
  "tl_refill t s =
     obind
       (if free_chunks s \<noteq> [] then
          (case last (free_chunks s) of (chunk_head, chunk_tail) \<Rightarrow>
             obind (write_next chunk_tail (local_free_slabs (local_pool s t)) (tl_mem s)) (\<lambda>m.
               Inr (s\<lparr>tl_mem := m, free_chunks := butlast (free_chunks s),
                      local_pool := (local_pool s)
                        (t := (local_pool s t)\<lparr>local_free_slabs := Some chunk_head\<rparr>)\<rparr>)))
        else
          obind (tl_allocate_one_chunk t s) (\<lambda>s1.
            Inr (s1\<lparr>local_pool := (local_pool s1)(t := (local_pool s1 t)
                    \<lparr>cut_off_threshold := cut_off_threshold (local_pool s1 t) + NUMBER_OF_SLABS_PER_CHUNK\<rparr>)\<rparr>)))
       (\<lambda>s2. Inr (s2\<lparr>local_pool := (local_pool s2)(t := (local_pool s2 t)
              \<lparr>number_of_free_slabs := number_of_free_slabs (local_pool s2 t) + NUMBER_OF_SLABS_PER_CHUNK\<rparr>)\<rparr>))"

definition tl_allocate :: "nat \<Rightarrow> nat \<Rightarrow> tl_slabs \<Rightarrow> (slab \<times> tl_slabs) outcome" where
  "tl_allocate t n s =
     (if n \<noteq> 1 then Inl (Uncaught ''std::bad_alloc'')
      else obind (if number_of_free_slabs (local_pool s t) = 0 then tl_refill t s else Inr s) (\<lambda>s1.
        let l = local_pool s1 t in
        case local_free_slabs l of
          None \<Rightarrow> Inl (Undefined ''null pointer'')
        | Some chosen_slab \<Rightarrow>
            obind (read_next (tl_mem s1) (Some chosen_slab)) (\<lambda>nx.
              Inr (chosen_slab,
                   s1\<lparr>local_pool := (local_pool s1)(t := l\<lparr>local_free_slabs := nx,
                       number_of_free_slabs := size_sub (number_of_free_slabs l) 1\<rparr>)\<rparr>))))"

text \<open>The loop that locates the tail of the chunk to be cut off.\<close>

fun walk :: "nat \<Rightarrow> slab_memory \<Rightarrow> slab option \<Rightarrow> slab option outcome" where
  "walk 0 m p = Inr p"
| "walk (Suc k) m p = obind (read_next m p) (walk k m)"

definition tl_cut_off :: "nat \<Rightarrow> tl_slabs \<Rightarrow> tl_slabs outcome" where
  "tl_cut_off t s =
     (let l = local_pool s t; chunk_head = local_free_slabs l in
      obind (walk (NUMBER_OF_SLABS_PER_CHUNK - 1) (tl_mem s) chunk_head) (\<lambda>chunk_tail.
      obind (read_next (tl_mem s) chunk_tail) (\<lambda>rest.
      obind (write_next (the chunk_tail) None (tl_mem s)) (\<lambda>m.
        Inr (s\<lparr>tl_mem := m, free_chunks := free_chunks s @ [(the chunk_head, the chunk_tail)],
               local_pool := (local_pool s)(t := l\<lparr>local_free_slabs := rest,
                 number_of_free_slabs := size_sub (number_of_free_slabs l) NUMBER_OF_SLABS_PER_CHUNK\<rparr>)\<rparr>)))))"

definition tl_deallocate :: "nat \<Rightarrow> slab \<Rightarrow> nat \<Rightarrow> tl_slabs \<Rightarrow> tl_slabs outcome" where
  "tl_deallocate t p n s =
     (if n \<noteq> 1 then Inl (Fatal ''multiple slabs are returned at once'')
      else let l = local_pool s t in
        obind (write_next p (local_free_slabs l) (tl_mem s)) (\<lambda>m.
          let l' = l\<lparr>local_free_slabs := Some p, number_of_free_slabs := number_of_free_slabs l + 1\<rparr>;
              s1 = s\<lparr>tl_mem := m, local_pool := (local_pool s)(t := l')\<rparr>
          in if number_of_free_slabs l' \<ge> cut_off_threshold l' then tl_cut_off t s1 else Inr s1))"

definition tl_store :: "slab \<Rightarrow> slab option \<Rightarrow> tl_slabs \<Rightarrow> tl_slabs outcome" where
  "tl_store p v s = obind (write_next p v (tl_mem s)) (\<lambda>m. Inr (s\<lparr>tl_mem := m\<rparr>))"

text \<open>When a thread ends, the destructor of its chunk manager frees every chunk it has obtained.\<close>

definition tl_thread_exit :: "nat \<Rightarrow> tl_slabs \<Rightarrow> tl_slabs" where
  "tl_thread_exit t s =
     s\<lparr>tl_mem := (\<lambda>a. if \<exists>c \<in> set (local_chunks (local_pool s t)). c \<le> a \<and> a < c + NUMBER_OF_SLABS_PER_CHUNK
                      then None else tl_mem s a)\<rparr>"

subsection \<open>Invariant\<close>

datatype place = Local nat | Central nat | In_Use

definition tl_layout ::
  "(slab \<Rightarrow> place) \<Rightarrow> (nat \<Rightarrow> slab list) \<Rightarrow> slab list list \<Rightarrow> slab set \<Rightarrow> tl_slabs \<Rightarrow> bool" where
  "tl_layout own lf cs L s \<longleftrightarrow>
     (\<forall>t. slabs_at (tl_mem s) (local_free_slabs (local_pool s t)) (lf t) \<and>
        number_of_free_slabs (local_pool s t) = length (lf t) \<and>
        NUMBER_OF_SLABS_PER_CHUNK \<le> cut_off_threshold (local_pool s t) \<and> (\<forall>a \<in> set (lf t). own a = Local t)) \<and>
     length cs = length (free_chunks s) \<and>
     (\<forall>i < length cs. slabs_at (tl_mem s) (Some (fst (free_chunks s ! i))) (cs ! i) \<and>
        last (cs ! i) = snd (free_chunks s ! i) \<and> length (cs ! i) = NUMBER_OF_SLABS_PER_CHUNK \<and>
        (\<forall>a \<in> set (cs ! i). own a = Central i)) \<and>
     L \<subseteq> dom (tl_mem s) \<and> (\<forall>a \<in> L. own a = In_Use) \<and> dom (tl_mem s) \<subseteq> {..<tl_brk s}"

lemma tl_layoutI:
  assumes "\<And>t. slabs_at (tl_mem s) (local_free_slabs (local_pool s t)) (lf t)"
    and "\<And>t. number_of_free_slabs (local_pool s t) = length (lf t)"
    and "\<And>t. NUMBER_OF_SLABS_PER_CHUNK \<le> cut_off_threshold (local_pool s t)"
    and "\<And>t a. a \<in> set (lf t) \<Longrightarrow> own a = Local t"
    and "length cs = length (free_chunks s)"
    and "\<And>i. i < length cs \<Longrightarrow> slabs_at (tl_mem s) (Some (fst (free_chunks s ! i))) (cs ! i)"
    and "\<And>i. i < length cs \<Longrightarrow> last (cs ! i) = snd (free_chunks s ! i)"
    and "\<And>i. i < length cs \<Longrightarrow> length (cs ! i) = NUMBER_OF_SLABS_PER_CHUNK"
    and "\<And>i a. i < length cs \<Longrightarrow> a \<in> set (cs ! i) \<Longrightarrow> own a = Central i"
    and "L \<subseteq> dom (tl_mem s)" "\<And>a. a \<in> L \<Longrightarrow> own a = In_Use" "dom (tl_mem s) \<subseteq> {..<tl_brk s}"
  shows "tl_layout own lf cs L s"
  using assms unfolding tl_layout_def by blast

lemma tl_layoutD:
  assumes "tl_layout own lf cs L s"
  shows "slabs_at (tl_mem s) (local_free_slabs (local_pool s t)) (lf t)"
    and "number_of_free_slabs (local_pool s t) = length (lf t)"
    and "NUMBER_OF_SLABS_PER_CHUNK \<le> cut_off_threshold (local_pool s t)"
    and "a \<in> set (lf t) \<Longrightarrow> own a = Local t"
    and "length cs = length (free_chunks s)"
    and "i < length cs \<Longrightarrow> slabs_at (tl_mem s) (Some (fst (free_chunks s ! i))) (cs ! i)"
    and "i < length cs \<Longrightarrow> last (cs ! i) = snd (free_chunks s ! i)"
    and "i < length cs \<Longrightarrow> length (cs ! i) = NUMBER_OF_SLABS_PER_CHUNK"
    and "i < length cs \<Longrightarrow> a \<in> set (cs ! i) \<Longrightarrow> own a = Central i"
    and "L \<subseteq> dom (tl_mem s)" "a \<in> L \<Longrightarrow> own a = In_Use" "dom (tl_mem s) \<subseteq> {..<tl_brk s}"
  using assms unfolding tl_layout_def by blast+

definition tl_invar :: "slab set \<Rightarrow> tl_slabs \<Rightarrow> bool" where
  "tl_invar L s \<longleftrightarrow> (\<exists>own lf cs. tl_layout own lf cs L s)"

lemma tl_invar_new: "tl_invar {} new_tl_slabs"
  unfolding tl_invar_def
  by (rule exI [of _ "\<lambda>_. In_Use"], rule exI [of _ "\<lambda>_. []"], rule exI [of _ "[]"])
    (simp add: tl_layout_def new_tl_slabs_def)

text \<open>Taking the first slab of a non-empty local list.\<close>

lemma tl_pick:
  assumes "tl_layout own lf cs L s" "lf t \<noteq> []"
  shows "\<exists>p nx. local_free_slabs (local_pool s t) = Some p \<and> tl_mem s p = Some nx \<and> p \<notin> L \<and>
    tl_invar (insert p L) (s\<lparr>local_pool := (local_pool s)(t := (local_pool s t)\<lparr>local_free_slabs := nx,
       number_of_free_slabs := size_sub (number_of_free_slabs (local_pool s t)) 1\<rparr>)\<rparr>)"
proof -
  obtain p ps where lf: "lf t = p # ps" using assms(2) by (cases "lf t") auto
  note lay = tl_layoutD [OF assms(1)]
  have t: "slabs_at (tl_mem s) (local_free_slabs (local_pool s t)) (p # ps)"
      "number_of_free_slabs (local_pool s t) = Suc (length ps)"
    using lay(1,2) [of t] lf by simp_all
  then obtain nx where p: "local_free_slabs (local_pool s t) = Some p" "tl_mem s p = Some nx"
      "slabs_at (tl_mem s) nx ps" by auto
  have own: "own p = Local t" using lay(4) [of p t] lf by simp
  have d: "p \<notin> set ps" using slabs_at_distinct [OF t(1)] by simp
  have pL: "p \<notin> L" using lay(11) [of p] own by auto
  let ?s = "s\<lparr>local_pool := (local_pool s)(t := (local_pool s t)\<lparr>local_free_slabs := nx,
       number_of_free_slabs := size_sub (number_of_free_slabs (local_pool s t)) 1\<rparr>)\<rparr>"
  have "tl_layout (own(p := In_Use)) (lf(t := ps)) cs (insert p L) ?s"
  proof (rule tl_layoutI, goal_cases)
    case (4 u a)
    then show ?case using lay(4) [of a u] own d lf by (auto split: if_splits)
  next
    case (9 i a)
    then show ?case using lay(9) [of i a] own by auto
  next
    case (11 a)
    then show ?case using lay(11) [of a] by auto
  qed (use lay(1-3,5-8,10,12) t p in \<open>auto simp: size_sub_def\<close>)
  then show ?thesis using p pL unfolding tl_invar_def by blast
qed

lemma tl_refill_chunk:
  assumes "tl_layout own lf cs L s" "lf t = []" "free_chunks s = []"
  shows "\<exists>s'. tl_refill t s = Inr s' \<and> (\<exists>own lf cs. tl_layout own lf cs L s' \<and> lf t \<noteq> [])"
proof -
  let ?N = NUMBER_OF_SLABS_PER_CHUNK and ?b = "tl_brk s" and ?l = "local_pool s t"
  note lay = tl_layoutD [OF assms(1)]
  have l: "local_free_slabs ?l = None" "number_of_free_slabs ?l = 0" and cs: "cs = []"
    using lay(1,2) [of t] lay(5) assms(2,3) by simp_all
  obtain c brk m where a: "aalloc ?N ?b (tl_mem s) = (c, brk, m)" by (metis prod_cases3)
  note m = aalloc_mem [OF lay(12) a]
  obtain m' free where p: "push_slabs ?N ?b m None = Inr (m', free)"
      "slabs_at m' free (rev [?b..<?b + ?N])" "dom m' = dom m" "\<forall>b. b \<notin> {?b..<?b + ?N} \<longrightarrow> m' b = m b"
    using push_slabs_spec [of m None "[]" ?b ?N] m(3) by auto
  let ?s = "s\<lparr>tl_mem := m', tl_brk := brk, local_pool := (local_pool s)(t := ?l\<lparr>local_free_slabs := free,
      local_chunks := local_chunks ?l @ [c], cut_off_threshold := cut_off_threshold ?l + ?N,
      number_of_free_slabs := ?N\<rparr>)\<rparr>"
  let ?own = "\<lambda>a. if a \<in> {?b..<?b + ?N} then Local t else own a" and ?lf = "lf(t := rev [?b..<?b + ?N])"
  have old: "a < ?b" if "a \<in> dom (tl_mem s)" for a using that lay(12) by auto
  have old_lf: "a < ?b" if "a \<in> set (lf u)" for a u
    using slabs_at_dom [OF lay(1) [of u]] that old by blast
  have keep: "slabs_at m' q xs" if "slabs_at (tl_mem s) q xs" for q xs
  proof -
    have "m' b = tl_mem s b" if "b \<in> set xs" for b
      using slabs_at_dom [OF \<open>slabs_at (tl_mem s) q xs\<close>] that p(4) m(4) [of b] old [of b] by fastforce
    with that show ?thesis by (subst slabs_at_cong [of xs m' "tl_mem s"]) auto
  qed
  have "tl_layout ?own ?lf cs L ?s"
  proof (rule tl_layoutI, goal_cases)
    case (1 u)
    then show ?case using p(2) keep [OF lay(1) [of u]] by simp
  next
    case (4 u a)
    then show ?case using lay(4) [of a u] old_lf [of a u] by (auto split: if_splits)
  next
    case (11 a)
    then have "a < ?b" using lay(10) old by blast
    then show ?case using 11 lay(11) [of a] by auto
  next
    case 12
    then show ?case using lay(12) p(3) m(2,3) by auto
  next
    case 10
    then show ?case using lay(10) p(3) m(3) by auto
  qed (use lay(2,3,5) cs in \<open>auto intro: trans_le_add1\<close>)
  moreover have "?lf t \<noteq> []" by simp
  moreover have "tl_refill t s = Inr ?s"
    using a m(1) p(1) l assms(3) by (simp add: tl_refill_def tl_allocate_one_chunk_def Let_def)
  ultimately show ?thesis by blast
qed

lemma tl_refill_central:
  assumes "tl_layout own lf cs L s" "lf t = []" "free_chunks s \<noteq> []"
  shows "\<exists>s'. tl_refill t s = Inr s' \<and> (\<exists>own lf cs. tl_layout own lf cs L s' \<and> lf t \<noteq> [])"
proof -
  let ?N = NUMBER_OF_SLABS_PER_CHUNK and ?l = "local_pool s t"
  note lay = tl_layoutD [OF assms(1)]
  define i where "i = length cs - 1"
  obtain h tl where ht: "last (free_chunks s) = (h, tl)" by fastforce
  have i: "i < length cs" and nth: "free_chunks s ! i = (h, tl)" and last_i: "length cs = Suc i"
    using lay(5) assms(3) ht by (auto simp: i_def last_conv_nth)
  have l: "local_free_slabs ?l = None" "number_of_free_slabs ?l = 0"
    using lay(1,2) [of t] assms(2) by simp_all
  have x: "slabs_at (tl_mem s) (Some h) (cs ! i)" "last (cs ! i) = tl" "length (cs ! i) = ?N"
    using lay(6-8) [OF i] nth by simp_all
  then have ne: "cs ! i \<noteq> []" using chunk_pos by (metis length_0_conv less_numeral_extra(3))
  have "tl_mem s tl = Some None"
    using slabs_at_cut [of "tl_mem s" "Some h" "cs ! i" "[]"] x ne by auto
  then have m: "write_next tl None (tl_mem s) = Inr (tl_mem s)" by (auto simp: write_next_def fun_upd_idem)
  let ?s = "s\<lparr>free_chunks := butlast (free_chunks s), local_pool := (local_pool s)(t := ?l\<lparr>
      local_free_slabs := Some h, number_of_free_slabs := ?N\<rparr>)\<rparr>"
  let ?own = "\<lambda>a. if a \<in> set (cs ! i) then Local t else own a"
  have "tl_layout ?own (lf(t := cs ! i)) (butlast cs) L ?s"
  proof (rule tl_layoutI, goal_cases)
    case (4 u a)
    then show ?case using lay(4) [of a u] lay(9) [OF i, of a] by (auto split: if_splits)
  next
    case (9 j a)
    then have "j < length cs" "j \<noteq> i" "a \<in> set (cs ! j)" using last_i by (auto simp: nth_butlast)
    then show ?case using lay(9) [of j a] lay(9) [OF i, of a] by auto
  next
    case (11 a)
    then show ?case using lay(11) [of a] lay(9) [OF i, of a] by auto
  qed (use lay(1-3,5-8,10,12) x l last_i in \<open>auto simp: nth_butlast\<close>)
  moreover have "tl_refill t s = Inr ?s"
    using ht m l assms(3) by (simp add: tl_refill_def)
  moreover have "(lf(t := cs ! i)) t \<noteq> []" using ne by simp
  ultimately show ?thesis by blast
qed

lemma tl_allocate_fresh:
  assumes "tl_invar L s"
  shows "\<exists>p s'. tl_allocate t 1 s = Inr (p, s') \<and> p \<notin> L \<and> tl_invar (insert p L) s'"
proof -
  obtain own lf cs where lay: "tl_layout own lf cs L s" using assms by (auto simp: tl_invar_def)
  have "\<exists>s1 own lf cs. (if number_of_free_slabs (local_pool s t) = 0 then tl_refill t s else Inr s) = Inr s1 \<and>
      tl_layout own lf cs L s1 \<and> lf t \<noteq> []"
    using lay tl_refill_chunk [OF lay, of t] tl_refill_central [OF lay, of t] tl_layoutD(2) [OF lay, of t]
    by (cases "lf t = []"; cases "free_chunks s = []") auto
  then obtain s1 own' lf' cs' where s1:
      "(if number_of_free_slabs (local_pool s t) = 0 then tl_refill t s else Inr s) = Inr s1"
      "tl_layout own' lf' cs' L s1" "lf' t \<noteq> []" by blast
  from tl_pick [OF s1(2,3)] obtain p nx where "local_free_slabs (local_pool s1 t) = Some p"
      "tl_mem s1 p = Some nx" "p \<notin> L"
      "tl_invar (insert p L) (s1\<lparr>local_pool := (local_pool s1)(t := (local_pool s1 t)\<lparr>local_free_slabs := nx,
       number_of_free_slabs := size_sub (number_of_free_slabs (local_pool s1 t)) 1\<rparr>)\<rparr>)" by blast
  then show ?thesis using s1(1) by (simp add: tl_allocate_def Let_def read_next_def)
qed

lemma walk_nth: "slabs_at m p xs \<Longrightarrow> k < length xs \<Longrightarrow> walk k m p = Inr (Some (xs ! k))"
proof (induction k arbitrary: p xs)
  case 0
  then show ?case by (cases xs) auto
next
  case (Suc k)
  then show ?case by (cases xs) (auto simp: read_next_def)
qed

lemma tl_cut_off_layout:
  assumes "tl_layout own lf cs L s" "NUMBER_OF_SLABS_PER_CHUNK \<le> length (lf t)"
  shows "\<exists>s'. tl_cut_off t s = Inr s' \<and> tl_invar L s'"
proof -
  let ?N = NUMBER_OF_SLABS_PER_CHUNK and ?l = "local_pool s t"
  note lay = tl_layoutD [OF assms(1)]
  define xs ys where "xs = take ?N (lf t)" and "ys = drop ?N (lf t)"
  have lf: "lf t = xs @ ys" and len: "length xs = ?N" and ne: "xs \<noteq> []"
    using assms(2) chunk_pos by (auto simp: xs_def ys_def simp del: chunk_pos)
  have at: "slabs_at (tl_mem s) (local_free_slabs ?l) (xs @ ys)" using lay(1) [of t] lf by simp
  obtain q where q: "tl_mem s (last xs) = Some q" "slabs_at (tl_mem s) q ys"
      "slabs_at ((tl_mem s)(last xs \<mapsto> None)) (local_free_slabs ?l) xs"
    using slabs_at_cut [OF at ne] by blast
  obtain h where h: "local_free_slabs ?l = Some h" using at ne by (cases xs) auto
  have dist: "distinct (xs @ ys)" using slabs_at_distinct [OF at] .
  have "xs ! (?N - 1) = last xs" using ne len by (simp add: last_conv_nth)
  then have w: "walk (?N - 1) (tl_mem s) (local_free_slabs ?l) = Inr (Some (last xs))"
    using walk_nth [OF at, of "?N - 1"] len chunk_pos by (simp add: nth_append del: chunk_pos)
  let ?m = "(tl_mem s)(last xs \<mapsto> None)"
  let ?s = "s\<lparr>tl_mem := ?m, free_chunks := free_chunks s @ [(h, last xs)],
      local_pool := (local_pool s)(t := ?l\<lparr>local_free_slabs := q,
        number_of_free_slabs := size_sub (number_of_free_slabs ?l) ?N\<rparr>)\<rparr>"
  have eq: "tl_cut_off t s = Inr ?s"
    using w q(1) h by (simp add: tl_cut_off_def read_next_def write_next_def Let_def)
  have own: "own (last xs) = Local t" using lay(4) [of "last xs" t] lf ne by simp
  have ys: "last xs \<notin> set ys" using dist last_in_set [OF ne] by auto
  let ?own = "\<lambda>a. if a \<in> set xs then Central (length cs) else own a"
  have "tl_layout ?own (lf(t := ys)) (cs @ [xs]) L ?s"
  proof (rule tl_layoutI, goal_cases)
    case (1 u)
    have "last xs \<notin> set (lf u)" if "u \<noteq> t" using lay(4) [of "last xs" u] own that by auto
    then show ?case using lay(1) [of u] q(2) ys by simp
  next
    case (2 u)
    then show ?case using lay(2) [of u] lf len by (cases "u = t") (auto simp: size_sub_def)
  next
    case (4 u a)
    then show ?case using lay(4) [of a u] lay(4) [of a t] lf dist by (auto split: if_splits)
  next
    case (6 i)
    have "last xs \<notin> set (cs ! i)" if "i < length cs" using lay(9) [OF that, of "last xs"] own by auto
    then show ?case using 6 lay(5) lay(6) [of i] q(3) h by (auto simp: nth_append less_Suc_eq)
  next
    case (9 i a)
    have "a \<notin> set xs" if "i < length cs" "a \<in> set (cs ! i)"
      using lay(9) [OF that] lay(4) [of a t] lf by auto
    then show ?case using 9 lay(9) [of i a] by (auto simp: nth_append less_Suc_eq)
  next
    case (11 a)
    then show ?case using lay(11) [of a] lay(4) [of a t] lf by auto
  next
    case 10
    then show ?case using lay(10) by auto
  next
    case 12
    then show ?case using lay(12) q(1) by auto
  qed (use lay(3,5,7,8) len in \<open>auto simp: nth_append less_Suc_eq\<close>)
  then show ?thesis using eq unfolding tl_invar_def by blast
qed

lemma tl_deallocate_used:
  assumes "tl_invar L s" "p \<in> L"
  shows "\<exists>s'. tl_deallocate t p 1 s = Inr s' \<and> tl_invar (L - {p}) s'"
proof -
  let ?l = "local_pool s t"
  obtain own lf cs where inv: "tl_layout own lf cs L s" using assms by (auto simp: tl_invar_def)
  note lay = tl_layoutD [OF inv]
  have own: "own p = In_Use" using lay(11) assms(2) .
  obtain v where v: "tl_mem s p = Some v" using lay(10) assms(2) by blast
  let ?m = "(tl_mem s)(p \<mapsto> local_free_slabs ?l)"
  let ?l' = "?l\<lparr>local_free_slabs := Some p, number_of_free_slabs := number_of_free_slabs ?l + 1\<rparr>"
  let ?s = "s\<lparr>tl_mem := ?m, local_pool := (local_pool s)(t := ?l')\<rparr>"
  have plf: "p \<notin> set (lf u)" for u using lay(4) [of p u] own by auto
  have pcs: "p \<notin> set (cs ! i)" if "i < length cs" for i using lay(9) [OF that, of p] own by auto
  have L1: "tl_layout (own(p := Local t)) (lf(t := p # lf t)) cs (L - {p}) ?s"
  proof (rule tl_layoutI, goal_cases)
    case (1 u)
    then show ?case using lay(1) plf by simp
  next
    case (4 u a)
    then show ?case using lay(4) [of a u] plf [of u] by (auto split: if_splits)
  next
    case (6 i)
    then show ?case using lay(6) [of i] pcs by simp
  next
    case (9 i a)
    then show ?case using lay(9) [of i a] pcs by auto
  next
    case 10
    then show ?case using lay(10) by auto
  next
    case 12
    then show ?case using lay(12) v by auto
  qed (use lay(2,3,5,7,8,11) in auto)
  have eq: "tl_deallocate t p 1 s = (if number_of_free_slabs ?l' \<ge> cut_off_threshold ?l' then tl_cut_off t ?s else Inr ?s)"
    using v by (simp add: tl_deallocate_def write_next_def Let_def)
  show ?thesis
  proof (cases "number_of_free_slabs ?l' \<ge> cut_off_threshold ?l'")
    case True
    then have "NUMBER_OF_SLABS_PER_CHUNK \<le> length ((lf(t := p # lf t)) t)"
      using lay(2,3) [of t] by simp
    from tl_cut_off_layout [OF L1 this] True eq show ?thesis by simp
  next
    case False
    with eq L1 show ?thesis unfolding tl_invar_def by auto
  qed
qed

lemma tl_store_used:
  assumes "tl_invar L s" "p \<in> L"
  shows "\<exists>s'. tl_store p v s = Inr s' \<and> tl_invar L s'"
proof -
  obtain own lf cs where inv: "tl_layout own lf cs L s" using assms by (auto simp: tl_invar_def)
  note lay = tl_layoutD [OF inv]
  have own: "own p = In_Use" using lay(11) assms(2) .
  obtain w where w: "tl_mem s p = Some w" using lay(10) assms(2) by blast
  have plf: "p \<notin> set (lf u)" for u using lay(4) [of p u] own by auto
  have pcs: "p \<notin> set (cs ! i)" if "i < length cs" for i using lay(9) [OF that, of p] own by auto
  have "tl_layout own lf cs L (s\<lparr>tl_mem := (tl_mem s)(p \<mapsto> v)\<rparr>)"
  proof (rule tl_layoutI, goal_cases)
    case (1 u)
    then show ?case using lay(1) [of u] plf by simp
  next
    case (6 i)
    then show ?case using lay(6) [of i] pcs by simp
  next
    case 10
    then show ?case using lay(10) by auto
  next
    case 12
    then show ?case using lay(12) w by auto
  qed (use lay(2-5,7-9,11) in auto)
  then show ?thesis using w unfolding tl_invar_def by (auto simp: tl_store_def write_next_def)
qed

interpretation tl: slab_pool "\<lambda>t. tl_allocate t 1" "\<lambda>t p. tl_deallocate t p 1" tl_store tl_invar
  by unfold_locales (fact tl_allocate_fresh tl_deallocate_used tl_store_used)+

text \<open>C29: Whatever threads allocate, return (each other's slabs included) and write to the slabs they
  hold, in whatever order, the thread-local allocator with its central pool never touches freed memory
  or a null pointer, never gives out a slab that is in use, and ends with its lists in order.\<close>

theorem thread_local_pool_safe:
  "\<exists>L s. pool_run (\<lambda>t. tl_allocate t 1) (\<lambda>t p. tl_deallocate t p 1) tl_store cs {} new_tl_slabs = Inr (L, s) \<and>
     tl_invar L s"
  by (rule tl.pool_run_safe [OF tl_invar_new])

lemma simple_pool_safe:
  "\<exists>L s. pool_run (\<lambda>_. simple_allocate 1) (\<lambda>_ p. simple_deallocate p 1) simple_store cs {} new_simple_slabs = Inr (L, s) \<and>
     simple_invar L s"
  by (rule simple.pool_run_safe [OF simple_invar_new])

text \<open>
  A chunk goes back to the system when the thread that obtained it ends, although its slabs may be in
  use or in the pools of other threads: the slab that a thread allocated first and handed over cannot
  be returned any more once the thread has ended.
\<close>

lemma tl_first_allocation:
  "\<exists>p s. tl_allocate t 1 new_tl_slabs = Inr (p, s) \<and> p < NUMBER_OF_SLABS_PER_CHUNK \<and> local_chunks (local_pool s t) = [0]"
proof -
  let ?N = NUMBER_OF_SLABS_PER_CHUNK
  let ?m = "\<lambda>a. if a < ?N then Some None else None :: slab option option"
  have "{0..<0 + ?N} \<subseteq> dom ?m" by auto
  then obtain m free where m: "push_slabs ?N 0 ?m None = Inr (m, free)" "slabs_at m free (rev [0..<?N])"
    using push_slabs_spec [of ?m None "[]" 0 ?N] by auto
  have "rev [0..<?N] \<noteq> []" by simp
  then obtain p ps where ps: "rev [0..<?N] = p # ps" by (cases "rev [0..<?N]") blast+
  then have "p \<in> set (rev [0..<?N])" by simp
  then have "p < ?N" by (simp only: set_rev set_upt atLeastLessThan_iff)
  moreover obtain nx where "free = Some p" "m p = Some nx" using m(2) ps by auto
  ultimately show ?thesis
    using m(1) by (simp add: tl_allocate_def tl_refill_def tl_allocate_one_chunk_def aalloc_def new_tl_slabs_def
        read_next_def Let_def)
qed

lemma slab_outlives_its_thread:
  "\<exists>p s. tl_allocate t 1 new_tl_slabs = Inr (p, s) \<and>
     tl_deallocate u p 1 (tl_thread_exit t s) = Inl (Undefined ''freed memory'')"
proof -
  obtain p s where p: "tl_allocate t 1 new_tl_slabs = Inr (p, s)" "p < NUMBER_OF_SLABS_PER_CHUNK"
      "local_chunks (local_pool s t) = [0]"
    using tl_first_allocation [of t] by blast
  then have "tl_mem (tl_thread_exit t s) p = None" by (simp add: tl_thread_exit_def)
  then have "tl_deallocate u p 1 (tl_thread_exit t s) = Inl (Undefined ''freed memory'')"
    by (simp add: tl_deallocate_def write_next_def Let_def)
  with p(1) show ?thesis by blast
qed

end
