(* ===== verification/String_Slabs.thy ===== *)
theory String_Slabs
  imports Slab_Allocator "HOL-Library.Word"
begin

text \<open>
  The allocator of \<^verbatim>\<open>util::string\<close> (src/util/slab_allocator.cc): twelve lists of free slabs of two to the
  power of the index bytes, and the computation of the index (\<^verbatim>\<open>get_next_power_of_2\<close> of
  include/util/alignment.h). Addresses count bytes here; the memory maps the address of every slab to the
  pointer in its first eight bytes.
\<close>

text \<open>\<^verbatim>\<open>__builtin_clzll\<close>: the leading zeroes of a 64-bit number that is not zero.\<close>

definition builtin_clzll :: "64 word \<Rightarrow> nat" where
  "builtin_clzll w = length (takeWhile Not (rev (map (bit w) [0..<64])))"

definition get_next_power_of_2 :: "64 word \<Rightarrow> 64 word" where
  "get_next_power_of_2 n = 32 - of_nat (builtin_clzll (n - 1))"

record string_slabs =
  str_mem :: slab_memory
  str_brk :: nat
  linked_lists_of_free_slabs :: "slab option list"
  str_chunks :: "nat list"

definition new_string_slabs :: string_slabs where
  "new_string_slabs =
     \<lparr>str_mem = Map.empty, str_brk = 0, linked_lists_of_free_slabs = replicate 12 None, str_chunks = []\<rparr>"

text \<open>
  The loop over a new chunk: the first word of every slab is written, and the slab after it is
  \<open>slab_size\<close> bytes further.
\<close>

fun link_slabs :: "nat \<Rightarrow> nat \<Rightarrow> nat \<Rightarrow> slab option \<Rightarrow> slab_memory \<Rightarrow> slab option \<times> slab_memory" where
  "link_slabs 0 slab_size next_node current_node m = (current_node, m)"
| "link_slabs (Suc i) slab_size next_node current_node m =
     link_slabs i slab_size (next_node + slab_size) (Some next_node) (m(next_node \<mapsto> current_node))"

definition string_allocate_one_chunk :: "nat \<Rightarrow> string_slabs \<Rightarrow> slab option \<times> string_slabs" where
  "string_allocate_one_chunk power_of_2 s =
     (let slab_size = 2 ^ power_of_2; number_of_slabs = 4096 div 2 ^ power_of_2; new_chunk = str_brk s in
      case link_slabs number_of_slabs slab_size new_chunk None (str_mem s) of (current_node, m) \<Rightarrow>
        (current_node, s\<lparr>str_mem := m, str_brk := str_brk s + 4096, str_chunks := str_chunks s @ [new_chunk]\<rparr>))"

text \<open>
  \<^verbatim>\<open>allocate\<close> and \<^verbatim>\<open>deallocate\<close>. Requests of more than 2048 bytes go to \<^verbatim>\<open>malloc\<close> and \<^verbatim>\<open>free\<close>. The array has
  twelve elements; the language gives no meaning to an index beyond them.
\<close>

definition string_allocate :: "64 word \<Rightarrow> string_slabs \<Rightarrow> (slab \<times> string_slabs) outcome" where
  "string_allocate n s =
     (if n = 0 then Inl (Uncaught ''std::bad_alloc'')
      else if n > 2048 then
        Inr (str_brk s, s\<lparr>str_mem := (str_mem s)(str_brk s \<mapsto> None), str_brk := str_brk s + unat n\<rparr>)
      else
        let power_of_2 = unat (get_next_power_of_2 (max n 32)) in
        if length (linked_lists_of_free_slabs s) \<le> power_of_2 then Inl (Undefined ''array index out of bounds'')
        else
          case (case linked_lists_of_free_slabs s ! power_of_2 of
                  None \<Rightarrow> string_allocate_one_chunk power_of_2 s | Some p \<Rightarrow> (Some p, s)) of
            (None, s1) \<Rightarrow> Inl (Undefined ''null pointer'')
          | (Some chosen_slab, s1) \<Rightarrow>
              obind (read_next (str_mem s1) (Some chosen_slab)) (\<lambda>nx.
                Inr (chosen_slab,
                     s1\<lparr>linked_lists_of_free_slabs := (linked_lists_of_free_slabs s1)[power_of_2 := nx]\<rparr>)))"

definition string_deallocate :: "slab \<Rightarrow> 64 word \<Rightarrow> string_slabs \<Rightarrow> string_slabs outcome" where
  "string_deallocate p n s =
     (if n = 0 then Inl (Fatal ''zero slab size'')
      else if n > 2048 then Inr (s\<lparr>str_mem := (str_mem s)(p := None)\<rparr>)
      else
        let power_of_2 = unat (get_next_power_of_2 (max n 32)) in
        if length (linked_lists_of_free_slabs s) \<le> power_of_2 then Inl (Undefined ''array index out of bounds'')
        else
          obind (write_next p (linked_lists_of_free_slabs s ! power_of_2) (str_mem s)) (\<lambda>m.
            Inr (s\<lparr>str_mem := m,
                   linked_lists_of_free_slabs := (linked_lists_of_free_slabs s)[power_of_2 := Some p]\<rparr>)))"

definition string_thread_exit :: "string_slabs \<Rightarrow> string_slabs" where
  "string_thread_exit s =
     s\<lparr>str_mem := (\<lambda>a. if \<exists>c \<in> set (str_chunks s). c \<le> a \<and> a < c + 4096 then None else str_mem s a)\<rparr>"

section \<open>The chunks\<close>

text \<open>The slabs of a chunk, last one first.\<close>

lemma link_slabs_spec:
  assumes "0 < sz" "link_slabs k sz a cur m = (h, m')" "slabs_at m cur fs" "\<forall>x \<in> set fs. x < a"
  shows "slabs_at m' h (rev (map (\<lambda>i. a + i * sz) [0..<k]) @ fs) \<and> (\<forall>b. b < a \<longrightarrow> m' b = m b)"
  using assms(2-4)
proof (induction k arbitrary: a cur m fs)
  case (Suc k)
  let ?m = "m(a \<mapsto> cur)"
  have "a \<notin> set fs" using Suc.prems(3) by auto
  then have "slabs_at ?m (Some a) (a # fs)" using Suc.prems(2) by simp
  moreover have "\<forall>x \<in> set (a # fs). x < a + sz" using Suc.prems(3) assms(1) by auto
  ultimately have "slabs_at m' h (rev (map (\<lambda>i. a + sz + i * sz) [0..<k]) @ a # fs) \<and> (\<forall>b. b < a + sz \<longrightarrow> m' b = ?m b)"
    using Suc.IH [of "a + sz" "Some a" ?m "a # fs"] Suc.prems(1) [unfolded link_slabs.simps] by blast
  moreover have "map (\<lambda>i. a + i * sz) [0..<Suc k] = a # map (\<lambda>i. a + sz + i * sz) [0..<k]"
    by (simp only: upt_conv_Cons [of 0 "Suc k"] zero_less_Suc list.map map_Suc_upt [symmetric] map_map o_def)
      (simp add: algebra_simps)
  ultimately show ?case by auto
qed auto

section \<open>The index\<close>

lemma clzll_ge:
  assumes "k \<le> 64"
  shows "64 - k \<le> builtin_clzll w \<longleftrightarrow> unat w < 2 ^ k"
proof -
  let ?bs = "rev (map (bit w) [0..<64])"
  have len: "length ?bs = 64" by simp
  have nth: "?bs ! i = bit w (63 - i)" if "i < 64" for i using that by (simp add: rev_nth)
  have "64 - k \<le> length (takeWhile Not ?bs) \<longleftrightarrow> (\<forall>i < 64 - k. \<not> ?bs ! i)"
  proof
    assume l: "64 - k \<le> length (takeWhile Not ?bs)"
    show "\<forall>i < 64 - k. \<not> ?bs ! i"
    proof (intro allI impI)
      fix i assume "i < 64 - k"
      with l have i: "i < length (takeWhile Not ?bs)" by simp
      from nth_mem [OF this] have "\<not> takeWhile Not ?bs ! i" using set_takeWhileD by fastforce
      with takeWhile_nth [OF i] show "\<not> ?bs ! i" by simp
    qed
  next
    assume "\<forall>i < 64 - k. \<not> ?bs ! i"
    then show "64 - k \<le> length (takeWhile Not ?bs)"
      by (intro length_takeWhile_less_P_nth) (simp_all add: len)
  qed
  also have "\<dots> \<longleftrightarrow> (\<forall>j. k \<le> j \<longrightarrow> \<not> bit w j)"
  proof
    assume *: "\<forall>i < 64 - k. \<not> ?bs ! i"
    show "\<forall>j. k \<le> j \<longrightarrow> \<not> bit w j"
    proof (intro allI impI)
      fix j assume "k \<le> j"
      show "\<not> bit w j"
      proof (cases "j < 64")
        case True
        with * \<open>k \<le> j\<close> nth [of "63 - j"] show ?thesis by auto
      qed (use bit_imp_le_length [of w j] in auto)
    qed
  qed (use nth in auto)
  also have "\<dots> \<longleftrightarrow> take_bit k w = w"
  proof
    assume "\<forall>j. k \<le> j \<longrightarrow> \<not> bit w j"
    then show "take_bit k w = w" by (intro bit_eqI) (auto simp: bit_take_bit_iff intro: leI)
  next
    assume t: "take_bit k w = w"
    have "\<not> bit (take_bit k w) j" if "k \<le> j" for j using that by (simp add: bit_take_bit_iff)
    with t show "\<forall>j. k \<le> j \<longrightarrow> \<not> bit w j" by simp
  qed
  also have "\<dots> \<longleftrightarrow> unat w < 2 ^ k"
    using unsigned_take_bit_eq [of k w, where ?'a = nat] take_bit_nat_eq_self_iff [of k "unat w"]
    by (metis unsigned_word_eqI)
  finally show ?thesis by (simp add: builtin_clzll_def)
qed

lemma clzll_le: "builtin_clzll w \<le> 64"
  unfolding builtin_clzll_def by (metis length_takeWhile_le length_map length_rev length_upt diff_zero)

lemma unat_pred:
  fixes n :: "64 word"
  assumes "n \<noteq> 0"
  shows "unat (n - 1) = unat n - 1"
  using assms by (simp add: unat_sub word_le_nat_alt unat_gt_0 Suc_leI)

text \<open>
  The exponent is off by 32: adding 32 gives the least exponent \<open>k\<close> with \<open>n \<le> 2 ^ k\<close> that the comment
  announces.
\<close>

lemma get_next_power_of_2_off_by_32:
  assumes "1 < n" "k \<le> 64"
  shows "unat (get_next_power_of_2 n + 32) \<le> k \<longleftrightarrow> unat n \<le> 2 ^ k"
proof -
  let ?c = "builtin_clzll (n - 1)"
  have n: "n \<noteq> 0" "1 < unat n" using assms(1) by (auto simp: word_less_nat_alt)
  have "\<not> 64 \<le> ?c" using clzll_ge [of 0 "n - 1"] n unat_pred [of n] by simp
  moreover have "get_next_power_of_2 n + 32 = of_nat (64 - ?c)"
    using clzll_le [of "n - 1"] by (simp add: get_next_power_of_2_def of_nat_diff)
  then have "unat (get_next_power_of_2 n + 32) = 64 - ?c"
    by (simp only: unat_of_nat) simp
  moreover have "64 - ?c \<le> k \<longleftrightarrow> 64 - k \<le> ?c" by linarith
  moreover have "unat n - 1 < 2 ^ k \<longleftrightarrow> unat n \<le> 2 ^ k" using n by linarith
  ultimately show ?thesis using clzll_ge [OF assms(2), of "n - 1"] unat_pred [OF n(1)] by simp
qed

lemma get_next_power_of_2_large:
  assumes "n \<noteq> 0" "n \<le> 2048"
  shows "2 ^ 64 - 32 \<le> unat (get_next_power_of_2 n)"
proof -
  let ?c = "builtin_clzll (n - 1)"
  have "unat n \<le> 2048" using assms(2) by (simp add: word_le_nat_alt)
  moreover have "0 < unat n" using assms(1) by (simp add: unat_gt_0)
  ultimately have "unat (n - 1) < 2 ^ 11" using unat_pred [OF assms(1)] by simp
  then have "53 \<le> ?c" using clzll_ge [of 11 "n - 1"] by simp
  then have "?c = 32 + (?c - 32)" "21 \<le> ?c - 32" "?c - 32 \<le> 32" using clzll_le [of "n - 1"] by simp_all
  then obtain d where d: "?c = 32 + d" "21 \<le> d" "d \<le> 32" by blast
  then have "get_next_power_of_2 n = - of_nat d" by (simp add: get_next_power_of_2_def)
  moreover have "(of_nat (2 ^ 64 - d) :: 64 word) = - of_nat d" using d(3) by (simp add: of_nat_diff)
  ultimately have "unat (get_next_power_of_2 n) = unat (of_nat (2 ^ 64 - d) :: 64 word)" by simp
  then have "unat (get_next_power_of_2 n) = 2 ^ 64 - d" using d(2) by (simp only: unat_of_nat) simp
  then show ?thesis using d by simp
qed

text \<open>C40: The index of every small request is out of bounds: whatever the state of the allocator, a
  request of 1 to 2048 bytes reads, and a return of such a slab writes, outside the array of the twelve
  lists, because the exponent is computed as if \<^verbatim>\<open>__builtin_clzll\<close> counted the zeroes of 32 bits and the
  negative difference wraps around.\<close>

theorem string_index_out_of_bounds:
  assumes "n \<noteq> 0" "n \<le> 2048" "length (linked_lists_of_free_slabs s) = 12"
  shows "2 ^ 64 - 32 \<le> unat (get_next_power_of_2 (max n 32)) \<and>
    string_allocate n s = Inl (Undefined ''array index out of bounds'') \<and>
    string_deallocate p n s = Inl (Undefined ''array index out of bounds'')"
proof -
  have i: "2 ^ 64 - 32 \<le> unat (get_next_power_of_2 (max n 32))"
    using assms(1,2) by (intro get_next_power_of_2_large) (auto simp: max_def)
  then have "12 \<le> unat (get_next_power_of_2 (max n 32))" by (rule order_trans [rotated]) simp
  with i show ?thesis
    using assms by (simp add: string_allocate_def string_deallocate_def Let_def not_less)
qed

theorem string_index_out_of_bounds_witness:
  "string_allocate 100 new_string_slabs = Inl (Undefined ''array index out of bounds'')"
  using string_index_out_of_bounds [of 100 new_string_slabs 0] by (simp add: new_string_slabs_def)

text \<open>The chunk of a list whose index the code means to use, 5 to 11, is cut into disjoint slabs: the
  new list holds \<open>2 ^ (12 - k)\<close> slabs, last one first, each \<open>2 ^ k\<close> bytes long and inside the 4096 bytes of
  the chunk, and no slab that existed before is touched.\<close>

theorem string_chunk_layout:
  assumes "5 \<le> k" "k \<le> 11" "string_allocate_one_chunk k s = (h, s')"
  shows "\<exists>as. slabs_at (str_mem s') h as \<and> length as = 2 ^ (12 - k) \<and>
    (\<forall>i < length as. as ! i = str_brk s + (length as - 1 - i) * 2 ^ k \<and> as ! i + 2 ^ k \<le> str_brk s + 4096) \<and>
    str_brk s' = str_brk s + 4096 \<and> (\<forall>b < str_brk s. str_mem s' b = str_mem s b)"
proof -
  let ?n = "2 ^ (12 - k) :: nat"
  have split: "(4096 :: nat) = ?n * 2 ^ k"
    using assms(2) by (simp flip: power_add)
  then have n: "4096 div 2 ^ k = ?n" by (metis nonzero_mult_div_cancel_right power_not_zero zero_neq_numeral)
  obtain m where m: "link_slabs ?n (2 ^ k) (str_brk s) None (str_mem s) = (h, m)"
      "s' = s\<lparr>str_mem := m, str_brk := str_brk s + 4096, str_chunks := str_chunks s @ [str_brk s]\<rparr>"
    using assms(3) n by (auto simp: string_allocate_one_chunk_def Let_def split: prod.splits)
  let ?as = "rev (map (\<lambda>i. str_brk s + i * 2 ^ k) [0..<?n])"
  have at: "slabs_at m h ?as" "\<forall>b < str_brk s. m b = str_mem s b"
    using link_slabs_spec [OF _ m(1), of "[]"] by auto
  have nth: "?as ! i = str_brk s + (?n - 1 - i) * 2 ^ k" if "i < ?n" for i
    using that by (simp add: rev_nth)
  have "(?n - 1 - i) * 2 ^ k + 2 ^ k \<le> 4096" if "i < ?n" for i
  proof -
    have "(?n - 1 - i) * 2 ^ k + 2 ^ k = (?n - i) * 2 ^ k"
      using that by (metis Suc_diff_Suc add.commute diff_Suc_eq_diff_pred mult_Suc)
    also have "\<dots> \<le> ?n * 2 ^ k" by (intro mult_le_mono1) simp
    finally show ?thesis using split by simp
  qed
  with at m(2) nth show ?thesis by (intro exI [of _ ?as]) simp
qed

theorem string_chunk_layout_witness:
  "\<exists>as. slabs_at (str_mem (snd (string_allocate_one_chunk 11 new_string_slabs)))
     (fst (string_allocate_one_chunk 11 new_string_slabs)) as \<and> length as = 2"
  using string_chunk_layout [of 11 new_string_slabs] by (auto simp: prod_eq_iff)

end
