(* ===== verification/Lock_Free_Slabs.thy ===== *)
theory Lock_Free_Slabs
  imports Slab_Allocator "HOL-Library.Word"
begin

text \<open>
  \<^verbatim>\<open>SemiLockFreeSlabAllocator\<close> (and its static twin) of include/util/slab_allocator.h: a list of free slabs
  whose head is a pointer with a 64-bit tag, replaced by compare-and-exchange. Threads are interleaved at
  every access to the head and to the memory; a weak exchange may fail for no reason, and the holder of a
  slab may write to it at any moment, also while another thread still reads the slab's first word.
\<close>

section \<open>The allocator\<close>

text \<open>
  Where a thread is. \<open>Popping\<close>: \<^verbatim>\<open>allocate\<close> holds the old head; \<open>Pop_Linked\<close>: it has read the node after it.
  \<open>Pushing\<close>: \<^verbatim>\<open>deallocate\<close> or \<^verbatim>\<open>_allocate_one_chunk\<close> holds the first and the last node to be pushed, the old
  head, and the preserved slab to be returned; \<open>Push_Linked\<close>: the last node points to the old head.
\<close>

datatype lf_phase =
    Lf_Idle
  | Popping "slab option" "64 word"
  | Pop_Linked slab "64 word" "slab option"
  | Pushing slab slab "slab option" "64 word" "slab option"
  | Push_Linked slab slab "slab option" "64 word" "slab option"

record lf_slabs =
  lf_mem :: slab_memory
  lf_brk :: nat
  lf_chunks :: "nat list"
  head_ptr :: "slab option"
  head_tag :: "64 word"
  lf_phases :: "nat \<Rightarrow> lf_phase"

definition new_lf_slabs :: lf_slabs where
  "new_lf_slabs =
     \<lparr>lf_mem = Map.empty, lf_brk = 0, lf_chunks = [], head_ptr = None, head_tag = 0, lf_phases = (\<lambda>_. Lf_Idle)\<rparr>"

definition goto :: "nat \<Rightarrow> lf_phase \<Rightarrow> lf_slabs \<Rightarrow> lf_slabs" where
  "goto t ph s = s\<lparr>lf_phases := (lf_phases s)(t := ph)\<rparr>"

text \<open>The loop that links the nodes of a new chunk, apart from its last slab.\<close>

fun link_nodes :: "nat \<Rightarrow> slab \<Rightarrow> slab_memory \<Rightarrow> (slab \<times> slab_memory) outcome" where
  "link_nodes 0 previous_node m = Inr (previous_node, m)"
| "link_nodes (Suc i) previous_node m =
     obind (write_next (previous_node + 1) (Some previous_node) m) (link_nodes i (previous_node + 1))"

definition lf_allocate_one_chunk :: "nat \<Rightarrow> lf_slabs \<Rightarrow> (slab option \<times> lf_slabs) outcome" where
  "lf_allocate_one_chunk t s =
     (case aalloc NUMBER_OF_SLABS_PER_CHUNK (lf_brk s) (lf_mem s) of (new_chunk, brk, m) \<Rightarrow>
        let s1 = s\<lparr>lf_brk := brk, lf_chunks := lf_chunks s @ [new_chunk]\<rparr> in
        if NUMBER_OF_SLABS_PER_CHUNK = 1 then Inr (Some new_chunk, goto t Lf_Idle (s1\<lparr>lf_mem := m\<rparr>))
        else
          obind (link_nodes (NUMBER_OF_SLABS_PER_CHUNK - 2) new_chunk m) (\<lambda>(current_node, m').
            Inr (None, goto t (Pushing current_node new_chunk (head_ptr s) (head_tag s) (Some (current_node + 1)))
                         (s1\<lparr>lf_mem := m'\<rparr>))))"

text \<open>The calls, up to the first load of the head.\<close>

definition lf_allocate :: "nat \<Rightarrow> nat \<Rightarrow> lf_slabs \<Rightarrow> lf_slabs outcome" where
  "lf_allocate t n s =
     (if n \<noteq> 1 then Inl (Uncaught ''std::bad_alloc'') else Inr (goto t (Popping (head_ptr s) (head_tag s)) s))"

definition lf_deallocate :: "nat \<Rightarrow> slab \<Rightarrow> nat \<Rightarrow> lf_slabs \<Rightarrow> lf_slabs outcome" where
  "lf_deallocate t p n s =
     (if n \<noteq> 1 then Inl (Fatal ''multiple slabs are returned at once'')
      else Inr (goto t (Pushing p p (head_ptr s) (head_tag s) None) s))"

text \<open>
  One step of a thread: an access to the memory, or an exchange (which fails for no reason when
  \<open>spurious\<close>); the result is the slab that \<^verbatim>\<open>allocate\<close> returns in this step, if it does.
\<close>

definition lf_step :: "nat \<Rightarrow> bool \<Rightarrow> lf_slabs \<Rightarrow> (slab option \<times> lf_slabs) outcome" where
  "lf_step t spurious s =
     (case lf_phases s t of
        Lf_Idle \<Rightarrow> Inr (None, s)
      | Popping None tag \<Rightarrow> lf_allocate_one_chunk t s
      | Popping (Some p) tag \<Rightarrow>
          obind (read_next (lf_mem s) (Some p)) (\<lambda>nx. Inr (None, goto t (Pop_Linked p tag nx) s))
      | Pop_Linked p tag nx \<Rightarrow>
          if head_ptr s = Some p \<and> head_tag s = tag \<and> \<not> spurious
          then Inr (Some p, goto t Lf_Idle (s\<lparr>head_ptr := nx, head_tag := tag + 1\<rparr>))
          else Inr (None, goto t (Popping (head_ptr s) (head_tag s)) s)
      | Pushing first tail old tag preserved \<Rightarrow>
          obind (write_next tail old (lf_mem s)) (\<lambda>m.
            Inr (None, goto t (Push_Linked first tail old tag preserved) (s\<lparr>lf_mem := m\<rparr>)))
      | Push_Linked first tail old tag preserved \<Rightarrow>
          if head_ptr s = old \<and> head_tag s = tag \<and> \<not> spurious
          then Inr (preserved, goto t Lf_Idle (s\<lparr>head_ptr := Some first, head_tag := tag + 1\<rparr>))
          else Inr (None, goto t (Pushing first tail (head_ptr s) (head_tag s) preserved) s))"

text \<open>The destructor gives the chunks back to the system.\<close>

definition lf_destroy :: "lf_slabs \<Rightarrow> lf_slabs" where
  "lf_destroy s =
     s\<lparr>lf_mem := (\<lambda>a. if \<exists>c \<in> set (lf_chunks s). c \<le> a \<and> a < c + NUMBER_OF_SLABS_PER_CHUNK
                      then None else lf_mem s a)\<rparr>"

text \<open>
  Schedules: threads call, threads step, and holders of slabs write to them. \<open>L\<close> are the slabs in use.
  A slab that is given out while in use is reported as a crash; calls of busy threads and commands on
  slabs that are not in use are skipped.
\<close>

datatype lf_cmd = Lf_Alloc nat | Lf_Dealloc nat slab | Lf_Step nat bool | Lf_Store slab "slab option"

definition lf_exec :: "lf_cmd \<Rightarrow> slab set \<times> lf_slabs \<Rightarrow> (slab set \<times> lf_slabs) outcome" where
  "lf_exec c = (\<lambda>(L, s).
     case c of
       Lf_Alloc t \<Rightarrow> if lf_phases s t = Lf_Idle then obind (lf_allocate t 1 s) (\<lambda>s'. Inr (L, s')) else Inr (L, s)
     | Lf_Dealloc t p \<Rightarrow>
         if lf_phases s t = Lf_Idle \<and> p \<in> L then obind (lf_deallocate t p 1 s) (\<lambda>s'. Inr (L - {p}, s')) else Inr (L, s)
     | Lf_Step t spurious \<Rightarrow>
         obind (lf_step t spurious s) (\<lambda>(r, s').
           case r of None \<Rightarrow> Inr (L, s')
           | Some p \<Rightarrow> if p \<in> L then Inl (Undefined ''slab given out twice'') else Inr (insert p L, s'))
     | Lf_Store p v \<Rightarrow>
         if p \<in> L then obind (write_next p v (lf_mem s)) (\<lambda>m. Inr (L, s\<lparr>lf_mem := m\<rparr>)) else Inr (L, s))"

fun lf_run :: "lf_cmd list \<Rightarrow> slab set \<times> lf_slabs \<Rightarrow> (slab set \<times> lf_slabs) outcome" where
  "lf_run [] x = Inr x"
| "lf_run (c # cs) x = obind (lf_exec c x) (lf_run cs)"

section \<open>Invariant\<close>

text \<open>
  \<open>c\<close> counts the exchanges that have succeeded, and the tag is \<open>c\<close> modulo 2 to the 64. A thread that holds
  the head of the \<open>k\<close>-th exchange holds the present head when \<open>k = c\<close>.
\<close>

definition seen :: "nat \<Rightarrow> slab option \<Rightarrow> slab option \<Rightarrow> 64 word \<Rightarrow> bool" where
  "seen c head old tag \<longleftrightarrow> (\<exists>k \<le> c. tag = of_nat k \<and> (k = c \<longrightarrow> old = head))"

definition held :: "slab_memory \<Rightarrow> slab \<Rightarrow> slab \<Rightarrow> slab option \<Rightarrow> slab list \<Rightarrow> bool" where
  "held m first tail preserved l \<longleftrightarrow>
     (\<exists>ns. ns \<noteq> [] \<and> tail = last ns \<and> slabs_at (m(tail \<mapsto> None)) (Some first) ns \<and> distinct l \<and> set l \<subseteq> dom m \<and>
        l = ns @ (case preserved of None \<Rightarrow> [] | Some r \<Rightarrow> [r]))"

fun phase_ok :: "slab_memory \<Rightarrow> nat \<Rightarrow> slab option \<Rightarrow> slab list \<Rightarrow> lf_phase \<Rightarrow> bool" where
  "phase_ok m c head l Lf_Idle \<longleftrightarrow> l = []"
| "phase_ok m c head l (Popping old tag) \<longleftrightarrow>
     l = [] \<and> seen c head old tag \<and> (\<forall>p. old = Some p \<longrightarrow> p \<in> dom m)"
| "phase_ok m c head l (Pop_Linked p tag nx) \<longleftrightarrow>
     l = [] \<and> (\<exists>k \<le> c. tag = of_nat k \<and> (k = c \<longrightarrow> head = Some p \<and> m p = Some nx))"
| "phase_ok m c head l (Pushing first tail old tag preserved) \<longleftrightarrow>
     held m first tail preserved l \<and> seen c head old tag"
| "phase_ok m c head l (Push_Linked first tail old tag preserved) \<longleftrightarrow>
     held m first tail preserved l \<and> seen c head old tag \<and> m tail = Some old"

datatype lf_place = On_List | Held nat | Used

definition lf_layout ::
  "(slab \<Rightarrow> lf_place) \<Rightarrow> slab list \<Rightarrow> (nat \<Rightarrow> slab list) \<Rightarrow> nat \<Rightarrow> slab set \<Rightarrow> lf_slabs \<Rightarrow> bool" where
  "lf_layout own fs l c L s \<longleftrightarrow>
     slabs_at (lf_mem s) (head_ptr s) fs \<and> (\<forall>a \<in> set fs. own a = On_List) \<and> head_tag s = of_nat c \<and>
     (\<forall>t. phase_ok (lf_mem s) c (head_ptr s) (l t) (lf_phases s t) \<and> (\<forall>a \<in> set (l t). own a = Held t)) \<and>
     L \<subseteq> dom (lf_mem s) \<and> (\<forall>a \<in> L. own a = Used) \<and> dom (lf_mem s) \<subseteq> {..<lf_brk s}"

lemma lf_layoutI:
  assumes "slabs_at (lf_mem s) (head_ptr s) fs" "\<And>a. a \<in> set fs \<Longrightarrow> own a = On_List" "head_tag s = of_nat c"
    and "\<And>t. phase_ok (lf_mem s) c (head_ptr s) (l t) (lf_phases s t)" "\<And>t a. a \<in> set (l t) \<Longrightarrow> own a = Held t"
    and "L \<subseteq> dom (lf_mem s)" "\<And>a. a \<in> L \<Longrightarrow> own a = Used" "dom (lf_mem s) \<subseteq> {..<lf_brk s}"
  shows "lf_layout own fs l c L s"
  using assms unfolding lf_layout_def by blast

lemma lf_layoutD:
  assumes "lf_layout own fs l c L s"
  shows "slabs_at (lf_mem s) (head_ptr s) fs" "a \<in> set fs \<Longrightarrow> own a = On_List" "head_tag s = of_nat c"
    and "phase_ok (lf_mem s) c (head_ptr s) (l t) (lf_phases s t)" "a \<in> set (l t) \<Longrightarrow> own a = Held t"
    and "L \<subseteq> dom (lf_mem s)" "a \<in> L \<Longrightarrow> own a = Used" "dom (lf_mem s) \<subseteq> {..<lf_brk s}"
  using assms unfolding lf_layout_def by blast+

definition lf_invar :: "nat \<Rightarrow> slab set \<times> lf_slabs \<Rightarrow> bool" where
  "lf_invar n x \<longleftrightarrow> (\<exists>own fs l c. c \<le> n \<and> lf_layout own fs l c (fst x) (snd x))"

lemma lf_invar_new: "lf_invar 0 ({}, new_lf_slabs)"
  unfolding lf_invar_def
  by (intro exI [of _ "\<lambda>_. Used"] exI [of _ "[]"] exI [of _ "\<lambda>_. []"] exI [of _ 0])
    (simp add: lf_layout_def new_lf_slabs_def)

lemma goto_simps [simp]:
  "lf_mem (goto t ph s) = lf_mem s" "lf_brk (goto t ph s) = lf_brk s" "head_ptr (goto t ph s) = head_ptr s"
  "head_tag (goto t ph s) = head_tag s" "lf_phases (goto t ph s) = (lf_phases s)(t := ph)"
  by (simp_all add: goto_def)

text \<open>A thread does not notice writes to slabs that it does not hold, apart from the head, nor the exchanges of others.\<close>

lemma held_cong:
  assumes "held m first tail r l" "\<And>a. a \<in> set l \<Longrightarrow> m' a = m a" "dom m \<subseteq> dom m'"
  shows "held m' first tail r l"
proof -
  obtain ns where ns: "ns \<noteq> []" "tail = last ns" "slabs_at (m(tail \<mapsto> None)) (Some first) ns" "distinct l" "set l \<subseteq> dom m"
      "l = ns @ (case r of None \<Rightarrow> [] | Some r \<Rightarrow> [r])"
    using assms(1) by (auto simp: held_def)
  have "slabs_at (m'(tail \<mapsto> None)) (Some first) ns"
    using ns(3) assms(2) ns(6) by (subst slabs_at_cong [of ns _ "m(tail \<mapsto> None)"]) auto
  with ns assms(3) show ?thesis unfolding held_def by blast
qed

lemma phase_ok_cong:
  assumes "phase_ok m c head l ph" "\<And>a. a \<in> set l \<Longrightarrow> m' a = m a" "\<And>p. head = Some p \<Longrightarrow> m' p = m p" "dom m \<subseteq> dom m'"
  shows "phase_ok m' c head l ph"
proof (cases ph)
  case (Push_Linked first tail old tag r)
  then have h: "held m first tail r l" "m tail = Some old" "seen c head old tag" using assms(1) by auto
  then have "tail \<in> set l" by (auto simp: held_def)
  with h Push_Linked assms(2) held_cong [OF h(1) assms(2,4)] show ?thesis by simp
next
  case (Pushing first tail old tag r)
  then show ?thesis using assms held_cong [OF _ assms(2,4)] by simp
qed (use assms in \<open>auto 0 4\<close>)

lemma seen_mono: "seen c head old tag \<Longrightarrow> seen (Suc c) head' old tag"
  by (auto simp: seen_def intro: le_SucI)

lemma seen_now: "seen c head head (of_nat c)"
  by (auto simp: seen_def)

lemma phase_ok_exchange: "phase_ok m c head l ph \<Longrightarrow> phase_ok m (Suc c) head' l ph"
proof (cases ph)
  case (Pop_Linked p tag nx)
  moreover assume "phase_ok m c head l ph"
  ultimately obtain k where "l = []" "k \<le> c" "tag = of_nat k" by auto
  with Pop_Linked show ?thesis by (auto intro!: exI [of _ k])
qed (auto intro: seen_mono)

lemma tag_unique:
  assumes "c < 2 ^ 64" "k \<le> c" "(of_nat k :: 64 word) = of_nat c"
  shows "k = c"
proof -
  have "unat (of_nat k :: 64 word) = unat (of_nat c :: 64 word)" using assms(3) by simp
  then have "k mod 2 ^ 64 = c mod 2 ^ 64" by (simp only: unat_of_nat len_num0 len_bit0 len_num1) simp
  with assms(1,2) show ?thesis by simp
qed

lemma seenD: "seen c head old tag \<Longrightarrow> c < 2 ^ 64 \<Longrightarrow> tag = of_nat c \<Longrightarrow> old = head"
  unfolding seen_def using tag_unique by blast

section \<open>Steps\<close>

lemma lf_goto:
  assumes "lf_layout own fs l c L s" "phase_ok (lf_mem s) c (head_ptr s) (l t) ph"
  shows "lf_layout own fs l c L (goto t ph s)"
  using assms unfolding lf_layout_def by (auto simp: fun_upd_def)

lemma head_on_list:
  assumes "lf_layout own fs l c L s" "head_ptr s = Some p"
  shows "own p = On_List \<and> (\<exists>nx rest. fs = p # rest \<and> lf_mem s p = Some nx \<and> slabs_at (lf_mem s) nx rest)"
  using lf_layoutD(1,2) [OF assms(1)] assms(2) by (auto simp: slabs_at_Some)

lemma lf_write:
  assumes "lf_layout own fs l c L s" "a \<in> dom (lf_mem s)" "own a \<noteq> On_List" "\<And>u. u \<noteq> t \<Longrightarrow> a \<notin> set (l u)"
    and "phase_ok ((lf_mem s)(a \<mapsto> v)) c (head_ptr s) (l t) ph"
  shows "lf_layout own fs l c L (goto t ph (s\<lparr>lf_mem := (lf_mem s)(a \<mapsto> v)\<rparr>))"
proof -
  note lay = lf_layoutD [OF assms(1)]
  have "a \<notin> set fs" using lay(2) [of a] assms(3) by auto
  show ?thesis
  proof (rule lf_layoutI, goal_cases)
    case 1
    then show ?case using lay(1) \<open>a \<notin> set fs\<close> by simp
  next
    case (4 u)
    show ?case
    proof (cases "u = t")
      case False
      then have "phase_ok ((lf_mem s)(a \<mapsto> v)) c (head_ptr s) (l u) (lf_phases s u)"
        using assms(3,4) head_on_list [OF assms(1)] by (intro phase_ok_cong [OF lay(4) [of u]]) auto
      with False show ?thesis by simp
    qed (use assms(5) in simp)
  next
    case 6
    then show ?case using lay(6) by auto
  next
    case 8
    then show ?case using lay(8) assms(2) by auto
  qed (use lay(2,3,5,7) in simp_all)
qed

lemma goto_same: "goto t (lf_phases s t) s = s"
  by (simp add: goto_def)

lemma lf_store:
  assumes "lf_layout own fs l c L s" "p \<in> L"
  shows "\<exists>m. write_next p v (lf_mem s) = Inr m \<and> lf_layout own fs l c L (s\<lparr>lf_mem := m\<rparr>)"
proof -
  note lay = lf_layoutD [OF assms(1)]
  let ?m = "(lf_mem s)(p \<mapsto> v)"
  have own: "own p = Used" and d: "p \<in> dom (lf_mem s)" using lay(6,7) assms(2) by blast+
  have nl: "p \<notin> set (l u)" for u using lay(5) [of p u] own by auto
  have "phase_ok ?m c (head_ptr s) (l 0) (lf_phases s 0)"
    using nl [of 0] own head_on_list [OF assms(1)] by (intro phase_ok_cong [OF lay(4) [of 0]]) auto
  from lf_write [OF assms(1) d _ nl this] own have "lf_layout own fs l c L (s\<lparr>lf_mem := ?m\<rparr>)"
    using goto_same [of 0 "s\<lparr>lf_mem := ?m\<rparr>"] by simp
  with d show ?thesis by (auto simp: write_next_def)
qed

lemma lf_exchange_pop:
  assumes "lf_layout own fs l c L s" "lf_phases s t = Pop_Linked p tag nx" "c < 2 ^ 64"
    and "head_ptr s = Some p" "head_tag s = tag"
  shows "p \<notin> L \<and> lf_invar (Suc c) (insert p L, goto t Lf_Idle (s\<lparr>head_ptr := nx, head_tag := tag + 1\<rparr>))"
proof -
  note lay = lf_layoutD [OF assms(1)]
  have ph: "phase_ok (lf_mem s) c (head_ptr s) (l t) (Pop_Linked p tag nx)" using lay(4) [of t] assms(2) by simp
  then obtain k where k: "l t = []" "k \<le> c" "tag = of_nat k" "k = c \<longrightarrow> lf_mem s p = Some nx" by auto
  then have "k = c" using tag_unique [OF assms(3) k(2)] lay(3) assms(5) by simp
  obtain nx' rest where hd: "own p = On_List" "fs = p # rest" "lf_mem s p = Some nx'" "slabs_at (lf_mem s) nx' rest"
    using head_on_list [OF assms(1,4)] by blast
  have nx: "nx' = nx" using hd(3) k(4) \<open>k = c\<close> by simp
  have dist: "p \<notin> set rest" using slabs_at_distinct [OF lay(1)] hd(2) by simp
  have nL: "p \<notin> L" using lay(7) [of p] hd(1) by auto
  have "lf_layout (own(p := Used)) rest l (Suc c) (insert p L) (goto t Lf_Idle (s\<lparr>head_ptr := nx, head_tag := tag + 1\<rparr>))"
  proof (rule lf_layoutI, goal_cases)
    case (4 u)
    then show ?case using phase_ok_exchange [OF lay(4) [of u]] k(1) by simp
  next
    case (5 u a)
    then show ?case using lay(5) [of a u] hd(1) by auto
  next
    case 6
    then show ?case using lay(6) hd(3) by auto
  qed (use lay(2,3,7,8) hd nx dist assms(5) in auto)
  with nL show ?thesis unfolding lf_invar_def by auto
qed

text \<open>A chain that ends in the present head joins the list.\<close>

lemma slabs_at_join:
  "slabs_at (m(last ns \<mapsto> None)) p ns \<Longrightarrow> ns \<noteq> [] \<Longrightarrow> distinct ns \<Longrightarrow> m (last ns) = Some q \<Longrightarrow> slabs_at m q fs \<Longrightarrow>
     slabs_at m p (ns @ fs)"
proof (induction ns arbitrary: p)
  case (Cons n ns)
  show ?case
  proof (cases "ns = []")
    case False
    then have "n \<noteq> last ns" using Cons.prems(3) by auto
    with Cons False show ?thesis by auto
  qed (use Cons.prems in auto)
qed simp

lemma lf_exchange_push:
  assumes "lf_layout own fs l c L s" "lf_phases s t = Push_Linked first tail old tag r" "c < 2 ^ 64"
    and "head_ptr s = old" "head_tag s = tag"
  shows "(\<forall>p. r = Some p \<longrightarrow> p \<notin> L) \<and>
    lf_invar (Suc c) (set_option r \<union> L, goto t Lf_Idle (s\<lparr>head_ptr := Some first, head_tag := tag + 1\<rparr>))"
proof -
  note lay = lf_layoutD [OF assms(1)]
  have ph: "phase_ok (lf_mem s) c (head_ptr s) (l t) (Push_Linked first tail old tag r)"
    using lay(4) [of t] assms(2) by simp
  then obtain ns where ns: "ns \<noteq> []" "tail = last ns" "slabs_at ((lf_mem s)(tail \<mapsto> None)) (Some first) ns"
      "distinct (l t)" "set (l t) \<subseteq> dom (lf_mem s)" "l t = ns @ (case r of None \<Rightarrow> [] | Some r \<Rightarrow> [r])"
      "lf_mem s tail = Some old"
    by (auto simp: held_def)
  have r: "set_option r \<subseteq> set (l t)" "set ns \<subseteq> set (l t)" "distinct ns" "set_option r \<inter> set ns = {}"
    using ns(4,6) by (auto split: option.splits)
  have lt: "own a = Held t" if "a \<in> set ns \<union> set_option r" for a using lay(5) [of a t] that r by blast
  have join: "slabs_at (lf_mem s) (Some first) (ns @ fs)"
    using slabs_at_join [of "lf_mem s" ns "Some first" old fs] ns r(3) lay(1) assms(4) by simp
  let ?own = "\<lambda>a. if a \<in> set ns then On_List else if a \<in> set_option r then Used else own a"
  have "lf_layout ?own (ns @ fs) (l(t := [])) (Suc c) (set_option r \<union> L)
      (goto t Lf_Idle (s\<lparr>head_ptr := Some first, head_tag := tag + 1\<rparr>))"
  proof (rule lf_layoutI, goal_cases)
    case 1
    then show ?case using join by simp
  next
    case (2 a)
    then show ?case using lay(2) [of a] lt [of a] by auto
  next
    case (4 u)
    then show ?case using phase_ok_exchange [OF lay(4) [of u]] by simp
  next
    case (5 u a)
    then have "u \<noteq> t" "own a = Held u" using lay(5) [of a u] by (auto split: if_splits)
    moreover then have "a \<notin> set ns \<union> set_option r" using lt [of a] by auto
    ultimately show ?case by simp
  next
    case 6
    then show ?case using lay(6) r(1) ns(5) by auto
  next
    case (7 a)
    then show ?case using lay(7) [of a] lt [of a] r(4) by auto
  qed (use lay(3,8) assms(5) in simp_all)
  moreover have "p \<notin> L" if "r = Some p" for p using lay(7) [of p] lt [of p] that by auto
  ultimately show ?thesis unfolding lf_invar_def by auto
qed

text \<open>A new chunk: its nodes and its preserved slab are held by the thread that obtained it.\<close>

lemma link_nodes_spec:
  assumes "{a..a + k} \<subseteq> dom m" "slabs_at (m(b \<mapsto> None)) (Some a) (a # ys)" "b = last (a # ys)" "\<forall>y \<in> set ys. y < a"
  shows "\<exists>m'. link_nodes k a m = Inr (a + k, m') \<and> slabs_at (m'(b \<mapsto> None)) (Some (a + k)) (rev [a..<a + k + 1] @ ys) \<and>
    dom m' = dom m \<and> (\<forall>x. x \<notin> {a<..a + k} \<longrightarrow> m' x = m x)"
  using assms
proof (induction k arbitrary: a m ys)
  case (Suc k)
  have "Suc a \<in> {a..a + Suc k}" by simp
  then have d: "Suc a \<in> dom m" using Suc.prems(1) by blast
  let ?m = "m(Suc a \<mapsto> Some a)"
  have b: "b \<le> a" using Suc.prems(3,4) by (auto split: if_splits intro: less_imp_le)
  have "slabs_at (?m(b \<mapsto> None)) (Some (Suc a)) (Suc a # a # ys)"
  proof -
    have n: "Suc a \<notin> set (a # ys)" "Suc a \<noteq> b" using Suc.prems(4) b by auto
    then have "slabs_at ((m(b \<mapsto> None))(Suc a \<mapsto> Some a)) (Some a) (a # ys)"
      using Suc.prems(2) slabs_at_upd [OF n(1)] by blast
    with \<open>Suc a \<noteq> b\<close> show ?thesis by (simp add: fun_upd_twist)
  qed
  moreover have "{Suc a..Suc a + k} \<subseteq> dom ?m"
  proof -
    have "{Suc a..Suc a + k} \<subseteq> {a..a + Suc k}" by auto
    also have "\<dots> \<subseteq> dom ?m" using Suc.prems(1) by (rule order_trans) auto
    finally show ?thesis .
  qed
  moreover have "b = last (Suc a # a # ys)" using Suc.prems(3) by simp
  moreover have "\<forall>y \<in> set (a # ys). y < Suc a" using Suc.prems(4) by auto
  ultimately obtain m' where m': "link_nodes k (Suc a) ?m = Inr (Suc a + k, m')"
      "slabs_at (m'(b \<mapsto> None)) (Some (Suc a + k)) (rev [Suc a..<Suc a + k + 1] @ a # ys)" "dom m' = dom ?m"
      "\<forall>x. x \<notin> {Suc a<..Suc a + k} \<longrightarrow> m' x = ?m x"
    using Suc.IH [of "Suc a" ?m "a # ys"] by blast
  have "rev [a..<a + Suc k + 1] = rev [Suc a..<Suc a + k + 1] @ [a]"
    by (simp add: upt_conv_Cons del: upt_Suc)
  then have "slabs_at (m'(b \<mapsto> None)) (Some (a + Suc k)) (rev [a..<a + Suc k + 1] @ ys)" using m'(2) by simp
  moreover have "dom m' = dom m" using d m'(3) by auto
  moreover have "link_nodes (Suc k) a m = Inr (a + Suc k, m')" using d m'(1) by (auto simp: write_next_def)
  moreover have "m' x = m x" if "x \<notin> {a<..a + Suc k}" for x
  proof -
    have "x \<notin> {Suc a<..Suc a + k}" "x \<noteq> Suc a" using that by auto
    then show ?thesis using m'(4) by simp
  qed
  ultimately show ?case by blast
qed auto

lemma phase_ok_dom: "phase_ok m c head l ph \<Longrightarrow> set l \<subseteq> dom m"
  by (cases ph) (auto simp: held_def)

lemma lf_extend:
  assumes "lf_layout own fs l c L s" "l t = []" "\<And>x. x \<in> dom (lf_mem s) \<Longrightarrow> m' x = lf_mem s x" "dom m' \<subseteq> {..<brk}"
    and "phase_ok m' c (head_ptr s) l' ph" "set l' \<subseteq> {lf_brk s..}"
  shows "lf_layout (\<lambda>x. if lf_brk s \<le> x then Held t else own x) fs (l(t := l')) c L
    (goto t ph (s\<lparr>lf_brk := brk, lf_chunks := cs, lf_mem := m'\<rparr>))"
proof -
  note lay = lf_layoutD [OF assms(1)]
  have old: "x < lf_brk s" if "x \<in> dom (lf_mem s)" for x using lay(8) that by blast
  have fs: "x \<in> dom (lf_mem s)" if "x \<in> set fs" for x using slabs_at_dom [OF lay(1)] that by blast
  have dm: "dom (lf_mem s) \<subseteq> dom m'" using assms(3) by fastforce
  show ?thesis
  proof (rule lf_layoutI, goal_cases)
    case 1
    have "\<And>x. x \<in> set fs \<Longrightarrow> m' x = lf_mem s x" using fs assms(3) by blast
    then show ?case using lay(1) slabs_at_cong [of fs m' "lf_mem s"] by simp
  next
    case (2 x)
    then show ?case using lay(2) [of x] old [OF fs] by fastforce
  next
    case (4 u)
    have "m' x = lf_mem s x" if "x \<in> set (l u)" for x using phase_ok_dom [OF lay(4) [of u]] that assms(3) by blast
    moreover have "m' p = lf_mem s p" if "head_ptr s = Some p" for p
      using head_on_list [OF assms(1) that] assms(3) by blast
    ultimately have "phase_ok m' c (head_ptr s) (l u) (lf_phases s u)"
      using dm by (intro phase_ok_cong [OF lay(4) [of u]]) auto
    then show ?case using assms(5) by simp
  next
    case (5 u x)
    show ?case
    proof (cases "u = t")
      case False
      then have "x \<in> dom (lf_mem s)" using 5 phase_ok_dom [OF lay(4) [of u]] by auto
      from old [OF this] False 5 lay(5) [of x u] show ?thesis by simp
    qed (use 5 assms(6) in auto)
  next
    case (7 x)
    then have "x \<in> dom (lf_mem s)" using lay(6) by blast
    from old [OF this] lay(7) 7 show ?case by simp
  next
    case 6
    then show ?case using lay(6) dm by auto
  qed (use lay(3) assms(4) in simp_all)
qed

lemma lf_chunk:
  assumes "lf_layout own fs l c L s" "lf_phases s t = Popping None tag"
  shows "\<exists>s'. lf_allocate_one_chunk t s = Inr (None, s') \<and> lf_invar c (L, s')"
proof -
  let ?N = NUMBER_OF_SLABS_PER_CHUNK and ?b = "lf_brk s"
  have N: "?N - 2 + 2 = ?N" "?N \<noteq> 1" by (simp_all add: NUMBER_OF_SLABS_PER_CHUNK_def)
  define k where "k = ?N - 2"
  have k: "?N = k + 2" using N by (simp add: k_def)
  note lay = lf_layoutD [OF assms(1)]
  have lt: "l t = []" using lay(4) [of t] assms(2) by simp
  obtain ch brk m where a: "aalloc ?N ?b (lf_mem s) = (ch, brk, m)" by (metis prod_cases3)
  note m = aalloc_mem [OF lay(8) a]
  have mb: "m ?b = Some None" using a k by (auto simp: aalloc_def)
  have "{?b..?b + k} \<subseteq> dom m" using m(3) k by auto
  then obtain m' where m': "link_nodes k ?b m = Inr (?b + k, m')"
      "slabs_at (m'(?b \<mapsto> None)) (Some (?b + k)) (rev [?b..<?b + k + 1])" "dom m' = dom m"
      "\<And>x. x \<notin> {?b<..?b + k} \<Longrightarrow> m' x = m x"
    using link_nodes_spec [of ?b k m ?b "[]"] by auto
  let ?r = "Some (?b + k + 1)" and ?l = "rev [?b..<?b + k + 1] @ [?b + k + 1]"
  let ?ph = "Pushing (?b + k) ?b (head_ptr s) (head_tag s) ?r"
  have "held m' (?b + k) ?b ?r ?l"
    unfolding held_def using m'(2,3) m(3) k by (intro exI [of _ "rev [?b..<?b + k + 1]"]) (auto simp: last_rev)
  then have ph: "phase_ok m' c (head_ptr s) ?l ?ph" using seen_now lay(3) by simp
  have old: "m' x = lf_mem s x" if "x \<in> dom (lf_mem s)" for x
  proof -
    have "x < ?b" using lay(8) that by blast
    then show ?thesis using m'(4) [of x] m(4) [OF that] by simp
  qed
  have "dom m' \<subseteq> {..<brk}" using lay(8) m'(3) m(2,3) by auto
  moreover have "set ?l \<subseteq> {?b..}" by auto
  ultimately have "lf_invar c (L, goto t ?ph (s\<lparr>lf_brk := brk, lf_chunks := lf_chunks s @ [ch], lf_mem := m'\<rparr>))"
    using lf_extend [OF assms(1) lt old _ ph, of brk "lf_chunks s @ [ch]"]
    unfolding lf_invar_def fst_conv snd_conv by blast
  moreover have "lf_allocate_one_chunk t s =
      Inr (None, goto t ?ph (s\<lparr>lf_brk := brk, lf_chunks := lf_chunks s @ [ch], lf_mem := m'\<rparr>))"
    using a m'(1) m(1) N(2) by (simp add: lf_allocate_one_chunk_def k_def Let_def)
  ultimately show ?thesis by blast
qed

text \<open>The remaining steps leave the list as it is.\<close>

lemma lf_invarI: "lf_layout own fs l c L s \<Longrightarrow> c \<le> n \<Longrightarrow> lf_invar n (L, s)"
  unfolding lf_invar_def by auto

lemma lf_invar_mono: "lf_invar n x \<Longrightarrow> n \<le> n' \<Longrightarrow> lf_invar n' x"
  unfolding lf_invar_def by (meson order_trans)

lemma lf_reload:
  assumes "lf_layout own fs l c L s"
  shows "lf_phases s t = Pop_Linked p tag nx \<Longrightarrow> lf_layout own fs l c L (goto t (Popping (head_ptr s) (head_tag s)) s)"
    and "lf_phases s t = Lf_Idle \<Longrightarrow> lf_layout own fs l c L (goto t (Popping (head_ptr s) (head_tag s)) s)"
    and "lf_phases s t = Push_Linked first tail old tag r \<Longrightarrow>
      lf_layout own fs l c L (goto t (Pushing first tail (head_ptr s) (head_tag s) r) s)"
proof -
  note lay = lf_layoutD [OF assms]
  have s: "seen c (head_ptr s) (head_ptr s) (head_tag s)" using seen_now lay(3) by simp
  moreover have "\<forall>p. head_ptr s = Some p \<longrightarrow> p \<in> dom (lf_mem s)" by (auto dest: head_on_list [OF assms])
  ultimately have "lf_layout own fs l c L (goto t (Popping (head_ptr s) (head_tag s)) s)" if "l t = []"
    using that by (intro lf_goto [OF assms]) simp
  moreover have "l t = []" if "lf_phases s t = Pop_Linked p tag nx \<or> lf_phases s t = Lf_Idle"
    using lay(4) [of t] that by auto
  ultimately show "lf_phases s t = Pop_Linked p tag nx \<Longrightarrow> lf_layout own fs l c L (goto t (Popping (head_ptr s) (head_tag s)) s)"
      "lf_phases s t = Lf_Idle \<Longrightarrow> lf_layout own fs l c L (goto t (Popping (head_ptr s) (head_tag s)) s)"
    by blast+
  show "lf_layout own fs l c L (goto t (Pushing first tail (head_ptr s) (head_tag s) r) s)"
    if "lf_phases s t = Push_Linked first tail old tag r"
    using lay(4) [of t] s that by (intro lf_goto [OF assms]) simp
qed

lemma lf_read_next:
  assumes "lf_layout own fs l c L s" "lf_phases s t = Popping (Some p) tag"
  shows "\<exists>nx. read_next (lf_mem s) (Some p) = Inr nx \<and> lf_layout own fs l c L (goto t (Pop_Linked p tag nx) s)"
proof -
  have ph: "phase_ok (lf_mem s) c (head_ptr s) (l t) (Popping (Some p) tag)"
    using lf_layoutD(4) [OF assms(1), of t] assms(2) by simp
  then obtain nx where nx: "lf_mem s p = Some nx" by auto
  have "phase_ok (lf_mem s) c (head_ptr s) (l t) (Pop_Linked p tag nx)"
    using ph nx by (auto simp: seen_def)
  from lf_goto [OF assms(1) this] nx show ?thesis by (simp add: read_next_def)
qed

lemma held_tail:
  assumes "held m first tail r l"
  shows "tail \<in> set l" "tail \<in> dom m"
proof -
  show "tail \<in> set l" using assms by (auto simp: held_def)
  moreover have "set l \<subseteq> dom m" using assms by (auto simp: held_def)
  ultimately show "tail \<in> dom m" by blast
qed

lemma lf_link_tail:
  assumes "lf_layout own fs l c L s" "lf_phases s t = Pushing first tail old tag r"
  shows "\<exists>m. write_next tail old (lf_mem s) = Inr m \<and>
    lf_layout own fs l c L (goto t (Push_Linked first tail old tag r) (s\<lparr>lf_mem := m\<rparr>))"
proof -
  note lay = lf_layoutD [OF assms(1)]
  let ?m = "(lf_mem s)(tail \<mapsto> old)"
  have ph: "held (lf_mem s) first tail r (l t)" "seen c (head_ptr s) old tag"
    using lay(4) [of t] assms(2) by simp_all
  note tl = held_tail [OF ph(1)]
  have own: "own tail = Held t" using lay(5) tl(1) by blast
  have "dom ?m = dom (lf_mem s)" using tl(2) by auto
  then have "held ?m first tail r (l t)" using ph(1) by (simp add: held_def)
  then have "phase_ok ?m c (head_ptr s) (l t) (Push_Linked first tail old tag r)" using ph(2) by simp
  from lf_write [OF assms(1) tl(2) _ _ this] own
  have "lf_layout own fs l c L (goto t (Push_Linked first tail old tag r) (s\<lparr>lf_mem := ?m\<rparr>))"
    using lay(5) [of tail] by fastforce
  with tl(2) show ?thesis by (auto simp: write_next_def)
qed

lemma lf_begin_deallocate:
  assumes "lf_layout own fs l c L s" "lf_phases s t = Lf_Idle" "p \<in> L"
  shows "lf_layout (own(p := Held t)) fs (l(t := [p])) c (L - {p})
    (goto t (Pushing p p (head_ptr s) (head_tag s) None) s)"
proof -
  note lay = lf_layoutD [OF assms(1)]
  have own: "own p = Used" "p \<in> dom (lf_mem s)" using lay(6,7) assms(3) by blast+
  then have "held (lf_mem s) p p None [p]" by (auto simp: held_def intro!: exI [of _ "[p]"])
  then have "phase_ok (lf_mem s) c (head_ptr s) [p] (Pushing p p (head_ptr s) (head_tag s) None)"
    using seen_now lay(3) by simp
  moreover have "l t = []" using lay(4) [of t] assms(2) by simp
  ultimately show ?thesis
    using own lay by (intro lf_layoutI) (auto simp: fun_upd_def split: if_splits)
qed

lemma lf_step_safe:
  assumes "lf_layout own fs l c L s" "c < 2 ^ 64"
  shows "\<exists>r s'. lf_step t spurious s = Inr (r, s') \<and> (\<forall>p. r = Some p \<longrightarrow> p \<notin> L) \<and> lf_invar (Suc c) (set_option r \<union> L, s')"
proof (cases "lf_phases s t")
  case Lf_Idle
  then show ?thesis using lf_invarI [OF assms(1)] by (simp add: lf_step_def)
next
  case (Popping old tag)
  show ?thesis
  proof (cases old)
    case None
    obtain s' where s': "lf_allocate_one_chunk t s = Inr (None, s')" "lf_invar c (L, s')"
      using lf_chunk [OF assms(1)] Popping None by blast
    then have "lf_invar (Suc c) (L, s')" unfolding lf_invar_def using le_SucI by blast
    with s'(1) Popping None show ?thesis by (simp add: lf_step_def)
  next
    case (Some p)
    then show ?thesis using lf_read_next [OF assms(1), of t p tag] Popping lf_invarI by (fastforce simp: lf_step_def)
  qed
next
  case (Pop_Linked p tag nx)
  show ?thesis
  proof (cases "head_ptr s = Some p \<and> head_tag s = tag \<and> \<not> spurious")
    case True
    with lf_exchange_pop [OF assms(1) Pop_Linked assms(2)] Pop_Linked show ?thesis by (simp add: lf_step_def)
  next
    case False
    with lf_invarI [OF lf_reload(1) [OF assms(1) Pop_Linked], of "Suc c"] Pop_Linked show ?thesis
      by (simp add: lf_step_def del: not_imp de_Morgan_conj)
  qed
next
  case (Pushing first tail old tag r)
  then show ?thesis using lf_link_tail [OF assms(1) Pushing] lf_invarI by (fastforce simp: lf_step_def)
next
  case (Push_Linked first tail old tag r)
  show ?thesis
  proof (cases "head_ptr s = old \<and> head_tag s = tag \<and> \<not> spurious")
    case True
    with lf_exchange_push [OF assms(1) Push_Linked assms(2)] Push_Linked show ?thesis by (simp add: lf_step_def)
  next
    case False
    with lf_invarI [OF lf_reload(3) [OF assms(1) Push_Linked], of "Suc c"] Push_Linked show ?thesis
      by (simp add: lf_step_def del: not_imp de_Morgan_conj)
  qed
qed

section \<open>Every schedule is safe\<close>

lemma lf_exec_safe:
  assumes "lf_invar n x" "n < 2 ^ 64"
  shows "\<exists>y. lf_exec cmd x = Inr y \<and> lf_invar (Suc n) y"
proof -
  obtain L s where x: "x = (L, s)" by (cases x)
  obtain own fs l c where lay: "lf_layout own fs l c L s" and c: "c \<le> n"
    using assms(1) x by (auto simp: lf_invar_def)
  have keep: "lf_invar (Suc n) (L', s')" if "lf_layout own' fs' l' c L' s'" for own' fs' l' L' s'
    using lf_invarI [OF that] c by simp
  show ?thesis
  proof (cases cmd)
    case (Lf_Alloc t)
    then show ?thesis
      using x keep [OF lay] keep [OF lf_reload(2) [OF lay]] by (simp add: lf_exec_def lf_allocate_def)
  next
    case (Lf_Dealloc t p)
    then show ?thesis
      using x keep [OF lay] keep [OF lf_begin_deallocate [OF lay]] by (simp add: lf_exec_def lf_deallocate_def)
  next
    case (Lf_Step t spurious)
    obtain r s' where r: "lf_step t spurious s = Inr (r, s')" "\<forall>p. r = Some p \<longrightarrow> p \<notin> L" "lf_invar (Suc c) (set_option r \<union> L, s')"
      using lf_step_safe [OF lay, of t spurious] c assms(2) by auto
    then have "lf_invar (Suc n) (set_option r \<union> L, s')" using c lf_invar_mono by (metis Suc_le_mono)
    with r Lf_Step x show ?thesis by (cases r) (simp_all add: lf_exec_def)
  next
    case (Lf_Store p v)
    then show ?thesis
      using x keep [OF lay] lf_store [OF lay, of p v] keep by (auto simp: lf_exec_def)
  qed
qed

text \<open>C13: Whatever the threads allocate and return and the holders of slabs write, at every interleaving of
  the accesses to the head and to the slabs and with every pattern of spurious failures of the exchange,
  the lock-free allocator never touches a null pointer or unmapped memory, never gives out a slab that is in
  use, and keeps its list in order, for schedules of up to 2 to the 64 steps: within these the tag is not
  reused, so that an exchange with a stale next pointer fails.\<close>

theorem lock_free_pool_safe:
  assumes "length cs \<le> 2 ^ 64"
  shows "\<exists>y. lf_run cs ({}, new_lf_slabs) = Inr y \<and> lf_invar (length cs) y"
proof -
  have "\<exists>y. lf_run cs x = Inr y \<and> lf_invar (n + length cs) y" if "lf_invar n x" "n + length cs \<le> 2 ^ 64" for n x
    using that
  proof (induction cs arbitrary: n x)
    case (Cons c cs)
    obtain y where "lf_exec c x = Inr y" "lf_invar (Suc n) y" using lf_exec_safe [OF Cons.prems(1), of c] Cons.prems(2) by auto
    with Cons.IH [of "Suc n" y] Cons.prems(2) show ?case by simp
  qed simp
  from this [OF lf_invar_new] assms show ?thesis by simp
qed

theorem lock_free_pool_safe_witness:
  "\<exists>y. lf_run [Lf_Alloc 0, Lf_Alloc 1, Lf_Step 0 False, Lf_Step 1 False] ({}, new_lf_slabs) = Inr y"
  using lock_free_pool_safe [of "[Lf_Alloc 0, Lf_Alloc 1, Lf_Step 0 False, Lf_Step 1 False]"] by auto

end
