(* ===== verification/Static_Slabs.thy ===== *)
theory Static_Slabs
  imports Lock_Free_Slabs
begin

text \<open>
  The objects of the slab allocators of include/util/slab_allocator.h: every object of \<^verbatim>\<open>SimpleSlabAllocator\<close> has a
  free list and chunks of its own and compares unequal to all, while all objects of the static allocators stand
  for one pool in static members and compare equal. Containers rely on what the comparison promises: memory of one
  allocator can be returned through any that equals it.
\<close>

section \<open>Independent objects\<close>

text \<open>Many objects over one memory; an object is its free list and its chunks.\<close>

record slab_world =
  world_mem :: slab_memory
  world_brk :: nat
  pools :: "nat \<Rightarrow> slab option \<times> nat list"

definition new_slab_world :: slab_world where
  "new_slab_world = \<lparr>world_mem = Map.empty, world_brk = 0, pools = (\<lambda>_. (None, []))\<rparr>"

definition object_pool :: "nat \<Rightarrow> slab_world \<Rightarrow> simple_slabs" where
  "object_pool obj w =
     \<lparr>slab_mem = world_mem w, slab_brk = world_brk w, linked_list_of_free_slabs = fst (pools w obj),
      allocated_chunks = snd (pools w obj)\<rparr>"

definition put_pool :: "nat \<Rightarrow> simple_slabs \<Rightarrow> slab_world \<Rightarrow> slab_world" where
  "put_pool obj s w =
     \<lparr>world_mem = slab_mem s, world_brk = slab_brk s,
      pools = (pools w)(obj := (linked_list_of_free_slabs s, allocated_chunks s))\<rparr>"

definition object_allocate :: "nat \<Rightarrow> nat \<Rightarrow> slab_world \<Rightarrow> (slab \<times> slab_world) outcome" where
  "object_allocate obj n w = obind (simple_allocate n (object_pool obj w)) (\<lambda>(p, s). Inr (p, put_pool obj s w))"

definition object_deallocate :: "nat \<Rightarrow> slab \<Rightarrow> nat \<Rightarrow> slab_world \<Rightarrow> slab_world outcome" where
  "object_deallocate obj p n w = obind (simple_deallocate p n (object_pool obj w)) (\<lambda>s. Inr (put_pool obj s w))"

definition object_destroy :: "nat \<Rightarrow> slab_world \<Rightarrow> slab_world" where
  "object_destroy obj w = put_pool obj (simple_destroy (object_pool obj w)) w"

text \<open>The comparison, which no pair of objects passes, not even an object with itself.\<close>

definition object_equal :: "nat \<Rightarrow> nat \<Rightarrow> bool" where
  "object_equal a b \<longleftrightarrow> False"

section \<open>Static allocators\<close>

text \<open>
  The same code over static members, written out as it stands there: the object plays no part. The chunks go back when
  the chunk manager is destroyed at the end of the program, and the destructor of an object does nothing.
\<close>

definition static_allocate_one_chunk :: "simple_slabs \<Rightarrow> simple_slabs outcome" where
  "static_allocate_one_chunk s =
     (case aalloc NUMBER_OF_SLABS_PER_CHUNK (slab_brk s) (slab_mem s) of (new_chunk, brk, m) \<Rightarrow>
        obind (push_slabs NUMBER_OF_SLABS_PER_CHUNK new_chunk m (linked_list_of_free_slabs s))
          (\<lambda>(m', free). Inr (s\<lparr>slab_mem := m', slab_brk := brk, linked_list_of_free_slabs := free,
                                allocated_chunks := allocated_chunks s @ [new_chunk]\<rparr>)))"

definition static_allocate :: "nat \<Rightarrow> nat \<Rightarrow> simple_slabs \<Rightarrow> (slab \<times> simple_slabs) outcome" where
  "static_allocate obj n s =
     (if n \<noteq> 1 then Inl (Uncaught ''std::bad_alloc'')
      else obind (if linked_list_of_free_slabs s = None then static_allocate_one_chunk s else Inr s) (\<lambda>s1.
        case linked_list_of_free_slabs s1 of
          None \<Rightarrow> Inl (Undefined ''null pointer'')
        | Some chosen_slab \<Rightarrow>
            obind (read_next (slab_mem s1) (Some chosen_slab)) (\<lambda>nx.
              Inr (chosen_slab, s1\<lparr>linked_list_of_free_slabs := nx\<rparr>))))"

definition static_deallocate :: "nat \<Rightarrow> slab \<Rightarrow> nat \<Rightarrow> simple_slabs \<Rightarrow> simple_slabs outcome" where
  "static_deallocate obj p n s =
     (if n \<noteq> 1 then Inl (Fatal ''multiple slabs are returned at once'')
      else obind (write_next p (linked_list_of_free_slabs s) (slab_mem s)) (\<lambda>m.
        Inr (s\<lparr>slab_mem := m, linked_list_of_free_slabs := Some p\<rparr>)))"

definition static_destroy :: "nat \<Rightarrow> simple_slabs \<Rightarrow> simple_slabs" where
  "static_destroy obj s = s"

definition static_exit :: "simple_slabs \<Rightarrow> simple_slabs" where
  "static_exit s =
     s\<lparr>slab_mem := (\<lambda>a. if \<exists>c \<in> set (allocated_chunks s). c \<le> a \<and> a < c + NUMBER_OF_SLABS_PER_CHUNK
                        then None else slab_mem s a)\<rparr>"

definition static_equal :: "nat \<Rightarrow> nat \<Rightarrow> bool" where
  "static_equal a b \<longleftrightarrow> True"

text \<open>The two texts agree, whatever object is used.\<close>

lemma static_allocate_simple: "static_allocate obj = simple_allocate"
  by (intro ext) (simp add: static_allocate_def simple_allocate_def static_allocate_one_chunk_def simple_allocate_one_chunk_def)

lemma static_deallocate_simple: "static_deallocate obj = simple_deallocate"
  by (intro ext) (simp add: static_deallocate_def simple_deallocate_def)

text \<open>The static lock-free allocator: the calls of thread \<open>t\<close>, its steps, and the end of the program.\<close>

definition static_lf_allocate_one_chunk :: "nat \<Rightarrow> lf_slabs \<Rightarrow> (slab option \<times> lf_slabs) outcome" where
  "static_lf_allocate_one_chunk t s =
     (case aalloc NUMBER_OF_SLABS_PER_CHUNK (lf_brk s) (lf_mem s) of (new_chunk, brk, m) \<Rightarrow>
        let s1 = s\<lparr>lf_brk := brk, lf_chunks := lf_chunks s @ [new_chunk]\<rparr> in
        if NUMBER_OF_SLABS_PER_CHUNK = 1 then Inr (Some new_chunk, goto t Lf_Idle (s1\<lparr>lf_mem := m\<rparr>))
        else
          obind (link_nodes (NUMBER_OF_SLABS_PER_CHUNK - 2) new_chunk m) (\<lambda>(current_node, m').
            Inr (None, goto t (Pushing current_node new_chunk (head_ptr s) (head_tag s) (Some (current_node + 1)))
                         (s1\<lparr>lf_mem := m'\<rparr>))))"

definition static_lf_allocate :: "nat \<Rightarrow> nat \<Rightarrow> nat \<Rightarrow> lf_slabs \<Rightarrow> lf_slabs outcome" where
  "static_lf_allocate obj t n s =
     (if n \<noteq> 1 then Inl (Uncaught ''std::bad_alloc'') else Inr (goto t (Popping (head_ptr s) (head_tag s)) s))"

definition static_lf_deallocate :: "nat \<Rightarrow> nat \<Rightarrow> slab \<Rightarrow> nat \<Rightarrow> lf_slabs \<Rightarrow> lf_slabs outcome" where
  "static_lf_deallocate obj t p n s =
     (if n \<noteq> 1 then Inl (Fatal ''multiple slabs are returned at once'')
      else Inr (goto t (Pushing p p (head_ptr s) (head_tag s) None) s))"

definition static_lf_step :: "nat \<Rightarrow> bool \<Rightarrow> lf_slabs \<Rightarrow> (slab option \<times> lf_slabs) outcome" where
  "static_lf_step t spurious s =
     (case lf_phases s t of
        Popping None tag \<Rightarrow> static_lf_allocate_one_chunk t s
      | _ \<Rightarrow> lf_step t spurious s)"

definition static_lf_exit :: "lf_slabs \<Rightarrow> lf_slabs" where
  "static_lf_exit s =
     s\<lparr>lf_mem := (\<lambda>a. if \<exists>c \<in> set (lf_chunks s). c \<le> a \<and> a < c + NUMBER_OF_SLABS_PER_CHUNK
                      then None else lf_mem s a)\<rparr>"

lemma static_lf_simple:
  "static_lf_allocate obj = lf_allocate" "static_lf_deallocate obj = lf_deallocate" "static_lf_step = lf_step"
  "static_lf_exit = lf_destroy"
proof -
  have chunk: "static_lf_allocate_one_chunk t s = lf_allocate_one_chunk t s" for t s
    by (simp add: static_lf_allocate_one_chunk_def lf_allocate_one_chunk_def)
  show "static_lf_step = lf_step"
    by (intro ext) (simp add: static_lf_step_def chunk lf_step_def [of _ _ s for s] split: lf_phase.split option.split)
qed (intro ext, simp add: static_lf_allocate_def lf_allocate_def static_lf_deallocate_def lf_deallocate_def static_lf_exit_def
       lf_destroy_def)+

section \<open>What the comparisons promise\<close>

text \<open>Commands on objects: allocation, return and destruction through any of them.\<close>

datatype object_cmd = Obj_Alloc nat | Obj_Dealloc nat slab | Obj_Destroy nat

text \<open>\<open>L\<close> are the slabs in use, each with the object it was allocated through.\<close>

fun object_run ::
  "(nat \<Rightarrow> 's \<Rightarrow> (slab \<times> 's) outcome) \<Rightarrow> (nat \<Rightarrow> slab \<Rightarrow> 's \<Rightarrow> 's outcome) \<Rightarrow> (nat \<Rightarrow> 's \<Rightarrow> 's) \<Rightarrow> (nat \<Rightarrow> nat \<Rightarrow> bool) \<Rightarrow>
   object_cmd list \<Rightarrow> (slab \<rightharpoonup> nat) \<Rightarrow> 's \<Rightarrow> ((slab \<rightharpoonup> nat) \<times> 's) outcome" where
  "object_run alloc dealloc destroy eq [] L s = Inr (L, s)"
| "object_run alloc dealloc destroy eq (Obj_Alloc obj # cs) L s =
     obind (alloc obj s) (\<lambda>(p, s').
       if p \<in> dom L then Inl (Undefined ''slab given out twice'')
       else object_run alloc dealloc destroy eq cs (L(p \<mapsto> obj)) s')"
| "object_run alloc dealloc destroy eq (Obj_Dealloc obj p # cs) L s =
     (case L p of
        Some owner \<Rightarrow>
          if eq owner obj then obind (dealloc obj p s) (object_run alloc dealloc destroy eq cs (L(p := None)))
          else object_run alloc dealloc destroy eq cs L s
      | None \<Rightarrow> object_run alloc dealloc destroy eq cs L s)"
| "object_run alloc dealloc destroy eq (Obj_Destroy obj # cs) L s =
     object_run alloc dealloc destroy eq cs L (destroy obj s)"

lemma static_objects_interchangeable:
  "simple_invar (dom L) s \<Longrightarrow>
     \<exists>L' s'. object_run (\<lambda>obj. static_allocate obj 1) (\<lambda>obj p. static_deallocate obj p 1) static_destroy static_equal cs L s =
       Inr (L', s') \<and> simple_invar (dom L') s'"
proof (induction cs arbitrary: L s)
  case (Cons c cs)
  show ?case
  proof (cases c)
    case (Obj_Alloc obj)
    obtain p s' where p: "simple_allocate 1 s = Inr (p, s')" "p \<notin> dom L" "simple_invar (insert p (dom L)) s'"
      using simple_allocate_fresh [OF Cons.prems] by blast
    then have "simple_invar (dom (L(p \<mapsto> obj))) s'" by simp
    note rest = Cons.IH [OF this]
    have "object_run (\<lambda>obj. static_allocate obj 1) (\<lambda>obj p. static_deallocate obj p 1) static_destroy static_equal (c # cs) L s =
      object_run (\<lambda>obj. static_allocate obj 1) (\<lambda>obj p. static_deallocate obj p 1) static_destroy static_equal cs (L(p \<mapsto> obj)) s'"
      using p(1,2) by (simp add: Obj_Alloc static_allocate_simple)
    with rest show ?thesis by metis
  next
    case (Obj_Dealloc obj p)
    show ?thesis
    proof (cases "L p")
      case None
      with Cons.IH [OF Cons.prems] Obj_Dealloc show ?thesis by simp
    next
      case (Some owner)
      then have "p \<in> dom L" by blast
      from simple_deallocate_used [OF Cons.prems this] obtain s' where s': "simple_deallocate p 1 s = Inr s'"
          "simple_invar (dom L - {p}) s'" by blast
      then have "simple_invar (dom (L(p := None))) s'" by simp
      note rest = Cons.IH [OF this]
      have "object_run (\<lambda>obj. static_allocate obj 1) (\<lambda>obj p. static_deallocate obj p 1) static_destroy static_equal (c # cs) L s =
        object_run (\<lambda>obj. static_allocate obj 1) (\<lambda>obj p. static_deallocate obj p 1) static_destroy static_equal cs (L(p := None)) s'"
        using s'(1) Some by (simp add: Obj_Dealloc static_deallocate_simple static_equal_def)
      with rest show ?thesis by metis
    qed
  next
    case (Obj_Destroy obj)
    with Cons.IH [OF Cons.prems] show ?thesis by (simp add: static_destroy_def)
  qed
qed auto

text \<open>Objects of the static allocator can stand for each other, as their comparison says: whatever objects allocate and
  destroy, and through whatever object a slab is returned, no freed memory is touched, no slab in use is given out,
  and the pool stays in order.\<close>

theorem static_allocator_objects:
  "\<exists>L s. object_run (\<lambda>obj. static_allocate obj 1) (\<lambda>obj p. static_deallocate obj p 1) static_destroy static_equal cs Map.empty
      new_simple_slabs = Inr (L, s) \<and> simple_invar (dom L) s"
  by (rule static_objects_interchangeable) (simp add: simple_invar_new)

text \<open>
  Independent objects cannot: a slab of one object returned through another is given out by the other, also after
  the first object and its chunks are gone, and then read.
\<close>

lemma object_first_allocation:
  "\<exists>p w. object_allocate a 1 new_slab_world = Inr (p, w) \<and> p < NUMBER_OF_SLABS_PER_CHUNK \<and> snd (pools w a) = [0] \<and>
     (\<forall>b. b \<noteq> a \<longrightarrow> pools w b = (None, [])) \<and> (\<exists>v. world_mem w p = Some v)"
proof -
  let ?N = NUMBER_OF_SLABS_PER_CHUNK
  let ?m = "\<lambda>a. if a < ?N then Some None else None :: slab option option"
  have "{0..<0 + ?N} \<subseteq> dom ?m" by auto
  then obtain m free where m: "push_slabs ?N 0 ?m None = Inr (m, free)" "slabs_at m free (rev [0..<?N])"
    using push_slabs_spec [of ?m None "[]" 0 ?N] by auto
  have "rev [0..<?N] \<noteq> []" by simp
  then obtain p ps where ps: "rev [0..<?N] = p # ps" by (cases "rev [0..<?N]") blast+
  then have "p \<in> set (rev [0..<?N])" by simp
  then have "p < ?N" by (simp only: set_rev set_upt atLeastLessThan_iff)
  moreover obtain nx where "free = Some p" "m p = Some nx" using m(2) ps by auto
  ultimately show ?thesis
    using m(1)
    by (simp add: object_allocate_def simple_allocate_def simple_allocate_one_chunk_def aalloc_def object_pool_def
        put_pool_def new_slab_world_def read_next_def)
qed

lemma foreign_slab_dangles:
  assumes "a \<noteq> b"
  shows "\<exists>p w1 w2. object_allocate a 1 new_slab_world = Inr (p, w1) \<and> object_deallocate b p 1 w1 = Inr w2 \<and>
    object_allocate b 1 (object_destroy a w2) = Inl (Undefined ''freed memory'')"
proof -
  obtain p w v where p: "object_allocate a 1 new_slab_world = Inr (p, w)" "p < NUMBER_OF_SLABS_PER_CHUNK" "snd (pools w a) = [0]"
      "world_mem w p = Some v" "pools w b = (None, [])"
    using object_first_allocation [of a] assms by auto
  let ?w = "put_pool b \<lparr>slab_mem = (world_mem w)(p \<mapsto> None), slab_brk = world_brk w, linked_list_of_free_slabs = Some p,
    allocated_chunks = []\<rparr> w"
  have "object_deallocate b p 1 w = Inr ?w"
    using p(4,5) by (simp add: object_deallocate_def simple_deallocate_def object_pool_def write_next_def)
  moreover have "object_allocate b 1 (object_destroy a ?w) = Inl (Undefined ''freed memory'')"
    using assms p(2,3)
    by (simp add: object_allocate_def simple_allocate_def object_pool_def object_destroy_def put_pool_def simple_destroy_def read_next_def)
  ultimately show ?thesis using p(1) by blast
qed

text \<open>An allocator has to compare equal to itself; the independent ones do not.\<close>

lemma comparison_not_reflexive: "\<not> object_equal a a" "static_equal a b"
  by (simp_all add: object_equal_def static_equal_def)

end
