(* ===== verification/Queue_Ownership.thy ===== *)
theory Queue_Ownership
  imports Functor_Queues
begin

text \<open>
  Who frees a queued functor. Built with raw pointers (\<^verbatim>\<open>__USE_LOCK_FREE_QUEUE_WITH_RAW_POINTER\<close>,
  \<^verbatim>\<open>__USE_BLOCKING_QUEUE_WITH_RAW_POINTER\<close>), both queues of include/util/lock_free_queue.h and
  src/util/blocking_queue.cc hold pointers to functors: \<^verbatim>\<open>push\<close> allocates one, the loop of
  \<^verbatim>\<open>EventLoop::_invoke_all_functors\<close> calls and deletes it, and the destructor of the queue deletes what is left.
  Objects and nodes that are touched or deleted twice are a crash; both queues implement the interface
  \<open>pointer_queue\<close>, whose lemmas show that each object is deleted exactly once.
\<close>

section \<open>Functor objects\<close>

text \<open>Functors are known by what they do, \<open>'f\<close>; \<open>accepted\<close> and \<open>runs\<close> record which were queued and which were called.\<close>

record 'f functor_heap =
  objects :: "nat \<rightharpoonup> 'f"
  next_object :: nat
  accepted :: "'f list"
  runs :: "'f list"

definition empty_heap :: "'f functor_heap" where
  "empty_heap = \<lparr>objects = Map.empty, next_object = 0, accepted = [], runs = []\<rparr>"

definition new_object :: "'f \<Rightarrow> 'f functor_heap \<Rightarrow> nat \<times> 'f functor_heap" where
  "new_object f h =
     (next_object h, h\<lparr>objects := (objects h)(next_object h \<mapsto> f), next_object := Suc (next_object h),
                       accepted := accepted h @ [f]\<rparr>)"

definition delete_object :: "nat \<Rightarrow> 'f functor_heap \<Rightarrow> 'f functor_heap outcome" where
  "delete_object p h =
     (case objects h p of None \<Rightarrow> Inl (Undefined ''functor deleted twice'')
      | Some _ \<Rightarrow> Inr (h\<lparr>objects := (objects h)(p := None)\<rparr>))"

definition delete_ptr :: "nat option \<Rightarrow> 'f functor_heap \<Rightarrow> 'f functor_heap outcome" where
  "delete_ptr v h = (case v of None \<Rightarrow> Inr h | Some p \<Rightarrow> delete_object p h)"

text \<open>\<^verbatim>\<open>(*functor_ptr)(); delete functor_ptr;\<close>\<close>

definition invoke_and_delete :: "nat \<Rightarrow> 'f functor_heap \<Rightarrow> 'f functor_heap outcome" where
  "invoke_and_delete p h =
     (case objects h p of None \<Rightarrow> Inl (Undefined ''deleted functor called'')
      | Some f \<Rightarrow> delete_object p (h\<lparr>runs := runs h @ [f]\<rparr>))"

fun delete_pointers :: "nat list \<Rightarrow> 'f functor_heap \<Rightarrow> 'f functor_heap outcome" where
  "delete_pointers [] h = Inr h"
| "delete_pointers (p # ps) h = obind (delete_object p h) (delete_pointers ps)"

lemma delete_all_total:
  "distinct ps \<Longrightarrow> set ps \<subseteq> dom (objects h) \<Longrightarrow>
     delete_pointers ps h = Inr (h\<lparr>objects := objects h |` (- set ps)\<rparr>)"
proof (induction ps arbitrary: h)
  case Nil
  then show ?case by simp
next
  case (Cons p ps)
  then obtain f where f: "objects h p = Some f" by auto
  let ?h = "h\<lparr>objects := (objects h)(p := None)\<rparr>"
  have "(objects h)(p := None) |` (- set ps) = objects h |` (- set (p # ps))"
    by (auto simp: restrict_map_def fun_eq_iff)
  moreover have "delete_pointers ps ?h = Inr (?h\<lparr>objects := objects ?h |` (- set ps)\<rparr>)"
    using Cons.prems by (intro Cons.IH) auto
  ultimately show ?case using f by (simp add: delete_object_def)
qed

section \<open>The interface\<close>

text \<open>
  Calls of the producers and iterations of the consumer's loop, in any order; a push that has to wait has not
  happened yet. The operations are parameters, \<open>push\<close> and \<open>step\<close>: one iteration of the loop takes at most one
  pointer, calls the functor and deletes it.
\<close>

datatype 'f own_cmd = Own_Push 'f | Own_Step

fun own_run ::
  "(nat \<Rightarrow> 'q \<Rightarrow> 'q option outcome) \<Rightarrow> ('q \<Rightarrow> (nat option \<times> 'q) outcome) \<Rightarrow> 'f own_cmd list \<Rightarrow>
   'f functor_heap \<times> 'q \<Rightarrow> ('f functor_heap \<times> 'q) outcome" where
  "own_run push step [] (h, q) = Inr (h, q)"
| "own_run push step (Own_Push f # cs) (h, q) =
     (case new_object f h of (p, h') \<Rightarrow>
        obind (push p q) (\<lambda>r. case r of None \<Rightarrow> own_run push step cs (h, q) | Some q' \<Rightarrow> own_run push step cs (h', q')))"
| "own_run push step (Own_Step # cs) (h, q) =
     obind (step q) (\<lambda>(r, q').
       case r of None \<Rightarrow> own_run push step cs (h, q')
       | Some p \<Rightarrow> obind (invoke_and_delete p h) (\<lambda>h'. own_run push step cs (h', q')))"

text \<open>The functors whose objects are alive are those whose pointers the queue holds, each once and in order.\<close>

definition owns :: "nat list \<Rightarrow> 'f functor_heap \<Rightarrow> bool" where
  "owns ps h \<longleftrightarrow>
     distinct ps \<and> dom (objects h) = set ps \<and> (\<forall>p \<in> set ps. p < next_object h) \<and>
     map Some (accepted h) = map Some (runs h) @ map (objects h) ps"

lemma owns_empty [simp]: "owns [] empty_heap"
  by (simp add: owns_def empty_heap_def)

lemma owns_new:
  assumes "owns ps h" "new_object f h = (p, h')"
  shows "owns (ps @ [p]) h'"
proof -
  have p: "p = next_object h" "p \<notin> set ps" using assms by (auto simp: owns_def new_object_def)
  then have "map (objects h') ps = map (objects h) ps" using assms(2) by (auto simp: new_object_def)
  moreover have "dom (objects h') = insert p (dom (objects h))" using assms(2) p by (auto simp: new_object_def)
  ultimately show ?thesis using assms p by (fastforce simp: owns_def new_object_def less_Suc_eq)
qed

lemma owns_invoke:
  assumes "owns (p # ps) h"
  shows "\<exists>h'. invoke_and_delete p h = Inr h' \<and> owns ps h'"
proof -
  obtain f where f: "objects h p = Some f" using assms by (auto simp: owns_def)
  let ?h = "h\<lparr>runs := runs h @ [f], objects := (objects h)(p := None)\<rparr>"
  have "invoke_and_delete p h = Inr ?h" using f by (simp add: invoke_and_delete_def delete_object_def)
  moreover have "map (objects ?h) ps = map (objects h) ps" using assms by (auto simp: owns_def)
  then have "owns ps ?h" using assms f by (auto simp: owns_def)
  ultimately show ?thesis by blast
qed

lemma owns_delete_all:
  assumes "owns ps h"
  shows "\<exists>h'. delete_pointers ps h = Inr h' \<and> objects h' = Map.empty \<and>
    (\<exists>dropped. accepted h' = runs h' @ dropped \<and> length dropped = length ps)"
proof -
  have "objects h |` (- set ps) = Map.empty"
    using assms by (auto simp: owns_def restrict_map_def fun_eq_iff domIff)
  moreover have "take (length (runs h)) (map Some (accepted h)) = map Some (runs h)"
    and "length (accepted h) = length (runs h) + length ps"
    using assms by (auto simp: owns_def dest: arg_cong [of _ _ length])
  then have "map Some (take (length (runs h)) (accepted h)) = map Some (runs h)" by (simp add: take_map)
  then have "take (length (runs h)) (accepted h) = runs h" by (simp add: inj_map_eq_map)
  then have "accepted h = runs h @ drop (length (runs h)) (accepted h)" by (metis append_take_drop_id)
  ultimately show ?thesis
    using delete_all_total [of ps h] assms \<open>length (accepted h) = _\<close>
    by (auto simp: owns_def intro!: exI [of _ "drop (length (runs h)) (accepted h)"])
qed

locale pointer_queue =
  fixes invar :: "'q \<Rightarrow> bool"
    and pointers :: "'q \<Rightarrow> nat list"
    and quiet :: "'q \<Rightarrow> bool"
    and push :: "nat \<Rightarrow> 'q \<Rightarrow> 'q option outcome"
    and step :: "'q \<Rightarrow> (nat option \<times> 'q) outcome"
    and destroy :: "'f functor_heap \<Rightarrow> 'q \<Rightarrow> ('f functor_heap \<times> 'q) outcome"
    and released :: "'q \<Rightarrow> bool"
  assumes push_law: "invar q \<Longrightarrow>
      push p q = Inr None \<or> (\<exists>q'. push p q = Inr (Some q') \<and> invar q' \<and> pointers q' = pointers q @ [p])"
    and step_law: "invar q \<Longrightarrow>
      \<exists>r q'. step q = Inr (r, q') \<and> invar q' \<and> pointers q = (case r of None \<Rightarrow> [] | Some p \<Rightarrow> [p]) @ pointers q'"
    and destroy_law: "invar q \<Longrightarrow> quiet q \<Longrightarrow>
      \<exists>q'. destroy h q = obind (delete_pointers (pointers q) h) (\<lambda>h'. Inr (h', q')) \<and> released q'"
begin

lemma run_owns:
  "invar q \<Longrightarrow> owns (pointers q) h \<Longrightarrow>
     \<exists>h' q'. own_run push step cs (h, q) = Inr (h', q') \<and> invar q' \<and> owns (pointers q') h'"
proof (induction cs arbitrary: h q)
  case (Cons c cs)
  show ?case
  proof (cases c)
    case (Own_Push f)
    obtain p h1 where p: "new_object f h = (p, h1)" by fastforce
    from push_law [OF Cons.prems(1), of p] show ?thesis
    proof
      assume "push p q = Inr None"
      with Cons.IH [OF Cons.prems] p Own_Push show ?thesis by simp
    next
      assume "\<exists>q'. push p q = Inr (Some q') \<and> invar q' \<and> pointers q' = pointers q @ [p]"
      then obtain q' where q': "push p q = Inr (Some q')" "invar q'" "pointers q' = pointers q @ [p]" by blast
      with owns_new [OF Cons.prems(2) p] Cons.IH [of q' h1] p Own_Push show ?thesis by simp
    qed
  next
    case Own_Step
    obtain r q' where r: "step q = Inr (r, q')" "invar q'" "pointers q = (case r of None \<Rightarrow> [] | Some p \<Rightarrow> [p]) @ pointers q'"
      using step_law [OF Cons.prems(1)] by blast
    show ?thesis
    proof (cases r)
      case None
      with r Cons.IH [of q' h] Cons.prems(2) Own_Step show ?thesis by simp
    next
      case (Some p)
      with r(3) Cons.prems(2) have "owns (p # pointers q') h" by simp
      then obtain h' where "invoke_and_delete p h = Inr h'" "owns (pointers q') h'" using owns_invoke by blast
      with r Some Cons.IH [of q' h'] Own_Step show ?thesis by simp
    qed
  qed
qed auto

lemma destroy_owns:
  assumes "invar q" "quiet q" "owns (pointers q) h"
  shows "\<exists>h' q'. destroy h q = Inr (h', q') \<and> released q' \<and> objects h' = Map.empty \<and>
    (\<exists>dropped. accepted h' = runs h' @ dropped \<and> length dropped = length (pointers q))"
  using destroy_law [OF assms(1,2), of h] owns_delete_all [OF assms(3)] by auto

end

section \<open>The lock-free queue\<close>

text \<open>
  The nodes hold pointers. \<^verbatim>\<open>push\<close> never waits; the list is the one of \<open>spsc_push\<close>. The pop takes the pointer out of
  the node, so that the destructor does not see it again.
\<close>

definition raw_push :: "nat \<Rightarrow> nat spsc \<Rightarrow> nat spsc option outcome" where
  "raw_push p q = obind (spsc_push p q) (\<lambda>q'. Inr (Some q'))"

definition raw_pop :: "nat spsc \<Rightarrow> (nat option \<times> nat spsc) outcome" where
  "raw_pop q =
     obind (get_node q (q_head q)) (\<lambda>h.
       case node_next h of
         None \<Rightarrow> Inr (None, q)
       | Some next_node \<Rightarrow>
           obind (get_node q next_node) (\<lambda>n.
             let popped_element = node_value n;
                 q1 = q\<lparr>nodes := (nodes q)(next_node \<mapsto> n\<lparr>node_value := None\<rparr>)\<rparr>;
                 old_head = q_head q1
             in Inr (popped_element, q1\<lparr>q_head := next_node, nodes := (nodes q1)(old_head := None)\<rparr>)))"

lemma raw_pop_spsc: "raw_pop = spsc_pop"
  by (intro ext) (simp only: raw_pop_def spsc_pop_def Let_def)

text \<open>The destructor walks the list and deletes every value but that of the dummy node, and every node.\<close>

fun raw_destroy_from :: "nat \<Rightarrow> nat \<Rightarrow> 'f functor_heap \<Rightarrow> nat spsc \<Rightarrow> ('f functor_heap \<times> nat spsc) outcome" where
  "raw_destroy_from 0 current_node h q = Inl Diverges"
| "raw_destroy_from (Suc k) current_node h q =
     obind (get_node q current_node) (\<lambda>n.
       case node_next n of
         None \<Rightarrow> Inr (h, q\<lparr>nodes := (nodes q)(current_node := None)\<rparr>)
       | Some next_node \<Rightarrow>
           obind (get_node q next_node) (\<lambda>m.
             obind (delete_ptr (node_value m) h) (\<lambda>h'.
               raw_destroy_from k next_node h' (q\<lparr>nodes := (nodes q)(current_node := None)\<rparr>))))"

definition raw_destroy :: "'f functor_heap \<Rightarrow> nat spsc \<Rightarrow> ('f functor_heap \<times> nat spsc) outcome" where
  "raw_destroy h q = raw_destroy_from (fresh q) (q_head q) h q"

text \<open>No node is lost: those that are alive are those of the list.\<close>

definition tight :: "nat spsc \<Rightarrow> nat list \<Rightarrow> nat list \<Rightarrow> bool" where
  "tight q ps xs \<longleftrightarrow> spsc_ok q ps xs \<and> dom (nodes q) = set (q_head q # ps)"

definition raw_invar :: "nat spsc \<Rightarrow> bool" where
  "raw_invar q \<longleftrightarrow> (\<exists>ps xs. tight q ps xs)"

lemma raw_invar_new [simp]: "raw_invar new_spsc"
  unfolding raw_invar_def tight_def
  by (rule exI [of _ "[]"], rule exI [of _ "[]"]) (auto simp: spsc_ok_def new_spsc_def values_of_def)

lemma tight_push:
  assumes "tight q ps xs"
  shows "\<exists>q'. spsc_push p q = Inr q' \<and> tight q' (ps @ [fresh q]) (xs @ [p])"
proof -
  have ok: "spsc_ok q ps xs" and dom: "dom (nodes q) = set (q_head q # ps)" using assms by (auto simp: tight_def)
  obtain q' where q': "spsc_push p q = Inr q'" "spsc_ok q' (ps @ [fresh q]) (xs @ [p])"
    using spsc_ok_push [OF ok] by blast
  have "q_tail q \<in> dom (nodes q)" using ok dom by (auto simp: spsc_ok_def)
  then have "dom (nodes q') = insert (fresh q) (dom (nodes q))" "q_head q' = q_head q"
    using q'(1) by (auto simp: spsc_push_def Let_def get_node_def split: if_splits)
  with q' dom show ?thesis by (auto simp: tight_def)
qed

lemma tight_pop:
  assumes "tight q ps xs"
  shows "(xs = [] \<and> raw_pop q = Inr (None, q)) \<or>
    (\<exists>q' ps' x xs'. xs = x # xs' \<and> raw_pop q = Inr (Some x, q') \<and> tight q' ps' xs')"
proof -
  have ok: "spsc_ok q ps xs" and dom: "dom (nodes q) = set (q_head q # ps)" using assms by (auto simp: tight_def)
  from spsc_ok_pop [OF ok] show ?thesis
  proof
    assume "ps = [] \<and> xs = [] \<and> spsc_pop q = Inr (None, q)"
    then show ?thesis by (simp add: raw_pop_spsc)
  next
    assume "\<exists>q' p ps' x xs'. ps = p # ps' \<and> xs = x # xs' \<and> spsc_pop q = Inr (Some x, q') \<and> spsc_ok q' ps' xs'"
    then obtain q' p ps' x xs' where p: "ps = p # ps'" "xs = x # xs'" "spsc_pop q = Inr (Some x, q')" "spsc_ok q' ps' xs'"
      by blast
    obtain v where "nodes q (q_head q) = Some \<lparr>node_next = Some p, node_value = v\<rparr>"
      using ok p(1) by (auto simp: spsc_ok_def)
    moreover obtain n where "nodes q p = Some n" using dom p(1) by auto
    ultimately have "q_head q' = p" "dom (nodes q') = insert p (dom (nodes q)) - {q_head q}"
      using p(3) by (auto simp: spsc_pop_def get_node_def Let_def split: if_splits)
    moreover have "distinct (q_head q # ps)" using ok by (simp add: spsc_ok_def)
    ultimately have "tight q' ps' xs'" using dom p(1,4) by (auto simp: tight_def)
    with p show ?thesis by (auto simp: raw_pop_spsc)
  qed
qed

lemma raw_destroy_chain:
  "chain (nodes q) (p # ps) \<Longrightarrow> distinct (p # ps) \<Longrightarrow> dom (nodes q) = set (p # ps) \<Longrightarrow>
   values_of (nodes q) ps = map Some xs \<Longrightarrow> length ps < k \<Longrightarrow>
     raw_destroy_from k p (h :: 'f functor_heap) q = obind (delete_pointers xs h) (\<lambda>h'. Inr (h', q\<lparr>nodes := Map.empty\<rparr>))"
proof (induction ps arbitrary: p q xs k h)
  case Nil
  then obtain j where "k = Suc j" by (cases k) auto
  moreover have "(nodes q)(p := None) = Map.empty" using Nil.prems(3) by (auto simp: fun_eq_iff domIff)
  ultimately show ?case using Nil.prems by (auto simp: get_node_def values_of_def)
next
  case (Cons p' ps)
  then obtain j where k: "k = Suc j" by (cases k) auto
  obtain x xs' where xs: "xs = x # xs'" using Cons.prems(4) by (cases xs) (auto simp: values_of_def)
  obtain m where m: "nodes q p' = Some m" using Cons.prems(3) by auto
  with Cons.prems(4) xs have x: "node_value m = Some x" by (simp add: values_of_def)
  let ?q = "q\<lparr>nodes := (nodes q)(p := None)\<rparr>"
  have p: "p \<notin> set (p' # ps)" using Cons.prems(2) by simp
  have IH: "raw_destroy_from j p' h' ?q = obind (delete_pointers xs' h') (\<lambda>h''. Inr (h'', ?q\<lparr>nodes := Map.empty\<rparr>))" for h' :: "'f functor_heap"
  proof (rule Cons.IH [of ?q p' xs' j h'])
    show "chain (nodes ?q) (p' # ps)" using Cons.prems(1) p by simp
    show "dom (nodes ?q) = set (p' # ps)" using Cons.prems(3) p by auto
    have "values_of (nodes ?q) ps = values_of (nodes q) ps" using p by simp
    also have "\<dots> = map Some xs'" using Cons.prems(4) xs by (simp add: values_of_def)
    finally show "values_of (nodes ?q) ps = map Some xs'" .
  qed (use Cons.prems k in auto)
  obtain v where v: "nodes q p = Some \<lparr>node_next = Some p', node_value = v\<rparr>" using Cons.prems(1) by auto
  have "raw_destroy_from k p h q = obind (delete_object x h) (\<lambda>h'. raw_destroy_from j p' h' ?q)"
    using v m x k by (simp add: get_node_def delete_ptr_def)
  then show ?case by (simp add: IH xs)
qed

lemma raw_destroy_tight:
  assumes "tight q ps xs"
  shows "raw_destroy h q = obind (delete_pointers xs h) (\<lambda>h'. Inr (h', q\<lparr>nodes := Map.empty\<rparr>))"
proof -
  have "set (q_head q # ps) \<subseteq> {..<fresh q}" using assms by (fastforce simp: tight_def spsc_ok_def)
  then have "card (set (q_head q # ps)) \<le> fresh q" by (metis card_lessThan card_mono finite_lessThan)
  moreover have "distinct (q_head q # ps)" using assms by (simp add: tight_def spsc_ok_def)
  ultimately have "length ps < fresh q" by (simp add: distinct_card)
  with assms show ?thesis unfolding raw_destroy_def by (intro raw_destroy_chain) (auto simp: tight_def spsc_ok_def)
qed

interpretation raw: pointer_queue raw_invar spsc_items "\<lambda>_. True" raw_push raw_pop raw_destroy "\<lambda>q. nodes q = Map.empty"
proof
  fix q p and h :: "'f functor_heap"
  assume "raw_invar q"
  then obtain ps xs where t: "tight q ps xs" by (auto simp: raw_invar_def)
  have items: "spsc_items q = xs" "\<And>q' ps' xs'. tight q' ps' xs' \<Longrightarrow> spsc_items q' = xs'"
    using t by (auto simp: tight_def spsc_items_ok)
  show "raw_push p q = Inr None \<or>
      (\<exists>q'. raw_push p q = Inr (Some q') \<and> raw_invar q' \<and> spsc_items q' = spsc_items q @ [p])"
    using tight_push [OF t, of p] items by (fastforce simp: raw_push_def raw_invar_def)
  show "\<exists>r q'. raw_pop q = Inr (r, q') \<and> raw_invar q' \<and>
      spsc_items q = (case r of None \<Rightarrow> [] | Some p \<Rightarrow> [p]) @ spsc_items q'"
    using tight_pop [OF t]
  proof
    assume "xs = [] \<and> raw_pop q = Inr (None, q)"
    with items(1) t show ?thesis by (auto simp: raw_invar_def)
  next
    assume "\<exists>q' ps' x xs'. xs = x # xs' \<and> raw_pop q = Inr (Some x, q') \<and> tight q' ps' xs'"
    then obtain q' ps' x xs' where "xs = x # xs'" "raw_pop q = Inr (Some x, q')" "tight q' ps' xs'" by blast
    with items show ?thesis by (intro exI [of _ "Some x"] exI [of _ q']) (auto simp: raw_invar_def)
  qed
  show "\<exists>q'. raw_destroy h q = obind (delete_pointers (spsc_items q) h) (\<lambda>h'. Inr (h', q')) \<and> nodes q' = Map.empty"
    using raw_destroy_tight [OF t, of h] by (intro exI [of _ "q\<lparr>nodes := Map.empty\<rparr>"]) (simp add: items(1))
qed

section \<open>The blocking queue\<close>

text \<open>The loop takes all pointers at once and then calls and deletes functor by functor; \<open>batch\<close> are those it still has.\<close>

record raw_blocking =
  rb_queue :: "nat blocking_queue"
  batch :: "nat list"

definition raw_bq_push :: "nat \<Rightarrow> raw_blocking \<Rightarrow> raw_blocking option outcome" where
  "raw_bq_push p s = Inr (case bq_push p (rb_queue s) of None \<Rightarrow> None | Some q \<Rightarrow> Some (s\<lparr>rb_queue := q\<rparr>))"

definition raw_bq_step :: "raw_blocking \<Rightarrow> (nat option \<times> raw_blocking) outcome" where
  "raw_bq_step s =
     (case batch s of
        [] \<Rightarrow> (case bq_pop_all (rb_queue s) of (queued_functors, q) \<Rightarrow> Inr (None, \<lparr>rb_queue = q, batch = queued_functors\<rparr>))
      | p # ps \<Rightarrow> Inr (Some p, s\<lparr>batch := ps\<rparr>))"

fun raw_bq_clear :: "nat list \<Rightarrow> 'f functor_heap \<Rightarrow> ('f functor_heap \<times> nat list) outcome" where
  "raw_bq_clear [] h = Inr (h, [])"
| "raw_bq_clear (front # queue) h = obind (delete_object front h) (raw_bq_clear queue)"

definition raw_bq_destroy :: "'f functor_heap \<Rightarrow> raw_blocking \<Rightarrow> ('f functor_heap \<times> raw_blocking) outcome" where
  "raw_bq_destroy h s =
     obind (raw_bq_clear (bq_queue (rb_queue s)) h) (\<lambda>(h', queue). Inr (h', s\<lparr>rb_queue := (rb_queue s)\<lparr>bq_queue := queue\<rparr>\<rparr>))"

lemma raw_bq_clear_all: "raw_bq_clear ps h = obind (delete_pointers ps h) (\<lambda>h'. Inr (h', []))"
  by (induction ps arbitrary: h) (auto intro!: obind_cong)

interpretation raw_bq: pointer_queue "\<lambda>_. True" "\<lambda>s. batch s @ bq_queue (rb_queue s)" "\<lambda>s. batch s = []"
  raw_bq_push raw_bq_step raw_bq_destroy "\<lambda>s. bq_queue (rb_queue s) = []"
  by unfold_locales
    (auto simp: raw_bq_push_def bq_push_def raw_bq_step_def bq_pop_all_def raw_bq_destroy_def raw_bq_clear_all split: list.splits)

section \<open>Every functor is freed exactly once\<close>

text \<open>C12: With raw pointers, whatever is pushed onto the lock-free queue while the loop calls and deletes functors, and
  whenever the queue is destroyed: no functor is called or deleted twice or after its deletion, functors are called in
  the order they were pushed, and afterwards every functor and every node has been freed.\<close>

theorem raw_queue_frees_everything:
  "\<exists>h q h' q' dropped. own_run raw_push raw_pop cs (empty_heap, new_spsc) = Inr (h, q) \<and> raw_destroy h q = Inr (h', q') \<and>
     objects h' = Map.empty \<and> nodes q' = Map.empty \<and> accepted h' = runs h' @ dropped \<and>
     length dropped = length (spsc_items q)"
  using raw.run_owns [of new_spsc empty_heap cs] raw.destroy_owns by fastforce

text \<open>The same for the blocking queue, when the loop is between two batches.\<close>

lemma raw_blocking_queue_frees_everything:
  "\<exists>h s. own_run raw_bq_push raw_bq_step cs (empty_heap, \<lparr>rb_queue = new_blocking_queue n, batch = []\<rparr>) = Inr (h, s) \<and>
     (batch s = [] \<longrightarrow> (\<exists>h' s' dropped. raw_bq_destroy h s = Inr (h', s') \<and> objects h' = Map.empty \<and>
        accepted h' = runs h' @ dropped \<and> length dropped = length (bq_queue (rb_queue s))))"
proof -
  let ?s = "\<lparr>rb_queue = new_blocking_queue n, batch = []\<rparr>"
  have "owns (batch ?s @ bq_queue (rb_queue ?s)) empty_heap" by (simp add: new_blocking_queue_def)
  then obtain h s where s: "own_run raw_bq_push raw_bq_step cs (empty_heap, ?s) = Inr (h, s)"
      "owns (batch s @ bq_queue (rb_queue s)) h"
    using raw_bq.run_owns [of ?s empty_heap cs] by auto
  with raw_bq.destroy_owns [of s h] show ?thesis by fastforce
qed

end
