(* ===== verification/Queue_Monitor.thy ===== *)
theory Queue_Monitor
  imports Functor_Queues
begin

text \<open>
  \<^verbatim>\<open>BlockingQueue\<close> (src/util/blocking_queue.cc) as a monitor: any number of threads inside \<^verbatim>\<open>push\<close>, \<^verbatim>\<open>pop\<close> and
  \<^verbatim>\<open>pop_all\<close>, interleaved at every access to the mutex and the two condition variables (util/mutex, util/mutex_guard,
  util/condition_variable). \<open>Functor_Queues\<close> takes each operation for one step; here it is shown that it may, and that
  nobody sleeps for want of a notification.
\<close>

section \<open>Threads in the queue\<close>

text \<open>
  \<open>Enter\<close> is a thread that waits for the mutex, \<open>Woken\<close> one that does so on its way out of a wait; at \<open>Test\<close> it holds
  the mutex and tests its condition, at \<open>Leave\<close> it is about to unlock and at \<open>Notify\<close> about to notify.
\<close>

datatype 'a queue_phase =
    Q_Idle
  | Push_Enter 'a | Push_Test 'a | Push_Asleep 'a | Push_Woken 'a | Push_Leave | Push_Notify
  | Pop_Enter | Pop_Test | Pop_Asleep | Pop_Woken | Pop_Leave | Pop_Notify
  | All_Enter | All_Swap | All_Leave | All_Notify

record 'a queue_monitor =
  mon_queue :: "'a blocking_queue"
  mon_mutex :: "nat option"
  phases :: "'a queue_phase list"
  mon_trace :: "'a bq_event list"

definition new_monitor :: "nat \<Rightarrow> nat \<Rightarrow> 'a queue_monitor" where
  "new_monitor n capacity =
     \<lparr>mon_queue = new_blocking_queue capacity, mon_mutex = None, phases = replicate n Q_Idle, mon_trace = []\<rparr>"

definition put :: "nat \<Rightarrow> 'a queue_phase \<Rightarrow> 'a queue_monitor \<Rightarrow> 'a queue_monitor" where
  "put t ph s = s\<lparr>phases := (phases s)[t := ph]\<rparr>"

text \<open>The mutex, and the waits that give it up while they sleep.\<close>

definition mon_lock :: "nat \<Rightarrow> 'a queue_phase \<Rightarrow> 'a queue_monitor \<Rightarrow> 'a queue_monitor option" where
  "mon_lock t ph s = (if mon_mutex s = None then Some (put t ph (s\<lparr>mon_mutex := Some t\<rparr>)) else None)"

definition mon_unlock :: "nat \<Rightarrow> 'a queue_phase \<Rightarrow> 'a queue_monitor \<Rightarrow> 'a queue_monitor" where
  "mon_unlock t ph s = put t ph (s\<lparr>mon_mutex := None\<rparr>)"

fun wake :: "'a queue_phase \<Rightarrow> 'a queue_phase" where
  "wake (Push_Asleep v) = Push_Woken v"
| "wake Pop_Asleep = Pop_Woken"
| "wake ph = ph"

fun not_full_sleeper :: "'a queue_phase \<Rightarrow> bool" where
  "not_full_sleeper (Push_Asleep v) = True"
| "not_full_sleeper _ = False"

fun not_empty_sleeper :: "'a queue_phase \<Rightarrow> bool" where
  "not_empty_sleeper Pop_Asleep = True"
| "not_empty_sleeper _ = False"

text \<open>
  \<^verbatim>\<open>notify_one\<close> wakes the thread \<open>w\<close>, any that sleeps on the condition variable; it does nothing only when none does.
\<close>

definition notify_one :: "('a queue_phase \<Rightarrow> bool) \<Rightarrow> nat option \<Rightarrow> 'a queue_monitor \<Rightarrow> 'a queue_monitor option" where
  "notify_one sleeper w s =
     (case w of
        None \<Rightarrow> if list_ex sleeper (phases s) then None else Some s
      | Some u \<Rightarrow> if u < length (phases s) \<and> sleeper (phases s ! u) then Some (put u (wake (phases s ! u)) s) else None)"

definition notify_all :: "('a queue_phase \<Rightarrow> bool) \<Rightarrow> 'a queue_monitor \<Rightarrow> 'a queue_monitor" where
  "notify_all sleeper s = s\<lparr>phases := map (\<lambda>ph. if sleeper ph then wake ph else ph) (phases s)\<rparr>"

text \<open>The next step of thread \<open>t\<close> in its operation; \<open>None\<close> when it has to wait.\<close>

definition advance :: "nat \<Rightarrow> nat option \<Rightarrow> 'a queue_monitor \<Rightarrow> 'a queue_monitor option" where
  "advance t w s =
     (case phases s ! t of
        Q_Idle \<Rightarrow> None
      | Push_Enter v \<Rightarrow> mon_lock t (Push_Test v) s
      | Push_Test v \<Rightarrow>
          (case bq_push v (mon_queue s) of
             None \<Rightarrow> Some (mon_unlock t (Push_Asleep v) s)
           | Some q \<Rightarrow> Some (put t Push_Leave (s\<lparr>mon_queue := q, mon_trace := mon_trace s @ [Pushed v]\<rparr>)))
      | Push_Asleep v \<Rightarrow> None
      | Push_Woken v \<Rightarrow> mon_lock t (Push_Test v) s
      | Push_Leave \<Rightarrow> Some (mon_unlock t Push_Notify s)
      | Push_Notify \<Rightarrow> map_option (put t Q_Idle) (notify_one not_empty_sleeper w s)
      | Pop_Enter \<Rightarrow> mon_lock t Pop_Test s
      | Pop_Test \<Rightarrow>
          (case bq_pop (mon_queue s) of
             None \<Rightarrow> Some (mon_unlock t Pop_Asleep s)
           | Some (x, q) \<Rightarrow> Some (put t Pop_Leave (s\<lparr>mon_queue := q, mon_trace := mon_trace s @ [Popped x]\<rparr>)))
      | Pop_Asleep \<Rightarrow> None
      | Pop_Woken \<Rightarrow> mon_lock t Pop_Test s
      | Pop_Leave \<Rightarrow> Some (mon_unlock t Pop_Notify s)
      | Pop_Notify \<Rightarrow> map_option (put t Q_Idle) (notify_one not_full_sleeper w s)
      | All_Enter \<Rightarrow> mon_lock t All_Swap s
      | All_Swap \<Rightarrow>
          (case bq_pop_all (mon_queue s) of
             (xs, q) \<Rightarrow> Some (put t All_Leave (s\<lparr>mon_queue := q, mon_trace := mon_trace s @ [Popped_All xs]\<rparr>)))
      | All_Leave \<Rightarrow> Some (mon_unlock t All_Notify s)
      | All_Notify \<Rightarrow> Some (put t Q_Idle (notify_all not_full_sleeper s)))"

text \<open>Besides, idle threads call an operation, and a wait may end for no reason.\<close>

datatype 'a queue_act = Call_Push 'a | Call_Pop | Call_Pop_All | Go "nat option" | Spurious_Wakeup

definition mon_step :: "nat \<Rightarrow> 'a queue_act \<Rightarrow> 'a queue_monitor \<Rightarrow> 'a queue_monitor option" where
  "mon_step t act s =
     (if t \<ge> length (phases s) then None
      else case act of
        Call_Push v \<Rightarrow> if phases s ! t = Q_Idle then Some (put t (Push_Enter v) s) else None
      | Call_Pop \<Rightarrow> if phases s ! t = Q_Idle then Some (put t Pop_Enter s) else None
      | Call_Pop_All \<Rightarrow> if phases s ! t = Q_Idle then Some (put t All_Enter s) else None
      | Go w \<Rightarrow> advance t w s
      | Spurious_Wakeup \<Rightarrow> Some (put t (wake (phases s ! t)) s))"

fun mon_run :: "(nat \<times> 'a queue_act) list \<Rightarrow> 'a queue_monitor \<Rightarrow> 'a queue_monitor option" where
  "mon_run [] s = Some s"
| "mon_run ((t, act) # as) s = (case mon_step t act s of None \<Rightarrow> None | Some s' \<Rightarrow> mon_run as s')"

section \<open>Mutual exclusion\<close>

fun inside :: "'a queue_phase \<Rightarrow> bool" where
  "inside (Push_Test v) = True"
| "inside Push_Leave = True"
| "inside Pop_Test = True"
| "inside Pop_Leave = True"
| "inside All_Swap = True"
| "inside All_Leave = True"
| "inside _ = False"

definition mutex_ok :: "'a queue_monitor \<Rightarrow> bool" where
  "mutex_ok s \<longleftrightarrow> (\<forall>t < length (phases s). inside (phases s ! t) \<longleftrightarrow> mon_mutex s = Some t) \<and>
     (\<forall>t. mon_mutex s = Some t \<longrightarrow> t < length (phases s))"

lemma put_simps [simp]:
  "mon_queue (put t ph s) = mon_queue s" "mon_mutex (put t ph s) = mon_mutex s" "mon_trace (put t ph s) = mon_trace s"
  "phases (put t ph s) = (phases s)[t := ph]"
  by (simp_all add: put_def)

lemma wake_inside [simp]: "inside (wake ph) = inside ph"
  by (cases ph) auto

lemma wake_sleeper: "not_full_sleeper ph \<or> not_empty_sleeper ph \<Longrightarrow> \<not> inside ph"
  by (cases ph) auto

text \<open>What a notification leaves alone.\<close>

lemma notify_one_frame:
  assumes "notify_one sleeper w s = Some s'"
  shows "mon_queue s' = mon_queue s" "mon_mutex s' = mon_mutex s" "mon_trace s' = mon_trace s"
    "length (phases s') = length (phases s)" "map inside (phases s') = map inside (phases s)"
    "\<not> sleeper (phases s ! t) \<Longrightarrow> phases s' ! t = phases s ! t"
  using assms
  by (auto simp: notify_one_def map_update nth_list_update list_update_same_conv split: option.splits if_splits)

lemma notify_all_frame [simp]:
  "mon_queue (notify_all sleeper s) = mon_queue s" "mon_mutex (notify_all sleeper s) = mon_mutex s"
  "mon_trace (notify_all sleeper s) = mon_trace s"
  "length (phases (notify_all sleeper s)) = length (phases s)" "map inside (phases (notify_all sleeper s)) = map inside (phases s)"
  by (simp_all add: notify_all_def)

lemma mutex_ok_cong:
  assumes "map inside (phases s') = map inside (phases s)" "mon_mutex s' = mon_mutex s" "mutex_ok s"
  shows "mutex_ok s'"
proof -
  have l: "length (phases s') = length (phases s)" using arg_cong [OF assms(1), of length] by simp
  have "inside (phases s' ! t) = inside (phases s ! t)" if "t < length (phases s)" for t
    using arg_cong [OF assms(1), of "\<lambda>xs. xs ! t"] that l by simp
  with assms(2,3) l show ?thesis by (simp add: mutex_ok_def)
qed

lemma mutex_ok_put:
  assumes "mutex_ok s" "t < length (phases s)" "inside ph = inside (phases s ! t)"
  shows "mutex_ok (put t ph s)"
  by (rule mutex_ok_cong [OF _ _ assms(1)]) (use assms(2,3) in \<open>simp_all add: map_update list_update_same_conv\<close>)

lemma mutex_ok_lock:
  assumes "mutex_ok s" "t < length (phases s)" "mon_lock t ph s = Some s'" "inside ph"
  shows "mutex_ok s'"
  using assms by (auto simp: mutex_ok_def mon_lock_def nth_list_update split: if_splits)

lemma mutex_ok_unlock:
  assumes "mutex_ok s" "t < length (phases s)" "inside (phases s ! t)" "\<not> inside ph"
  shows "mutex_ok (mon_unlock t ph s)"
  using assms by (auto simp: mutex_ok_def mon_unlock_def nth_list_update)

lemma mutex_ok_trace [simp]: "mutex_ok (s\<lparr>mon_queue := q, mon_trace := es\<rparr>) = mutex_ok s"
  by (simp add: mutex_ok_def)

lemma advance_mutex_ok:
  assumes "advance t w s = Some s'" "mutex_ok s" "t < length (phases s)"
  shows "mutex_ok s'"
proof -
  have note1: "mutex_ok (put t Q_Idle u)" if "notify_one sl w s = Some u" "\<not> sl (phases s ! t)" "\<not> inside (phases s ! t)" for u sl
  proof (rule mutex_ok_put)
    note f = notify_one_frame [OF that(1)]
    show "mutex_ok u" by (rule mutex_ok_cong [OF f(5) f(2) assms(2)])
    show "t < length (phases u)" using f(4) assms(3) by simp
    show "inside Q_Idle = inside (phases u ! t)" using f(6) that(2,3) by simp
  qed
  have all: "mutex_ok (put t Q_Idle (notify_all sl s))" if "\<not> inside (phases s ! t)" for sl
  proof (rule mutex_ok_put)
    show "mutex_ok (notify_all sl s)" by (rule mutex_ok_cong [OF _ _ assms(2)]) simp_all
  qed (use that assms(3) in \<open>simp_all add: notify_all_def\<close>)
  show ?thesis
    using assms(1) mutex_ok_lock [OF assms(2,3)] mutex_ok_unlock [OF assms(2,3)] mutex_ok_put [OF _ assms(3)] note1
      all assms(2,3)
    by (cases "phases s ! t") (auto simp: advance_def intro: mutex_ok_put split: option.splits prod.splits)
qed

section \<open>Refinement\<close>

definition mon_ok :: "nat \<Rightarrow> nat \<Rightarrow> 'a queue_monitor \<Rightarrow> bool" where
  "mon_ok n capacity s \<longleftrightarrow>
     length (phases s) = n \<and> mutex_ok s \<and> bq_run (new_blocking_queue capacity) (mon_trace s) (mon_queue s)"

lemma mon_ok_new: "mon_ok n capacity (new_monitor n capacity)"
  by (auto simp: mon_ok_def new_monitor_def mutex_ok_def intro: bq_run.intros)

text \<open>A step of a thread is one atomic operation on the queue or none.\<close>

definition same_queue :: "'a queue_monitor \<Rightarrow> 'a queue_monitor \<Rightarrow> bool" where
  "same_queue s s' \<longleftrightarrow> mon_trace s' = mon_trace s \<and> mon_queue s' = mon_queue s \<and> length (phases s') = length (phases s)"

lemma same_queue_steps:
  "mon_lock t ph s = Some s' \<Longrightarrow> same_queue s s'" "same_queue s (mon_unlock t ph s)" "same_queue s (put t ph s)"
  "notify_one sl w s = Some u \<Longrightarrow> same_queue s (put t ph u)" "same_queue s (put t ph (notify_all sl s))"
  using notify_one_frame [of sl w s u]
  by (auto simp: same_queue_def mon_lock_def mon_unlock_def split: if_splits)

lemma advance_queue:
  assumes "advance t w s = Some s'"
  shows "same_queue s s' \<or>
    length (phases s') = length (phases s) \<and>
      (\<exists>e. mon_trace s' = mon_trace s @ [e] \<and> bq_step (mon_queue s) e (mon_queue s'))"
proof (cases "phases s ! t")
  case (Push_Test v)
  then show ?thesis
    using assms same_queue_steps(2) bq_step.intros(1) by (auto simp: advance_def split: option.splits)
next
  case Pop_Test
  then show ?thesis
    using assms same_queue_steps(2) bq_step.intros(2) by (auto simp: advance_def split: option.splits)
next
  case All_Swap
  then show ?thesis
    using assms bq_step.intros(3) by (auto simp: advance_def split: prod.splits)
qed (use assms in \<open>auto simp: advance_def intro: same_queue_steps\<close>)

lemma mon_step_ok:
  assumes "mon_step t act s = Some s'" "mon_ok n capacity s"
  shows "mon_ok n capacity s'"
proof -
  have t: "t < length (phases s)" using assms(1) by (auto simp: mon_step_def split: if_splits)
  have m: "mutex_ok s" and run: "bq_run (new_blocking_queue capacity) (mon_trace s) (mon_queue s)"
    using assms(2) by (simp_all add: mon_ok_def)
  show ?thesis
  proof (cases act)
    case (Go w)
    then have a: "advance t w s = Some s'" using assms(1) t by (simp add: mon_step_def)
    from advance_queue [OF a] show ?thesis
    proof (elim disjE conjE exE)
      assume "same_queue s s'"
      with advance_mutex_ok [OF a m t] assms(2) show ?thesis by (simp add: mon_ok_def same_queue_def)
    next
      fix e
      assume e: "length (phases s') = length (phases s)" "mon_trace s' = mon_trace s @ [e]"
        "bq_step (mon_queue s) e (mon_queue s')"
      from bq_run.intros(2) [OF run e(3)] e(1,2) advance_mutex_ok [OF a m t] assms(2) show ?thesis
        by (simp add: mon_ok_def)
    qed
  next
    case Spurious_Wakeup
    then show ?thesis using assms t m run mutex_ok_put [OF m t, of "wake (phases s ! t)"] by (auto simp: mon_ok_def mon_step_def)
  qed (use assms t m run mutex_ok_put [OF m t] in \<open>auto simp: mon_ok_def mon_step_def split: if_splits\<close>)
qed

lemma mon_run_Cons:
  "mon_run (a # as) s = Some s' \<longleftrightarrow> (\<exists>u. mon_step (fst a) (snd a) s = Some u \<and> mon_run as u = Some s')"
  by (cases a) (auto split: option.splits)

lemma mon_run_keeps:
  assumes "\<And>t act s s'. mon_step t act s = Some s' \<Longrightarrow> P s \<Longrightarrow> P s'"
  shows "mon_run as s = Some s' \<Longrightarrow> P s \<Longrightarrow> P s'"
proof (induction as arbitrary: s)
  case (Cons a as)
  then obtain u where "mon_step (fst a) (snd a) s = Some u" "mon_run as u = Some s'" by (auto simp: mon_run_Cons)
  with Cons.IH Cons.prems(2) assms show ?case by blast
qed simp

lemma mon_run_ok: "mon_run as s = Some s' \<Longrightarrow> mon_ok n capacity s \<Longrightarrow> mon_ok n capacity s'"
  by (rule mon_run_keeps) (rule mon_step_ok)

section \<open>Nobody sleeps for want of a notification\<close>

primrec cnt :: "('b \<Rightarrow> bool) \<Rightarrow> 'b list \<Rightarrow> nat" where
  "cnt P [] = 0"
| "cnt P (x # xs) = of_bool (P x) + cnt P xs"

lemma cnt_update: "i < length xs \<Longrightarrow> cnt P (xs[i := x]) + of_bool (P (xs ! i)) = cnt P xs + of_bool (P x)"
proof (induction xs arbitrary: i)
  case (Cons y ys)
  show ?case
  proof (cases i)
    case (Suc j)
    with Cons.IH [of j] Cons.prems show ?thesis by simp
  qed simp
qed simp

lemma cnt_0: "cnt P xs = 0 \<longleftrightarrow> (\<forall>x \<in> set xs. \<not> P x)"
  by (induction xs) auto

lemma cnt_map: "cnt P (map f xs) = cnt (\<lambda>x. P (f x)) xs"
  by (induction xs) auto

text \<open>Threads that will wake up a sleeper or look after the queue themselves.\<close>

fun serves_poppers :: "'a queue_phase \<Rightarrow> bool" where
  "serves_poppers Push_Leave = True"
| "serves_poppers Push_Notify = True"
| "serves_poppers Pop_Woken = True"
| "serves_poppers Pop_Test = True"
| "serves_poppers _ = False"

fun serves_pushers :: "'a queue_phase \<Rightarrow> bool" where
  "serves_pushers Pop_Leave = True"
| "serves_pushers Pop_Notify = True"
| "serves_pushers (Push_Woken v) = True"
| "serves_pushers (Push_Test v) = True"
| "serves_pushers _ = False"

fun frees_all :: "'a queue_phase \<Rightarrow> bool" where
  "frees_all All_Leave = True"
| "frees_all All_Notify = True"
| "frees_all _ = False"

definition served :: "'a queue_monitor \<Rightarrow> bool" where
  "served s \<longleftrightarrow>
     (0 < cnt not_empty_sleeper (phases s) \<longrightarrow> length (bq_queue (mon_queue s)) \<le> cnt serves_poppers (phases s)) \<and>
     (0 < cnt not_full_sleeper (phases s) \<longrightarrow>
        0 < cnt frees_all (phases s) \<or>
        bq_capacity (mon_queue s) \<le> length (bq_queue (mon_queue s)) + cnt serves_pushers (phases s))"

lemma served_new: "served (new_monitor n capacity)"
proof -
  have "cnt P (replicate n Q_Idle) = 0" if "\<not> P Q_Idle" for P :: "'a queue_phase \<Rightarrow> bool"
    using that by (induction n) auto
  then show ?thesis by (simp add: served_def new_monitor_def)
qed

lemma served_frame [simp]:
  "served (s\<lparr>mon_mutex := m\<rparr>) = served s"
  "served (put t ph (s\<lparr>mon_queue := q, mon_trace := es\<rparr>)) = served (put t ph (s\<lparr>mon_queue := q\<rparr>))"
  by (simp_all add: served_def)

lemma put_counts:
  assumes "t < length (phases s)"
  shows "cnt P (phases (put t ph s)) + of_bool (P (phases s ! t)) = cnt P (phases s) + of_bool (P ph)"
  using cnt_update [OF assms] by simp

lemmas put_counts_all = put_counts [where P = not_empty_sleeper] put_counts [where P = not_full_sleeper]
  put_counts [where P = serves_poppers] put_counts [where P = serves_pushers] put_counts [where P = frees_all]

lemma served_put:
  assumes "served s" "t < length (phases s)" "\<not> not_empty_sleeper ph" "\<not> not_full_sleeper ph"
    "serves_poppers (phases s ! t) \<longrightarrow> serves_poppers ph" "serves_pushers (phases s ! t) \<longrightarrow> serves_pushers ph"
    "frees_all (phases s ! t) \<longrightarrow> frees_all ph"
  shows "served (put t ph s)"
proof -
  have "cnt not_empty_sleeper (phases (put t ph s)) \<le> cnt not_empty_sleeper (phases s)"
    "cnt not_full_sleeper (phases (put t ph s)) \<le> cnt not_full_sleeper (phases s)"
    "cnt serves_poppers (phases s) \<le> cnt serves_poppers (phases (put t ph s))"
    "cnt serves_pushers (phases s) \<le> cnt serves_pushers (phases (put t ph s))"
    "cnt frees_all (phases s) \<le> cnt frees_all (phases (put t ph s))"
    using put_counts_all [OF assms(2), of ph] assms(3-7) by (auto simp: of_bool_def split: if_splits)
  with assms(1) show ?thesis unfolding served_def put_simps(1) by linarith
qed

lemma served_lock:
  assumes "served s" "t < length (phases s)" "mon_lock t ph s = Some s'" "\<not> not_empty_sleeper ph" "\<not> not_full_sleeper ph"
    "serves_poppers (phases s ! t) \<longrightarrow> serves_poppers ph" "serves_pushers (phases s ! t) \<longrightarrow> serves_pushers ph"
    "\<not> frees_all (phases s ! t)"
  shows "served s'"
  using assms served_put [of "s\<lparr>mon_mutex := Some t\<rparr>" t ph] by (auto simp: mon_lock_def split: if_splits)

lemma served_unlock:
  assumes "served s" "t < length (phases s)" "\<not> not_empty_sleeper ph" "\<not> not_full_sleeper ph"
    "serves_poppers (phases s ! t) \<longrightarrow> serves_poppers ph" "serves_pushers (phases s ! t) \<longrightarrow> serves_pushers ph"
    "frees_all (phases s ! t) \<longrightarrow> frees_all ph"
  shows "served (mon_unlock t ph s)"
  using assms served_put [of "s\<lparr>mon_mutex := None\<rparr>" t ph] by (simp add: mon_unlock_def)

text \<open>The steps that make a thread sleep, change the queue or notify.\<close>

lemma served_sleep:
  assumes "served s" "t < length (phases s)"
  shows "phases s ! t = Push_Test v \<Longrightarrow> bq_push v (mon_queue s) = None \<Longrightarrow> served (mon_unlock t (Push_Asleep v) s)"
    "phases s ! t = Pop_Test \<Longrightarrow> bq_pop (mon_queue s) = None \<Longrightarrow> served (mon_unlock t Pop_Asleep s)"
proof -
  assume p: "phases s ! t = Push_Test v" "bq_push v (mon_queue s) = None"
  then have "bq_capacity (mon_queue s) \<le> length (bq_queue (mon_queue s))" by (auto simp: bq_push_def split: if_splits)
  with put_counts_all [OF assms(2), of "Push_Asleep v"] p(1) assms(1) show "served (mon_unlock t (Push_Asleep v) s)"
    by (simp add: served_def mon_unlock_def)
next
  assume p: "phases s ! t = Pop_Test" "bq_pop (mon_queue s) = None"
  then have "bq_queue (mon_queue s) = []" by (auto simp: bq_pop_def split: list.splits)
  with put_counts_all [OF assms(2), of Pop_Asleep] p(1) assms(1) show "served (mon_unlock t Pop_Asleep s)"
    by (auto simp: served_def mon_unlock_def)
qed

lemma served_queue:
  assumes "served s" "t < length (phases s)"
  shows "phases s ! t = Push_Test v \<Longrightarrow> bq_push v (mon_queue s) = Some q \<Longrightarrow> served (put t Push_Leave (s\<lparr>mon_queue := q\<rparr>))"
    "phases s ! t = Pop_Test \<Longrightarrow> bq_pop (mon_queue s) = Some (x, q) \<Longrightarrow> served (put t Pop_Leave (s\<lparr>mon_queue := q\<rparr>))"
    "phases s ! t = All_Swap \<Longrightarrow> bq_pop_all (mon_queue s) = (xs, q) \<Longrightarrow> served (put t All_Leave (s\<lparr>mon_queue := q\<rparr>))"
proof -
  assume p: "phases s ! t = Push_Test v" "bq_push v (mon_queue s) = Some q"
  with put_counts_all [OF assms(2), of Push_Leave] assms(1) show "served (put t Push_Leave (s\<lparr>mon_queue := q\<rparr>))"
    by (auto simp: served_def bq_push_def split: if_splits)
next
  assume p: "phases s ! t = Pop_Test" "bq_pop (mon_queue s) = Some (x, q)"
  with put_counts_all [OF assms(2), of Pop_Leave] assms(1) show "served (put t Pop_Leave (s\<lparr>mon_queue := q\<rparr>))"
    by (auto simp: served_def bq_pop_def split: list.splits)
next
  assume p: "phases s ! t = All_Swap" "bq_pop_all (mon_queue s) = (xs, q)"
  with put_counts_all [OF assms(2), of All_Leave] assms(1) show "served (put t All_Leave (s\<lparr>mon_queue := q\<rparr>))"
    by (auto simp: served_def bq_pop_all_def)
qed

lemma served_notify:
  assumes "served s" "t < length (phases s)"
  shows "phases s ! t = Push_Notify \<Longrightarrow> notify_one not_empty_sleeper w s = Some u \<Longrightarrow> served (put t Q_Idle u)"
    "phases s ! t = Pop_Notify \<Longrightarrow> notify_one not_full_sleeper w s = Some u \<Longrightarrow> served (put t Q_Idle u)"
    "phases s ! t = All_Notify \<Longrightarrow> served (put t Q_Idle (notify_all not_full_sleeper s))"
proof -
  assume p: "phases s ! t = Push_Notify" "notify_one not_empty_sleeper w s = Some u"
  show "served (put t Q_Idle u)"
  proof (cases w)
    case None
    with p have u: "u = s" "cnt not_empty_sleeper (phases s) = 0"
      by (auto simp: notify_one_def cnt_0 list_ex_iff split: if_splits)
    with put_counts_all [OF assms(2), of Q_Idle] p(1) assms(1) show ?thesis by (simp add: served_def)
  next
    case (Some v)
    with p have v: "v < length (phases s)" "phases s ! v = Pop_Asleep" "u = put v Pop_Woken s"
      by (auto simp: notify_one_def split: if_splits elim: not_empty_sleeper.elims)
    moreover have "v \<noteq> t" using v(2) p(1) by auto
    ultimately have n: "phases u ! t = Push_Notify" "t < length (phases u)" using p(1) assms(2) by simp_all
    from put_counts_all [OF v(1), of Pop_Woken] put_counts_all [OF n(2), of Q_Idle] v n(1) assms(1)
    show ?thesis by (simp add: served_def)
  qed
next
  assume p: "phases s ! t = Pop_Notify" "notify_one not_full_sleeper w s = Some u"
  show "served (put t Q_Idle u)"
  proof (cases w)
    case None
    with p have u: "u = s" "cnt not_full_sleeper (phases s) = 0"
      by (auto simp: notify_one_def cnt_0 list_ex_iff split: if_splits)
    with put_counts_all [OF assms(2), of Q_Idle] p(1) assms(1) show ?thesis by (simp add: served_def)
  next
    case (Some v)
    with p obtain y where v: "v < length (phases s)" "phases s ! v = Push_Asleep y" "u = put v (Push_Woken y) s"
      by (auto simp: notify_one_def split: if_splits elim: not_full_sleeper.elims)
    moreover have "v \<noteq> t" using v(2) p(1) by auto
    ultimately have n: "phases u ! t = Pop_Notify" "t < length (phases u)" using p(1) assms(2) by simp_all
    from put_counts_all [OF v(1), of "Push_Woken y"] put_counts_all [OF n(2), of Q_Idle] v n(1) assms(1)
    show ?thesis by (auto simp: served_def)
  qed
next
  assume p: "phases s ! t = All_Notify"
  let ?u = "notify_all not_full_sleeper s"
  have l: "t < length (phases ?u)" "phases ?u ! t = All_Notify" using p assms(2) by (simp_all add: notify_all_def)
  have w: "not_empty_sleeper (if not_full_sleeper ph then wake ph else ph) = not_empty_sleeper ph"
    "serves_poppers (if not_full_sleeper ph then wake ph else ph) = serves_poppers ph"
    "\<not> not_full_sleeper (wake ph)" for ph :: "'a queue_phase"
    by (cases ph; simp)+
  have "cnt not_full_sleeper (phases ?u) = 0" by (auto simp: notify_all_def cnt_0 w)
  moreover have "cnt not_empty_sleeper (phases ?u) = cnt not_empty_sleeper (phases s)"
    "cnt serves_poppers (phases ?u) = cnt serves_poppers (phases s)"
    by (simp_all add: notify_all_def cnt_map w)
  ultimately show "served (put t Q_Idle ?u)"
    using put_counts_all [OF l(1), of Q_Idle] l(2) assms(1) by (simp add: served_def)
qed

lemma advance_served:
  assumes "advance t w s = Some s'" "served s" "t < length (phases s)"
  shows "served s'"
proof (cases "phases s ! t")
  case (Push_Test v)
  with assms(1) served_sleep(1) [OF assms(2,3)] served_queue(1) [OF assms(2,3)] show ?thesis
    by (auto simp: advance_def split: option.splits)
next
  case Pop_Test
  with assms(1) served_sleep(2) [OF assms(2,3)] served_queue(2) [OF assms(2,3)] show ?thesis
    by (auto simp: advance_def split: option.splits)
next
  case All_Swap
  with assms(1) served_queue(3) [OF assms(2,3)] show ?thesis by (auto simp: advance_def split: prod.splits)
qed (use assms served_lock [OF assms(2,3)] served_unlock [OF assms(2,3)] served_notify [OF assms(2,3)] in
    \<open>auto simp: advance_def\<close>)

lemma mon_step_served:
  assumes "mon_step t act s = Some s'" "served s"
  shows "served s'"
proof (cases act)
  case (Go w)
  with assms show ?thesis using advance_served [of t w s s'] by (auto simp: mon_step_def split: if_splits)
next
  case Spurious_Wakeup
  with assms show ?thesis
    by (cases "phases s ! t") (auto simp: mon_step_def split: if_splits intro!: served_put)
qed (use assms in \<open>auto simp: mon_step_def split: if_splits intro!: served_put\<close>)

lemma mon_run_served: "mon_run as s = Some s' \<Longrightarrow> served s \<Longrightarrow> served s'"
  by (rule mon_run_keeps) (rule mon_step_served)

section \<open>Every operation comes to its end\<close>

text \<open>The steps a thread has left, those counted that it gives to the threads it wakes.\<close>

fun phase_weight :: "nat \<Rightarrow> 'a queue_phase \<Rightarrow> nat" where
  "phase_weight n Q_Idle = 0"
| "phase_weight n (Push_Enter v) = 6"
| "phase_weight n (Push_Woken v) = 6"
| "phase_weight n (Push_Test v) = 5"
| "phase_weight n (Push_Asleep v) = 4"
| "phase_weight n Push_Leave = 4"
| "phase_weight n Push_Notify = 3"
| "phase_weight n Pop_Enter = 6"
| "phase_weight n Pop_Woken = 6"
| "phase_weight n Pop_Test = 5"
| "phase_weight n Pop_Asleep = 4"
| "phase_weight n Pop_Leave = 4"
| "phase_weight n Pop_Notify = 3"
| "phase_weight n All_Enter = 2 * n + 4"
| "phase_weight n All_Swap = 2 * n + 3"
| "phase_weight n All_Leave = 2 * n + 2"
| "phase_weight n All_Notify = 2 * n + 1"

definition weight :: "'a queue_monitor \<Rightarrow> nat" where
  "weight s = sum_list (map (phase_weight (length (phases s))) (phases s))"

lemma sum_list_put:
  "t < length xs \<Longrightarrow> sum_list (map f (xs[t := x])) + f (xs ! t) = sum_list (map f xs) + (f x :: nat)"
proof (induction xs arbitrary: t)
  case (Cons y ys)
  then show ?case by (cases t) (auto simp: add.assoc add.left_commute)
qed simp

lemma weight_put:
  assumes "t < length (phases s)"
  shows "weight (put t ph s) + phase_weight (length (phases s)) (phases s ! t) = weight s + phase_weight (length (phases s)) ph"
  using sum_list_put [OF assms, of "phase_weight (length (phases s))" ph] by (simp add: weight_def)

lemma weight_frame [simp]:
  "weight (s\<lparr>mon_mutex := m\<rparr>) = weight s" "weight (s\<lparr>mon_queue := q, mon_trace := es\<rparr>) = weight s"
  by (simp_all add: weight_def)

lemma weight_lock:
  "t < length (phases s) \<Longrightarrow> mon_lock t ph s = Some s' \<Longrightarrow>
     weight s' + phase_weight (length (phases s)) (phases s ! t) = weight s + phase_weight (length (phases s)) ph"
  using weight_put [of t "s\<lparr>mon_mutex := Some t\<rparr>" ph] by (auto simp: mon_lock_def split: if_splits)

lemma weight_unlock:
  "t < length (phases s) \<Longrightarrow>
     weight (mon_unlock t ph s) + phase_weight (length (phases s)) (phases s ! t) =
     weight s + phase_weight (length (phases s)) ph"
  using weight_put [of t "s\<lparr>mon_mutex := None\<rparr>" ph] by (simp add: mon_unlock_def)

lemma weight_wake: "phase_weight n (wake ph) \<le> phase_weight n ph + 2"
  by (cases ph) auto

lemma weight_notify_one:
  assumes "notify_one sl w s = Some u"
  shows "weight u \<le> weight s + 2"
proof (cases w)
  case (Some v)
  with assms have v: "v < length (phases s)" "u = put v (wake (phases s ! v)) s"
    by (auto simp: notify_one_def split: if_splits)
  with weight_put [OF v(1), of "wake (phases s ! v)"] weight_wake [of "length (phases s)" "phases s ! v"]
  show ?thesis unfolding v(2) by linarith
qed (use assms in \<open>simp add: notify_one_def split: if_splits\<close>)

lemma weight_notify_all: "weight (notify_all sl s) \<le> weight s + 2 * length (phases s)"
proof -
  have "sum_list (map (phase_weight n) (map (\<lambda>ph. if sl ph then wake ph else ph) xs)) \<le>
      sum_list (map (phase_weight n) xs) + 2 * length xs" for n and xs :: "'a queue_phase list"
  proof (induction xs)
    case (Cons ph xs)
    then show ?case using weight_wake [of n ph] by auto
  qed simp
  from this [of "length (phases s)" "phases s"] show ?thesis by (simp add: weight_def notify_all_def)
qed

lemma advance_weight:
  assumes "advance t w s = Some s'" "t < length (phases s)"
  shows "weight s' < weight s"
proof -
  have one: "weight (put t Q_Idle u) < weight s"
    if n: "notify_one sl w s = Some u" "\<not> sl (phases s ! t)" "phase_weight (length (phases s)) (phases s ! t) = 3" for sl u
    using weight_put [of t u Q_Idle] weight_notify_one [OF n(1)] notify_one_frame(4,6) [OF n(1)] n(2,3) assms(2) by simp
  have all: "weight (put t Q_Idle (notify_all not_full_sleeper s)) < weight s" if "phases s ! t = All_Notify"
    using weight_put [of t "notify_all not_full_sleeper s" Q_Idle] weight_notify_all [of not_full_sleeper s] that assms(2)
    by (simp add: notify_all_def)
  have queue: "weight (put t ph (s\<lparr>mon_queue := q, mon_trace := es\<rparr>)) < weight s"
    if "phase_weight (length (phases s)) ph < phase_weight (length (phases s)) (phases s ! t)" for ph q es
    using weight_put [of t "s\<lparr>mon_queue := q, mon_trace := es\<rparr>" ph] that assms(2) by simp
  show ?thesis
  proof (cases "phases s ! t")
    case (Push_Test v)
    with assms(1) weight_unlock [OF assms(2), of "Push_Asleep v"] queue [of Push_Leave] show ?thesis
      by (auto simp: advance_def split: option.splits)
  next
    case Pop_Test
    with assms(1) weight_unlock [OF assms(2), of Pop_Asleep] queue [of Pop_Leave] show ?thesis
      by (auto simp: advance_def split: option.splits)
  next
    case All_Swap
    with assms(1) queue [of All_Leave] show ?thesis by (auto simp: advance_def split: prod.splits)
  next
    case Push_Notify
    with assms(1) one [of not_empty_sleeper] show ?thesis by (auto simp: advance_def)
  next
    case Pop_Notify
    with assms(1) one [of not_full_sleeper] show ?thesis by (auto simp: advance_def)
  qed (use assms weight_lock [OF assms(2)] weight_unlock [OF assms(2), of Push_Notify] weight_unlock [OF assms(2), of Pop_Notify]
      weight_unlock [OF assms(2), of All_Notify] all in \<open>fastforce simp: advance_def\<close>)+
qed

definition going :: "nat \<times> nat option \<Rightarrow> nat \<times> 'a queue_act" where
  "going g = (fst g, Go (snd g))"

lemma going_bound: "mon_run (map going gs) s = Some s' \<Longrightarrow> length gs \<le> weight s"
proof (induction gs arbitrary: s)
  case (Cons g gs)
  then obtain u where u: "mon_step (fst g) (Go (snd g)) s = Some u" "mon_run (map going gs) u = Some s'"
    by (auto simp del: mon_run.simps simp: mon_run_Cons going_def [of g])
  then have "weight u < weight s" using advance_weight [of "fst g" "snd g" s u] by (simp add: mon_step_def split: if_splits)
  with Cons.IH [OF u(2)] show ?case by simp
qed simp

lemma weight_bound:
  fixes s :: "'a queue_monitor"
  shows "weight s \<le> length (phases s) * (2 * length (phases s) + 6)"
proof -
  have p: "phase_weight n ph \<le> 2 * n + 6" for n and ph :: "'a queue_phase" by (cases ph) auto
  have "sum_list (map (phase_weight n) xs) \<le> length xs * (2 * n + 6)" for n and xs :: "'a queue_phase list"
  proof (induction xs)
    case (Cons ph xs)
    then show ?case using p [of n ph] by simp
  qed simp
  then show ?thesis by (simp add: weight_def)
qed

text \<open>When nobody can go on.\<close>

fun settled :: "'a blocking_queue \<Rightarrow> 'a queue_phase \<Rightarrow> bool" where
  "settled q Q_Idle = True"
| "settled q (Push_Asleep v) = (length (bq_queue q) \<ge> bq_capacity q)"
| "settled q Pop_Asleep = (bq_queue q = [])"
| "settled q _ = False"

lemma holder_goes:
  assumes "inside (phases s ! t)"
  shows "\<exists>s'. advance t w s = Some s'"
  using assms by (cases "phases s ! t") (auto simp: advance_def split: option.splits prod.splits)

lemma notify_goes: "\<exists>w s'. notify_one sl w s = Some s'"
proof (cases "list_ex sl (phases s)")
  case True
  then obtain u where "u < length (phases s)" "sl (phases s ! u)" by (auto simp: list_ex_length)
  then have "notify_one sl (Some u) s = Some (put u (wake (phases s ! u)) s)" by (simp add: notify_one_def)
  then show ?thesis by blast
next
  case False
  then have "notify_one sl None s = Some s" by (simp add: notify_one_def)
  then show ?thesis by blast
qed

lemma stuck_phase:
  assumes "mon_mutex s = None" "\<And>w. advance t w s = None" "\<not> inside (phases s ! t)"
  shows "phases s ! t = Q_Idle \<or> phases s ! t = Pop_Asleep \<or> (\<exists>v. phases s ! t = Push_Asleep v)"
proof (cases "phases s ! t")
  case Push_Notify
  obtain w u where "notify_one not_empty_sleeper w s = Some u" using notify_goes by blast
  with assms(2) [of w] Push_Notify show ?thesis by (simp add: advance_def)
next
  case Pop_Notify
  obtain w u where "notify_one not_full_sleeper w s = Some u" using notify_goes by blast
  with assms(2) [of w] Pop_Notify show ?thesis by (simp add: advance_def)
qed (use assms in \<open>auto simp: advance_def mon_lock_def\<close>)

lemma stuck_settled:
  assumes "mutex_ok s" "served s" "\<And>t w. t < length (phases s) \<Longrightarrow> advance t w s = None" "t < length (phases s)"
  shows "settled (mon_queue s) (phases s ! t)"
proof -
  have m: "mon_mutex s = None"
  proof (cases "mon_mutex s")
    case (Some u)
    with assms(1) have u: "u < length (phases s)" "inside (phases s ! u)" by (auto simp: mutex_ok_def)
    with holder_goes [of s u None] assms(3) [OF u(1), of None] show ?thesis by auto
  qed simp
  have ph: "ph = Q_Idle \<or> ph = Pop_Asleep \<or> (\<exists>v. ph = Push_Asleep v)" if "ph \<in> set (phases s)" for ph
  proof -
    from that obtain u where u: "u < length (phases s)" "ph = phases s ! u" by (auto simp: in_set_conv_nth)
    with assms(1) m stuck_phase [OF m assms(3) [OF u(1)]] show ?thesis by (auto simp: mutex_ok_def)
  qed
  have none: "cnt serves_poppers (phases s) = 0" "cnt serves_pushers (phases s) = 0" "cnt frees_all (phases s) = 0"
    using ph by (force simp: cnt_0)+
  have asleep: "phases s ! t \<in> set (phases s)" using assms(4) by simp
  then have "not_empty_sleeper (phases s ! t) \<Longrightarrow> 0 < cnt not_empty_sleeper (phases s)"
    "not_full_sleeper (phases s ! t) \<Longrightarrow> 0 < cnt not_full_sleeper (phases s)"
    using cnt_0 [of not_empty_sleeper "phases s"] cnt_0 [of not_full_sleeper "phases s"] by auto
  with none assms(2) ph [OF asleep] show ?thesis by (auto simp: served_def)
qed

section \<open>The monitor\<close>

text \<open>C14: The monitor implements the atomic queue. However many threads push, pop and drain it, interleaved at every
  access to the mutex and the condition variables and with any spurious wake-ups, elements come out in the order they
  went in, none lost and none invented, the queue never holds more than its capacity, and at most one thread is between
  lock and unlock.\<close>

theorem queue_monitor_refines:
  assumes "mon_run as (new_monitor n capacity) = Some s"
  shows "bq_run (new_blocking_queue capacity) (mon_trace s) (mon_queue s) \<and>
    ins (mon_trace s) = outs (mon_trace s) @ bq_queue (mon_queue s) \<and>
    length (bq_queue (mon_queue s)) \<le> capacity \<and>
    (\<forall>t < n. \<forall>u < n. inside (phases s ! t) \<and> inside (phases s ! u) \<longrightarrow> t = u)"
proof -
  have ok: "mon_ok n capacity s" using mon_run_ok [OF assms mon_ok_new] .
  then have run: "bq_run (new_blocking_queue capacity) (mon_trace s) (mon_queue s)" by (simp add: mon_ok_def)
  have "t = u" if "t < n" "u < n" "inside (phases s ! t)" "inside (phases s ! u)" for t u
    using ok that by (auto simp: mon_ok_def mutex_ok_def)
  with run bq_run_inv [OF run] show ?thesis by (auto simp: new_blocking_queue_def)
qed

text \<open>C15: No wake-up is lost. From every reachable state, threads that only go on with the operation they are in take at
  most n (2n + 6) steps, and when none can go on, every operation has ended except pushes into a full queue and pops
  from an empty one.\<close>

theorem blocking_queue_no_lost_wakeup:
  assumes "mon_run as (new_monitor n capacity) = Some s"
  shows "(\<forall>gs s'. mon_run (map going gs) s = Some s' \<longrightarrow>
      length gs \<le> n * (2 * n + 6) \<and>
      ((\<forall>t w. mon_step t (Go w) s' = None) \<longrightarrow> (\<forall>t < n. settled (mon_queue s') (phases s' ! t))))"
proof (intro allI impI conjI)
  fix gs s'
  assume run: "mon_run (map going gs) s = Some s'"
  have ok: "mon_ok n capacity s" and sv: "served s"
    using mon_run_ok [OF assms mon_ok_new] mon_run_served [OF assms served_new] by simp_all
  then have ok': "mon_ok n capacity s'" and sv': "served s'" using mon_run_ok [OF run] mon_run_served [OF run] by simp_all
  from ok have "length (phases s) = n" by (simp add: mon_ok_def)
  with going_bound [OF run] weight_bound [of s] show "length gs \<le> n * (2 * n + 6)" by simp
  fix t assume stuck: "\<forall>t w. mon_step t (Go w) s' = None" and t: "t < n"
  show "settled (mon_queue s') (phases s' ! t)"
  proof (rule stuck_settled)
    show "advance u w s' = None" if "u < length (phases s')" for u w
      using stuck [rule_format, of u w] that by (simp add: mon_step_def split: if_splits)
  qed (use ok' sv' t in \<open>simp_all add: mon_ok_def\<close>)
qed

text \<open>Thread 0 sleeps in \<open>pop\<close> when thread 1 pushes. In a queue of one element a second push sleeps.\<close>

definition pop_then_push :: "(nat \<times> nat queue_act) list" where
  "pop_then_push = [(0, Call_Pop), (1, Call_Push 7), (0, Go None), (0, Go None), (1, Go None), (1, Go None), (1, Go None),
     (1, Go (Some 0)), (0, Go None), (0, Go None)]"

definition two_pushes :: "(nat \<times> nat queue_act) list" where
  "two_pushes = [(0, Call_Push 7), (1, Call_Push 8), (0, Go None), (0, Go None), (0, Go None), (1, Go None), (1, Go None)]"

lemmas run_queue_monitor = pop_then_push_def two_pushes_def new_monitor_def mon_step_def advance_def mon_lock_def mon_unlock_def
  notify_one_def bq_push_def bq_pop_def new_blocking_queue_def put_def numeral_2_eq_2

lemma queue_monitor_refines_witness:
  "\<exists>s. mon_run pop_then_push (new_monitor 2 1) = Some s \<and> mon_trace s = [Pushed 7, Popped 7] \<and>
     bq_run (new_blocking_queue 1) (mon_trace s) (mon_queue s)"
proof -
  obtain s where "mon_run pop_then_push (new_monitor 2 1) = Some s" "mon_trace s = [Pushed 7, Popped 7]"
    by (simp add: run_queue_monitor)
  with queue_monitor_refines [of pop_then_push 2 1 s] show ?thesis by blast
qed

lemma blocking_queue_no_lost_wakeup_witness:
  "\<exists>s s'. mon_run two_pushes (new_monitor 2 1) = Some s \<and> mon_run (map going [(0, None)]) s = Some s' \<and>
     phases s' = [Q_Idle, Push_Asleep 8] \<and> settled (mon_queue s') (Push_Asleep 8) \<and> 1 \<le> (2::nat) * (2 * 2 + 6)"
proof -
  obtain s s' where s: "mon_run two_pushes (new_monitor 2 1) = Some s" "mon_run (map going [(0, None)]) s = Some s'"
    "phases s' = [Q_Idle, Push_Asleep 8]"
    by (simp add: run_queue_monitor going_def)
  have "mon_step t (Go w) s' = None" for t w
    using s(3) by (cases t) (auto simp: mon_step_def advance_def nth_Cons split: nat.splits)
  then have "settled (mon_queue s') (phases s' ! 1)" "length [(0, None)] \<le> 2 * (2 * 2 + (6::nat))"
    using blocking_queue_no_lost_wakeup [OF s(1), rule_format, OF s(2)] by simp_all
  with s show ?thesis by auto
qed

end
