(* ===== verification/Store_Buffers.thy ===== *)
theory Store_Buffers
  imports Loop_Wakeup
begin

text \<open>
  The wake-up of an event loop (src/event_loop.cc) on processors with store buffers, x86 for one: a store waits in its
  processor's buffer, first in first out, before other threads see it, and a locked instruction (compare and exchange,
  taking or giving back a mutex) and a system call wait until the buffer is empty. The pilot lamp is switched off by a
  relaxed store, which may still be buffered when the loop looks at the queue. With the blocking queue that does no harm,
  because the loop takes the mutex of the queue in between; with the lock-free queue a wake-up can be lost.
\<close>

section \<open>State\<close>

text \<open>The queue is what is linked in memory; a node of the lock-free queue becomes part of it by one store.\<close>

datatype queue_kind = Blocking | Lock_Free

datatype 'f store = Link 'f | Set_Need_Stop | Lamp_Off

datatype round_phase = At_Check | At_Poll | At_Callback | At_Invoke

record 'f tso_system =
  memory_queue :: "'f list"
  memory_lamp :: bool
  memory_stop :: bool
  counter :: nat
  caller_at :: "nat \<Rightarrow> caller_phase"
  caller_buffer :: "nat \<Rightarrow> 'f store list"
  loop_at :: round_phase
  loop_buffer :: "'f store list"
  handed_over :: "'f list"
  ran :: "'f list"
  stop_seen :: bool

definition new_tso_system :: "'f tso_system" where
  "new_tso_system =
     \<lparr>memory_queue = [], memory_lamp = False, memory_stop = False, counter = 0, caller_at = (\<lambda>_. Idle),
      caller_buffer = (\<lambda>_. []), loop_at = At_Check, loop_buffer = [], handed_over = [], ran = [], stop_seen = False\<rparr>"

fun commit :: "'f store \<Rightarrow> 'f tso_system \<Rightarrow> 'f tso_system" where
  "commit (Link f) s = s\<lparr>memory_queue := memory_queue s @ [f]\<rparr>"
| "commit Set_Need_Stop s = s\<lparr>memory_stop := True\<rparr>"
| "commit Lamp_Off s = s\<lparr>memory_lamp := False\<rparr>"

section \<open>Steps\<close>

text \<open>
  \<^verbatim>\<open>_leave_to_owner_thread\<close>: the blocking queue is changed under its mutex, the lock-free one by the release store of
  its only producer, thread 0.
\<close>

definition tso_push :: "queue_kind \<Rightarrow> nat \<Rightarrow> 'f \<Rightarrow> 'f tso_system \<Rightarrow> 'f tso_system option" where
  "tso_push kind t f s =
     (if caller_at s t \<noteq> Idle then None
      else let s1 = s\<lparr>handed_over := handed_over s @ [f], caller_at := (caller_at s)(t := Queued)\<rparr> in
        case kind of
          Blocking \<Rightarrow>
            if caller_buffer s t = [] \<and> length (memory_queue s) < FUNCTOR_QUEUE_CAPACITY then Some (commit (Link f) s1) else None
        | Lock_Free \<Rightarrow>
            if t = 0 then Some (s1\<lparr>caller_buffer := (caller_buffer s)(t := caller_buffer s t @ [Link f])\<rparr>) else None)"

text \<open>\<^verbatim>\<open>ask_to_stop\<close>: the release fence behind the store does not wait for it.\<close>

definition tso_ask_to_stop :: "nat \<Rightarrow> 'f tso_system \<Rightarrow> 'f tso_system option" where
  "tso_ask_to_stop t s =
     (if caller_at s t \<noteq> Idle then None
      else Some (s\<lparr>caller_buffer := (caller_buffer s)(t := caller_buffer s t @ [Set_Need_Stop]),
                   caller_at := (caller_at s)(t := Queued)\<rparr>))"

text \<open>\<^verbatim>\<open>_wake_up_this_loop\<close>: a locked compare and exchange, and the write to the eventfd of the caller that succeeds.\<close>

definition tso_wake :: "nat \<Rightarrow> 'f tso_system \<Rightarrow> 'f tso_system option" where
  "tso_wake t s =
     (if caller_at s t \<noteq> Queued \<or> caller_buffer s t \<noteq> [] then None
      else if memory_lamp s then Some (s\<lparr>caller_at := (caller_at s)(t := Idle)\<rparr>)
      else Some (s\<lparr>memory_lamp := True, caller_at := (caller_at s)(t := Ringing)\<rparr>))"

definition tso_ring :: "nat \<Rightarrow> 'f tso_system \<Rightarrow> 'f tso_system option" where
  "tso_ring t s =
     (if caller_at s t \<noteq> Ringing then None
      else Some (s\<lparr>counter := counter s + 1, caller_at := (caller_at s)(t := Idle)\<rparr>))"

text \<open>A round of \<^verbatim>\<open>loop\<close>: the test of \<^verbatim>\<open>_need_stop\<close>, the poller, the callback of the eventfd and the functors.\<close>

definition tso_check :: "'f tso_system \<Rightarrow> 'f tso_system option" where
  "tso_check s =
     (if loop_at s \<noteq> At_Check then None
      else Some (s\<lparr>stop_seen := (stop_seen s \<or> memory_stop s), loop_at := At_Poll\<rparr>))"

definition tso_poll :: "'f tso_system \<Rightarrow> 'f tso_system option" where
  "tso_poll s =
     (if loop_at s \<noteq> At_Poll \<or> counter s = 0 then None
      else Some (s\<lparr>counter := 0, loop_at := At_Callback\<rparr>))"

definition tso_other_event :: "'f tso_system \<Rightarrow> 'f tso_system option" where
  "tso_other_event s = (if loop_at s \<noteq> At_Poll then None else Some (s\<lparr>loop_at := At_Check\<rparr>))"

definition tso_callback :: "'f tso_system \<Rightarrow> 'f tso_system option" where
  "tso_callback s =
     (if loop_at s \<noteq> At_Callback then None
      else Some (s\<lparr>loop_buffer := loop_buffer s @ [Lamp_Off], loop_at := At_Invoke\<rparr>))"

text \<open>\<^verbatim>\<open>_invoke_all_functors\<close>: one \<^verbatim>\<open>pop_all\<close> under the mutex, or pops until one finds nothing.\<close>

definition tso_invoke :: "queue_kind \<Rightarrow> 'f tso_system \<Rightarrow> 'f tso_system option" where
  "tso_invoke kind s =
     (if loop_at s \<noteq> At_Invoke then None
      else case kind of
        Blocking \<Rightarrow>
          if loop_buffer s = [] then Some (s\<lparr>ran := ran s @ memory_queue s, memory_queue := [], loop_at := At_Check\<rparr>) else None
      | Lock_Free \<Rightarrow>
          (case memory_queue s of
             [] \<Rightarrow> Some (s\<lparr>loop_at := At_Check\<rparr>)
           | f # fs \<Rightarrow> Some (s\<lparr>ran := ran s @ [f], memory_queue := fs\<rparr>)))"

text \<open>Stores reach memory at any time.\<close>

definition tso_commit :: "nat \<Rightarrow> 'f tso_system \<Rightarrow> 'f tso_system option" where
  "tso_commit t s =
     (case caller_buffer s t of [] \<Rightarrow> None
      | w # ws \<Rightarrow> Some (commit w (s\<lparr>caller_buffer := (caller_buffer s)(t := ws)\<rparr>)))"

definition tso_commit_loop :: "'f tso_system \<Rightarrow> 'f tso_system option" where
  "tso_commit_loop s = (case loop_buffer s of [] \<Rightarrow> None | w # ws \<Rightarrow> Some (commit w (s\<lparr>loop_buffer := ws\<rparr>)))"

datatype 'f tso_act =
    Push nat 'f | Ask_To_Stop nat | Wake nat | Ring nat | Commit nat
  | Check | Poll | Other_Event | Callback | Invoke | Commit_Loop

fun tso_step :: "queue_kind \<Rightarrow> 'f tso_act \<Rightarrow> 'f tso_system \<Rightarrow> 'f tso_system option" where
  "tso_step kind (Push t f) s = tso_push kind t f s"
| "tso_step kind (Ask_To_Stop t) s = tso_ask_to_stop t s"
| "tso_step kind (Wake t) s = tso_wake t s"
| "tso_step kind (Ring t) s = tso_ring t s"
| "tso_step kind (Commit t) s = tso_commit t s"
| "tso_step kind Check s = tso_check s"
| "tso_step kind Poll s = tso_poll s"
| "tso_step kind Other_Event s = tso_other_event s"
| "tso_step kind Callback s = tso_callback s"
| "tso_step kind Invoke s = tso_invoke kind s"
| "tso_step kind Commit_Loop s = tso_commit_loop s"

fun tso_run :: "queue_kind \<Rightarrow> 'f tso_act list \<Rightarrow> 'f tso_system \<Rightarrow> 'f tso_system option" where
  "tso_run kind [] s = Some s"
| "tso_run kind (a # as) s = Option.bind (tso_step kind a s) (tso_run kind as)"

fun of_loop :: "'f tso_act \<Rightarrow> bool" where
  "of_loop (Push t f) = False"
| "of_loop (Ask_To_Stop t) = False"
| "of_loop (Wake t) = False"
| "of_loop (Ring t) = False"
| "of_loop _ = True"

lemmas tso_steps = tso_push_def tso_ask_to_stop_def tso_wake_def tso_ring_def tso_commit_def tso_check_def tso_poll_def
  tso_other_event_def tso_callback_def tso_invoke_def tso_commit_loop_def

lemma tso_run_keeps:
  assumes "\<And>a s s'. tso_step kind a s = Some s' \<Longrightarrow> Q a \<Longrightarrow> P s \<Longrightarrow> P s'"
  shows "tso_run kind as s = Some s' \<Longrightarrow> list_all Q as \<Longrightarrow> P s \<Longrightarrow> P s'"
proof (induction as arbitrary: s)
  case (Cons a as)
  then obtain u where "tso_step kind a s = Some u" "tso_run kind as u = Some s'" by (auto simp: bind_eq_Some_conv)
  with Cons assms show ?case by auto
qed simp

section \<open>The blocking queue\<close>

text \<open>
  A caller has stores in its buffer only before its compare and exchange, the loop only before it looks at the queue. The
  lamp in memory is on exactly while one notification is on its way, the store that switches it off counted.
\<close>

definition ringers :: "'f tso_system \<Rightarrow> nat set" where
  "ringers s = {t. caller_at s t = Ringing}"

definition tso_lamp_ok :: "'f tso_system \<Rightarrow> bool" where
  "tso_lamp_ok s \<longleftrightarrow>
     finite (ringers s) \<and>
     of_bool (memory_lamp s) =
       counter s + card (ringers s) + of_bool (loop_at s = At_Callback) + length (loop_buffer s) \<and>
     (\<forall>w \<in> set (loop_buffer s). w = Lamp_Off) \<and> (loop_buffer s \<noteq> [] \<longrightarrow> loop_at s = At_Invoke)"

definition tso_callers_ok :: "'f tso_system \<Rightarrow> bool" where
  "tso_callers_ok s \<longleftrightarrow>
     (\<forall>t. (\<forall>w \<in> set (caller_buffer s t). w = Set_Need_Stop) \<and> (caller_buffer s t \<noteq> [] \<longrightarrow> caller_at s t = Queued))"

definition tso_wake_ok :: "'f tso_system \<Rightarrow> bool" where
  "tso_wake_ok s \<longleftrightarrow>
     (memory_queue s \<noteq> [] \<longrightarrow> (\<exists>t. caller_at s t = Queued) \<or> memory_lamp s \<or> loop_at s = At_Invoke) \<and>
     (memory_stop s \<and> \<not> stop_seen s \<longrightarrow>
        (\<exists>t. caller_at s t = Queued) \<or> memory_lamp s \<or> loop_at s = At_Invoke \<or> loop_at s = At_Check)"

definition tso_ok :: "'f tso_system \<Rightarrow> bool" where
  "tso_ok s \<longleftrightarrow> tso_lamp_ok s \<and> tso_callers_ok s \<and> tso_wake_ok s \<and> handed_over s = ran s @ memory_queue s"

lemma tso_ok_new: "tso_ok new_tso_system"
  by (simp add: tso_ok_def tso_lamp_ok_def tso_callers_ok_def tso_wake_ok_def new_tso_system_def ringers_def)

lemma ringers_upd:
  "{u. ((caller_at s)(t := ph)) u = Ringing} = (if ph = Ringing then insert t (ringers s) else ringers s - {t})"
  by (auto simp: ringers_def)

lemma card_ringers:
  assumes "finite (ringers s)" "caller_at s t \<noteq> Ringing"
  shows "card (insert t (ringers s)) = Suc (card (ringers s))" "ringers s - {t} = ringers s"
  using assms by (auto simp: ringers_def)

lemma tso_ok_push:
  assumes "tso_push Blocking t f s = Some s'" "tso_ok s"
  shows "tso_ok s'"
proof -
  have s: "caller_at s t = Idle" "caller_buffer s t = []"
    "s' = s\<lparr>handed_over := handed_over s @ [f], caller_at := (caller_at s)(t := Queued), memory_queue := memory_queue s @ [f]\<rparr>"
    using assms(1) by (auto simp: tso_push_def Let_def split: if_splits)
  have "ringers s' = ringers s" using s by (auto simp: ringers_def)
  then have "tso_lamp_ok s'" using assms(2) s(3) by (simp add: tso_ok_def tso_lamp_ok_def)
  moreover have "tso_wake_ok s'" by (auto simp: s(3) tso_wake_ok_def)
  moreover have "tso_callers_ok s'" using assms(2) s by (auto simp: tso_ok_def tso_callers_ok_def)
  ultimately show ?thesis using assms(2) s(3) by (simp add: tso_ok_def)
qed

lemma tso_ok_ask_to_stop:
  assumes "tso_ask_to_stop t s = Some s'" "tso_ok s"
  shows "tso_ok s'"
proof -
  have s: "caller_at s t = Idle"
    "s' = s\<lparr>caller_buffer := (caller_buffer s)(t := caller_buffer s t @ [Set_Need_Stop]), caller_at := (caller_at s)(t := Queued)\<rparr>"
    using assms(1) by (auto simp: tso_ask_to_stop_def split: if_splits)
  have "ringers s' = ringers s" using s by (auto simp: ringers_def)
  then have "tso_lamp_ok s'" using assms(2) s(2) by (simp add: tso_ok_def tso_lamp_ok_def)
  moreover have "tso_wake_ok s'" by (auto simp: s(2) tso_wake_ok_def)
  moreover have "tso_callers_ok s'" using assms(2) s(2) by (auto simp: tso_ok_def tso_callers_ok_def)
  ultimately show ?thesis using assms(2) s(2) by (simp add: tso_ok_def)
qed

lemma tso_ok_wake:
  assumes "tso_wake t s = Some s'" "tso_ok s"
  shows "tso_ok s'"
proof -
  have q: "caller_at s t = Queued" "caller_buffer s t = []" using assms(1) by (auto simp: tso_wake_def split: if_splits)
  have fin: "finite (ringers s)" using assms(2) by (simp add: tso_ok_def tso_lamp_ok_def)
  have callers: "tso_callers_ok s'"
    using assms q by (auto simp: tso_wake_def tso_ok_def tso_callers_ok_def split: if_splits)
  show ?thesis
  proof (cases "memory_lamp s")
    case True
    then have s: "s' = s\<lparr>caller_at := (caller_at s)(t := Idle)\<rparr>" using assms(1) q by (simp add: tso_wake_def)
    have "ringers s' = ringers s" using s q by (auto simp: ringers_def)
    then have "tso_lamp_ok s'" using assms(2) s by (simp add: tso_ok_def tso_lamp_ok_def)
    moreover have "tso_wake_ok s'" using True by (simp add: s tso_wake_ok_def)
    ultimately show ?thesis using assms(2) s callers by (simp add: tso_ok_def)
  next
    case False
    then have s: "s' = s\<lparr>memory_lamp := True, caller_at := (caller_at s)(t := Ringing)\<rparr>"
      using assms(1) q by (simp add: tso_wake_def)
    have "ringers s' = insert t (ringers s)" using s by (auto simp: ringers_def)
    then have "tso_lamp_ok s'" using assms(2) s card_ringers(1) [OF fin, of t] q(1) False fin
      by (auto simp: tso_ok_def tso_lamp_ok_def)
    moreover have "tso_wake_ok s'" by (simp add: s tso_wake_ok_def)
    ultimately show ?thesis using assms(2) s callers by (simp add: tso_ok_def)
  qed
qed

lemma tso_ok_ring:
  assumes "tso_ring t s = Some s'" "tso_ok s"
  shows "tso_ok s'"
proof -
  have s: "caller_at s t = Ringing" "s' = s\<lparr>counter := counter s + 1, caller_at := (caller_at s)(t := Idle)\<rparr>"
    using assms(1) by (auto simp: tso_ring_def split: if_splits)
  have fin: "finite (ringers s)" using assms(2) by (simp add: tso_ok_def tso_lamp_ok_def)
  have r: "ringers s' = ringers s - {t}" "t \<in> ringers s" using s by (auto simp: ringers_def)
  have "card (ringers s) = Suc (card (ringers s'))" using card.remove [OF fin r(2)] r(1) by simp
  then have lamp: "tso_lamp_ok s'" using assms(2) s(2) r fin by (simp add: tso_ok_def tso_lamp_ok_def)
  moreover have "tso_callers_ok s'" using assms(2) s by (auto simp: tso_ok_def tso_callers_ok_def)
  moreover have "memory_lamp s'" using lamp s(2) by (auto simp: tso_lamp_ok_def of_bool_def split: if_splits)
  then have "tso_wake_ok s'" by (simp add: tso_wake_ok_def)
  ultimately show ?thesis using assms(2) s(2) by (simp add: tso_ok_def)
qed

lemma tso_ok_commit:
  assumes "tso_commit t s = Some s'" "tso_ok s"
  shows "tso_ok s'"
proof -
  obtain w ws where b: "caller_buffer s t = w # ws" "s' = commit w (s\<lparr>caller_buffer := (caller_buffer s)(t := ws)\<rparr>)"
    using assms(1) by (auto simp: tso_commit_def split: list.splits)
  have "(\<forall>w \<in> set (caller_buffer s t). w = Set_Need_Stop) \<and> (caller_buffer s t \<noteq> [] \<longrightarrow> caller_at s t = Queued)"
    using assms(2) unfolding tso_ok_def tso_callers_ok_def by blast
  then have c: "\<forall>w \<in> set (caller_buffer s t). w = Set_Need_Stop" "caller_at s t = Queued" using b(1) by simp_all
  then have s: "s' = s\<lparr>caller_buffer := (caller_buffer s)(t := ws), memory_stop := True\<rparr>" using b by simp
  have "ringers s' = ringers s" using s by (simp add: ringers_def)
  then have "tso_lamp_ok s'" using assms(2) s by (simp add: tso_ok_def tso_lamp_ok_def)
  moreover have "tso_wake_ok s'" using c(2) by (auto simp: s tso_wake_ok_def)
  moreover have "tso_callers_ok s'" using assms(2) s b(1) c by (auto simp: tso_ok_def tso_callers_ok_def)
  ultimately show ?thesis using assms(2) s by (simp add: tso_ok_def)
qed

lemma ringers_frame [simp]:
  "ringers (s\<lparr>loop_at := p\<rparr>) = ringers s" "ringers (s\<lparr>loop_buffer := ws\<rparr>) = ringers s"
  "ringers (s\<lparr>counter := n\<rparr>) = ringers s" "ringers (s\<lparr>stop_seen := b\<rparr>) = ringers s"
  "ringers (s\<lparr>memory_queue := fs\<rparr>) = ringers s" "ringers (s\<lparr>ran := fs\<rparr>) = ringers s"
  "ringers (s\<lparr>memory_lamp := b\<rparr>) = ringers s"
  by (simp_all add: ringers_def)

text \<open>One notification at most is on its way.\<close>

lemma lamp_token:
  assumes "tso_lamp_ok s"
  shows "counter s + card (ringers s) + of_bool (loop_at s = At_Callback) + length (loop_buffer s) \<le> 1"
    "0 < counter s + card (ringers s) + of_bool (loop_at s = At_Callback) + length (loop_buffer s) \<Longrightarrow> memory_lamp s"
  using assms by (auto simp: tso_lamp_ok_def of_bool_def split: if_splits)

lemma tso_ok_check:
  assumes "tso_ok s" "tso_check s = Some s'"
  shows "tso_ok s'"
proof -
  have s: "loop_at s = At_Check" "s' = s\<lparr>loop_at := At_Poll, stop_seen := (stop_seen s \<or> memory_stop s)\<rparr>"
    using assms(2) by (auto simp: tso_check_def split: if_splits)
  with assms(1) show ?thesis by (auto simp: tso_ok_def tso_lamp_ok_def tso_callers_ok_def tso_wake_ok_def)
qed

lemma tso_ok_other_event:
  assumes "tso_ok s" "tso_other_event s = Some s'"
  shows "tso_ok s'"
proof -
  have s: "loop_at s = At_Poll" "s' = s\<lparr>loop_at := At_Check\<rparr>"
    using assms(2) by (auto simp: tso_other_event_def split: if_splits)
  with assms(1) show ?thesis by (auto simp: tso_ok_def tso_lamp_ok_def tso_callers_ok_def tso_wake_ok_def)
qed

lemma tso_ok_callback:
  assumes "tso_ok s" "tso_callback s = Some s'"
  shows "tso_ok s'"
proof -
  have s: "loop_at s = At_Callback" "s' = s\<lparr>loop_buffer := loop_buffer s @ [Lamp_Off], loop_at := At_Invoke\<rparr>"
    using assms(2) by (auto simp: tso_callback_def split: if_splits)
  with assms(1) show ?thesis by (auto simp: tso_ok_def tso_lamp_ok_def tso_callers_ok_def tso_wake_ok_def)
qed

lemma tso_ok_invoke:
  assumes "tso_ok s" "tso_invoke Blocking s = Some s'"
  shows "tso_ok s'"
proof -
  have s: "loop_at s = At_Invoke" "loop_buffer s = []"
    "s' = s\<lparr>memory_queue := [], loop_at := At_Check, ran := ran s @ memory_queue s\<rparr>"
    using assms(2) by (auto simp: tso_invoke_def split: if_splits)
  with assms(1) show ?thesis by (auto simp: tso_ok_def tso_lamp_ok_def tso_callers_ok_def tso_wake_ok_def)
qed

lemma tso_ok_poll:
  assumes "tso_ok s" "tso_poll s = Some s'"
  shows "tso_ok s'"
proof -
  have s: "loop_at s = At_Poll" "0 < counter s" "s' = s\<lparr>counter := 0, loop_at := At_Callback\<rparr>"
    using assms(2) by (auto simp: tso_poll_def split: if_splits)
  have l: "tso_lamp_ok s" using assms(1) by (simp add: tso_ok_def)
  have "counter s = 1" "card (ringers s) = 0" "length (loop_buffer s) = 0"
    using lamp_token(1) [OF l] s(2) by linarith+
  moreover from this have "memory_lamp s" using lamp_token(2) [OF l] by simp
  ultimately have "memory_lamp s" "counter s = 1" "card (ringers s) = 0" "loop_buffer s = []" by simp_all
  with assms(1) s show ?thesis by (simp add: tso_ok_def tso_lamp_ok_def tso_callers_ok_def tso_wake_ok_def)
qed

lemma tso_ok_commit_loop:
  assumes "tso_ok s" "tso_commit_loop s = Some s'"
  shows "tso_ok s'"
proof -
  obtain w ws where b: "loop_buffer s = w # ws" "s' = commit w (s\<lparr>loop_buffer := ws\<rparr>)"
    using assms(2) by (auto simp: tso_commit_loop_def split: list.splits)
  have l: "loop_at s = At_Invoke" "w = Lamp_Off" "tso_lamp_ok s" using assms(1) b(1) by (auto simp: tso_ok_def tso_lamp_ok_def)
  then have "ws = []" "counter s = 0" "card (ringers s) = 0" "finite (ringers s)"
    using lamp_token(1) [OF l(3)] b(1) by (simp_all add: tso_lamp_ok_def)
  with assms(1) b l show ?thesis by (simp add: tso_ok_def tso_lamp_ok_def tso_callers_ok_def tso_wake_ok_def)
qed

lemma tso_ok_step: "tso_step Blocking a s = Some s' \<Longrightarrow> tso_ok s \<Longrightarrow> tso_ok s'"
  using tso_ok_push tso_ok_ask_to_stop tso_ok_wake tso_ok_ring tso_ok_commit tso_ok_check
    tso_ok_poll tso_ok_other_event tso_ok_callback tso_ok_invoke tso_ok_commit_loop
  by (cases a) simp_all

lemma tso_run_ok: "tso_run Blocking as new_tso_system = Some s \<Longrightarrow> tso_ok s"
  by (rule tso_run_keeps [where Q = "\<lambda>a. True" and P = tso_ok, OF tso_ok_step])
    (auto simp: tso_ok_new list.pred_True)

text \<open>C4: With the blocking queue the relaxed store to the pilot lamp loses no wake-up on processors with store buffers:
  functors run once, in the order in which they were handed over, and whenever no call is under way and the loop waits in
  its poller, a queued functor or an unseen request to stop has made the eventfd readable.\<close>

theorem blocking_wakeup_with_store_buffers:
  assumes "tso_run Blocking as new_tso_system = Some s"
  shows "handed_over s = ran s @ memory_queue s \<and> counter s \<le> 1 \<and>
    ((\<forall>t. caller_at s t = Idle) \<and> loop_at s = At_Poll \<and> (memory_queue s \<noteq> [] \<or> memory_stop s \<and> \<not> stop_seen s) \<longrightarrow>
       counter s = 1) \<and>
    ((\<forall>t. caller_at s t = Idle) \<longrightarrow> (\<forall>t. caller_buffer s t = []))"
proof -
  have ok: "tso_lamp_ok s" "tso_callers_ok s" "tso_wake_ok s" "handed_over s = ran s @ memory_queue s"
    using tso_run_ok [OF assms] by (simp_all add: tso_ok_def)
  have "counter s \<le> 1" using ok(1) by (auto simp: tso_lamp_ok_def of_bool_def split: if_splits)
  moreover have "counter s = 1" if i: "\<forall>t. caller_at s t = Idle" and l: "loop_at s = At_Poll"
      and w: "memory_queue s \<noteq> [] \<or> memory_stop s \<and> \<not> stop_seen s"
  proof -
    have "memory_lamp s" using ok(3) i l w by (auto simp: tso_wake_ok_def)
    moreover have "ringers s = {}" "loop_buffer s = []" using i l ok(1) by (auto simp: ringers_def tso_lamp_ok_def)
    ultimately show ?thesis using ok(1) l by (simp add: tso_lamp_ok_def)
  qed
  moreover have "caller_buffer s t = []" if "\<forall>t. caller_at s t = Idle" for t
    using ok(2) that unfolding tso_callers_ok_def by (metis caller_phase.distinct(1))
  ultimately show ?thesis using ok(4) by blast
qed

text \<open>One functor is handed over and run; the next comes while the lamp's store is still in the buffer.\<close>

definition hand_over_two :: "nat tso_act list" where
  "hand_over_two = [Push 0 7, Commit 0, Wake 0, Ring 0, Check, Poll, Callback, Invoke, Invoke,
     Push 0 8, Commit 0, Wake 0, Commit_Loop, Check]"

definition stop_after_one :: "nat tso_act list" where
  "stop_after_one = [Push 0 7, Commit 0, Wake 0, Ring 0, Check, Poll, Callback, Invoke, Invoke, Check,
     Ask_To_Stop 1, Commit 1, Wake 1, Commit_Loop]"

definition locked_wakeup :: "nat tso_act list" where
  "locked_wakeup = [Check, Push 0 7, Wake 0, Ring 0, Ask_To_Stop 1, Commit 1, Wake 1]"

lemmas run_tso = hand_over_two_def stop_after_one_def locked_wakeup_def new_tso_system_def tso_steps
  FUNCTOR_QUEUE_CAPACITY_def Let_def

lemma blocking_wakeup_with_store_buffers_witness:
  "\<exists>s. tso_run Blocking locked_wakeup new_tso_system = Some s \<and> memory_queue s = [7] \<and> memory_stop s \<and> counter s = 1"
proof -
  obtain s where s: "tso_run Blocking locked_wakeup new_tso_system = Some s" "memory_queue s = [7]" "memory_stop s"
    "loop_at s = At_Poll" "caller_at s = (\<lambda>_. Idle)"
    by (simp add: run_tso fun_eq_iff)
  with blocking_wakeup_with_store_buffers [OF s(1)] show ?thesis by simp
qed

section \<open>The lock-free queue\<close>

text \<open>Nobody will run the functors that are queued: every call has ended, every store is in memory, and the eventfd is
  not readable.\<close>

definition wakeup_lost :: "'f tso_system \<Rightarrow> bool" where
  "wakeup_lost s \<longleftrightarrow>
     memory_queue s \<noteq> [] \<and> (\<forall>t. caller_at s t = Idle \<and> caller_buffer s t = []) \<and> loop_buffer s = [] \<and> counter s = 0 \<and>
     loop_at s \<in> {At_Poll, At_Check}"

text \<open>The loop alone, other events and timers included, does not get out of such a state.\<close>

lemma wakeup_lost_step:
  "tso_step Lock_Free a s = Some s' \<Longrightarrow> of_loop a \<Longrightarrow> wakeup_lost s \<and> memory_queue s = fs \<and> ran s = gs \<Longrightarrow>
     wakeup_lost s' \<and> memory_queue s' = fs \<and> ran s' = gs"
  by (cases a) (auto simp: wakeup_lost_def tso_steps split: if_splits list.splits)

lemma wakeup_stays_lost:
  assumes "tso_run Lock_Free as s = Some s'" "list_all of_loop as" "wakeup_lost s"
  shows "memory_queue s' = memory_queue s" "ran s' = ran s"
  using tso_run_keeps [where kind = Lock_Free and Q = of_loop and
      P = "\<lambda>u. wakeup_lost u \<and> memory_queue u = memory_queue s \<and> ran u = ran s", OF wakeup_lost_step assms(1,2)] assms(3)
  by auto

text \<open>C11: With the lock-free queue a wake-up can be lost: in a schedule of one calling thread and the loop, the second of
  two functors is handed over, its caller finds the pilot lamp still on, and the loop has already found the queue empty;
  however long the loop goes on without a further call, whatever other events it handles, the functor is not run. In
  another schedule a request to stop is left unseen with the loop in its poller and nothing to make it return.\<close>

theorem lock_free_wakeup_is_lost:
  "(\<exists>s. tso_run Lock_Free hand_over_two new_tso_system = Some s \<and> handed_over s = [7, 8] \<and>
     (\<forall>as s'. list_all of_loop as \<longrightarrow> tso_run Lock_Free as s = Some s' \<longrightarrow> ran s' = [7] \<and> memory_queue s' = [8])) \<and>
   (\<exists>s. tso_run Lock_Free stop_after_one new_tso_system = Some s \<and> memory_stop s \<and> \<not> stop_seen s \<and> loop_at s = At_Poll \<and>
     counter s = 0 \<and> (\<forall>t. caller_at s t = Idle \<and> caller_buffer s t = []) \<and> loop_buffer s = [])"
proof
  obtain s where s: "tso_run Lock_Free hand_over_two new_tso_system = Some s" "handed_over s = [7, 8]" "ran s = [7]"
    "memory_queue s = [8]" "wakeup_lost s"
    by (simp add: run_tso wakeup_lost_def)
  from s(1,2) wakeup_stays_lost [OF _ _ s(5)] s(3,4)
  show "\<exists>s. tso_run Lock_Free hand_over_two new_tso_system = Some s \<and> handed_over s = [7, 8] \<and>
     (\<forall>as s'. list_all of_loop as \<longrightarrow> tso_run Lock_Free as s = Some s' \<longrightarrow> ran s' = [7] \<and> memory_queue s' = [8])"
    by auto
qed (simp add: run_tso)

text \<open>Three rounds for other events: the poller returns, the functor stays.\<close>

lemma lock_free_wakeup_is_lost_witness:
  "\<exists>s s'. tso_run Lock_Free hand_over_two new_tso_system = Some s \<and>
     tso_run Lock_Free [Other_Event, Check, Other_Event, Check, Other_Event, Check] s = Some s' \<and> memory_queue s' = [8]"
proof -
  let ?as = "[Other_Event, Check, Other_Event, Check, Other_Event, Check] :: nat tso_act list"
  obtain s s' where s: "tso_run Lock_Free hand_over_two new_tso_system = Some s" "tso_run Lock_Free ?as s = Some s'"
    by (simp add: run_tso)
  moreover have "list_all of_loop ?as" by simp
  ultimately have "memory_queue s' = [8]" using lock_free_wakeup_is_lost by (metis option.inject)
  with s show ?thesis by blast
qed

end
