(* ===== verification/Release_Acquire.thy ===== *)
theory Release_Acquire
  imports Functor_Queues
begin

text \<open>
  The lock-free queue (include/util/lock_free_queue.h) under the orderings its accesses name: the producer links a node
  with a release store, the consumer loads the link with acquire, everything else is not atomic. What one thread did is
  known to the other only through such a pair; a load may return the old value of a link that was changed meanwhile, and an
  access to something the other thread did and that is not known is a data race, which is undefined.
\<close>

section \<open>State\<close>

text \<open>
  Events of the producer are numbered. \<open>view\<close> is how many of them the consumer knows to have happened;
  \<open>constructed p\<close> and \<open>linked p\<close> are the numbers of the construction of node \<open>p\<close> and of the store to its
  link, and \<open>released p\<close> is what that store hands on. Everything before the threads start has number 0.
\<close>

datatype memory_order = Relaxed | Acquire | Release

record 'a ra_system =
  sc :: "'a spsc_system"
  events :: nat
  view :: nat
  constructed :: "nat \<Rightarrow> nat"
  linked :: "nat \<Rightarrow> nat"
  released :: "nat \<Rightarrow> nat"

definition new_ra_system :: "'a ra_system" where
  "new_ra_system =
     \<lparr>sc = new_spsc_system, events = 0, view = 0, constructed = (\<lambda>_. 0), linked = (\<lambda>_. 0), released = (\<lambda>_. 0)\<rparr>"

definition known :: "nat \<Rightarrow> 'a ra_system \<Rightarrow> 'b outcome \<Rightarrow> 'b outcome" where
  "known event s r = (if event \<le> view s then r else Inl (Undefined ''data race''))"

definition ra_head :: "'a ra_system \<Rightarrow> nat" where
  "ra_head s = q_head (sys_queue (sc s))"

section \<open>Accesses\<close>

definition ra_begin_push :: "'a \<Rightarrow> 'a ra_system \<Rightarrow> 'a ra_system outcome" where
  "ra_begin_push v s =
     obind (perform (Begin_Push v) (sc s)) (\<lambda>q.
       Inr (s\<lparr>sc := q, events := events s + 1,
              constructed := (constructed s)(fresh (sys_queue (sc s)) := events s + 1)\<rparr>))"

definition ra_publish :: "memory_order \<Rightarrow> 'a ra_system \<Rightarrow> 'a ra_system outcome" where
  "ra_publish store_order s =
     (case producer (sc s) of P_Idle \<Rightarrow> Inr s
      | P_Publish old_tail new_node \<Rightarrow>
          obind (perform Publish (sc s)) (\<lambda>q.
            Inr (s\<lparr>sc := q, events := events s + 1, linked := (linked s)(old_tail := events s + 1),
                   released := (released s)(old_tail := if store_order = Release then events s + 1 else 0)\<rparr>)))"

text \<open>The newest value of the link, with what it hands on; the value before that only while the store is not known.\<close>

definition ra_load :: "memory_order \<Rightarrow> 'a ra_system \<Rightarrow> 'a ra_system outcome" where
  "ra_load load_order s =
     known (constructed s (ra_head s)) s
       (obind (perform Load (sc s)) (\<lambda>q.
          Inr (s\<lparr>sc := q,
                 view := (if consumer q \<noteq> C_Idle \<and> load_order = Acquire then max (view s) (released s (ra_head s))
                          else view s)\<rparr>)))"

definition ra_stale_load :: "'a ra_system \<Rightarrow> 'a ra_system outcome" where
  "ra_stale_load s = known (constructed s (ra_head s)) s (Inr s)"

text \<open>The value of the next node is read and reset; the old head is deleted.\<close>

definition ra_take :: "'a ra_system \<Rightarrow> 'a ra_system outcome" where
  "ra_take s =
     (case consumer (sc s) of
        C_Loaded p \<Rightarrow> known (constructed s p) s (obind (perform Take (sc s)) (\<lambda>q. Inr (s\<lparr>sc := q\<rparr>)))
      | _ \<Rightarrow> Inr s)"

definition ra_free :: "'a ra_system \<Rightarrow> 'a ra_system outcome" where
  "ra_free s =
     known (max (constructed s (ra_head s)) (linked s (ra_head s))) s
       (obind (perform Free (sc s)) (\<lambda>q. Inr (s\<lparr>sc := q\<rparr>)))"

datatype 'a ra_access = Access "'a access" | Stale_Load

fun ra_enabled :: "'a ra_access \<Rightarrow> 'a ra_system \<Rightarrow> bool" where
  "ra_enabled (Access a) s \<longleftrightarrow> enabled a (sc s)"
| "ra_enabled Stale_Load s \<longleftrightarrow> consumer (sc s) = C_Idle \<and> view s < linked s (ra_head s)"

fun ra_perform :: "memory_order \<Rightarrow> memory_order \<Rightarrow> 'a ra_access \<Rightarrow> 'a ra_system \<Rightarrow> 'a ra_system outcome" where
  "ra_perform st ld (Access (Begin_Push v)) s = ra_begin_push v s"
| "ra_perform st ld (Access Publish) s = ra_publish st s"
| "ra_perform st ld (Access Load) s = ra_load ld s"
| "ra_perform st ld (Access Take) s = ra_take s"
| "ra_perform st ld (Access Free) s = ra_free s"
| "ra_perform st ld Stale_Load s = ra_stale_load s"

fun ra_run :: "memory_order \<Rightarrow> memory_order \<Rightarrow> 'a ra_access list \<Rightarrow> 'a ra_system \<Rightarrow> 'a ra_system outcome" where
  "ra_run st ld [] s = Inr s"
| "ra_run st ld (a # as) s =
     (if ra_enabled a s then obind (ra_perform st ld a s) (ra_run st ld as) else ra_run st ld as s)"

section \<open>Nothing unknown is touched\<close>

definition next_of :: "'a ra_system \<Rightarrow> nat \<Rightarrow> nat option" where
  "next_of s p = Option.bind (nodes (sys_queue (sc s)) p) node_next"

definition ra_ok :: "'a ra_system \<Rightarrow> bool" where
  "ra_ok s \<longleftrightarrow>
     (\<forall>a b. next_of s a = Some b \<longrightarrow>
        constructed s b \<le> released s a \<and> linked s a \<le> released s a \<and> b < fresh (sys_queue (sc s))) \<and>
     (\<forall>p. constructed s p \<le> events s) \<and> constructed s (ra_head s) \<le> view s \<and>
     (\<forall>p. consumer (sc s) = C_Loaded p \<or> consumer (sc s) = C_Taken p \<longrightarrow>
        next_of s (ra_head s) = Some p \<and> released s (ra_head s) \<le> view s)"

definition ra_good :: "'a ra_system \<Rightarrow> bool" where
  "ra_good s \<longleftrightarrow> ra_ok s \<and> (\<exists>ps xs flight. system_ok (sc s) ps xs flight)"

lemma known_Inr: "event \<le> view s \<Longrightarrow> known event s r = r"
  by (simp add: known_def)

lemma system_ok_alive: "system_ok s ps xs flight \<Longrightarrow> nodes (sys_queue s) p \<noteq> None \<Longrightarrow> p < fresh (sys_queue s)"
  by (auto simp: system_ok_def linked_ok_def Let_def)

lemma ra_begin_push_good:
  assumes "ra_good s" "enabled (Begin_Push v) (sc s)"
  shows "\<exists>s'. ra_begin_push v s = Inr s' \<and> ra_good s'"
proof -
  obtain ps xs flight where ok: "system_ok (sc s) ps xs flight" and r: "ra_ok s" using assms(1) by (auto simp: ra_good_def)
  obtain q ps' xs' fl' where q: "perform (Begin_Push v) (sc s) = Inr q" "system_ok q ps' xs' fl'"
    using perform_ok [OF ok assms(2)] by blast
  let ?f = "fresh (sys_queue (sc s))"
  let ?s = "s\<lparr>sc := q, events := events s + 1, constructed := (constructed s)(?f := events s + 1)\<rparr>"
  have e: "nodes (sys_queue q) = (nodes (sys_queue (sc s)))(?f \<mapsto> \<lparr>node_next = None, node_value = Some v\<rparr>)"
    "consumer q = consumer (sc s)" "q_head (sys_queue q) = q_head (sys_queue (sc s))" "fresh (sys_queue q) = Suc ?f"
    using q(1) by (auto simp: Let_def)
  have "nodes (sys_queue (sc s)) ?f = None" using system_ok_alive [OF ok, of ?f] by (metis less_irrefl)
  then have n: "next_of ?s = next_of s" by (auto simp: next_of_def e fun_eq_iff)
  have h: "ra_head ?s = ra_head s" by (simp add: ra_head_def e)
  have "ra_head s \<noteq> ?f"
    using system_ok_alive [OF ok, of "ra_head s"] chain_dom [of "nodes (sys_queue (sc s))" "ra_head s # ps" "ra_head s"] ok
    by (auto simp: ra_head_def system_ok_def linked_ok_def Let_def)
  with r have "ra_ok ?s" unfolding ra_ok_def n h by (auto simp: e le_Suc_eq intro: less_SucI)
  with q show ?thesis by (auto simp: ra_begin_push_def ra_good_def)
qed

lemma ra_publish_good:
  assumes "ra_good s" "enabled Publish (sc s)"
  shows "\<exists>s'. ra_publish Release s = Inr s' \<and> ra_good s'"
proof -
  obtain ps xs flight where ok: "system_ok (sc s) ps xs flight" and r: "ra_ok s" using assms(1) by (auto simp: ra_good_def)
  obtain old new where p: "producer (sc s) = P_Publish old new" using assms(2) by (cases "producer (sc s)") auto
  obtain q ps' xs' fl' where q: "perform Publish (sc s) = Inr q" "system_ok q ps' xs' fl'"
    using perform_ok [OF ok assms(2)] by blast
  let ?q = "sys_queue (sc s)" and ?e = "events s + 1"
  let ?s = "s\<lparr>sc := q, events := ?e, linked := (linked s)(old := ?e), released := (released s)(old := ?e)\<rparr>"
  have new: "new < fresh ?q" "old = last (q_head ?q # ps)"
    using ok p system_ok_alive [OF ok, of new] by (auto simp: system_ok_def producer_ok_def Let_def)
  obtain n where n: "nodes ?q old = Some n" "nodes (sys_queue q) = (nodes ?q)(old \<mapsto> n\<lparr>node_next := Some new\<rparr>)"
    "consumer q = consumer (sc s)" "q_head (sys_queue q) = q_head ?q" "fresh (sys_queue q) = fresh ?q"
    using q(1) p by (auto simp: Let_def get_node_def obind_eq_Inr_iff split: option.splits)
  have nx: "next_of ?s = (next_of s)(old := Some new)" by (auto simp: next_of_def n fun_eq_iff)
  have h: "ra_head ?s = ra_head s" by (simp add: ra_head_def n)
  have free: "old \<noteq> ra_head s" if "consumer (sc s) \<noteq> C_Idle"
  proof -
    have "ps \<noteq> []" "distinct (q_head ?q # ps)"
      using ok that by (auto simp: system_defs Let_def split: consumer.splits)
    moreover from this(1) have "last ps \<in> set ps" by simp
    ultimately show ?thesis using new(2) unfolding ra_head_def by (metis distinct.simps(2) last_ConsR)
  qed
  have "ra_ok ?s"
    using r new(1) free unfolding ra_ok_def nx h by (auto simp: n le_Suc_eq)
  with q p show ?thesis by (auto simp: ra_publish_def ra_good_def)
qed

lemma ra_load_good:
  assumes "ra_good s" "enabled Load (sc s)"
  shows "\<exists>s'. ra_load Acquire s = Inr s' \<and> ra_good s'"
proof -
  obtain ps xs flight where ok: "system_ok (sc s) ps xs flight" and r: "ra_ok s" using assms(1) by (auto simp: ra_good_def)
  obtain q ps' xs' fl' where q: "perform Load (sc s) = Inr q" "system_ok q ps' xs' fl'"
    using perform_ok [OF ok assms(2)] by blast
  let ?s = "s\<lparr>sc := q, view := (if consumer q \<noteq> C_Idle \<and> Acquire = Acquire then max (view s) (released s (ra_head s)) else view s)\<rparr>"
  have e: "sys_queue q = sys_queue (sc s)" "consumer q = C_Idle \<or> (\<exists>p. consumer q = C_Loaded p \<and> next_of s (ra_head s) = Some p)"
    using q(1) assms(2) by (auto simp: get_node_def obind_eq_Inr_iff next_of_def ra_head_def split: option.splits)
  have n: "next_of ?s = next_of s" "ra_head ?s = ra_head s" by (simp_all add: next_of_def ra_head_def e fun_eq_iff)
  have "ra_ok ?s" using r e(2) unfolding ra_ok_def n by (auto simp: e(1))
  moreover have "constructed s (ra_head s) \<le> view s" using r by (simp add: ra_ok_def)
  ultimately show ?thesis using q by (auto simp: ra_load_def ra_good_def known_Inr)
qed

lemma ra_take_good:
  assumes "ra_good s" "enabled Take (sc s)"
  shows "\<exists>s'. ra_take s = Inr s' \<and> ra_good s'"
proof -
  obtain ps xs flight where ok: "system_ok (sc s) ps xs flight" and r: "ra_ok s" using assms(1) by (auto simp: ra_good_def)
  obtain p where p: "consumer (sc s) = C_Loaded p" using assms(2) by auto
  obtain q ps' xs' fl' where q: "perform Take (sc s) = Inr q" "system_ok q ps' xs' fl'"
    using perform_ok [OF ok assms(2)] by blast
  let ?s = "s\<lparr>sc := q\<rparr>"
  obtain n where e: "nodes (sys_queue (sc s)) p = Some n"
    "nodes (sys_queue q) = (nodes (sys_queue (sc s)))(p \<mapsto> n\<lparr>node_value := None\<rparr>)"
    "consumer q = C_Taken p" "q_head (sys_queue q) = q_head (sys_queue (sc s))" "fresh (sys_queue q) = fresh (sys_queue (sc s))"
    using q(1) p by (auto simp: Let_def get_node_def obind_eq_Inr_iff split: option.splits)
  have n: "next_of ?s = next_of s" "ra_head ?s = ra_head s" by (auto simp: next_of_def ra_head_def e fun_eq_iff)
  have "ra_ok ?s" using r p unfolding ra_ok_def n by (auto simp: e)
  moreover have "next_of s (ra_head s) = Some p" "released s (ra_head s) \<le> view s" using r p by (auto simp: ra_ok_def)
  then have "constructed s p \<le> view s" using r unfolding ra_ok_def by (meson le_trans)
  ultimately show ?thesis using q p by (auto simp: ra_take_def ra_good_def known_Inr)
qed

lemma ra_free_good:
  assumes "ra_good s" "enabled Free (sc s)"
  shows "\<exists>s'. ra_free s = Inr s' \<and> ra_good s'"
proof -
  obtain ps xs flight where ok: "system_ok (sc s) ps xs flight" and r: "ra_ok s" using assms(1) by (auto simp: ra_good_def)
  obtain p where p: "consumer (sc s) = C_Taken p" using assms(2) by auto
  obtain q ps' xs' fl' where q: "perform Free (sc s) = Inr q" "system_ok q ps' xs' fl'"
    using perform_ok [OF ok assms(2)] by blast
  let ?s = "s\<lparr>sc := q\<rparr>"
  have e: "nodes (sys_queue q) = (nodes (sys_queue (sc s)))(ra_head s := None)"
    "consumer q = C_Idle" "q_head (sys_queue q) = p" "fresh (sys_queue q) = fresh (sys_queue (sc s))"
    using q(1) p by (auto simp: Let_def get_node_def obind_eq_Inr_iff ra_head_def split: option.splits)
  have n: "next_of ?s = (next_of s)(ra_head s := None)" "ra_head ?s = p" by (auto simp: next_of_def ra_head_def e fun_eq_iff)
  have l: "next_of s (ra_head s) = Some p" "released s (ra_head s) \<le> view s" using r p by (auto simp: ra_ok_def)
  then have c: "constructed s p \<le> view s" "linked s (ra_head s) \<le> view s" "constructed s (ra_head s) \<le> view s"
    using r unfolding ra_ok_def by (meson le_trans)+
  then have "ra_ok ?s" using r unfolding ra_ok_def n by (auto simp: e)
  then show ?thesis using q p c by (auto simp: ra_free_def ra_good_def known_Inr)
qed

lemma ra_perform_good:
  assumes "ra_good s" "ra_enabled a s"
  shows "\<exists>s'. ra_perform Release Acquire a s = Inr s' \<and> ra_good s'"
proof (cases a)
  case (Access b)
  with assms ra_begin_push_good ra_publish_good ra_load_good ra_take_good ra_free_good show ?thesis
    by (cases b) (auto simp del: enabled.simps perform.simps)
next
  case Stale_Load
  moreover have "constructed s (ra_head s) \<le> view s" using assms(1) by (simp add: ra_good_def ra_ok_def)
  ultimately show ?thesis using assms(1) by (simp add: ra_stale_load_def known_Inr)
qed

lemma ra_run_good: "ra_good s \<Longrightarrow> \<exists>s'. ra_run Release Acquire as s = Inr s' \<and> ra_good s'"
proof (induction as arbitrary: s)
  case (Cons a as)
  show ?case
  proof (cases "ra_enabled a s")
    case True
    then obtain u where "ra_perform Release Acquire a s = Inr u" "ra_good u" using ra_perform_good [OF Cons.prems] by blast
    with Cons.IH [of u] True show ?thesis by simp
  qed (use Cons in simp)
qed simp

lemma ra_good_new: "ra_good new_ra_system"
proof -
  have "ra_ok new_ra_system"
    by (auto simp: ra_ok_def new_ra_system_def next_of_def new_spsc_system_def new_spsc_def split: if_splits)
  with system_ok_new show ?thesis by (auto simp: ra_good_def new_ra_system_def)
qed

section \<open>The queue\<close>

text \<open>C10: With the orderings the code names, the lock-free queue has no data race and no access to a deleted node under
  any interleaving and whatever old values the consumer's loads return, and what has been popped is what was pushed, in
  order, up to a rest.\<close>

theorem spsc_release_acquire:
  "\<exists>s pending. ra_run Release Acquire as new_ra_system = Inr s \<and>
     map Some (pushed_values (sc s)) = popped_values (sc s) @ map Some pending"
proof -
  obtain s where s: "ra_run Release Acquire as new_ra_system = Inr s" "ra_good s" using ra_run_good [OF ra_good_new] by blast
  then obtain ps xs flight where "system_ok (sc s) ps xs flight" by (auto simp: ra_good_def)
  then have "map Some (pushed_values (sc s)) = popped_values (sc s) @ map Some (xs @ flight)" by (simp add: system_ok_def)
  with s(1) show ?thesis by blast
qed

text \<open>Both orderings are needed: without either, the consumer reads a value it need not see yet.\<close>

definition push_and_pop :: "nat ra_access list" where
  "push_and_pop = [Access (Begin_Push 7), Access Publish, Access Load, Access Take, Access Free]"

lemma relaxed_store_races: "ra_run Relaxed Acquire push_and_pop new_ra_system = Inl (Undefined ''data race'')"
  by (simp add: push_and_pop_def new_ra_system_def new_spsc_system_def new_spsc_def ra_begin_push_def ra_publish_def
      ra_load_def ra_take_def known_def ra_head_def get_node_def)

lemma relaxed_load_races: "ra_run Release Relaxed push_and_pop new_ra_system = Inl (Undefined ''data race'')"
  by (simp add: push_and_pop_def new_ra_system_def new_spsc_system_def new_spsc_def ra_begin_push_def ra_publish_def
      ra_load_def ra_take_def known_def ra_head_def get_node_def)

end
