(* ===== verification/Log_File.thy ===== *)
theory Log_File
  imports Log_Format
begin

text \<open>
  \<^verbatim>\<open>AppendOnlyPhysicalFile\<close> (src/util/physical_file.cc) and \<^verbatim>\<open>LogFile\<close> (include/log_file.h, src/log_file.cc), the
  stream of log files that rotates by size and by day. Opening a file is retried until it succeeds and is
  modelled by its success.
\<close>

section \<open>Physical files\<close>

text \<open>
  What the system answers: the clock and the date at the \<open>i\<close>-th reading, and how many of \<open>n\<close> bytes the
  \<open>i\<close>-th \<^verbatim>\<open>fwrite\<close> takes.
\<close>

record os_answers =
  time_at :: "nat \<Rightarrow> int"
  datetime_at :: "nat \<Rightarrow> string"
  accepts :: "nat \<Rightarrow> nat \<Rightarrow> nat"

text \<open>\<open>flushed_bytes\<close> of the bytes have certainly left the buffer of the process.\<close>

record physical_file =
  file_name :: string
  file_bytes :: string
  flushed_bytes :: nat
  total_number_of_bytes_written :: nat

definition open_physical_file :: "string \<Rightarrow> physical_file" where
  "open_physical_file name = \<lparr>file_name = name, file_bytes = [], flushed_bytes = 0, total_number_of_bytes_written = 0\<rparr>"

definition physical_write :: "nat \<Rightarrow> string \<Rightarrow> physical_file \<Rightarrow> physical_file" where
  "physical_write current_number_of_bytes_written data f =
     f\<lparr>file_bytes := file_bytes f @ take current_number_of_bytes_written data,
       total_number_of_bytes_written := total_number_of_bytes_written f + current_number_of_bytes_written\<rparr>"

definition physical_flush :: "physical_file \<Rightarrow> physical_file" where
  "physical_flush f = f\<lparr>flushed_bytes := length (file_bytes f)\<rparr>"

definition physical_close :: "physical_file \<Rightarrow> physical_file" where
  "physical_close f = physical_flush f"

section \<open>Log files\<close>

definition PHYSICAL_FILE_SIZE_THRESHOLD :: nat where
  "PHYSICAL_FILE_SIZE_THRESHOLD = 500 * 1000 * 1000"

definition FLUSH_INTERVAL_IN_SECONDS :: int where
  "FLUSH_INTERVAL_IN_SECONDS = 3"

definition SWITCH_INTERVAL_IN_SECONDS :: int where
  "SWITCH_INTERVAL_IN_SECONDS = 24 * 60 * 60"

definition MAJOR_CHECK_FREQUENCY :: int where
  "MAJOR_CHECK_FREQUENCY = 1000"

text \<open>\<open>old_files\<close> are the files that have been closed, and the last two fields count the questions to the system.\<close>

record log_file =
  log_base_name :: string
  physical_file_ptr :: physical_file
  time_of_last_major_check :: int
  number_of_normal_checks :: int
  old_files :: "physical_file list"
  clock_readings :: nat
  fwrite_calls :: nat

definition get_name_for_a_new_underlying_physical_file :: "string \<Rightarrow> string \<Rightarrow> string" where
  "get_name_for_a_new_underlying_physical_file base datetime_string = base @ ''.'' @ datetime_string @ ''.log''"

definition switch_to_a_new_underlying_physical_file :: "os_answers \<Rightarrow> log_file \<Rightarrow> log_file" where
  "switch_to_a_new_underlying_physical_file os f =
     f\<lparr>physical_file_ptr := open_physical_file
          (get_name_for_a_new_underlying_physical_file (log_base_name f) (datetime_at os (clock_readings f))),
       old_files := old_files f @ [physical_close (physical_file_ptr f)],
       clock_readings := clock_readings f + 1\<rparr>"

text \<open>The constructor opens the first file.\<close>

definition new_log_file :: "os_answers \<Rightarrow> string \<Rightarrow> log_file outcome" where
  "new_log_file os base =
     (if CHR ''/'' \<in> set base then Inl (Uncaught ''File name contains slash which is unsafe'')
      else Inr \<lparr>log_base_name = base,
        physical_file_ptr = open_physical_file (get_name_for_a_new_underlying_physical_file base (datetime_at os 0)),
        time_of_last_major_check = 0, number_of_normal_checks = 0, old_files = [], clock_readings = 1, fwrite_calls = 0\<rparr>)"

definition flush_to_disk :: "log_file \<Rightarrow> log_file" where
  "flush_to_disk f = f\<lparr>physical_file_ptr := physical_flush (physical_file_ptr f)\<rparr>"

definition is_in_a_new_switch_interval :: "int \<Rightarrow> log_file \<Rightarrow> bool" where
  "is_in_a_new_switch_interval t f \<longleftrightarrow>
     t sdiv SWITCH_INTERVAL_IN_SECONDS \<noteq> time_of_last_major_check f sdiv SWITCH_INTERVAL_IN_SECONDS"

definition read_clock :: "os_answers \<Rightarrow> log_file \<Rightarrow> int \<times> log_file" where
  "read_clock os f = (time_at os (clock_readings f), f\<lparr>clock_readings := clock_readings f + 1\<rparr>)"

definition do_formal_check :: "os_answers \<Rightarrow> log_file \<Rightarrow> log_file" where
  "do_formal_check os f =
     (case read_clock os f of (now, f1) \<Rightarrow>
        if is_in_a_new_switch_interval now f1 then
          (case read_clock os (switch_to_a_new_underlying_physical_file os f1) of
             (now', f2) \<Rightarrow> f2\<lparr>time_of_last_major_check := now'\<rparr>)
        else if now - time_of_last_major_check f1 > FLUSH_INTERVAL_IN_SECONDS then
          (case read_clock os (flush_to_disk f1) of (now', f2) \<Rightarrow> f2\<lparr>time_of_last_major_check := now'\<rparr>)
        else f1\<lparr>time_of_last_major_check := now\<rparr>)"

definition do_quick_check :: "os_answers \<Rightarrow> log_file \<Rightarrow> log_file" where
  "do_quick_check os f =
     (let f1 = f\<lparr>number_of_normal_checks := number_of_normal_checks f + 1\<rparr> in
      if total_number_of_bytes_written (physical_file_ptr f1) > PHYSICAL_FILE_SIZE_THRESHOLD then
        (switch_to_a_new_underlying_physical_file os f1)\<lparr>number_of_normal_checks := 0\<rparr>
      else if number_of_normal_checks f1 \<le> MAJOR_CHECK_FREQUENCY then f1
      else (do_formal_check os f1)\<lparr>number_of_normal_checks := 0\<rparr>)"

definition log_write :: "os_answers \<Rightarrow> string \<Rightarrow> log_file \<Rightarrow> log_file" where
  "log_write os data f =
     do_quick_check os (f\<lparr>physical_file_ptr :=
         physical_write (accepts os (fwrite_calls f) (length data)) data (physical_file_ptr f),
       fwrite_calls := fwrite_calls f + 1\<rparr>)"

section \<open>Contents and sizes\<close>

text \<open>All bytes of all files, in order.\<close>

definition all_bytes :: "log_file \<Rightarrow> string" where
  "all_bytes f = concat (map file_bytes (old_files f)) @ file_bytes (physical_file_ptr f)"

lemma all_bytes_switch [simp]: "all_bytes (switch_to_a_new_underlying_physical_file os f) = all_bytes f"
  by (simp add: all_bytes_def switch_to_a_new_underlying_physical_file_def open_physical_file_def physical_close_def
      physical_flush_def)

lemma all_bytes_flush [simp]: "all_bytes (flush_to_disk f) = all_bytes f"
  by (simp add: all_bytes_def flush_to_disk_def physical_flush_def)

lemma all_bytes_more [simp]:
  "all_bytes (f\<lparr>time_of_last_major_check := t\<rparr>) = all_bytes f" "all_bytes (f\<lparr>number_of_normal_checks := k\<rparr>) = all_bytes f"
  "all_bytes (f\<lparr>clock_readings := n\<rparr>) = all_bytes f"
  by (simp_all add: all_bytes_def)

lemma all_bytes_checks [simp]: "all_bytes (do_formal_check os f) = all_bytes f" "all_bytes (do_quick_check os f) = all_bytes f"
proof -
  show *: "all_bytes (do_formal_check os f) = all_bytes f" for f by (simp add: do_formal_check_def read_clock_def)
  show "all_bytes (do_quick_check os f) = all_bytes f" by (simp add: do_quick_check_def Let_def *)
qed

lemma all_bytes_write:
  "all_bytes (log_write os data f) = all_bytes f @ take (accepts os (fwrite_calls f) (length data)) data"
  by (simp add: log_write_def) (simp add: all_bytes_def physical_write_def)

text \<open>A sink of log data: what is written arrives, in order; flushing changes nothing of it.\<close>

locale log_sink =
  fixes put :: "string \<Rightarrow> 'f \<Rightarrow> 'f" and flush :: "'f \<Rightarrow> 'f" and bytes :: "'f \<Rightarrow> string"
  assumes bytes_write [simp]: "bytes (put d f) = bytes f @ d"
    and bytes_flush [simp]: "bytes (flush f) = bytes f"

text \<open>A system on which \<^verbatim>\<open>fwrite\<close> takes all it is given.\<close>

definition complete :: "os_answers \<Rightarrow> os_answers" where
  "complete os = os\<lparr>accepts := (\<lambda>_ n. n)\<rparr>"

interpretation files: log_sink "log_write (complete os)" flush_to_disk all_bytes for os
  by unfold_locales (simp_all add: all_bytes_write complete_def)

text \<open>Sizes: the present file is within the threshold, and a closed one exceeds it by at most one write.\<close>

definition sizes_ok :: "nat \<Rightarrow> log_file \<Rightarrow> bool" where
  "sizes_ok m f \<longleftrightarrow>
     total_number_of_bytes_written (physical_file_ptr f) \<le> PHYSICAL_FILE_SIZE_THRESHOLD \<and>
     length (file_bytes (physical_file_ptr f)) \<le> total_number_of_bytes_written (physical_file_ptr f) \<and>
     (\<forall>p \<in> set (old_files f). length (file_bytes p) \<le> PHYSICAL_FILE_SIZE_THRESHOLD + m)"

lemma sizes_ok_switch:
  assumes "\<forall>p \<in> set (old_files f). length (file_bytes p) \<le> PHYSICAL_FILE_SIZE_THRESHOLD + m"
    and "length (file_bytes (physical_file_ptr f)) \<le> PHYSICAL_FILE_SIZE_THRESHOLD + m"
  shows "sizes_ok m (switch_to_a_new_underlying_physical_file os f)"
  using assms by (simp add: sizes_ok_def switch_to_a_new_underlying_physical_file_def open_physical_file_def
      physical_close_def physical_flush_def)

lemma sizes_ok_more [simp]:
  "sizes_ok m (f\<lparr>time_of_last_major_check := t\<rparr>) = sizes_ok m f" "sizes_ok m (f\<lparr>number_of_normal_checks := k\<rparr>) = sizes_ok m f"
  "sizes_ok m (f\<lparr>clock_readings := n\<rparr>) = sizes_ok m f"
  by (simp_all add: sizes_ok_def)

lemma sizes_ok_flush [simp]: "sizes_ok m (flush_to_disk f) = sizes_ok m f"
  by (simp add: sizes_ok_def flush_to_disk_def physical_flush_def)

lemma sizes_ok_formal_check:
  assumes "sizes_ok m f"
  shows "sizes_ok m (do_formal_check os f)"
proof -
  have "sizes_ok m (switch_to_a_new_underlying_physical_file os (f\<lparr>clock_readings := n\<rparr>))" for n
    using assms by (intro sizes_ok_switch) (auto simp: sizes_ok_def)
  with assms show ?thesis by (simp add: do_formal_check_def read_clock_def)
qed

lemma sizes_ok_write:
  assumes "sizes_ok m f" "accepts os (fwrite_calls f) (length data) \<le> m"
  shows "sizes_ok m (log_write os data f)"
proof -
  let ?n = "accepts os (fwrite_calls f) (length data)"
  define g where "g = f\<lparr>physical_file_ptr := physical_write ?n data (physical_file_ptr f), fwrite_calls := fwrite_calls f + 1,
      number_of_normal_checks := number_of_normal_checks f + 1\<rparr>"
  have old: "\<forall>p \<in> set (old_files g). length (file_bytes p) \<le> PHYSICAL_FILE_SIZE_THRESHOLD + m"
      and now: "length (file_bytes (physical_file_ptr g)) \<le> total_number_of_bytes_written (physical_file_ptr g)"
      "total_number_of_bytes_written (physical_file_ptr g) \<le> PHYSICAL_FILE_SIZE_THRESHOLD + m"
    using assms by (auto simp: sizes_ok_def g_def physical_write_def)
  have "log_write os data f = (if total_number_of_bytes_written (physical_file_ptr g) > PHYSICAL_FILE_SIZE_THRESHOLD
      then (switch_to_a_new_underlying_physical_file os g)\<lparr>number_of_normal_checks := 0\<rparr>
      else if number_of_normal_checks g \<le> MAJOR_CHECK_FREQUENCY then g
      else (do_formal_check os g)\<lparr>number_of_normal_checks := 0\<rparr>)"
    by (simp add: log_write_def do_quick_check_def g_def Let_def)
  moreover have "sizes_ok m (switch_to_a_new_underlying_physical_file os g)"
    using old now by (intro sizes_ok_switch) auto
  moreover have "sizes_ok m g" if "\<not> total_number_of_bytes_written (physical_file_ptr g) > PHYSICAL_FILE_SIZE_THRESHOLD"
    using that old now by (simp add: sizes_ok_def)
  ultimately show ?thesis using sizes_ok_formal_check by auto
qed



text \<open>
  The time of the last check starts at 0, so that the first check of a process, whenever it was started,
  finds a new day and switches to another file.
\<close>

lemma first_check_switches:
  assumes "time_of_last_major_check f = 0" "time_at os (clock_readings f) \<ge> 24 * 60 * 60"
  shows "length (old_files (do_formal_check os f)) = Suc (length (old_files f))"
proof -
  have "is_in_a_new_switch_interval (time_at os (clock_readings f)) (f\<lparr>clock_readings := clock_readings f + 1\<rparr>)"
    using assms by (simp add: is_in_a_new_switch_interval_def SWITCH_INTERVAL_IN_SECONDS_def signed_divide_int_def pos_imp_zdiv_pos_iff)
  then show ?thesis by (simp add: do_formal_check_def read_clock_def switch_to_a_new_underlying_physical_file_def)
qed

end
