(* ===== verification/Log_Collector.thy ===== *)
theory Log_Collector
  imports Log_Builder Log_File "HOL-Library.Sublist"
begin

text \<open>
  \<^verbatim>\<open>LogCollector\<close> (include/log_collector.h, src/log_collector.cc): producers append entries to the current chunk
  buffer under a mutex, and a background thread takes the filled buffers over, again under the mutex, and
  writes them to a sink outside of it. Owning pointers may be null; the sink is an argument.
\<close>

section \<open>State and operations\<close>

datatype worker_phase = Collecting | Writing | Finished

text \<open>\<open>worker_spares\<close> and \<open>to_be_written\<close> are the local variables of the background thread.\<close>

record 'f collector =
  need_output_directly_to_terminal :: bool
  stderr_bytes :: string
  current_chunk_buffer_ptr :: "log_buffer option"
  spare_chunk_buffer_ptr :: "log_buffer option"
  fulled_chunk_buffers :: "log_buffer option list"
  need_flush :: bool
  need_stop :: bool
  worker_spares :: "log_buffer option \<times> log_buffer option"
  to_be_written :: "log_buffer option list"
  worker_phase :: worker_phase
  sink :: 'f

definition new_chunk :: log_buffer where
  "new_chunk = new_log_buffer LOG_CHUNK_BUFFER_SIZE"

definition new_collector :: "bool \<Rightarrow> 'f \<Rightarrow> 'f collector" where
  "new_collector terminal f =
     \<lparr>need_output_directly_to_terminal = terminal, stderr_bytes = [], current_chunk_buffer_ptr = Some new_chunk,
      spare_chunk_buffer_ptr = Some new_chunk, fulled_chunk_buffers = [], need_flush = False, need_stop = False,
      worker_spares = (Some new_chunk, Some new_chunk), to_be_written = [],
      worker_phase = (if terminal then Finished else Collecting), sink = f\<rparr>"

definition deref_chunk :: "'a option \<Rightarrow> ('a \<Rightarrow> 'b outcome) \<Rightarrow> 'b outcome" where
  "deref_chunk p k = (case p of None \<Rightarrow> Inl (Undefined ''null pointer'') | Some x \<Rightarrow> k x)"

definition set_base_name :: "string \<Rightarrow> string \<Rightarrow> string" where
  "set_base_name path old = (if path = [] then old else get_base_name_of_path path)"

definition request_flush :: "'f collector \<Rightarrow> 'f collector" where
  "request_flush s = s\<lparr>need_flush := True\<rparr>"

definition take_this_log :: "string \<Rightarrow> 'f collector \<Rightarrow> 'f collector outcome" where
  "take_this_log entry s =
     (if need_output_directly_to_terminal s then Inr (s\<lparr>stderr_bytes := stderr_bytes s @ entry\<rparr>)
      else deref_chunk (current_chunk_buffer_ptr s) (\<lambda>b.
        if length entry < length_of_spare b then Inr (s\<lparr>current_chunk_buffer_ptr := Some (buf_append entry b)\<rparr>)
        else
          let current = (case spare_chunk_buffer_ptr s of None \<Rightarrow> new_chunk | Some c \<Rightarrow> c) in
          Inr (s\<lparr>fulled_chunk_buffers := fulled_chunk_buffers s @ [Some b], spare_chunk_buffer_ptr := None,
                 current_chunk_buffer_ptr := Some (buf_append entry current)\<rparr>)))"

text \<open>The part of a round that is done under the mutex, once there is something to be written.\<close>

definition hand_over :: "'f collector \<Rightarrow> 'f collector outcome" where
  "hand_over s =
     (let s1 = s\<lparr>to_be_written := fulled_chunk_buffers s @ [current_chunk_buffer_ptr s],
                 fulled_chunk_buffers := to_be_written s,
                 current_chunk_buffer_ptr := fst (worker_spares s)\<rparr> in
      if spare_chunk_buffer_ptr s1 \<noteq> None then Inl (Uncaught ''never reaches here'')
      else Inr (s1\<lparr>spare_chunk_buffer_ptr := snd (worker_spares s), worker_spares := (None, None), worker_phase := Writing\<rparr>))"

text \<open>The locked part as a whole, after the wait for filled buffers.\<close>

definition worker_collect ::
  "(string \<Rightarrow> 'f \<Rightarrow> 'f) \<Rightarrow> ('f \<Rightarrow> 'f) \<Rightarrow> 'f collector \<Rightarrow> 'f collector outcome" where
  "worker_collect put flush s =
     (if fulled_chunk_buffers s = [] then
        if need_stop s then
          deref_chunk (current_chunk_buffer_ptr s) (\<lambda>b.
            let f = (if buf_length b \<noteq> 0 then put (buf_bytes b) (sink s) else sink s) in
            Inr (s\<lparr>sink := flush f, worker_phase := Finished\<rparr>))
        else if \<not> need_flush s then Inr s
        else
          deref_chunk (spare_chunk_buffer_ptr s) (\<lambda>c.
            hand_over (s\<lparr>need_flush := False, fulled_chunk_buffers := [Some (buf_append (''flush'' @ [LF]) c)],
                         spare_chunk_buffer_ptr := None\<rparr>))
      else hand_over s)"

definition DROP_THRESHOLD :: nat where
  "DROP_THRESHOLD = 16"

definition dropped_message :: "nat \<Rightarrow> string \<Rightarrow> string" where
  "dropped_message n date = ''Dropped '' @ decimal n @ '' chunk buffers at '' @ date @ [LF]"

fun write_chunks :: "(string \<Rightarrow> 'f \<Rightarrow> 'f) \<Rightarrow> log_buffer option list \<Rightarrow> 'f \<Rightarrow> 'f outcome" where
  "write_chunks put [] f = Inr f"
| "write_chunks put (p # ps) f = deref_chunk p (\<lambda>b. write_chunks put ps (put (buf_bytes b) f))"

definition resize :: "nat \<Rightarrow> 'a option list \<Rightarrow> 'a option list" where
  "resize n ps = take n ps @ replicate (n - length ps) None"

text \<open>The part outside the mutex; it returns how many buffers it drops.\<close>

definition worker_write ::
  "(string \<Rightarrow> 'f \<Rightarrow> 'f) \<Rightarrow> ('f \<Rightarrow> 'f) \<Rightarrow> string \<Rightarrow> 'f collector \<Rightarrow> (nat \<times> 'f collector) outcome" where
  "worker_write put flush date s =
     (let number_of_dropped_buffers = length (to_be_written s) - DROP_THRESHOLD;
          f0 = (if length (to_be_written s) > DROP_THRESHOLD
                then put (dropped_message number_of_dropped_buffers date) (sink s) else sink s);
          ps = (if length (to_be_written s) > DROP_THRESHOLD then resize DROP_THRESHOLD (to_be_written s) else to_be_written s)
      in obind (write_chunks put ps f0) (\<lambda>f1.
        let qs = resize 2 ps in
        if fst (worker_spares s) \<noteq> None \<or> snd (worker_spares s) \<noteq> None then Inl (Uncaught ''never reaches here'')
        else
          deref_chunk (qs ! 0) (\<lambda>b0. deref_chunk (qs ! 1) (\<lambda>b1.
            Inr (number_of_dropped_buffers,
                 s\<lparr>worker_spares := (Some (buf_reset b0), Some (buf_reset b1)), to_be_written := [],
                   sink := flush f1, worker_phase := Collecting\<rparr>)))))"

text \<open>Stopping: the first caller waits for the background thread, later ones return at once.\<close>

definition stop_collector :: "'f collector \<Rightarrow> bool \<times> 'f collector" where
  "stop_collector s = (if need_stop s then (False, s) else (True, s\<lparr>need_stop := True\<rparr>))"

text \<open>
  Schedules of producers and the background thread. Beside the state, the bytes that were taken before
  the background thread finished and the number of dropped buffers are recorded.
\<close>

datatype log_cmd = Take_Log string | Request_Flush | Stop | Collect | Write_Out string

definition log_exec ::
  "(string \<Rightarrow> 'f \<Rightarrow> 'f) \<Rightarrow> ('f \<Rightarrow> 'f) \<Rightarrow> log_cmd \<Rightarrow> 'f collector \<times> string \<times> nat \<Rightarrow> ('f collector \<times> string \<times> nat) outcome" where
  "log_exec put flush c = (\<lambda>(s, taken, dropped).
     case c of
       Take_Log e \<Rightarrow>
         obind (take_this_log e s) (\<lambda>s'. Inr (s', if worker_phase s = Finished then taken else taken @ e, dropped))
     | Request_Flush \<Rightarrow> Inr (request_flush s, taken, dropped)
     | Stop \<Rightarrow> Inr (snd (stop_collector s), taken, dropped)
     | Collect \<Rightarrow>
         if worker_phase s = Collecting then obind (worker_collect put flush s) (\<lambda>s'. Inr (s', taken, dropped))
         else Inr (s, taken, dropped)
     | Write_Out date \<Rightarrow>
         if worker_phase s = Writing then obind (worker_write put flush date s) (\<lambda>(d, s'). Inr (s', taken, dropped + d))
         else Inr (s, taken, dropped))"

fun log_run ::
  "(string \<Rightarrow> 'f \<Rightarrow> 'f) \<Rightarrow> ('f \<Rightarrow> 'f) \<Rightarrow> log_cmd list \<Rightarrow> 'f collector \<times> string \<times> nat \<Rightarrow> ('f collector \<times> string \<times> nat) outcome" where
  "log_run put flush [] x = Inr x"
| "log_run put flush (c # cs) x = obind (log_exec put flush c x) (log_run put flush cs)"

section \<open>Invariant\<close>

definition chunk_ok :: "log_buffer option \<Rightarrow> bool" where
  "chunk_ok p \<longleftrightarrow> (\<exists>b. p = Some b \<and> buf_ok LOG_CHUNK_BUFFER_SIZE b)"

definition fresh_chunk :: "log_buffer option \<Rightarrow> bool" where
  "fresh_chunk p \<longleftrightarrow> p = Some new_chunk"

fun worker_ok :: "worker_phase \<Rightarrow> log_buffer option \<times> log_buffer option \<Rightarrow> log_buffer option list \<Rightarrow> bool" where
  "worker_ok Collecting spares ps \<longleftrightarrow> fresh_chunk (fst spares) \<and> fresh_chunk (snd spares) \<and> ps = []"
| "worker_ok Writing spares ps \<longleftrightarrow> spares = (None, None) \<and> 2 \<le> length ps \<and> list_all chunk_ok ps"
| "worker_ok Finished spares ps \<longleftrightarrow> True"

definition collector_ok :: "'f collector \<Rightarrow> bool" where
  "collector_ok s \<longleftrightarrow>
     \<not> need_output_directly_to_terminal s \<and> chunk_ok (current_chunk_buffer_ptr s) \<and>
     list_all chunk_ok (fulled_chunk_buffers s) \<and>
     (if fulled_chunk_buffers s = [] then fresh_chunk (spare_chunk_buffer_ptr s) else spare_chunk_buffer_ptr s = None) \<and>
     worker_ok (worker_phase s) (worker_spares s) (to_be_written s)"

definition chunk_bytes :: "log_buffer option \<Rightarrow> string" where
  "chunk_bytes p = (case p of None \<Rightarrow> [] | Some b \<Rightarrow> buf_bytes b)"

text \<open>What is still on its way to the sink, in order.\<close>

definition log_pending :: "'f collector \<Rightarrow> string" where
  "log_pending s =
     (if worker_phase s = Finished then []
      else concat (map chunk_bytes (to_be_written s @ fulled_chunk_buffers s @ [current_chunk_buffer_ptr s])))"

lemma new_chunk_ok [simp]: "buf_ok LOG_CHUNK_BUFFER_SIZE new_chunk" "buf_bytes new_chunk = []" "chunk_ok (Some new_chunk)"
    "fresh_chunk (Some new_chunk)"
  by (simp_all add: new_chunk_def chunk_ok_def fresh_chunk_def LOG_CHUNK_BUFFER_SIZE_def new_log_buffer_def buf_ok_def)

lemma collector_ok_new: "collector_ok (new_collector False f)"
  by (simp add: collector_ok_def new_collector_def)

lemma flags [simp]:
  "collector_ok (s\<lparr>need_flush := x\<rparr>) = collector_ok s" "collector_ok (s\<lparr>need_stop := x\<rparr>) = collector_ok s"
  "log_pending (s\<lparr>need_flush := x\<rparr>) = log_pending s" "log_pending (s\<lparr>need_stop := x\<rparr>) = log_pending s"
  by (simp_all add: collector_ok_def log_pending_def)

lemma reset_fresh: "buf_ok LOG_CHUNK_BUFFER_SIZE b \<Longrightarrow> buf_reset b = new_chunk"
  by (cases b) (simp add: buf_reset_def new_chunk_def new_log_buffer_def buf_ok_def)

lemma append_new_chunk: "length e < 4000 \<Longrightarrow> buf_bytes (buf_append e new_chunk) = e"
  using spare_ok [OF new_chunk_ok(1)] by (simp add: buf_append_def LOG_CHUNK_BUFFER_SIZE_def)

lemma append_spare: "length e < length_of_spare b \<Longrightarrow> buf_bytes (buf_append e b) = buf_bytes b @ e"
  by (simp add: buf_append_def)

lemma take_this_log_ok:
  assumes "collector_ok s" "length e < 4000"
  shows "\<exists>s'. take_this_log e s = Inr s' \<and> collector_ok s' \<and> sink s' = sink s \<and> worker_phase s' = worker_phase s \<and>
    log_pending s' = (if worker_phase s = Finished then [] else log_pending s @ e)"
proof -
  obtain b where b: "current_chunk_buffer_ptr s = Some b" "buf_ok LOG_CHUNK_BUFFER_SIZE b"
    using assms(1) by (auto simp: collector_ok_def chunk_ok_def)
  let ?c = "case spare_chunk_buffer_ptr s of None \<Rightarrow> new_chunk | Some c \<Rightarrow> c"
  have c: "?c = new_chunk" using assms(1) by (auto simp: collector_ok_def fresh_chunk_def split: if_splits)
  show ?thesis
  proof (cases "length e < length_of_spare b")
    case True
    let ?s = "s\<lparr>current_chunk_buffer_ptr := Some (buf_append e b)\<rparr>"
    have "collector_ok ?s" using assms(1) b by (simp add: collector_ok_def chunk_ok_def)
    moreover have "take_this_log e s = Inr ?s"
      using assms(1) b True by (simp add: take_this_log_def deref_chunk_def collector_ok_def)
    ultimately show ?thesis using append_spare [OF True] b by (simp add: log_pending_def chunk_bytes_def)
  next
    case False
    let ?s = "s\<lparr>fulled_chunk_buffers := fulled_chunk_buffers s @ [Some b], spare_chunk_buffer_ptr := None,
        current_chunk_buffer_ptr := Some (buf_append e new_chunk)\<rparr>"
    have "collector_ok ?s" using assms(1) b by (simp add: collector_ok_def chunk_ok_def)
    moreover have "take_this_log e s = Inr ?s"
      using assms(1) b False c by (simp add: take_this_log_def deref_chunk_def collector_ok_def)
    ultimately show ?thesis using append_new_chunk [OF assms(2)] b by (simp add: log_pending_def chunk_bytes_def)
  qed
qed

lemma hand_over_ok:
  assumes "\<not> need_output_directly_to_terminal s" "chunk_ok (current_chunk_buffer_ptr s)" "list_all chunk_ok (fulled_chunk_buffers s)"
    and "fulled_chunk_buffers s \<noteq> []" "spare_chunk_buffer_ptr s = None"
    and "fresh_chunk (fst (worker_spares s))" "fresh_chunk (snd (worker_spares s))" "to_be_written s = []"
  shows "\<exists>s'. hand_over s = Inr s' \<and> collector_ok s' \<and> sink s' = sink s \<and> worker_phase s' = Writing \<and>
    log_pending s' = concat (map chunk_bytes (fulled_chunk_buffers s @ [current_chunk_buffer_ptr s]))"
proof -
  have "2 \<le> length (fulled_chunk_buffers s @ [current_chunk_buffer_ptr s])"
    using assms(4) by (cases "fulled_chunk_buffers s") auto
  then show ?thesis using assms
    by (simp add: hand_over_def collector_ok_def Let_def fresh_chunk_def log_pending_def chunk_bytes_def)
qed

section \<open>Rounds of the background thread\<close>

context log_sink
begin

lemma write_chunks_ok:
  "list_all chunk_ok ps \<Longrightarrow> \<exists>f'. write_chunks put ps f = Inr f' \<and> bytes f' = bytes f @ concat (map chunk_bytes ps)"
proof (induction ps arbitrary: f)
  case (Cons p ps)
  then obtain b where "p = Some b" by (auto simp: chunk_ok_def)
  with Cons.IH [of "put (buf_bytes b) f"] Cons.prems show ?case by (simp add: deref_chunk_def chunk_bytes_def)
qed simp

lemma worker_collect_ok:
  assumes "collector_ok s" "worker_phase s = Collecting"
  shows "\<exists>s'. worker_collect put flush s = Inr s' \<and> collector_ok s' \<and>
    subseq (bytes (sink s) @ log_pending s) (bytes (sink s') @ log_pending s')"
proof -
  have inv: "\<not> need_output_directly_to_terminal s" "chunk_ok (current_chunk_buffer_ptr s)" "list_all chunk_ok (fulled_chunk_buffers s)"
      "fresh_chunk (fst (worker_spares s))" "fresh_chunk (snd (worker_spares s))" "to_be_written s = []"
      "fulled_chunk_buffers s = [] \<Longrightarrow> spare_chunk_buffer_ptr s = Some new_chunk"
      "fulled_chunk_buffers s \<noteq> [] \<Longrightarrow> spare_chunk_buffer_ptr s = None"
    using assms by (simp_all add: collector_ok_def fresh_chunk_def)
  obtain b where b: "current_chunk_buffer_ptr s = Some b" using inv(2) by (auto simp: chunk_ok_def)
  show ?thesis
  proof (cases "fulled_chunk_buffers s = []")
    case False
    from hand_over_ok [OF inv(1-3) False inv(8) [OF False] inv(4-6)] False assms(2) inv(6)
    show ?thesis by (auto simp: worker_collect_def log_pending_def)
  next
    case True
    consider "need_stop s" | "\<not> need_stop s" "\<not> need_flush s" | "\<not> need_stop s" "need_flush s" by blast
    then show ?thesis
    proof cases
      case 1
      then show ?thesis using True assms inv b
        by (simp add: worker_collect_def deref_chunk_def Let_def collector_ok_def log_pending_def buf_length_def chunk_bytes_def)
    next
      case 2
      then show ?thesis using True assms by (simp add: worker_collect_def)
    next
      case 3
      let ?f = "buf_append (''flush'' @ [LF]) new_chunk"
      let ?s = "s\<lparr>need_flush := False, fulled_chunk_buffers := [Some ?f], spare_chunk_buffer_ptr := None\<rparr>"
      have "chunk_ok (Some ?f)" by (simp add: chunk_ok_def)
      then obtain s' where s': "hand_over ?s = Inr s'" "collector_ok s'" "sink s' = sink s"
          "log_pending s' = buf_bytes ?f @ buf_bytes b"
        using hand_over_ok [of ?s] inv(1,2,4-6) b by (auto simp: chunk_bytes_def)
      moreover have "worker_collect put flush s = Inr s'"
        using True 3 inv(7) s'(1) by (simp add: worker_collect_def deref_chunk_def)
      moreover have "log_pending s = buf_bytes b" using assms(2) inv(6) True b by (simp add: log_pending_def chunk_bytes_def)
      moreover have "subseq (bytes (sink s) @ buf_bytes b) (bytes (sink s) @ buf_bytes ?f @ buf_bytes b)"
        by (intro list_emb_append_mono list_emb_append2) auto
      ultimately show ?thesis by (simp del: append.simps)
    qed
  qed
qed

lemma worker_write_ok:
  assumes "collector_ok s" "worker_phase s = Writing"
  shows "\<exists>d s'. worker_write put flush date s = Inr (d, s') \<and> collector_ok s' \<and>
    (d = 0 \<longrightarrow> bytes (sink s') @ log_pending s' = bytes (sink s) @ log_pending s)"
proof -
  let ?ps = "to_be_written s" and ?d = "length (to_be_written s) - DROP_THRESHOLD"
  define qs where "qs = (if length ?ps > DROP_THRESHOLD then resize DROP_THRESHOLD ?ps else ?ps)"
  define f0 where "f0 = (if length ?ps > DROP_THRESHOLD then put (dropped_message ?d date) (sink s) else sink s)"
  have w: "worker_spares s = (None, None)" "2 \<le> length ?ps" "list_all chunk_ok ?ps"
    using assms by (simp_all add: collector_ok_def)
  have qs: "list_all chunk_ok qs" "2 \<le> length qs"
    using w(2,3) by (auto simp: qs_def resize_def DROP_THRESHOLD_def list_all_iff dest: in_set_takeD)
  obtain f1 where f1: "write_chunks put qs f0 = Inr f1" "bytes f1 = bytes f0 @ concat (map chunk_bytes qs)"
    using write_chunks_ok [OF qs(1)] by blast
  obtain p0 p1 rest where qs': "qs = p0 # p1 # rest" using qs(2) by (auto simp: Suc_le_length_iff numeral_2_eq_2)
  then obtain b0 b1 where b: "p0 = Some b0" "p1 = Some b1" "buf_ok LOG_CHUNK_BUFFER_SIZE b0" "buf_ok LOG_CHUNK_BUFFER_SIZE b1"
    using qs(1) by (auto simp: chunk_ok_def)
  let ?s = "s\<lparr>worker_spares := (Some new_chunk, Some new_chunk), to_be_written := [], sink := flush f1, worker_phase := Collecting\<rparr>"
  have "worker_write put flush date s = Inr (?d, ?s)"
    using f1(1) w(1) qs' b by (simp add: worker_write_def Let_def qs_def [symmetric] f0_def [symmetric] resize_def deref_chunk_def reset_fresh)
  moreover have "collector_ok ?s" using assms(1) by (simp add: collector_ok_def)
  moreover have "bytes (sink ?s) @ log_pending ?s = bytes (sink s) @ log_pending s" if "?d = 0"
    using that f1(2) assms(2) by (simp add: f0_def qs_def log_pending_def)
  ultimately show ?thesis by (intro exI [of _ ?d] exI [of _ ?s] conjI impI)
qed

lemma log_exec_ok:
  assumes "collector_ok s" "\<And>e. c = Take_Log e \<Longrightarrow> length e < 4000"
    and "dropped = 0 \<longrightarrow> subseq taken (bytes (sink s) @ log_pending s)"
  shows "\<exists>s' taken' dropped'. log_exec put flush c (s, taken, dropped) = Inr (s', taken', dropped') \<and> collector_ok s' \<and>
    (dropped' = 0 \<longrightarrow> subseq taken' (bytes (sink s') @ log_pending s'))"
proof (cases c)
  case (Take_Log e)
  obtain s' where s': "take_this_log e s = Inr s'" "collector_ok s'" "sink s' = sink s" "worker_phase s' = worker_phase s"
      "log_pending s' = (if worker_phase s = Finished then [] else log_pending s @ e)"
    using take_this_log_ok [OF assms(1) assms(2) [OF Take_Log]] by blast
  have "subseq (taken @ e) ((bytes (sink s) @ log_pending s) @ e)" if "dropped = 0"
    using assms(3) that by (intro list_emb_append_mono) auto
  moreover have "log_pending s = []" if "worker_phase s = Finished" using that by (simp add: log_pending_def)
  ultimately show ?thesis using Take_Log s' assms(3) by (auto simp: log_exec_def)
next
  case Request_Flush
  then show ?thesis using assms by (simp add: log_exec_def request_flush_def)
next
  case Stop
  then show ?thesis using assms by (simp add: log_exec_def stop_collector_def)
next
  case Collect
  show ?thesis
  proof (cases "worker_phase s = Collecting")
    case True
    obtain s' where s': "worker_collect put flush s = Inr s'" "collector_ok s'"
        "subseq (bytes (sink s) @ log_pending s) (bytes (sink s') @ log_pending s')"
      using worker_collect_ok [OF assms(1) True] by blast
    have "subseq taken (bytes (sink s') @ log_pending s')" if "dropped = 0"
      using assms(3) that s'(3) subseq_order.order_trans by blast
    then show ?thesis using True Collect s' by (simp add: log_exec_def)
  qed (use assms Collect in \<open>simp add: log_exec_def\<close>)
next
  case (Write_Out date)
  then show ?thesis using assms worker_write_ok [OF assms(1), of date] by (auto simp: log_exec_def)
qed

lemma log_run_ok:
  "collector_ok s \<Longrightarrow> \<forall>e. Take_Log e \<in> set cs \<longrightarrow> length e < 4000 \<Longrightarrow>
     dropped = 0 \<longrightarrow> subseq taken (bytes (sink s) @ log_pending s) \<Longrightarrow>
     \<exists>s' taken' dropped'. log_run put flush cs (s, taken, dropped) = Inr (s', taken', dropped') \<and> collector_ok s' \<and>
       (dropped' = 0 \<longrightarrow> subseq taken' (bytes (sink s') @ log_pending s'))"
proof (induction cs arbitrary: s taken dropped)
  case (Cons c cs)
  obtain s1 taken1 dropped1 where 1: "log_exec put flush c (s, taken, dropped) = Inr (s1, taken1, dropped1)" "collector_ok s1"
      "dropped1 = 0 \<longrightarrow> subseq taken1 (bytes (sink s1) @ log_pending s1)"
    using log_exec_ok [of s c dropped taken] Cons.prems by auto
  from Cons.IH [OF 1(2) _ 1(3)] Cons.prems(2) 1(1) show ?case by auto
qed auto

end



text \<open>A base name that was set from a path is accepted by the log file.\<close>

lemma set_base_name_accepted:
  assumes "CHR ''/'' \<notin> set old"
  shows "\<exists>f. new_log_file os (set_base_name path old) = Inr f"
  using assms base_name_cases [of path] by (auto simp: set_base_name_def new_log_file_def)

end
