(* ===== verification/Tcp_Client.thy ===== *)
theory Tcp_Client
  imports Tcp_Connection Time_Point
begin

text \<open>
  \<^verbatim>\<open>PreconnectSocketfd\<close> (src/preconnect_socketfd.cc), which tries to connect with growing pauses, and \<^verbatim>\<open>TcpClient\<close>
  (src/tcp_client.cc) around it. The answers of \<^verbatim>\<open>connect\<close> and of the error option of the socket are arguments of
  the steps. A timer that has fired is deleted by the event loop, so that cancelling it is undefined.
\<close>

section \<open>Connecting\<close>

datatype connect_answer = Connect_Ok | In_Progress | Retryable | Already_Connecting | Invalid_Operation | Unknown_Error

text \<open>
  \<open>try_posted\<close>: the first attempt is waiting in the loop; \<open>timer_pending\<close>: the timer of the last retry has not
  fired; \<open>awaiting_write\<close>: the poller waits for the outcome. The last four fields record what has happened.
\<close>

record preconnect =
  MAX_NUMBER_OF_RETRIES :: nat
  number_of_retries :: nat
  current_retry_time_interval :: int
  timer_identifier_set :: bool
  timer_pending :: bool
  try_posted :: bool
  awaiting_write :: bool
  preconnect_fd_open :: bool
  has_connect_fail_callback :: bool
  attempts :: nat
  pauses :: "int list"
  new_connection_calls :: nat
  connect_fail_calls :: nat

definition INITIAL_RETRY_TIME_INTERVAL :: int where
  "INITIAL_RETRY_TIME_INTERVAL = SECOND div 2"

definition MAX_RETRY_TIME_INTERVAL :: int where
  "MAX_RETRY_TIME_INTERVAL = 30 * SECOND"

definition new_preconnect :: "nat \<Rightarrow> bool \<Rightarrow> preconnect" where
  "new_preconnect max_number_of_retries fail_callback =
     \<lparr>MAX_NUMBER_OF_RETRIES = max_number_of_retries, number_of_retries = 0,
      current_retry_time_interval = INITIAL_RETRY_TIME_INTERVAL, timer_identifier_set = False, timer_pending = False,
      try_posted = False, awaiting_write = False, preconnect_fd_open = True, has_connect_fail_callback = fail_callback,
      attempts = 0, pauses = [], new_connection_calls = 0, connect_fail_calls = 0\<rparr>"

definition preconnect_start :: "preconnect \<Rightarrow> preconnect" where
  "preconnect_start p = p\<lparr>try_posted := True\<rparr>"

definition call_connect_fail :: "preconnect \<Rightarrow> preconnect" where
  "call_connect_fail p =
     (if has_connect_fail_callback p then p\<lparr>connect_fail_calls := connect_fail_calls p + 1\<rparr> else p)"

definition call_new_connection :: "preconnect \<Rightarrow> preconnect" where
  "call_new_connection p = p\<lparr>awaiting_write := False, new_connection_calls := new_connection_calls p + 1\<rparr>"

definition cancel :: "preconnect \<Rightarrow> preconnect outcome" where
  "cancel p =
     (if timer_identifier_set p then
        if timer_pending p
        then Inr (call_connect_fail (p\<lparr>timer_pending := False, timer_identifier_set := False, awaiting_write := False,
                                       preconnect_fd_open := False\<rparr>))
        else Inl (Undefined ''dangling timer pointer'')
      else Inr p)"

definition schedule_retry :: "preconnect \<Rightarrow> preconnect outcome" where
  "schedule_retry p =
     (if number_of_retries p \<ge> MAX_NUMBER_OF_RETRIES p
      then Inr (call_connect_fail (p\<lparr>timer_identifier_set := False, awaiting_write := False, preconnect_fd_open := False\<rparr>))
      else obind (interval_mul (current_retry_time_interval p) 2) (\<lambda>doubled.
        Inr (p\<lparr>number_of_retries := number_of_retries p + 1, awaiting_write := False,
               pauses := pauses p @ [min MAX_RETRY_TIME_INTERVAL (current_retry_time_interval p)],
               timer_pending := True, timer_identifier_set := True, current_retry_time_interval := doubled\<rparr>)))"

definition preconnect_write_event_callback :: "bool \<Rightarrow> preconnect \<Rightarrow> preconnect outcome" where
  "preconnect_write_event_callback no_error p =
     (if no_error then Inr (call_new_connection p) else schedule_retry p)"

definition try_once :: "connect_answer \<Rightarrow> preconnect \<Rightarrow> preconnect outcome" where
  "try_once connect_status p =
     (case connect_status of
        Connect_Ok \<Rightarrow> Inr (call_new_connection p)
      | In_Progress \<Rightarrow> Inr (p\<lparr>awaiting_write := True\<rparr>)
      | Retryable \<Rightarrow> schedule_retry p
      | Already_Connecting \<Rightarrow> Inr (call_connect_fail p)
      | Invalid_Operation \<Rightarrow> Inr (call_connect_fail p)
      | Unknown_Error \<Rightarrow> Inl (Fatal ''unknown error''))"

text \<open>The event loop: it runs an attempt that is posted or whose timer fires, and dispatches write events.\<close>

datatype preconnect_event = Attempt connect_answer | Writable bool

definition preconnect_exec :: "preconnect_event \<Rightarrow> preconnect \<Rightarrow> preconnect outcome" where
  "preconnect_exec e p =
     (case e of
        Attempt a \<Rightarrow>
          if try_posted p \<or> timer_pending p
          then try_once a (p\<lparr>try_posted := False, timer_pending := False, attempts := attempts p + 1\<rparr>)
          else Inr p
      | Writable ok \<Rightarrow> if awaiting_write p then preconnect_write_event_callback ok p else Inr p)"

fun preconnect_run :: "preconnect_event list \<Rightarrow> preconnect \<Rightarrow> preconnect outcome" where
  "preconnect_run [] p = Inr p"
| "preconnect_run (e # es) p = obind (preconnect_exec e p) (preconnect_run es)"

section \<open>The client\<close>

record 'ctx tcp_client =
  cl_started :: bool
  cl_stopped :: bool
  cl_message_callback :: bool
  cl_write_complete_callback :: "conn_action list option"
  cl_close_callback :: bool
  cl_connect_success_callback :: "'ctx connection \<Rightarrow> 'ctx connection"
  cl_connect_fail_callback :: bool
  preconnect_ptr :: "preconnect option"
  connection_ptr :: "'ctx connection option"

definition CLIENT_MAX_NUMBER_OF_RETRIES :: nat where
  "CLIENT_MAX_NUMBER_OF_RETRIES = 5"

definition client_start :: "'ctx tcp_client \<Rightarrow> 'ctx tcp_client outcome" where
  "client_start s =
     (if cl_started s then Inr s
      else if \<not> cl_message_callback s then Inl (Fatal ''missing message callback'')
      else Inr (s\<lparr>preconnect_ptr := Some (preconnect_start (new_preconnect CLIENT_MAX_NUMBER_OF_RETRIES (cl_connect_fail_callback s))),
                  cl_connect_fail_callback := False, cl_started := True\<rparr>))"

text \<open>\<open>n\<close> bounds the nesting of the callbacks of the connection.\<close>

definition client_stop :: "nat \<Rightarrow> 'ctx tcp_client \<Rightarrow> 'ctx tcp_client outcome" where
  "client_stop n s =
     (if cl_stopped s then Inr s
      else if \<not> cl_started s then Inl (Fatal ''tried to stop tcp client before starting it'')
      else
        obind (case preconnect_ptr s of None \<Rightarrow> Inr s
               | Some p \<Rightarrow> obind (cancel p) (\<lambda>p'. Inr (s\<lparr>preconnect_ptr := Some p'\<rparr>))) (\<lambda>s1.
        obind (case connection_ptr s1 of None \<Rightarrow> Inr s1
               | Some c \<Rightarrow> obind (shutdown_write n c) (\<lambda>c'. Inr (s1\<lparr>connection_ptr := Some c'\<rparr>))) (\<lambda>s2.
          Inr (s2\<lparr>cl_stopped := True\<rparr>))))"

definition close_preconnect_socketfd :: "'ctx tcp_client \<Rightarrow> 'ctx tcp_client" where
  "close_preconnect_socketfd s = s\<lparr>preconnect_ptr := None\<rparr>"

definition close_tcp_connect_socketfd_ptr :: "'ctx tcp_client \<Rightarrow> 'ctx tcp_client" where
  "close_tcp_connect_socketfd_ptr s = s\<lparr>connection_ptr := None\<rparr>"

text \<open>The callbacks are moved into the connection.\<close>

definition client_new_connection_callback :: "'ctx tcp_client \<Rightarrow> 'ctx tcp_client outcome" where
  "client_new_connection_callback s =
     (let c1 = cl_connect_success_callback s new_connection;
          c2 = c1\<lparr>has_message_callback := cl_message_callback s, write_complete_callback := cl_write_complete_callback s,
                  has_close_callback := cl_close_callback s\<rparr>
      in obind (conn_start c2) (\<lambda>c3.
           Inr (s\<lparr>preconnect_ptr := None, connection_ptr := Some c3, cl_message_callback := False,
                  cl_write_complete_callback := None, cl_close_callback := False\<rparr>)))"

definition client_destroy :: "'ctx tcp_client \<Rightarrow> unit outcome" where
  "client_destroy s = (if \<not> cl_started s then Inl (Fatal ''tried to destruct tcp client before starting it'') else Inr ())"

text \<open>An event of the connecting socket; a call of its new-connection callback goes to the client.\<close>

definition client_event :: "preconnect_event \<Rightarrow> 'ctx tcp_client \<Rightarrow> 'ctx tcp_client outcome" where
  "client_event e s =
     (case preconnect_ptr s of
        None \<Rightarrow> Inr s
      | Some p \<Rightarrow>
          obind (preconnect_exec e p) (\<lambda>p'.
            if new_connection_calls p' > new_connection_calls p
            then client_new_connection_callback (s\<lparr>preconnect_ptr := Some p'\<rparr>)
            else Inr (s\<lparr>preconnect_ptr := Some p'\<rparr>)))"

section \<open>Attempts and pauses\<close>

definition pause :: "nat \<Rightarrow> int" where
  "pause i = min (30 * SECOND) (SECOND div 2 * 2 ^ i)"

text \<open>Exactly one thing is awaited until one of the callbacks has been called.\<close>

definition preconnect_ok :: "preconnect \<Rightarrow> bool" where
  "preconnect_ok p \<longleftrightarrow>
     number_of_retries p \<le> MAX_NUMBER_OF_RETRIES p \<and> MAX_NUMBER_OF_RETRIES p \<le> 34 \<and> has_connect_fail_callback p \<and>
     current_retry_time_interval p = SECOND div 2 * 2 ^ number_of_retries p \<and>
     pauses p = map pause [0..<number_of_retries p] \<and>
     attempts p = number_of_retries p + (if try_posted p \<or> timer_pending p then 0 else 1) \<and>
     of_bool (try_posted p) + of_bool (timer_pending p) + of_bool (awaiting_write p) +
       new_connection_calls p + connect_fail_calls p = 1"

lemma doubling_ok:
  assumes "r < 34"
  shows "interval_mul (SECOND div 2 * 2 ^ r) 2 = Inr (SECOND div 2 * 2 ^ Suc r)"
proof -
  have "(2 :: int) ^ r \<le> 2 ^ 33" using assms by (intro power_increasing) auto
  moreover have "(0 :: int) \<le> 2 ^ r" by simp
  ultimately have "0 \<le> SECOND div 2 * 2 ^ r * 2" "SECOND div 2 * 2 ^ r * 2 < 2 ^ 63" by (simp_all add: SECOND_def)
  then have "in_int64 (SECOND div 2 * 2 ^ r * 2)" unfolding in_int64_def by simp
  then show ?thesis by (simp add: interval_mul_def int64_result_def mult.assoc)
qed

lemma schedule_retry_ok:
  assumes "number_of_retries p \<le> MAX_NUMBER_OF_RETRIES p" "MAX_NUMBER_OF_RETRIES p \<le> 34" "has_connect_fail_callback p"
    and "current_retry_time_interval p = SECOND div 2 * 2 ^ number_of_retries p" "pauses p = map pause [0..<number_of_retries p]"
    and "attempts p = number_of_retries p + 1" "\<not> try_posted p" "\<not> timer_pending p"
    and "new_connection_calls p = 0" "connect_fail_calls p = 0"
  shows "\<exists>p'. schedule_retry p = Inr p' \<and> preconnect_ok p' \<and> MAX_NUMBER_OF_RETRIES p' = MAX_NUMBER_OF_RETRIES p"
proof (cases "number_of_retries p \<ge> MAX_NUMBER_OF_RETRIES p")
  case True
  then show ?thesis using assms by (simp add: schedule_retry_def call_connect_fail_def preconnect_ok_def)
next
  case False
  then have "interval_mul (current_retry_time_interval p) 2 = Inr (SECOND div 2 * 2 ^ Suc (number_of_retries p))"
    using doubling_ok [of "number_of_retries p"] assms(2,4) by simp
  with False assms show ?thesis
    by (simp add: schedule_retry_def preconnect_ok_def pause_def MAX_RETRY_TIME_INTERVAL_def)
qed

lemma preconnect_exec_ok:
  assumes "preconnect_ok p" "e \<noteq> Attempt Unknown_Error"
  shows "\<exists>p'. preconnect_exec e p = Inr p' \<and> preconnect_ok p' \<and> MAX_NUMBER_OF_RETRIES p' = MAX_NUMBER_OF_RETRIES p"
proof (cases e)
  case (Attempt a)
  show ?thesis
  proof (cases "try_posted p \<or> timer_pending p")
    case True
    let ?p = "p\<lparr>try_posted := False, timer_pending := False, attempts := attempts p + 1\<rparr>"
    have calls: "new_connection_calls p = 0" "connect_fail_calls p = 0" "\<not> awaiting_write p"
      using assms(1) True by (auto simp: preconnect_ok_def of_bool_def split: if_splits)
    have retry: "\<exists>p'. schedule_retry ?p = Inr p' \<and> preconnect_ok p' \<and> MAX_NUMBER_OF_RETRIES p' = MAX_NUMBER_OF_RETRIES ?p"
      using assms(1) True calls by (intro schedule_retry_ok) (auto simp: preconnect_ok_def)
    show ?thesis
    proof (cases a)
      case Retryable
      then show ?thesis using Attempt True retry by (simp add: preconnect_exec_def try_once_def)
    qed (use assms Attempt True calls in \<open>auto simp: preconnect_exec_def try_once_def preconnect_ok_def call_new_connection_def call_connect_fail_def\<close>)
  qed (use assms Attempt in \<open>simp add: preconnect_exec_def\<close>)
next
  case (Writable ok)
  show ?thesis
  proof (cases "awaiting_write p")
    case True
    then have calls: "new_connection_calls p = 0" "connect_fail_calls p = 0" "\<not> try_posted p" "\<not> timer_pending p"
      using assms(1) by (auto simp: preconnect_ok_def of_bool_def split: if_splits)
    have "\<exists>p'. schedule_retry p = Inr p' \<and> preconnect_ok p' \<and> MAX_NUMBER_OF_RETRIES p' = MAX_NUMBER_OF_RETRIES p"
      using assms(1) calls by (intro schedule_retry_ok) (auto simp: preconnect_ok_def)
    with True Writable assms(1) calls show ?thesis
      by (auto simp: preconnect_exec_def preconnect_write_event_callback_def preconnect_ok_def call_new_connection_def)
  qed (use assms Writable in \<open>simp add: preconnect_exec_def\<close>)
qed

lemma preconnect_run_ok:
  "preconnect_ok p \<Longrightarrow> Attempt Unknown_Error \<notin> set es \<Longrightarrow>
     \<exists>p'. preconnect_run es p = Inr p' \<and> preconnect_ok p' \<and> MAX_NUMBER_OF_RETRIES p' = MAX_NUMBER_OF_RETRIES p"
proof (induction es arbitrary: p)
  case (Cons e es)
  then obtain p1 where "preconnect_exec e p = Inr p1" "preconnect_ok p1" "MAX_NUMBER_OF_RETRIES p1 = MAX_NUMBER_OF_RETRIES p"
    using preconnect_exec_ok [of p e] by auto
  with Cons.IH [of p1] Cons.prems(2) show ?case by auto
qed simp

text \<open>C22: Connecting with at most \<open>n\<close> retries, \<open>n\<close> up to 34, whatever the peer and the network answer (an unknown
  error apart): there are at most \<open>n + 1\<close> attempts, the pauses between them are half a second doubled each
  time and capped at thirty seconds, and the callbacks of success and of failure are called once in all: one
  of them has been called exactly when no attempt, timer or write event is awaited any more.\<close>

theorem preconnect_attempts_bounded:
  assumes "n \<le> 34" "Attempt Unknown_Error \<notin> set es"
  shows "\<exists>p. preconnect_run es (preconnect_start (new_preconnect n True)) = Inr p \<and>
    attempts p \<le> n + 1 \<and> pauses p = map pause [0..<number_of_retries p] \<and> number_of_retries p \<le> n \<and>
    new_connection_calls p + connect_fail_calls p =
      (if try_posted p \<or> timer_pending p \<or> awaiting_write p then 0 else 1)"
proof -
  have "preconnect_ok (preconnect_start (new_preconnect n True))"
    using assms(1) by (simp add: preconnect_ok_def preconnect_start_def new_preconnect_def INITIAL_RETRY_TIME_INTERVAL_def)
  from preconnect_run_ok [OF this assms(2)] obtain p
    where "preconnect_run es (preconnect_start (new_preconnect n True)) = Inr p" "preconnect_ok p" "MAX_NUMBER_OF_RETRIES p = n"
    by (auto simp: preconnect_start_def new_preconnect_def)
  then show ?thesis by (auto simp: preconnect_ok_def of_bool_def split: if_splits)
qed

theorem preconnect_attempts_bounded_witness:
  "\<exists>p. preconnect_run [Attempt Retryable, Attempt In_Progress, Writable False, Attempt Connect_Ok]
     (preconnect_start (new_preconnect CLIENT_MAX_NUMBER_OF_RETRIES True)) = Inr p \<and> attempts p \<le> 6"
  using preconnect_attempts_bounded [of CLIENT_MAX_NUMBER_OF_RETRIES "[Attempt Retryable, Attempt In_Progress, Writable False, Attempt Connect_Ok]"]
  by (auto simp: CLIENT_MAX_NUMBER_OF_RETRIES_def)

text \<open>With more retries the doubled interval, which is capped only where it is used, overflows.\<close>

lemma retry_interval_overflows: "interval_mul (SECOND div 2 * 2 ^ 34) 2 = Inl (Undefined ''signed integer overflow'')"
  by (simp add: interval_mul_def int64_result_def in_int64_def SECOND_def)

text \<open>C33: Stopping a client is not reliable: before the first retry it cancels nothing, so that the connection is
  established after the stop, and once the timer of a retry has fired it cancels the deleted timer.\<close>

theorem client_stop_while_connecting:
  assumes "client_start s = Inr s1" "cl_message_callback s" "\<not> cl_started s" "\<not> cl_stopped s" "connection_ptr s = None"
  shows "(\<exists>s2 s3 c. client_stop n s1 = Inr s2 \<and> cl_stopped s2 \<and> client_event (Attempt Connect_Ok) s2 = Inr s3 \<and>
      connection_ptr s3 = Some c \<and> conn_reading c) \<and>
    (\<exists>s2 s3. client_event (Attempt Retryable) s1 = Inr s2 \<and> client_event (Attempt In_Progress) s2 = Inr s3 \<and>
      client_stop n s3 = Inl (Undefined ''dangling timer pointer''))"
proof -
  let ?p = "preconnect_start (new_preconnect CLIENT_MAX_NUMBER_OF_RETRIES (cl_connect_fail_callback s))"
  have s1: "s1 = s\<lparr>preconnect_ptr := Some ?p, cl_connect_fail_callback := False, cl_started := True\<rparr>"
    using assms by (simp add: client_start_def)
  let ?s2 = "s1\<lparr>cl_stopped := True\<rparr>"
  have stop: "client_stop n s1 = Inr ?s2"
    using assms(4,5) by (simp add: s1 client_stop_def cancel_def preconnect_start_def new_preconnect_def)
  let ?c = "(cl_connect_success_callback s new_connection)\<lparr>has_message_callback := True,
      write_complete_callback := cl_write_complete_callback s, has_close_callback := cl_close_callback s\<rparr>"
  obtain c where c: "conn_start ?c = Inr c" "conn_reading c" using conn_start_ok [of ?c] by auto
  have ev: "\<exists>s3. client_event (Attempt Connect_Ok) ?s2 = Inr s3 \<and> connection_ptr s3 = Some c"
    using assms(2) c(1)
    by (simp add: s1 client_event_def preconnect_exec_def try_once_def call_new_connection_def preconnect_start_def new_preconnect_def
        client_new_connection_callback_def Let_def)
  have "\<exists>s2 s3. client_event (Attempt Retryable) s1 = Inr s2 \<and> client_event (Attempt In_Progress) s2 = Inr s3 \<and>
      client_stop n s3 = Inl (Undefined ''dangling timer pointer'')"
    using assms(4,5) doubling_ok [of 0]
    by (simp add: s1 client_event_def preconnect_exec_def try_once_def schedule_retry_def preconnect_start_def new_preconnect_def
        CLIENT_MAX_NUMBER_OF_RETRIES_def INITIAL_RETRY_TIME_INTERVAL_def client_stop_def cancel_def)
  with stop ev c(2) show ?thesis by auto
qed

definition new_tcp_client :: "('ctx connection \<Rightarrow> 'ctx connection) \<Rightarrow> 'ctx tcp_client" where
  "new_tcp_client success =
     \<lparr>cl_started = False, cl_stopped = False, cl_message_callback = True, cl_write_complete_callback = None,
      cl_close_callback = True, cl_connect_success_callback = success, cl_connect_fail_callback = True,
      preconnect_ptr = None, connection_ptr = None\<rparr>"

theorem client_stop_while_connecting_witness:
  "\<exists>s2 s3. client_event (Attempt Retryable) (projr (client_start (new_tcp_client (\<lambda>c. c) :: unit tcp_client))) = Inr s2 \<and>
     client_event (Attempt In_Progress) s2 = Inr s3 \<and> client_stop 1 s3 = Inl (Undefined ''dangling timer pointer'')"
  using client_stop_while_connecting [of "new_tcp_client (\<lambda>c. c) :: unit tcp_client"
      "projr (client_start (new_tcp_client (\<lambda>c. c) :: unit tcp_client))" 1]
  by (simp add: new_tcp_client_def client_start_def)

end
