(* ===== verification/Echo_Server.thy ===== *)
theory Echo_Server
  imports Tcp_Connection
begin

text \<open>
  The echo server of example/echo/server: its message callback on a connection, composed with the read and
  write events of the connection.
\<close>

section \<open>The callback\<close>

text \<open>
  One round of the loop: \<open>None\<close> when no newline is left. The message is sent from the input buffer, which is
  advanced afterwards.
\<close>

definition echo_round :: "nat \<Rightarrow> 'ctx connection \<Rightarrow> 'ctx connection option outcome" where
  "echo_round n c =
     obind (get_next_newline_position (input_buffer c)) (\<lambda>newline_position.
       case newline_position of
         None \<Rightarrow> Inr None
       | Some pos \<Rightarrow>
           let client_message_start = get_read_position (input_buffer c);
               client_message_length = size_sub (pos + 1) client_message_start
           in obind (conn_send n (take client_message_length (drop client_message_start (chars (input_buffer c)))) c) (\<lambda>c'.
                Inr (Some (c'\<lparr>input_buffer := forward_read_position client_message_length (input_buffer c')\<rparr>))))"

text \<open>The loop, with as many rounds as there are bytes and one more.\<close>

fun echo_loop :: "nat \<Rightarrow> nat \<Rightarrow> 'ctx connection \<Rightarrow> 'ctx connection outcome" where
  "echo_loop n 0 c = Inl Diverges"
| "echo_loop n (Suc k) c =
     obind (echo_round n c) (\<lambda>r. case r of None \<Rightarrow> Inr c | Some c' \<Rightarrow> echo_loop n k c')"

definition echo_message_callback :: "nat \<Rightarrow> int \<Rightarrow> 'ctx connection \<Rightarrow> 'ctx connection outcome" where
  "echo_message_callback n time_point c = echo_loop n (Suc (get_readable_size (input_buffer c))) c"

text \<open>Events of the connection: a chunk arrives, or the socket is writable.\<close>

datatype echo_event = Chunk string int | Can_Write

definition echo_event_callback :: "nat \<Rightarrow> echo_event \<Rightarrow> 'ctx connection \<Rightarrow> 'ctx connection outcome" where
  "echo_event_callback n e c =
     (case e of
        Chunk data now \<Rightarrow> read_event_callback n (echo_message_callback n) now (c\<lparr>recv_answers := [Got data]\<rparr>)
      | Can_Write \<Rightarrow> write_event_callback n c)"

fun echo_run :: "nat \<Rightarrow> echo_event list \<Rightarrow> 'ctx connection \<Rightarrow> 'ctx connection outcome" where
  "echo_run n [] c = Inr c"
| "echo_run n (e # es) c = obind (echo_event_callback n e c) (echo_run n es)"

fun received :: "echo_event list \<Rightarrow> string" where
  "received [] = []"
| "received (Chunk data now # es) = data @ received es"
| "received (Can_Write # es) = received es"

section \<open>Lines\<close>

text \<open>What a stream consists of up to its last newline, and the rest.\<close>

definition complete_lines :: "string \<Rightarrow> string" where
  "complete_lines s = rev (dropWhile (\<lambda>c. c \<noteq> LF) (rev s))"

definition last_line :: "string \<Rightarrow> string" where
  "last_line s = rev (takeWhile (\<lambda>c. c \<noteq> LF) (rev s))"

lemma complete_last: "complete_lines s @ last_line s = s"
  unfolding complete_lines_def last_line_def rev_append [symmetric] takeWhile_dropWhile_id by simp

lemma no_newline: "LF \<notin> set s \<Longrightarrow> complete_lines s = [] \<and> last_line s = s"
proof -
  assume "LF \<notin> set s"
  then have "takeWhile (\<lambda>c. c \<noteq> LF) (rev s) = rev s" unfolding takeWhile_eq_all_conv by auto
  then have "last_line s = s" unfolding last_line_def by (metis rev_rev_ident)
  with complete_last [of s] show ?thesis by simp
qed

lemma last_line_no_newline: "LF \<notin> set (last_line s)"
  unfolding last_line_def using set_takeWhileD [of LF "\<lambda>c. c \<noteq> LF" "rev s"] by auto

lemma complete_lines_cons: "complete_lines (a @ LF # b) = a @ LF # complete_lines b"
proof (cases "LF \<in> set b")
  case True
  then show ?thesis by (simp add: complete_lines_def dropWhile_append1 [of LF])
next
  case False
  then have "dropWhile (\<lambda>c. c \<noteq> LF) (rev b @ LF # rev a) = LF # rev a"
    by (subst dropWhile_append2) auto
  then show ?thesis using no_newline [OF False] by (simp add: complete_lines_def)
qed

lemma last_line_cons: "last_line (a @ LF # b) = last_line b"
  using complete_last [of "a @ LF # b"] complete_last [of b] complete_lines_cons [of a b]
  by (metis append.assoc append_Cons same_append_eq)

lemma complete_lines_append: "complete_lines (s @ t) = complete_lines s @ complete_lines (last_line s @ t)"
    "last_line (s @ t) = last_line (last_line s @ t)"
proof -
  have "complete_lines (s @ t) = complete_lines s @ complete_lines (last_line s @ t) \<and> last_line (s @ t) = last_line (last_line s @ t)"
  proof (induction "length s" arbitrary: s rule: less_induct)
    case less
    show ?case
    proof (cases "LF \<in> set s")
      case True
      then obtain a b where s: "s = a @ LF # b" by (metis split_list)
      then have "length b < length s" by simp
      from less [OF this] s show ?thesis by (simp add: complete_lines_cons last_line_cons)
    next
      case False
      then show ?thesis using no_newline [OF False] by simp
    qed
  qed
  then show "complete_lines (s @ t) = complete_lines s @ complete_lines (last_line s @ t)"
    "last_line (s @ t) = last_line (last_line s @ t)" by blast+
qed

lemma first_newline_cases:
  "case first_newline s of None \<Rightarrow> LF \<notin> set s | Some k \<Rightarrow> (\<exists>a b. s = a @ LF # b \<and> length a = k)"
proof (induction s)
  case (Cons x xs)
  show ?case
  proof (cases "x = LF")
    case False
    show ?thesis
    proof (cases "first_newline xs")
      case None
      with Cons False show ?thesis by simp
    next
      case (Some k)
      then obtain a b where "xs = a @ LF # b" "length a = k" using Cons by auto
      then have "x # xs = (x # a) @ LF # b \<and> length (x # a) = Suc k" by simp
      moreover have "first_newline (x # xs) = Some (Suc k)" using False Some by simp
      ultimately show ?thesis by (simp only: option.case) blast
    qed
  qed auto
qed simp

lemma first_newline_append: "LF \<notin> set x \<Longrightarrow> first_newline (x @ LF # y) = Some (length x)"
  by (induction x) auto

section \<open>A peer that stays\<close>

definition unpiped :: "'ctx connection \<Rightarrow> bool" where
  "unpiped c \<longleftrightarrow> Send_Pipe \<notin> set (send_answers c)"

lemma send_loop_unpiped:
  "unpiped c \<Longrightarrow> send_loop data k c = Inr (m, c') \<Longrightarrow>
     unpiped c' \<and> is_aborted c' = is_aborted c \<and> input_buffer c' = input_buffer c \<and>
     write_complete_callback c' = write_complete_callback c \<and> conn_reading c' = conn_reading c"
proof (induction data k c rule: send_loop.induct)
  case (1 data k c)
  show ?case
  proof (cases "k < length data \<and> send_answers c \<noteq> []")
    case True
    then obtain a as where as: "send_answers c = a # as" by (cases "send_answers c") auto
    with "1.prems" True show ?thesis
      using "1.IH"(1) [of a as] "1.IH"(2) [of a as]
      by (cases a) (auto simp: unpiped_def send_loop.simps [of data k c] Let_def)
  next
    case False
    with "1.prems" show ?thesis by (auto simp: send_loop.simps [of data k c] split: list.splits)
  qed
qed

lemma send_as_many_unpiped:
  "unpiped c \<Longrightarrow> send_as_many_data data c = Inr (m, c') \<Longrightarrow>
     unpiped c' \<and> is_aborted c' = is_aborted c \<and> input_buffer c' = input_buffer c \<and>
     write_complete_callback c' = write_complete_callback c \<and> conn_reading c' = conn_reading c"
  using send_loop_unpiped [of c data 0 m c'] by (auto simp: send_as_many_data_def split: if_splits)

lemma conn_send_unpiped:
  assumes "streaming sent c" "unpiped c"
  shows "\<exists>c'. conn_send n data c = Inr c' \<and> streaming (sent @ data) c' \<and> unpiped c' \<and> input_buffer c' = input_buffer c"
proof -
  have wc: "write_complete_callback c = None" and na: "\<not> is_aborted c" using assms(1) by (auto simp: streaming_def alive_def)
  obtain c' where c': "conn_send n data c = Inr c'" "streaming (sent @ data) c' \<or> given_up (sent @ data) c'"
    using conn_send_streaming [OF assms(1)] by blast
  have "unpiped c' \<and> is_aborted c' = is_aborted c \<and> input_buffer c' = input_buffer c"
    using c'(1) assms(2) wc send_as_many_unpiped [OF assms(2)]
    by (auto simp: conn_send_def send_with_def obind_eq_Inr_iff write_complete_none unpiped_def conn_enable_write_def split: if_splits)
  with c' na show ?thesis by (auto simp: given_up_def)
qed

lemma write_event_unpiped:
  assumes "streaming sent c" "unpiped c"
  shows "\<exists>c'. write_event_callback n c = Inr c' \<and> streaming sent c' \<and> unpiped c' \<and> input_buffer c' = input_buffer c"
proof -
  have wc: "write_complete_callback c = None" and na: "\<not> is_aborted c" and rd: "conn_reading c"
    using assms(1) by (auto simp: streaming_def alive_def)
  obtain c' where c': "write_event_callback n c = Inr c'" "streaming sent c' \<or> given_up sent c'"
    using write_event_streaming [OF assms(1)] by blast
  define D where "D = take (get_readable_size (output_buffer c)) (drop (get_read_position (output_buffer c)) (chars (output_buffer c)))"
  have fin: "\<exists>c3. write_complete n (conn_disable_write c2) = Inr c3 \<and> conn_reading c3 \<and> unpiped c3 \<and> is_aborted c3 = is_aborted c2 \<and>
      input_buffer c3 = input_buffer c2" if "write_complete_callback c2 = None" "conn_reading c2" "unpiped c2" for c2 :: "'a connection"
    using that by (simp add: write_complete_none conn_disable_write_def unpiped_def)
  have live: "\<not> conn_detached c" "\<not> is_write_end_shutdown c" using assms(1) by (auto simp: streaming_def alive_def)
  have "unpiped c' \<and> is_aborted c' = is_aborted c \<and> input_buffer c' = input_buffer c"
  proof (cases "get_readable_size (output_buffer c) > 0")
    case False
    then show ?thesis using c'(1) live fin [OF wc rd assms(2)] by (auto simp: write_event_callback_def Let_def)
  next
    case True
    then obtain m c1 where m: "send_as_many_data D c = Inr (m, c1)"
      using c'(1) live by (cases "send_as_many_data D c") (auto simp: write_event_callback_def Let_def D_def)
    note u = send_as_many_unpiped [OF assms(2) m]
    let ?c2 = "c1\<lparr>output_buffer := forward_read_position m (output_buffer c1)\<rparr>"
    have "\<exists>c3. write_complete n (conn_disable_write ?c2) = Inr c3 \<and> conn_reading c3 \<and> unpiped c3 \<and> is_aborted c3 = is_aborted ?c2 \<and>
        input_buffer c3 = input_buffer ?c2"
      using u wc rd by (intro fin) (simp_all add: unpiped_def)
    with c'(1) live True m u show ?thesis
      by (auto simp: write_event_callback_def Let_def D_def [symmetric] unpiped_def split: if_splits)
  qed
  with c' na show ?thesis by (auto simp: given_up_def)
qed

text \<open>What is received is echoed up to the last newline.\<close>

lemma echo_loop_lines:
  "streaming sent c \<Longrightarrow> unpiped c \<Longrightarrow> buffer_ok (input_buffer c) \<Longrightarrow> length (content (input_buffer c)) < k \<Longrightarrow>
     \<exists>c'. echo_loop n k c = Inr c' \<and> streaming (sent @ complete_lines (content (input_buffer c))) c' \<and> unpiped c' \<and>
       buffer_ok (input_buffer c') \<and> content (input_buffer c') = last_line (content (input_buffer c))"
proof (induction k arbitrary: sent c)
  case (Suc k)
  let ?b = "input_buffer c"
  have pos: "get_next_newline_position ?b = Inr (map_option (\<lambda>k. read_offset ?b + k) (first_newline (content ?b)))"
    using newline_position [OF Suc.prems(3)] .
  show ?case
  proof (cases "first_newline (content ?b)")
    case None
    then have "LF \<notin> set (content ?b)" using first_newline_cases [of "content ?b"] by simp
    then show ?thesis
      using no_newline [of "content ?b"] Suc.prems None pos by (simp add: echo_round_def)
  next
    case (Some i)
    then obtain x y where xy: "content ?b = x @ LF # y" "length x = i" using first_newline_cases [of "content ?b"] by auto
    have data: "take (i + 1) (drop (get_read_position ?b) (chars ?b)) = x @ [LF]"
      using xy content_drop [OF Suc.prems(3)] by (simp add: get_read_position_def)
    obtain c1 where c1: "conn_send n (x @ [LF]) c = Inr c1" "streaming (sent @ x @ [LF]) c1" "unpiped c1" "input_buffer c1 = ?b"
      using conn_send_unpiped [OF Suc.prems(1,2)] by blast
    let ?c = "c1\<lparr>input_buffer := forward_read_position (i + 1) ?b\<rparr>"
    have round: "echo_round n c = Inr (Some ?c)"
      using Some pos data c1(1,4) by (simp add: echo_round_def Let_def get_read_position_def)
    have b: "buffer_ok (input_buffer ?c)" "content (input_buffer ?c) = y"
      using Suc.prems(3) xy content_forward [OF Suc.prems(3), of "i + 1"] by simp_all
    have "streaming (sent @ x @ [LF]) ?c" "unpiped ?c"
      using c1(2,3) by (simp_all add: streaming_def alive_def unpiped_def)
    then obtain c' where "echo_loop n k ?c = Inr c'" "streaming ((sent @ x @ [LF]) @ complete_lines y) c'" "unpiped c'"
        "buffer_ok (input_buffer c')" "content (input_buffer c') = last_line y"
      using Suc.IH [of "sent @ x @ [LF]" ?c] b Suc.prems(4) xy by auto
    then show ?thesis using round xy by (auto simp: complete_lines_cons last_line_cons)
  qed
qed simp

lemma echo_event_lines:
  assumes "streaming sent c" "unpiped c" "buffer_ok (input_buffer c)"
  shows "\<exists>c'. echo_event_callback n e c = Inr c' \<and> unpiped c' \<and> buffer_ok (input_buffer c') \<and>
    streaming (sent @ complete_lines (content (input_buffer c) @ received [e])) c' \<and>
    content (input_buffer c') = last_line (content (input_buffer c) @ received [e])
    \<or> LF \<in> set (content (input_buffer c))"
proof (cases e)
  case Can_Write
  obtain c' where "write_event_callback n c = Inr c'" "streaming sent c'" "unpiped c'" "input_buffer c' = input_buffer c"
    using write_event_unpiped [OF assms(1,2)] by blast
  then show ?thesis using Can_Write assms(3) no_newline [of "content (input_buffer c)"] by (auto simp: echo_event_callback_def)
next
  case (Chunk data now)
  obtain b where b: "receive_all_data 0 (c\<lparr>recv_answers := [Got data]\<rparr>) = Inr (length data, c\<lparr>input_buffer := b, recv_answers := []\<rparr>)"
      "buffer_ok b" "content b = content (input_buffer c) @ data"
    using receive_one [of "c\<lparr>recv_answers := [Got data]\<rparr>" data] assms(3) by auto
  let ?c = "c\<lparr>input_buffer := b, recv_answers := []\<rparr>"
  show ?thesis
  proof (cases "data = []")
    case True
    then have "echo_event_callback n e c = Inr ?c"
      using Chunk b(1) assms(1) by (simp add: echo_event_callback_def read_event_callback_def streaming_def alive_def)
    moreover have "streaming sent ?c" "unpiped ?c" using assms(1,2) by (simp_all add: unpiped_def)
    ultimately show ?thesis using Chunk True b no_newline [of "content (input_buffer c)"] by auto
  next
    case False
    have "streaming sent ?c" "unpiped ?c" using assms(1,2) by (simp_all add: unpiped_def)
    from echo_loop_lines [OF this, of "Suc (get_readable_size b)" n] length_content [OF b(2)] b
    obtain c' where c': "echo_loop n (Suc (get_readable_size b)) ?c = Inr c'"
        "streaming (sent @ complete_lines (content (input_buffer c) @ data)) c'" "unpiped c'" "buffer_ok (input_buffer c')"
        "content (input_buffer c') = last_line (content (input_buffer c) @ data)"
      by auto
    moreover have "conn_reading c'" using c'(2) by (simp add: streaming_def alive_def)
    ultimately have "echo_event_callback n e c = Inr c'"
      using Chunk b(1) False by (simp add: echo_event_callback_def read_event_callback_def echo_message_callback_def del: echo_loop.simps)
    with c' Chunk show ?thesis by simp
  qed
qed

lemma echo_run_lines:
  "streaming sent c \<Longrightarrow> unpiped c \<Longrightarrow> buffer_ok (input_buffer c) \<Longrightarrow> LF \<notin> set (content (input_buffer c)) \<Longrightarrow>
     \<exists>c'. echo_run n es c = Inr c' \<and> streaming (sent @ complete_lines (content (input_buffer c) @ received es)) c' \<and>
       content (input_buffer c') = last_line (content (input_buffer c) @ received es)"
proof (induction es arbitrary: sent c)
  case Nil
  then show ?case using no_newline [of "content (input_buffer c)"] by simp
next
  case (Cons e es)
  let ?s = "content (input_buffer c) @ received [e]"
  obtain c1 where c1: "echo_event_callback n e c = Inr c1" "unpiped c1" "buffer_ok (input_buffer c1)"
      "streaming (sent @ complete_lines ?s) c1" "content (input_buffer c1) = last_line ?s"
    using echo_event_lines [OF Cons.prems(1-3)] Cons.prems(4) by blast
  have "LF \<notin> set (content (input_buffer c1))" using c1(5) last_line_no_newline by simp
  from Cons.IH [OF c1(4,2,3) this] c1(1,5)
  obtain c' where "echo_run n (e # es) c = Inr c'"
      "streaming ((sent @ complete_lines ?s) @ complete_lines (last_line ?s @ received es)) c'"
      "content (input_buffer c') = last_line (last_line ?s @ received es)"
    by auto
  moreover have "received (e # es) = received [e] @ received es" by (cases e) auto
  ultimately show ?case using complete_lines_append [of ?s "received es"] by (auto simp del: received.simps)
qed

text \<open>The echo server on a connection whose peer does not go away: whatever chunks the bytes arrive in, however
  the kernel splits, delays or fails the writes, and whenever writable events come in between, nothing crashes,
  and what the kernel has taken followed by the output buffer is exactly what was received up to the last
  newline, while the input buffer holds the unfinished line.\<close>

theorem echo_functional:
  assumes "Send_Pipe \<notin> set answers"
  shows "\<exists>c. echo_run n es (started_connection answers :: 'ctx connection) = Inr c \<and>
    wire c @ content (output_buffer c) = complete_lines (received es) \<and>
    content (input_buffer c) = last_line (received es) \<and> (conn_writing c \<longleftrightarrow> content (output_buffer c) \<noteq> [])"
proof -
  let ?c = "started_connection answers :: 'ctx connection"
  have "streaming [] ?c" "unpiped ?c" "input_buffer ?c = new_tcp_buffer"
    using assms by (simp_all add: streaming_def alive_def unpiped_def started_connection_def new_connection_def)
  then obtain c where "echo_run n es ?c = Inr c" "streaming (complete_lines (received es)) c"
      "content (input_buffer c) = last_line (received es)"
    using echo_run_lines [of "[]" ?c n es] by auto
  then show ?thesis by (auto simp: streaming_def)
qed

theorem echo_functional_witness:
  "\<exists>c. echo_run 1 [Chunk ''ab'' 1, Chunk (''c'' @ [LF] @ ''d'') 2, Can_Write] (started_connection [Sent 2, Send_Again, Sent 9] :: unit connection) = Inr c \<and>
     wire c @ content (output_buffer c) = ''abc'' @ [LF]"
proof -
  have "complete_lines (received [Chunk ''ab'' 1, Chunk (''c'' @ [LF] @ ''d'') 2, Can_Write]) = ''abc'' @ [LF]"
    by (simp add: complete_lines_def)
  with echo_functional [of "[Sent 2, Send_Again, Sent 9]" 1 "[Chunk ''ab'' 1, Chunk (''c'' @ [LF] @ ''d'') 2, Can_Write]"]
  show ?thesis by (auto simp del: received.simps)
qed

section \<open>A peer that has gone\<close>

text \<open>C34: When the peer has gone and the first echo of a chunk is refused with EPIPE, the connection is reset inside
  the loop and its input buffer released; if anything follows the first line in the buffer, the next round of
  the loop reads through the released buffer pointer.\<close>

theorem echo_to_gone_peer_is_undefined:
  assumes "streaming sent c" "\<not> conn_writing c" "send_answers c = Send_Pipe # as" "buffer_ok (input_buffer c)"
    and "content (input_buffer c) = x @ LF # y" "LF \<notin> set x" "y \<noteq> []"
  shows "echo_message_callback n now c = Inl (Undefined ''read through a dangling buffer pointer'')"
proof -
  let ?b = "input_buffer c" and ?c0 = "c\<lparr>send_answers := as\<rparr>"
  have al: "alive c" using assms(1) by (simp add: streaming_def)
  have "first_newline (content ?b) = Some (length x)"
    using assms(5,6) first_newline_append by simp
  then have pos: "get_next_newline_position ?b = Inr (Some (read_offset ?b + length x))"
    using newline_position [OF assms(4)] by simp
  let ?data = "take (length x + 1) (drop (get_read_position ?b) (chars ?b))"
  have data: "?data = x @ [LF]" using assms(5) content_drop [OF assms(4)] by (simp add: get_read_position_def)
  have live: "\<not> conn_detached c" "write_complete_callback c = None" "\<not> is_write_end_shutdown c"
    using al by (auto simp: alive_def)
  have "alive ?c0" using al by (simp add: alive_def)
  from abort_alive [OF this] obtain c1 where c1: "abort_from_event_loop ?c0 = Inr c1" "write_complete_callback c1 = None" by blast
  have ib: "input_buffer c1 = release_buf ?b"
    using c1(1) by (auto simp: abort_from_event_loop_def reset_connection_def conn_detach_def call_close_callback_def
        clear_context_def Let_def split: if_splits)
  have "send_loop (x @ [LF]) 0 c = Inr (length (x @ [LF]), c1)"
    using assms(3) c1(1) by (subst send_loop.simps) simp
  then have send: "conn_send n (x @ [LF]) c = Inr c1"
    using live assms(2) c1(2) by (simp add: conn_send_def send_with_def send_as_many_data_def write_complete_none)
  let ?c1 = "c1\<lparr>input_buffer := forward_read_position (length x + 1) (release_buf ?b)\<rparr>"
  have round: "echo_round n c = Inr (Some ?c1)"
    using pos data send ib by (simp add: echo_round_def get_read_position_def)
  have len: "write_offset ?b = read_offset ?b + length x + 1 + length y"
    using assms(4,5) length_content [OF assms(4)] by (simp add: buffer_ok_def get_readable_size_def)
  have "echo_round n ?c1 = Inl (Undefined ''read through a dangling buffer pointer'')"
    using len assms(4,7) length_greater_0_conv [of y]
    by (simp del: length_greater_0_conv add: echo_round_def get_next_newline_position_def readable_through_def forward_read_position_def release_buf_def
        string_reconstruct_def buffer_ok_def)
  then show ?thesis
    using round len assms(7) by (cases y) (simp_all add: echo_message_callback_def get_readable_size_def)
qed

theorem echo_to_gone_peer_is_undefined_witness:
  "echo_message_callback 1 0
     ((started_connection [Send_Pipe] :: unit connection)\<lparr>input_buffer := new_tcp_buffer\<lparr>chars := ''a'' @ [LF] @ ''b'', write_offset := 3\<rparr>\<rparr>)
     = Inl (Undefined ''read through a dangling buffer pointer'')"
  by (rule echo_to_gone_peer_is_undefined [of "[]" _ "[]" "''a''" "''b''"])
    (simp_all add: streaming_def alive_def started_connection_def new_connection_def
      new_tcp_buffer_def buffer_ok_def sso_capacity_def content_def)

end
