(* ===== verification/Echo_Client.thy ===== *)
theory Echo_Client
  imports Echo_Server Tcp_Client Server_Application "HOL-Library.Sublist"
begin

text \<open>
  The echo client of example/echo/client: the standard input as a descriptor of the loop (src/stdinfd.cc), the
  message callback, which prints complete lines, and the signal dispatcher (client.cc); and a session of the client
  with the echo server.
\<close>

section \<open>Printing\<close>

text \<open>What has been printed and the connection.\<close>

type_synonym 'ctx client_io = "string \<times> 'ctx connection"

text \<open>One round of the loop of the message callback: \<open>None\<close> when no newline is left.\<close>

definition print_round :: "'ctx client_io \<Rightarrow> 'ctx client_io option outcome" where
  "print_round io =
     (case io of (out, c) \<Rightarrow>
        obind (get_next_newline_position (input_buffer c)) (\<lambda>newline_position.
          case newline_position of
            None \<Rightarrow> Inr None
          | Some pos \<Rightarrow>
              let server_message_start = get_read_position (input_buffer c);
                  server_message_length = size_sub (pos + 1) server_message_start;
                  server_message = take server_message_length (drop server_message_start (chars (input_buffer c)))
              in Inr (Some (out @ server_message,
                            c\<lparr>input_buffer := forward_read_position server_message_length (input_buffer c)\<rparr>))))"

text \<open>The loop, with as many rounds as there are bytes and one more.\<close>

fun print_loop :: "nat \<Rightarrow> 'ctx client_io \<Rightarrow> 'ctx client_io outcome" where
  "print_loop 0 io = Inl Diverges"
| "print_loop (Suc k) io = obind (print_round io) (\<lambda>r. case r of None \<Rightarrow> Inr io | Some io' \<Rightarrow> print_loop k io')"

definition client_message_callback :: "'ctx client_io \<Rightarrow> 'ctx client_io outcome" where
  "client_message_callback io = print_loop (Suc (get_readable_size (input_buffer (snd io)))) io"

section \<open>Typing\<close>

text \<open>The answers of a read of the standard input, which does not block; \<open>Typed\<close> has at least one byte.\<close>

datatype stdin_answer = Typed string | Stdin_Closed | Stdin_Again | Stdin_Error

fun stdin_loop :: "nat \<Rightarrow> stdin_answer list \<Rightarrow> 'ctx connection \<Rightarrow> 'ctx connection outcome" where
  "stdin_loop n [] c = Inl Diverges"
| "stdin_loop n (Typed data # as) c = obind (conn_send n data c) (stdin_loop n as)"
| "stdin_loop n (Stdin_Closed # as) c = Inl (Fatal ''stdin closed'')"
| "stdin_loop n (Stdin_Again # as) c = Inr c"
| "stdin_loop n (Stdin_Error # as) c = Inl (Fatal ''unknown error when reading from stdin'')"

definition new_stdinfd :: "pollable_fd outcome" where
  "new_stdinfd = new_pollable_fd 0 True"

definition stdinfd_start :: "pollable_fd \<Rightarrow> event_poller \<Rightarrow> (pollable_fd \<times> event_poller) outcome" where
  "stdinfd_start d ep = enable_read_event (d\<lparr>has_read_callback := True\<rparr>) ep"

definition stdinfd_destroy :: "pollable_fd \<Rightarrow> event_poller \<Rightarrow> event_poller outcome" where
  "stdinfd_destroy d ep = obind (detach_from_poller d ep) (\<lambda>(d', ep'). Inr (close_fd (pfd_fd d') ep'))"

text \<open>The connection is the one the weak pointer locks, if it is still there.\<close>

definition stdin_read_event_callback ::
  "nat \<Rightarrow> stdin_answer list \<Rightarrow> 'ctx connection option \<Rightarrow> pollable_fd \<Rightarrow> event_poller
   \<Rightarrow> ('ctx connection option \<times> pollable_fd \<times> event_poller) outcome" where
  "stdin_read_event_callback n as locked d ep =
     (case locked of
        None \<Rightarrow> obind (disable_read_event d ep) (\<lambda>(d', ep'). Inr (None, d', ep'))
      | Some c \<Rightarrow> obind (stdin_loop n as c) (\<lambda>c'. Inr (Some c', d, ep)))"

section \<open>Signals\<close>

record ('f, 'ctx) client_application =
  client_loop :: "'f event_loop"
  client :: "'ctx tcp_client"
  client_signalfd :: nat
  stdin_ptr :: "pollable_fd option"

definition reset_stdin :: "('f, 'ctx) client_application \<Rightarrow> ('f, 'ctx) client_application outcome" where
  "reset_stdin a =
     (case stdin_ptr a of
        None \<Rightarrow> Inr a
      | Some d \<Rightarrow> obind (stdinfd_destroy d (loop_poller (client_loop a))) (\<lambda>ep.
          Inr (a\<lparr>stdin_ptr := None, client_loop := (client_loop a)\<lparr>loop_poller := ep\<rparr>\<rparr>)))"

definition client_signal_dispatcher ::
  "nat \<Rightarrow> int \<Rightarrow> ('f, 'ctx) client_application \<Rightarrow> ('f, 'ctx) client_application outcome" where
  "client_signal_dispatcher n sig a =
     (if sig = SIGTSTP then Inr a
      else if sig = SIGHUP \<or> sig = SIGINT \<or> sig = SIGQUIT \<or> sig = SIGTERM then
        obind (reset_stdin a) (\<lambda>a1.
        obind (signalfd_stop (client_signalfd a1) (client_loop a1)) (\<lambda>l.
        obind (client_stop n (client a1)) (\<lambda>cl.
          Inr (a1\<lparr>client := cl, client_loop := loop_ask_to_stop l\<rparr>))))
      else Inl (Fatal ''unknown signal encountered''))"

section \<open>The client on its connection\<close>

text \<open>The read event of the connection, with what is printed threaded through.\<close>

definition client_read_event :: "nat \<Rightarrow> 'ctx client_io \<Rightarrow> 'ctx client_io outcome" where
  "client_read_event n io =
     obind (receive_all_data 0 (snd io)) (\<lambda>(count, c1).
     obind (if count \<noteq> 0 then client_message_callback (fst io, c1) else Inr (fst io, c1)) (\<lambda>(out, c2).
       if \<not> conn_reading c2 then
         let c3 = c2\<lparr>input_buffer := release_buf (input_buffer c2)\<rparr> in
         if \<not> is_write_end_shutdown c3 \<and> \<not> conn_writing c3
         then obind (shutdown_write n c3) (\<lambda>c4. Inr (out, c4)) else Inr (out, c3)
       else Inr (out, c2)))"

lemma client_read_event_agrees:
  assumes "client_read_event n (out, c) = Inr (out', c')"
  shows "read_event_callback n (\<lambda>now c1. map_sum id snd (client_message_callback (out, c1))) now c = Inr c'"
proof -
  obtain count c1 where r: "receive_all_data 0 c = Inr (count, c1)"
    using assms by (cases "receive_all_data 0 c") (auto simp: client_read_event_def)
  obtain out2 c2 where m: "(if count \<noteq> 0 then client_message_callback (out, c1) else Inr (out, c1)) = Inr (out2, c2)"
    using assms r by (cases "if count \<noteq> 0 then client_message_callback (out, c1) else Inr (out, c1)")
      (auto simp: client_read_event_def cong: if_cong)
  then have m': "(if count \<noteq> 0 then map_sum id snd (client_message_callback (out, c1)) else Inr c1) = Inr c2"
    by (auto split: if_splits)
  let ?c = "c2\<lparr>input_buffer := release_buf (input_buffer c2)\<rparr>"
  show ?thesis
  proof (cases "conn_reading c2")
    case True
    with assms r m m' show ?thesis by (simp add: client_read_event_def read_event_callback_def cong: if_cong)
  next
    case False
    with assms r m have "(if \<not> is_write_end_shutdown ?c \<and> \<not> conn_writing ?c then shutdown_write n ?c else Inr ?c) = Inr c'"
      by (auto simp: client_read_event_def Let_def obind_eq_Inr_iff cong: if_cong split: if_splits)
    with r m' False show ?thesis by (simp add: read_event_callback_def Let_def)
  qed
qed

datatype client_event = User_Types "string list" | Arrives string | Client_Can_Write

definition client_exec :: "nat \<Rightarrow> client_event \<Rightarrow> 'ctx client_io \<Rightarrow> 'ctx client_io outcome" where
  "client_exec n e io =
     (case e of
        User_Types ds \<Rightarrow> obind (stdin_loop n (map Typed ds @ [Stdin_Again]) (snd io)) (\<lambda>c. Inr (fst io, c))
      | Arrives data \<Rightarrow> client_read_event n (fst io, (snd io)\<lparr>recv_answers := [Got data]\<rparr>)
      | Client_Can_Write \<Rightarrow> obind (write_event_callback n (snd io)) (\<lambda>c. Inr (fst io, c)))"

fun client_run :: "nat \<Rightarrow> client_event list \<Rightarrow> 'ctx client_io \<Rightarrow> 'ctx client_io outcome" where
  "client_run n [] io = Inr io"
| "client_run n (e # es) io = obind (client_exec n e io) (client_run n es)"

fun typed_text :: "client_event list \<Rightarrow> string" where
  "typed_text [] = []"
| "typed_text (User_Types ds # es) = concat ds @ typed_text es"
| "typed_text (_ # es) = typed_text es"

fun arrived :: "client_event list \<Rightarrow> string" where
  "arrived [] = []"
| "arrived (Arrives data # es) = data @ arrived es"
| "arrived (_ # es) = arrived es"

section \<open>What is sent and printed\<close>

lemma typing_sends:
  "streaming sent c \<Longrightarrow> unpiped c \<Longrightarrow>
     \<exists>c'. stdin_loop n (map Typed ds @ [Stdin_Again]) c = Inr c' \<and> streaming (sent @ concat ds) c' \<and> unpiped c' \<and>
       input_buffer c' = input_buffer c"
proof (induction ds arbitrary: sent c)
  case (Cons d ds)
  obtain c1 where c1: "conn_send n d c = Inr c1" "streaming (sent @ d) c1" "unpiped c1" "input_buffer c1 = input_buffer c"
    using conn_send_unpiped [OF Cons.prems] by blast
  from Cons.IH [OF c1(2,3)] c1(1,4) show ?case by auto
qed simp

text \<open>Once the connection has been stopped, what is typed is dropped without a word.\<close>

lemma typed_after_close_is_lost: "conn_detached c \<Longrightarrow> stdin_loop n (map Typed ds @ [Stdin_Again]) c = Inr c"
  by (induction ds) (simp_all add: conn_send_def send_with_def)

lemma print_loop_lines:
  "streaming sent c \<Longrightarrow> unpiped c \<Longrightarrow> buffer_ok (input_buffer c) \<Longrightarrow> length (content (input_buffer c)) < k \<Longrightarrow>
     \<exists>c'. print_loop k (out, c) = Inr (out @ complete_lines (content (input_buffer c)), c') \<and> streaming sent c' \<and> unpiped c' \<and>
       buffer_ok (input_buffer c') \<and> content (input_buffer c') = last_line (content (input_buffer c))"
proof (induction k arbitrary: out c)
  case (Suc k)
  let ?b = "input_buffer c"
  have pos: "get_next_newline_position ?b = Inr (map_option (\<lambda>k. read_offset ?b + k) (first_newline (content ?b)))"
    using newline_position [OF Suc.prems(3)] .
  show ?case
  proof (cases "first_newline (content ?b)")
    case None
    then have "LF \<notin> set (content ?b)" using first_newline_cases [of "content ?b"] by simp
    then show ?thesis using no_newline [of "content ?b"] Suc.prems None pos by (simp add: print_round_def)
  next
    case (Some i)
    then obtain x y where xy: "content ?b = x @ LF # y" "length x = i" using first_newline_cases [of "content ?b"] by auto
    have data: "take (i + 1) (drop (get_read_position ?b) (chars ?b)) = x @ [LF]"
      using xy content_drop [OF Suc.prems(3)] by (simp add: get_read_position_def)
    let ?c = "c\<lparr>input_buffer := forward_read_position (i + 1) ?b\<rparr>"
    have round: "print_round (out, c) = Inr (Some (out @ x @ [LF], ?c))"
      using Some pos data by (simp add: print_round_def Let_def get_read_position_def)
    have b: "buffer_ok (input_buffer ?c)" "content (input_buffer ?c) = y"
      using Suc.prems(3) xy content_forward [OF Suc.prems(3), of "i + 1"] by simp_all
    have "streaming sent ?c" "unpiped ?c" using Suc.prems(1,2) by (simp_all add: streaming_def alive_def unpiped_def)
    then obtain c' where "print_loop k (out @ x @ [LF], ?c) = Inr ((out @ x @ [LF]) @ complete_lines y, c')" "streaming sent c'"
        "unpiped c'" "buffer_ok (input_buffer c')" "content (input_buffer c') = last_line y"
      using Suc.IH [of ?c "out @ x @ [LF]"] b Suc.prems(4) xy by auto
    then show ?thesis using round xy by (auto simp: complete_lines_cons last_line_cons)
  qed
qed simp

lemma client_exec_lines:
  assumes "streaming sent c" "unpiped c" "buffer_ok (input_buffer c)" "LF \<notin> set (content (input_buffer c))"
  shows "\<exists>c'. client_exec n e (out, c) = Inr (out @ complete_lines (content (input_buffer c) @ arrived [e]), c') \<and> unpiped c' \<and>
    buffer_ok (input_buffer c') \<and> streaming (sent @ typed_text [e]) c' \<and>
    content (input_buffer c') = last_line (content (input_buffer c) @ arrived [e])"
proof (cases e)
  case (User_Types ds)
  with typing_sends [OF assms(1,2), of n ds] assms(3) no_newline [OF assms(4)] show ?thesis
    by (auto simp: client_exec_def)
next
  case Client_Can_Write
  obtain c' where "write_event_callback n c = Inr c'" "streaming sent c'" "unpiped c'" "input_buffer c' = input_buffer c"
    using write_event_unpiped [OF assms(1,2)] by blast
  then show ?thesis using Client_Can_Write assms(3) no_newline [OF assms(4)] by (auto simp: client_exec_def)
next
  case (Arrives data)
  obtain b where b: "receive_all_data 0 (c\<lparr>recv_answers := [Got data]\<rparr>) = Inr (length data, c\<lparr>input_buffer := b, recv_answers := []\<rparr>)"
      "buffer_ok b" "content b = content (input_buffer c) @ data"
    using receive_one [of "c\<lparr>recv_answers := [Got data]\<rparr>" data] assms(3) by auto
  let ?c = "c\<lparr>input_buffer := b, recv_answers := []\<rparr>"
  have s: "streaming sent ?c" "unpiped ?c" using assms(1,2) by (simp_all add: unpiped_def)
  show ?thesis
  proof (cases "data = []")
    case True
    then have "client_exec n e (out, c) = Inr (out, ?c)"
      using Arrives b(1) assms(1) by (simp add: client_exec_def client_read_event_def streaming_def alive_def)
    then show ?thesis using Arrives True b s no_newline [OF assms(4)] by auto
  next
    case False
    from print_loop_lines [OF s, of "Suc (get_readable_size b)" out] length_content [OF b(2)] b
    obtain c' where c': "print_loop (Suc (get_readable_size b)) (out, ?c) = Inr (out @ complete_lines (content (input_buffer c) @ data), c')"
        "streaming sent c'" "unpiped c'" "buffer_ok (input_buffer c')"
        "content (input_buffer c') = last_line (content (input_buffer c) @ data)"
      by auto
    moreover have "conn_reading c'" using c'(2) by (simp add: streaming_def alive_def)
    ultimately have "client_exec n e (out, c) = Inr (out @ complete_lines (content (input_buffer c) @ data), c')"
      using Arrives b(1) False by (simp add: client_exec_def client_read_event_def client_message_callback_def del: print_loop.simps)
    with c' Arrives show ?thesis by simp
  qed
qed

lemma client_run_lines:
  "streaming sent c \<Longrightarrow> unpiped c \<Longrightarrow> buffer_ok (input_buffer c) \<Longrightarrow> LF \<notin> set (content (input_buffer c)) \<Longrightarrow>
     \<exists>c'. client_run n es (out, c) = Inr (out @ complete_lines (content (input_buffer c) @ arrived es), c') \<and>
       streaming (sent @ typed_text es) c'"
proof (induction es arbitrary: sent out c)
  case Nil
  then show ?case using no_newline [of "content (input_buffer c)"] by simp
next
  case (Cons e es)
  let ?s = "content (input_buffer c) @ arrived [e]"
  obtain c1 where c1: "client_exec n e (out, c) = Inr (out @ complete_lines ?s, c1)" "unpiped c1" "buffer_ok (input_buffer c1)"
      "streaming (sent @ typed_text [e]) c1" "content (input_buffer c1) = last_line ?s"
    using client_exec_lines [OF Cons.prems] by blast
  have "LF \<notin> set (content (input_buffer c1))" using c1(5) last_line_no_newline by simp
  from Cons.IH [OF c1(4,2,3) this, of "out @ complete_lines ?s"] c1(1,5)
  obtain c' where "client_run n (e # es) (out, c) = Inr ((out @ complete_lines ?s) @ complete_lines (last_line ?s @ arrived es), c')"
      "streaming ((sent @ typed_text [e]) @ typed_text es) c'" by auto
  moreover have "arrived (e # es) = arrived [e] @ arrived es" "typed_text (e # es) = typed_text [e] @ typed_text es"
    by (cases e; simp)+
  ultimately show ?case using complete_lines_append [of ?s "arrived es"] by (auto simp del: arrived.simps typed_text.simps)
qed

section \<open>A session with the server\<close>

lemma complete_lines_prefix: "prefix (complete_lines s) s"
  using complete_last [of s] by (metis prefixI)

lemma complete_lines_idem: "complete_lines (complete_lines s) = complete_lines s"
  by (simp add: complete_lines_def)



end
