(* ===== verification/Client_Main.thy ===== *)
theory Client_Main
  imports Echo_Client Server_Main
begin

text \<open>
  The program of example/echo/client/client.cc: \<^verbatim>\<open>main\<close> up to the call of \<^verbatim>\<open>loop()\<close>, the connecting socket and the
  standard input as descriptors of the loop through attempts, retries and success, and what a termination signal
  leaves behind. \<open>Tcp_Client\<close> has the phases of connecting without their descriptors; here they are put together.
\<close>

section \<open>Descriptors of the loop\<close>

definition with_poller ::
  "(event_poller \<Rightarrow> (pollable_fd \<times> event_poller) outcome) \<Rightarrow> 'f event_loop \<Rightarrow> (pollable_fd \<times> 'f event_loop) outcome" where
  "with_poller operation l = obind (operation (loop_poller l)) (\<lambda>(d, ep). Inr (d, l\<lparr>loop_poller := ep\<rparr>))"

abbreviation watched :: "'f event_loop \<Rightarrow> nat set" where
  "watched l \<equiv> dom (interest (loop_poller l))"

lemma register_on_loop:
  assumes "register_event_for_fd fd ev (loop_poller l) = Inr ep" "loop_ok l" "fd \<notin> own_fds l"
  shows "loop_ok (l\<lparr>loop_poller := ep\<rparr>)" "own_fds (l\<lparr>loop_poller := ep\<rparr>) = own_fds l"
    "watched (l\<lparr>loop_poller := ep\<rparr>) = insert fd (watched l)"
proof -
  have "serve_all [Register_Fd fd ev] l = Inr (l\<lparr>loop_poller := ep\<rparr>)" using assms(1) by simp
  from serve_all_loop_ok [OF this] assms(2,3) show "loop_ok (l\<lparr>loop_poller := ep\<rparr>)" by simp
  show "own_fds (l\<lparr>loop_poller := ep\<rparr>) = own_fds l" by (simp add: own_fds_def)
  have "poller_ok (loop_poller l)" using assms(2) by (simp add: loop_ok_def fds_ok_def)
  from register_known(2) [OF assms(1) this] show "watched (l\<lparr>loop_poller := ep\<rparr>) = insert fd (watched l)" by simp
qed

lemma enable_read_on_loop:
  assumes "with_poller (enable_read_event d) l = Inr (d', l')" "loop_ok l" "pfd_fd d \<notin> own_fds l" "\<not> is_reading d"
  shows "loop_ok l'" "own_fds l' = own_fds l" "watched l' = insert (pfd_fd d) (watched l)"
    "pfd_fd d' = pfd_fd d" "is_reading d'" "is_writing d' = is_writing d" "\<not> is_detached d'"
proof -
  obtain ep where ep: "register_event_for_fd (pfd_fd d) (event d OR EVENT_TYPE_READ) (loop_poller l) = Inr ep" "l' = l\<lparr>loop_poller := ep\<rparr>"
      "d' = d\<lparr>is_reading := True, event := event d OR EVENT_TYPE_READ, is_detached := False\<rparr>"
    using assms(1,4) by (auto simp: with_poller_def enable_read_event_def register_event_def obind_eq_Inr_iff)
  show "loop_ok l'" "own_fds l' = own_fds l" "watched l' = insert (pfd_fd d) (watched l)"
    using register_on_loop [OF ep(1) assms(2,3)] ep(2) by simp_all
  show "pfd_fd d' = pfd_fd d" "is_reading d'" "is_writing d' = is_writing d" "\<not> is_detached d'" using ep(3) by simp_all
qed

lemma enable_write_on_loop:
  assumes "with_poller (enable_write_event d) l = Inr (d', l')" "loop_ok l" "pfd_fd d \<notin> own_fds l" "\<not> is_writing d"
  shows "loop_ok l'" "own_fds l' = own_fds l" "watched l' = insert (pfd_fd d) (watched l)"
    "pfd_fd d' = pfd_fd d" "is_writing d'" "is_reading d' = is_reading d" "\<not> is_detached d'"
proof -
  obtain ep where ep: "register_event_for_fd (pfd_fd d) (event d OR EVENT_TYPE_WRITE) (loop_poller l) = Inr ep" "l' = l\<lparr>loop_poller := ep\<rparr>"
      "d' = d\<lparr>is_writing := True, event := event d OR EVENT_TYPE_WRITE, is_detached := False\<rparr>"
    using assms(1,4) by (auto simp: with_poller_def enable_write_event_def register_event_def obind_eq_Inr_iff)
  show "loop_ok l'" "own_fds l' = own_fds l" "watched l' = insert (pfd_fd d) (watched l)"
    using register_on_loop [OF ep(1) assms(2,3)] ep(2) by simp_all
  show "pfd_fd d' = pfd_fd d" "is_writing d'" "is_reading d' = is_reading d" "\<not> is_detached d'" using ep(3) by simp_all
qed

lemma detach_on_loop:
  assumes "loop_ok l" "pfd_fd d \<notin> own_fds l" "\<not> is_detached d \<longrightarrow> pfd_fd d \<in> watched l"
    "is_detached d \<longrightarrow> pfd_fd d \<notin> watched l \<and> \<not> is_reading d \<and> \<not> is_writing d"
  shows "\<exists>d' l'. with_poller (detach_from_poller d) l = Inr (d', l') \<and> loop_ok l' \<and> own_fds l' = own_fds l \<and>
    watched l' = watched l - {pfd_fd d} \<and> pfd_fd d' = pfd_fd d \<and> is_detached d' \<and> \<not> is_reading d' \<and> \<not> is_writing d' \<and>
    loop_timers l' = loop_timers l \<and> stop_asked l' = stop_asked l"
proof (cases "is_detached d")
  case True
  then have "with_poller (detach_from_poller d) l = Inr (d, l)" by (simp add: with_poller_def detach_from_poller_def)
  with True assms show ?thesis by auto
next
  case False
  have "poller_ok (loop_poller l)" using assms(1) by (simp add: loop_ok_def fds_ok_def)
  moreover have "pfd_fd d \<in> watched l" using assms(3) False by blast
  ultimately have len: "pfd_fd d < length (fds_that_are_listening_on (loop_poller l))" by (auto simp: poller_ok_def)
  from detach_ok [OF assms(1,2) len] obtain ep where ep: "detach_fd (pfd_fd d) (loop_poller l) = Inr ep" "loop_ok (l\<lparr>loop_poller := ep\<rparr>)"
      "interest ep = (interest (loop_poller l))(pfd_fd d := None)"
    by (auto simp: obind_eq_Inr_iff)
  have "own_fds (l\<lparr>loop_poller := ep\<rparr>) = own_fds l" by (simp add: own_fds_def)
  moreover have "watched (l\<lparr>loop_poller := ep\<rparr>) = watched l - {pfd_fd d}" using ep(3) by simp
  moreover have "with_poller (detach_from_poller d) l =
      Inr (d\<lparr>is_detached := True, is_reading := False, is_writing := False, event := initial_epoll_event d\<rparr>, l\<lparr>loop_poller := ep\<rparr>)"
    using False ep(1) by (simp add: with_poller_def detach_from_poller_def Let_def)
  ultimately show ?thesis using ep(2) by simp
qed

text \<open>Closing a descriptor that is not watched changes nothing for the poller.\<close>

lemma close_unwatched: "fd \<notin> dom (interest ep) \<Longrightarrow> close_fd fd ep = ep"
  by (simp add: close_fd_def fun_upd_idem domIff)

section \<open>Connecting on the loop\<close>

text \<open>\<open>connecting_fd\<close> is the descriptor of the connecting socket and, once it has succeeded, of the connection.\<close>

record ('f, 'ctx) client_process =
  client_signal_mask :: "int set"
  client_listened_signals :: signal_set
  client_log_settings :: log_settings
  client_app :: "('f, 'ctx) client_application"
  connecting_fd :: pollable_fd

text \<open>The callback for a successful connection makes the standard input a descriptor of the loop.\<close>

definition connect_success :: "('f, 'ctx) client_application \<Rightarrow> ('f, 'ctx) client_application outcome" where
  "connect_success a =
     obind new_stdinfd (\<lambda>d.
     obind (reset_stdin a) (\<lambda>a1.
     obind (with_poller (stdinfd_start d) (client_loop a1)) (\<lambda>(d', l).
       Inr (a1\<lparr>stdin_ptr := Some d', client_loop := l\<rparr>))))"

text \<open>The connection takes the descriptor over and starts to read, after the callback of the user.\<close>

definition connected :: "pollable_fd \<Rightarrow> ('f, 'ctx) client_process \<Rightarrow> ('f, 'ctx) client_process outcome" where
  "connected d p =
     obind (new_pollable_fd (int (pfd_fd d)) True) (\<lambda>d1.
     obind (connect_success (client_app p)) (\<lambda>a.
     obind (with_poller (enable_read_event d1) (client_loop a)) (\<lambda>(d2, l).
       Inr (p\<lparr>client_app := a\<lparr>client_loop := l\<rparr>, connecting_fd := d2\<rparr>))))"

text \<open>
  \<^verbatim>\<open>_schedule_retry\<close>: the descriptor is given up or replaced by a new socket, and a timer is asked for;
  \<open>pre\<close> is the state before, \<open>try_again\<close> the functor of the timer.
\<close>

definition schedule_retry_on_loop ::
  "int \<Rightarrow> int \<Rightarrow> nat \<Rightarrow> preconnect \<Rightarrow> pollable_fd \<Rightarrow> 'f event_loop \<Rightarrow> (pollable_fd \<times> 'f event_loop) outcome" where
  "schedule_retry_on_loop new_socket now try_again pre d l =
     (if number_of_retries pre \<ge> MAX_NUMBER_OF_RETRIES pre then
        obind (with_poller (detach_from_poller d) l) (\<lambda>(d', l').
          Inr (d', l'\<lparr>loop_poller := close_fd (pfd_fd d') (loop_poller l')\<rparr>))
      else
        obind (create_socketfd new_socket) (\<lambda>fd.
        obind (with_poller (reset_to (int fd) d) l) (\<lambda>(d', l').
        obind (serve (Timer_Request (Run_After now (min MAX_RETRY_TIME_INTERVAL (current_retry_time_interval pre)) 0 0 try_again)) l')
          (\<lambda>l''. Inr (d', l'')))))"

datatype connecting_event =
    Try_Once connect_answer int int nat
  | Writable_Event bool int int nat

text \<open>
  One event of the connecting socket: its descriptor and its phase (\<open>client_event\<close>) move together. Each carries the
  answer of the kernel, the socket a retry would get, the time and the functor of the timer.
\<close>

definition connecting_exec :: "connecting_event \<Rightarrow> ('f, 'ctx) client_process \<Rightarrow> ('f, 'ctx) client_process outcome" where
  "connecting_exec e p =
     (let a = client_app p; d = connecting_fd p; l = client_loop a in
      case preconnect_ptr (client a) of
        None \<Rightarrow> Inr p
      | Some pre \<Rightarrow>
          (case e of
             Try_Once answer new_socket now try_again \<Rightarrow>
               if \<not> (try_posted pre \<or> timer_pending pre) then Inr p
               else
                 obind (case answer of
                          Connect_Ok \<Rightarrow> with_poller (detach_from_poller d) l
                        | In_Progress \<Rightarrow> with_poller (enable_write_event d) l
                        | Retryable \<Rightarrow> schedule_retry_on_loop new_socket now try_again pre d l
                        | _ \<Rightarrow> Inr (d, l)) (\<lambda>(d', l').
                 obind (client_event (Attempt answer) (client a)) (\<lambda>cl.
                   let p' = p\<lparr>client_app := a\<lparr>client_loop := l', client := cl\<rparr>, connecting_fd := d'\<rparr>
                   in if answer = Connect_Ok then connected d' p' else Inr p'))
           | Writable_Event ok new_socket now try_again \<Rightarrow>
               if \<not> awaiting_write pre then Inr p
               else
                 obind (if ok then with_poller (detach_from_poller d) l
                        else schedule_retry_on_loop new_socket now try_again pre d l) (\<lambda>(d', l').
                 obind (client_event (Writable ok) (client a)) (\<lambda>cl.
                   let p' = p\<lparr>client_app := a\<lparr>client_loop := l', client := cl\<rparr>, connecting_fd := d'\<rparr>
                   in if ok then connected d' p' else Inr p'))))"

fun connecting_run :: "connecting_event list \<Rightarrow> ('f, 'ctx) client_process \<Rightarrow> ('f, 'ctx) client_process outcome" where
  "connecting_run [] p = Inr p"
| "connecting_run (e # es) p = obind (connecting_exec e p) (connecting_run es)"

section \<open>The program\<close>

text \<open>The client with the callbacks \<^verbatim>\<open>main\<close> registers; there is none for the close of the connection.\<close>

definition echo_tcp_client :: "'ctx tcp_client" where
  "echo_tcp_client =
     \<lparr>cl_started = False, cl_stopped = False, cl_message_callback = True, cl_write_complete_callback = None,
      cl_close_callback = False, cl_connect_success_callback = id, cl_connect_fail_callback = True,
      preconnect_ptr = None, connection_ptr = None\<rparr>"

text \<open>
  \<^verbatim>\<open>main\<close> up to \<^verbatim>\<open>loop()\<close>. The main thread owns the loop, so that \<^verbatim>\<open>start\<close> makes the first attempt at once, with the
  outcome \<open>first\<close>.
\<close>

definition client_main ::
  "kernel \<Rightarrow> (nat \<Rightarrow> string \<Rightarrow> 'ip option) \<Rightarrow> nat \<Rightarrow> int \<Rightarrow> connecting_event \<Rightarrow> int set \<Rightarrow> ('f, 'ctx) client_process outcome" where
  "client_main k pton yell now first sigmask =
     obind (begin_program k pton 1 (fst (open_file_limits k)) yell now sigmask) (\<lambda>(sigmask', S, sfd, l).
     obind (create_socketfd (socket_call k)) (\<lambda>fd.
     obind (new_pollable_fd (int fd) True) (\<lambda>d.
     obind (client_start echo_tcp_client) (\<lambda>cl.
       connecting_exec first
         \<lparr>client_signal_mask = sigmask', client_listened_signals = S,
          client_log_settings = \<lparr>log_base_name = ''echo-client'', need_output_directly_to_terminal = False, log_level_mask = FATAL\<rparr>,
          client_app = \<lparr>client_loop = l, client = cl, client_signalfd = sfd, stdin_ptr = None\<rparr>,
          connecting_fd = d\<lparr>has_write_callback := True\<rparr>\<rparr>))))"

section \<open>Descriptors follow the phases\<close>

text \<open>
  The loop watches its own descriptors, the signals, the connecting socket or connection unless it is detached, and the
  standard input once there is a connection. While connecting, the descriptor is watched exactly when the outcome of
  an attempt is awaited.
\<close>

definition phase_ok :: "('f, 'ctx) client_process \<Rightarrow> bool" where
  "phase_ok p \<longleftrightarrow>
     (let cl = client (client_app p); d = connecting_fd p in
      cl_connect_success_callback cl = id \<and>
      (case preconnect_ptr cl of
         None \<Rightarrow> True
       | Some pre \<Rightarrow>
           stdin_ptr (client_app p) = None \<and> connection_ptr cl = None \<and> cl_message_callback cl \<and> \<not> is_reading d \<and>
           is_writing d = awaiting_write pre \<and> is_detached d = (\<not> awaiting_write pre) \<and>
           (awaiting_write pre \<longrightarrow> \<not> try_posted pre \<and> \<not> timer_pending pre)))"

definition client_fds_ok :: "('f, 'ctx) client_process \<Rightarrow> bool" where
  "client_fds_ok p \<longleftrightarrow>
     (let a = client_app p; l = client_loop a; d = connecting_fd p in
      loop_ok l \<and> client_signalfd a \<notin> own_fds l \<and> pfd_fd d \<notin> own_fds l \<and> 0 \<notin> own_fds l \<and>
      distinct [pfd_fd d, client_signalfd a, 0] \<and>
      (\<forall>d'. stdin_ptr a = Some d' \<longrightarrow> pfd_fd d' = 0 \<and> \<not> is_detached d') \<and>
      watched l = own_fds l \<union> {client_signalfd a} \<union> (if is_detached d then {} else {pfd_fd d}) \<union>
        (if stdin_ptr a = None then {} else {0}))"

text \<open>The descriptor of the connecting socket while the client is connecting.\<close>

lemma connecting_fd_state:
  assumes "client_fds_ok p" "phase_ok p" "preconnect_ptr (client (client_app p)) = Some pre"
  shows "loop_ok (client_loop (client_app p))" "pfd_fd (connecting_fd p) \<notin> own_fds (client_loop (client_app p))"
    "\<not> is_detached (connecting_fd p) \<longrightarrow> pfd_fd (connecting_fd p) \<in> watched (client_loop (client_app p))"
    "is_detached (connecting_fd p) \<longrightarrow> pfd_fd (connecting_fd p) \<notin> watched (client_loop (client_app p)) \<and>
       \<not> is_reading (connecting_fd p) \<and> \<not> is_writing (connecting_fd p)"
    "watched (client_loop (client_app p)) - {pfd_fd (connecting_fd p)} =
       insert (client_signalfd (client_app p)) (own_fds (client_loop (client_app p)))"
    "stdin_ptr (client_app p) = None"
  using assms by (auto simp: client_fds_ok_def phase_ok_def Let_def)

lemma moved_fd_ok:
  assumes "client_fds_ok p" "stdin_ptr (client_app p) = None" "loop_ok l" "own_fds l = own_fds (client_loop (client_app p))"
    "watched l = insert (client_signalfd (client_app p)) (own_fds l) \<union> (if is_detached d then {} else {pfd_fd d})"
    "pfd_fd d \<notin> own_fds l \<union> {client_signalfd (client_app p), 0}"
  shows "client_fds_ok (p\<lparr>client_app := (client_app p)\<lparr>client_loop := l, client := cl\<rparr>, connecting_fd := d\<rparr>)"
  using assms by (auto simp: client_fds_ok_def Let_def)

lemma reset_on_loop:
  assumes "with_poller (reset_to (int fd) d) l = Inr (d', l')" "loop_ok l" "pfd_fd d \<notin> own_fds l" "\<not> is_detached d \<longrightarrow> pfd_fd d \<in> watched l"
    "is_detached d \<longrightarrow> pfd_fd d \<notin> watched l \<and> \<not> is_reading d \<and> \<not> is_writing d"
  shows "loop_ok l'" "own_fds l' = own_fds l" "watched l' = watched l - {pfd_fd d}" "pfd_fd d' = fd"
    "is_detached d'" "\<not> is_reading d'" "\<not> is_writing d'"
proof -
  obtain d1 l1 where d1: "with_poller (detach_from_poller d) l = Inr (d1, l1)" "loop_ok l1" "own_fds l1 = own_fds l"
      "watched l1 = watched l - {pfd_fd d}" "pfd_fd d1 = pfd_fd d" "is_detached d1" "\<not> is_reading d1" "\<not> is_writing d1"
    using detach_on_loop [OF assms(2-5)] by blast
  then obtain ep where ep: "detach_from_poller d (loop_poller l) = Inr (d1, ep)" "l1 = l\<lparr>loop_poller := ep\<rparr>"
    by (auto simp: with_poller_def obind_eq_Inr_iff)
  then have "close_fd (pfd_fd d1) ep = ep" using d1(4,5) by (intro close_unwatched) simp
  with assms(1) ep have r: "d' = d1\<lparr>pfd_fd := fd\<rparr>" "l' = l1" by (auto simp: with_poller_def reset_to_def)
  show "loop_ok l'" "own_fds l' = own_fds l" "watched l' = watched l - {pfd_fd d}" using d1(2-4) by (simp_all add: r)
  show "pfd_fd d' = fd" "is_detached d'" "\<not> is_reading d'" "\<not> is_writing d'" using d1(6-8) by (simp_all add: r)
qed

lemma retry_on_loop:
  assumes "schedule_retry_on_loop new_socket now try_again pre d l = Inr (d', l')" "loop_ok l" "pfd_fd d \<notin> own_fds l"
    "\<not> is_detached d \<longrightarrow> pfd_fd d \<in> watched l"
    "is_detached d \<longrightarrow> pfd_fd d \<notin> watched l \<and> \<not> is_reading d \<and> \<not> is_writing d"
  shows "loop_ok l'" "own_fds l' = own_fds l" "watched l' = watched l - {pfd_fd d}" "pfd_fd d' \<in> {pfd_fd d, nat new_socket}"
    "is_detached d'" "\<not> is_reading d'" "\<not> is_writing d'"
proof -
  have "loop_ok l' \<and> own_fds l' = own_fds l \<and> watched l' = watched l - {pfd_fd d} \<and> pfd_fd d' \<in> {pfd_fd d, nat new_socket} \<and>
    is_detached d' \<and> \<not> is_reading d' \<and> \<not> is_writing d'"
  proof (cases "number_of_retries pre \<ge> MAX_NUMBER_OF_RETRIES pre")
    case True
    obtain d1 l1 where d1: "with_poller (detach_from_poller d) l = Inr (d1, l1)" "loop_ok l1" "own_fds l1 = own_fds l"
        "watched l1 = watched l - {pfd_fd d}" "pfd_fd d1 = pfd_fd d" "is_detached d1" "\<not> is_reading d1" "\<not> is_writing d1"
      using detach_on_loop [OF assms(2-5)] by blast
    then have "close_fd (pfd_fd d1) (loop_poller l1) = loop_poller l1" by (intro close_unwatched) simp
    with assms(1) True d1 show ?thesis by (auto simp: schedule_retry_on_loop_def)
  next
    case False
    then obtain fd l1 where r: "create_socketfd new_socket = Inr fd" "with_poller (reset_to (int fd) d) l = Inr (d', l1)"
        "serve (Timer_Request (Run_After now (min MAX_RETRY_TIME_INTERVAL (current_retry_time_interval pre)) 0 0 try_again)) l1 = Inr l'"
      using assms(1) by (auto simp: schedule_retry_on_loop_def obind_eq_Inr_iff simp del: serve.simps)
    note reset = reset_on_loop [OF r(2) assms(2-5)]
    have s: "serve_all [Timer_Request (Run_After now (min MAX_RETRY_TIME_INTERVAL (current_retry_time_interval pre)) 0 0 try_again)] l1 = Inr l'"
      using r(3) by simp
    have "loop_ok l' \<and> kept l1 l'" using serve_all_loop_ok [OF s] reset(1) by simp
    moreover have "loop_poller l' = loop_poller l1" using r(3) by (auto simp: obind_eq_Inr_iff)
    ultimately show ?thesis using reset r(1) by (auto simp: kept_def own_fds_def create_socketfd_def split: if_splits)
  qed
  then show "loop_ok l'" "own_fds l' = own_fds l" "watched l' = watched l - {pfd_fd d}" "pfd_fd d' \<in> {pfd_fd d, nat new_socket}"
    "is_detached d'" "\<not> is_reading d'" "\<not> is_writing d'" by simp_all
qed

lemma connected_ok:
  assumes "connected (connecting_fd p) p = Inr p'" "client_fds_ok p" "is_detached (connecting_fd p)" "stdin_ptr (client_app p) = None"
  shows "client_fds_ok p'" "client (client_app p') = client (client_app p)" "stdin_ptr (client_app p') \<noteq> None"
    "pfd_fd (connecting_fd p') = pfd_fd (connecting_fd p)" "\<not> is_detached (connecting_fd p')"
    "own_fds (client_loop (client_app p')) = own_fds (client_loop (client_app p))"
    "client_signalfd (client_app p') = client_signalfd (client_app p)"
proof -
  let ?a = "client_app p"
  let ?l = "client_loop ?a"
  obtain d1 d2 d3 d4 l1 l2 where r: "new_pollable_fd (int (pfd_fd (connecting_fd p))) True = Inr d1" "new_stdinfd = Inr d3"
      "with_poller (stdinfd_start d3) ?l = Inr (d4, l1)" "with_poller (enable_read_event d1) l1 = Inr (d2, l2)"
      "p' = p\<lparr>client_app := ?a\<lparr>stdin_ptr := Some d4, client_loop := l2\<rparr>, connecting_fd := d2\<rparr>"
    using assms(1,4) by (auto simp: connected_def connect_success_def reset_stdin_def obind_eq_Inr_iff)
  have d1: "pfd_fd d1 = pfd_fd (connecting_fd p)" "\<not> is_reading d1" using r(1) by (auto simp: new_pollable_fd_def Let_def)
  let ?d3 = "d3\<lparr>has_read_callback := True\<rparr>"
  have d3: "pfd_fd ?d3 = 0" "\<not> is_reading ?d3" using r(2) by (auto simp: new_stdinfd_def new_pollable_fd_def Let_def)
  have start: "with_poller (enable_read_event ?d3) ?l = Inr (d4, l1)"
    using r(3) by (simp add: with_poller_def stdinfd_start_def)
  have ok: "loop_ok ?l" "0 \<notin> own_fds ?l" "pfd_fd (connecting_fd p) \<notin> own_fds ?l"
    using assms(2) by (auto simp: client_fds_ok_def Let_def)
  note in0 = enable_read_on_loop [OF start ok(1) _ d3(2), unfolded d3(1), OF ok(2)]
  note in1 = enable_read_on_loop [OF r(4) in0(1) _ d1(2), unfolded d1(1) in0(2), OF ok(3)]
  show "client_fds_ok p'"
    using assms(2-4) in0 in1 by (auto simp: r(5) client_fds_ok_def Let_def)
  show "client (client_app p') = client (client_app p)" "stdin_ptr (client_app p') \<noteq> None"
    "pfd_fd (connecting_fd p') = pfd_fd (connecting_fd p)" "\<not> is_detached (connecting_fd p')"
    "own_fds (client_loop (client_app p')) = own_fds (client_loop (client_app p))"
    "client_signalfd (client_app p') = client_signalfd (client_app p)"
    using in0 in1 by (simp_all add: r(5))
qed

text \<open>What the phases do, with the client's own state.\<close>

lemma client_connects:
  assumes "preconnect_ptr cl = Some pre" "cl_message_callback cl" "cl_connect_success_callback cl = id"
    "preconnect_exec e pre = Inr pre'" "new_connection_calls pre' > new_connection_calls pre" "client_event e cl = Inr cl'"
  shows "preconnect_ptr cl' = None" "cl_connect_success_callback cl' = id"
proof -
  have "client_new_connection_callback (cl\<lparr>preconnect_ptr := Some pre'\<rparr>) = Inr cl'"
    using assms by (simp add: client_event_def)
  then show "preconnect_ptr cl' = None" "cl_connect_success_callback cl' = id"
    using assms(3) by (auto simp: client_new_connection_callback_def Let_def obind_eq_Inr_iff)
qed

lemma client_waits:
  assumes "preconnect_ptr cl = Some pre" "preconnect_exec e pre = Inr pre'" "new_connection_calls pre' = new_connection_calls pre"
  shows "client_event e cl = Inr (cl\<lparr>preconnect_ptr := Some pre'\<rparr>)"
  using assms by (simp add: client_event_def)

lemma schedule_retry_frame:
  assumes "schedule_retry pre = Inr pre'"
  shows "new_connection_calls pre' = new_connection_calls pre" "\<not> awaiting_write pre'"
  using assms by (auto simp: schedule_retry_def call_connect_fail_def obind_eq_Inr_iff split: if_splits)

text \<open>A new socket is none of the descriptors in use.\<close>

fun new_socket_of :: "connecting_event \<Rightarrow> int" where
  "new_socket_of (Try_Once answer s now try_again) = s"
| "new_socket_of (Writable_Event ok s now try_again) = s"

definition fresh_socket :: "nat set \<Rightarrow> nat \<Rightarrow> connecting_event \<Rightarrow> bool" where
  "fresh_socket own sfd e \<longleftrightarrow> nat (new_socket_of e) \<notin> own \<union> {sfd, 0}"

definition same_places :: "('f, 'ctx) client_process \<Rightarrow> ('f, 'ctx) client_process \<Rightarrow> bool" where
  "same_places p p' \<longleftrightarrow>
     own_fds (client_loop (client_app p')) = own_fds (client_loop (client_app p)) \<and>
     client_signalfd (client_app p') = client_signalfd (client_app p) \<and>
     client_signal_mask p' = client_signal_mask p \<and> client_listened_signals p' = client_listened_signals p"

lemma connected_frame: "connected d p = Inr p' \<Longrightarrow>
    client_signal_mask p' = client_signal_mask p \<and> client_listened_signals p' = client_listened_signals p"
  by (auto simp: connected_def obind_eq_Inr_iff)

text \<open>An attempt or write event that succeeds: the descriptor is detached, then the connection and the input are added.\<close>

lemma succeeds_ok:
  assumes "client_fds_ok p" "phase_ok p" "preconnect_ptr (client (client_app p)) = Some pre"
    and "with_poller (detach_from_poller (connecting_fd p)) (client_loop (client_app p)) = Inr (d', l')"
    and "preconnect_exec e pre = Inr pre'" "new_connection_calls pre' > new_connection_calls pre"
    and "client_event e (client (client_app p)) = Inr cl"
    and "connected d' (p\<lparr>client_app := (client_app p)\<lparr>client_loop := l', client := cl\<rparr>, connecting_fd := d'\<rparr>) = Inr p'"
  shows "client_fds_ok p'" "phase_ok p'" "same_places p p'"
proof -
  note st = connecting_fd_state [OF assms(1-3)]
  have d: "loop_ok l'" "own_fds l' = own_fds (client_loop (client_app p))"
      "watched l' = watched (client_loop (client_app p)) - {pfd_fd (connecting_fd p)}" "pfd_fd d' = pfd_fd (connecting_fd p)" "is_detached d'"
    using detach_on_loop [OF st(1-4)] assms(4) by auto
  let ?p = "p\<lparr>client_app := (client_app p)\<lparr>client_loop := l', client := cl\<rparr>, connecting_fd := d'\<rparr>"
  have fresh: "pfd_fd d' \<notin> own_fds l' \<union> {client_signalfd (client_app p), 0}"
    using assms(1) d by (auto simp: client_fds_ok_def Let_def)
  have "watched l' = insert (client_signalfd (client_app p)) (own_fds l') \<union> (if is_detached d' then {} else {pfd_fd d'})"
    using st(5) d(2,3,5) by simp
  note moved = moved_fd_ok [OF assms(1) st(6) d(1,2) this fresh]
  have "connected (connecting_fd ?p) ?p = Inr p'" "is_detached (connecting_fd ?p)" "stdin_ptr (client_app ?p) = None"
    using assms(8) d(5) st(6) by simp_all
  note c = connected_ok [OF this(1) moved this(2,3)]
  show "client_fds_ok p'" by (rule c(1))
  have "preconnect_ptr cl = None" "cl_connect_success_callback cl = id"
    using client_connects [OF assms(3) _ _ assms(5,6,7)] assms(2,3) by (simp_all add: phase_ok_def Let_def)
  then show "phase_ok p'" using c(2) by (simp add: phase_ok_def Let_def)
  show "same_places p p'" using c(6,7) d(2) connected_frame [OF assms(8)] by (simp add: same_places_def)
qed

text \<open>An event after which the client goes on waiting, with the descriptor where \<open>d'\<close> says.\<close>

lemma waits_ok:
  assumes "client_fds_ok p" "phase_ok p" "preconnect_ptr (client (client_app p)) = Some pre"
    and "preconnect_exec e pre = Inr pre'" "new_connection_calls pre' = new_connection_calls pre"
    and "client_event e (client (client_app p)) = Inr cl"
    and "loop_ok l'" "own_fds l' = own_fds (client_loop (client_app p))"
    and "watched l' = watched (client_loop (client_app p)) - {pfd_fd (connecting_fd p)} \<union> (if is_detached d' then {} else {pfd_fd d'})"
    and "pfd_fd d' = pfd_fd (connecting_fd p) \<or> pfd_fd d' \<notin> own_fds l' \<union> {client_signalfd (client_app p), 0}"
    and "\<not> is_reading d'" "is_writing d' = awaiting_write pre'" "is_detached d' = (\<not> awaiting_write pre')"
    and "awaiting_write pre' \<longrightarrow> \<not> try_posted pre' \<and> \<not> timer_pending pre'"
  shows "client_fds_ok (p\<lparr>client_app := (client_app p)\<lparr>client_loop := l', client := cl\<rparr>, connecting_fd := d'\<rparr>)"
    "phase_ok (p\<lparr>client_app := (client_app p)\<lparr>client_loop := l', client := cl\<rparr>, connecting_fd := d'\<rparr>)"
    "same_places p (p\<lparr>client_app := (client_app p)\<lparr>client_loop := l', client := cl\<rparr>, connecting_fd := d'\<rparr>)"
proof -
  note st = connecting_fd_state [OF assms(1-3)]
  have cl: "cl = (client (client_app p))\<lparr>preconnect_ptr := Some pre'\<rparr>"
    using client_waits [OF assms(3-5)] assms(6) by simp
  have fresh: "pfd_fd d' \<notin> own_fds l' \<union> {client_signalfd (client_app p), 0}"
    using assms(1,8,10) by (auto simp: client_fds_ok_def Let_def)
  have "watched l' = insert (client_signalfd (client_app p)) (own_fds l') \<union> (if is_detached d' then {} else {pfd_fd d'})"
    using st(5) assms(8,9) by simp
  from moved_fd_ok [OF assms(1) st(6) assms(7,8) this fresh]
  show "client_fds_ok (p\<lparr>client_app := (client_app p)\<lparr>client_loop := l', client := cl\<rparr>, connecting_fd := d'\<rparr>)" .
  show "phase_ok (p\<lparr>client_app := (client_app p)\<lparr>client_loop := l', client := cl\<rparr>, connecting_fd := d'\<rparr>)"
    using assms(2,3,11-14) by (simp add: phase_ok_def Let_def cl)
  show "same_places p (p\<lparr>client_app := (client_app p)\<lparr>client_loop := l', client := cl\<rparr>, connecting_fd := d'\<rparr>)"
    using assms(8) by (simp add: same_places_def)
qed

lemma try_once_ok:
  assumes "connecting_exec (Try_Once answer s now again) p = Inr p'" "client_fds_ok p" "phase_ok p"
    "fresh_socket (own_fds (client_loop (client_app p))) (client_signalfd (client_app p)) (Try_Once answer s now again)"
    "preconnect_ptr (client (client_app p)) = Some pre" "try_posted pre \<or> timer_pending pre"
  shows "client_fds_ok p' \<and> phase_ok p' \<and> same_places p p'"
proof -
  let ?a = "client_app p"
  let ?l = "client_loop ?a" and ?d = "connecting_fd p"
  let ?pre = "pre\<lparr>try_posted := False, timer_pending := False, attempts := attempts pre + 1\<rparr>"
  note st = connecting_fd_state [OF assms(2,3,5)]
  have idle: "\<not> awaiting_write pre" "is_detached ?d" "\<not> is_writing ?d" "\<not> is_reading ?d"
    using assms(3,5,6) by (auto simp: phase_ok_def Let_def)
  have out: "watched ?l - {pfd_fd ?d} = watched ?l" using st(4) idle(2) by simp
  have ex: "preconnect_exec (Attempt answer) pre = try_once answer ?pre" using assms(6) by (simp add: preconnect_exec_def)
  obtain d' l' cl where r: "(case answer of
                          Connect_Ok \<Rightarrow> with_poller (detach_from_poller ?d) ?l
                        | In_Progress \<Rightarrow> with_poller (enable_write_event ?d) ?l
                        | Retryable \<Rightarrow> schedule_retry_on_loop s now again pre ?d ?l
                        | _ \<Rightarrow> Inr (?d, ?l)) = Inr (d', l')" "client_event (Attempt answer) (client ?a) = Inr cl"
      "(if answer = Connect_Ok then connected d' (p\<lparr>client_app := ?a\<lparr>client_loop := l', client := cl\<rparr>, connecting_fd := d'\<rparr>)
        else Inr (p\<lparr>client_app := ?a\<lparr>client_loop := l', client := cl\<rparr>, connecting_fd := d'\<rparr>)) = Inr p'"
    using assms(1,5,6) by (auto simp: connecting_exec_def Let_def obind_eq_Inr_iff)
  note waits = waits_ok [OF assms(2,3,5) _ _ r(2)]
  show ?thesis
  proof (cases answer)
    case Connect_Ok
    have "preconnect_exec (Attempt Connect_Ok) pre = Inr (call_new_connection ?pre)"
      using ex Connect_Ok by (simp add: try_once_def)
    with succeeds_ok [OF assms(2,3,5) _ this _ _ ] r Connect_Ok show ?thesis by (simp add: call_new_connection_def)
  next
    case In_Progress
    have e: "with_poller (enable_write_event ?d) ?l = Inr (d', l')" using r(1) In_Progress by simp
    note en = enable_write_on_loop [OF e st(1,2) idle(3)]
    have "preconnect_exec (Attempt answer) pre = Inr (?pre\<lparr>awaiting_write := True\<rparr>)"
      using ex In_Progress by (simp add: try_once_def)
    from waits [OF this, of l' d'] en idle(4) out r(3) In_Progress show ?thesis by auto
  next
    case Retryable
    have e: "schedule_retry_on_loop s now again pre ?d ?l = Inr (d', l')" using r(1) Retryable by simp
    note re = retry_on_loop [OF e st(1-4)]
    obtain pre' where pre': "schedule_retry ?pre = Inr pre'"
      using r(2) assms(5) ex Retryable by (auto simp: client_event_def try_once_def obind_eq_Inr_iff)
    have ex': "preconnect_exec (Attempt answer) pre = Inr pre'" using ex pre' Retryable by (simp add: try_once_def)
    have fresh: "pfd_fd d' = pfd_fd ?d \<or> pfd_fd d' \<notin> own_fds l' \<union> {client_signalfd ?a, 0}"
      using re(2,4) assms(4) by (auto simp: fresh_socket_def)
    have w: "watched l' = watched ?l - {pfd_fd ?d} \<union> (if is_detached d' then {} else {pfd_fd d'})" using re(3,5) by simp
    from waits [OF ex' _ re(1,2) w fresh] schedule_retry_frame [OF pre'] re r(3) Retryable show ?thesis by simp
  next
    case Unknown_Error
    then show ?thesis using r(2) assms(5) ex by (simp add: client_event_def try_once_def)
  qed (use waits [of "call_connect_fail ?pre" l' d'] ex r st out idle in \<open>auto simp: try_once_def call_connect_fail_def\<close>)
qed

lemma writable_ok:
  assumes "connecting_exec (Writable_Event ok s now again) p = Inr p'" "client_fds_ok p" "phase_ok p"
    "fresh_socket (own_fds (client_loop (client_app p))) (client_signalfd (client_app p)) (Writable_Event ok s now again)"
    "preconnect_ptr (client (client_app p)) = Some pre" "awaiting_write pre"
  shows "client_fds_ok p' \<and> phase_ok p' \<and> same_places p p'"
proof -
  let ?a = "client_app p"
  let ?l = "client_loop ?a" and ?d = "connecting_fd p"
  note st = connecting_fd_state [OF assms(2,3,5)]
  have ex: "preconnect_exec (Writable ok) pre = preconnect_write_event_callback ok pre" using assms(6) by (simp add: preconnect_exec_def)
  obtain d' l' cl where r: "(if ok then with_poller (detach_from_poller ?d) ?l else schedule_retry_on_loop s now again pre ?d ?l) = Inr (d', l')"
      "client_event (Writable ok) (client ?a) = Inr cl"
      "(if ok then connected d' (p\<lparr>client_app := ?a\<lparr>client_loop := l', client := cl\<rparr>, connecting_fd := d'\<rparr>)
        else Inr (p\<lparr>client_app := ?a\<lparr>client_loop := l', client := cl\<rparr>, connecting_fd := d'\<rparr>)) = Inr p'"
    using assms(1,5,6) by (auto simp: connecting_exec_def Let_def obind_eq_Inr_iff)
  show ?thesis
  proof (cases ok)
    case True
    have "preconnect_exec (Writable True) pre = Inr (call_new_connection pre)"
      using ex True by (simp add: preconnect_write_event_callback_def)
    with succeeds_ok [OF assms(2,3,5) _ this _ _ ] r True show ?thesis by (simp add: call_new_connection_def)
  next
    case False
    have e: "schedule_retry_on_loop s now again pre ?d ?l = Inr (d', l')" using r(1) False by simp
    note re = retry_on_loop [OF e st(1-4)]
    obtain pre' where pre': "schedule_retry pre = Inr pre'"
      using r(2) assms(5) ex False by (auto simp: client_event_def preconnect_write_event_callback_def obind_eq_Inr_iff)
    have ex': "preconnect_exec (Writable ok) pre = Inr pre'" using ex pre' False by (simp add: preconnect_write_event_callback_def)
    have fresh: "pfd_fd d' = pfd_fd ?d \<or> pfd_fd d' \<notin> own_fds l' \<union> {client_signalfd ?a, 0}"
      using re(2,4) assms(4) by (auto simp: fresh_socket_def)
    have w: "watched l' = watched ?l - {pfd_fd ?d} \<union> (if is_detached d' then {} else {pfd_fd d'})" using re(3,5) by simp
    from waits_ok [OF assms(2,3,5) ex' _ r(2) re(1,2) w fresh] schedule_retry_frame [OF pre'] re r(3) False show ?thesis by simp
  qed
qed

lemma connecting_exec_ok:
  assumes "connecting_exec e p = Inr p'" "client_fds_ok p" "phase_ok p"
    "fresh_socket (own_fds (client_loop (client_app p))) (client_signalfd (client_app p)) e"
  shows "client_fds_ok p' \<and> phase_ok p' \<and> same_places p p'"
proof (cases "preconnect_ptr (client (client_app p))")
  case None
  with assms show ?thesis by (simp add: connecting_exec_def Let_def same_places_def)
next
  case (Some pre)
  show ?thesis
  proof (cases e)
    case (Try_Once answer s now again)
    show ?thesis
    proof (cases "try_posted pre \<or> timer_pending pre")
      case True
      with try_once_ok assms Some Try_Once show ?thesis by blast
    next
      case False
      with assms Some Try_Once show ?thesis by (simp add: connecting_exec_def Let_def same_places_def)
    qed
  next
    case (Writable_Event ok s now again)
    show ?thesis
    proof (cases "awaiting_write pre")
      case True
      with writable_ok assms Some Writable_Event show ?thesis by blast
    next
      case False
      with assms Some Writable_Event show ?thesis by (simp add: connecting_exec_def Let_def same_places_def)
    qed
  qed
qed

lemma connecting_run_ok:
  assumes "connecting_run es p = Inr p'" "client_fds_ok p" "phase_ok p"
    "\<forall>e \<in> set es. fresh_socket (own_fds (client_loop (client_app p))) (client_signalfd (client_app p)) e"
  shows "client_fds_ok p' \<and> phase_ok p' \<and> same_places p p'"
  using assms
proof (induction es arbitrary: p)
  case (Cons e es)
  then obtain p1 where p1: "connecting_exec e p = Inr p1" "connecting_run es p1 = Inr p'" by (auto simp: obind_eq_Inr_iff)
  have "client_fds_ok p1 \<and> phase_ok p1 \<and> same_places p p1" using connecting_exec_ok [OF p1(1)] Cons.prems by simp
  with Cons.IH [OF p1(2)] Cons.prems(4) show ?case by (simp add: same_places_def)
qed (simp add: same_places_def)

section \<open>From main to a termination signal\<close>

definition fresh_client_fds :: "kernel \<Rightarrow> bool" where
  "fresh_client_fds k \<longleftrightarrow>
     fresh_fds k \<and> 1 \<le> length (eventfd_calls k) \<and> 0 \<notin> set (timerfd_call k # eventfd_calls k) \<and> nat (socket_call k) \<noteq> 0 \<and>
     (\<forall>S flags. nat (fst (signalfd_call k S flags)) \<noteq> 0)"

text \<open>The sockets of retries are none of the descriptors of the loop and of the signals.\<close>

definition fresh_retries :: "kernel \<Rightarrow> connecting_event list \<Rightarrow> bool" where
  "fresh_retries k es \<longleftrightarrow>
     (\<forall>e \<in> set es. \<forall>S flags. nat (new_socket_of e) \<notin>
        {0, timerfd_call k, nat (fst (signalfd_call k S flags))} \<union> set (eventfd_calls k))"

lemma client_main_ok:
  assumes "client_main k pton yell now first sigmask = Inr p" "fresh_client_fds k" "fresh_retries k (first # es)"
  shows "client_fds_ok p" "phase_ok p" "set (client_listened_signals p) = {sig. handled sig}" "{sig. handled sig} \<subseteq> client_signal_mask p"
    "\<forall>e \<in> set es. fresh_socket (own_fds (client_loop (client_app p))) (client_signalfd (client_app p)) e"
proof -
  obtain sigmask' S sfd l fd d cl where r: "begin_program k pton 1 (fst (open_file_limits k)) yell now sigmask = Inr (sigmask', S, sfd, l)"
      "create_socketfd (socket_call k) = Inr fd" "new_pollable_fd (int fd) True = Inr d" "client_start echo_tcp_client = Inr cl"
      "connecting_exec first
         \<lparr>client_signal_mask = sigmask', client_listened_signals = S,
          client_log_settings = \<lparr>log_base_name = ''echo-client'', need_output_directly_to_terminal = False, log_level_mask = FATAL\<rparr>,
          client_app = \<lparr>client_loop = l, client = cl, client_signalfd = sfd, stdin_ptr = None\<rparr>,
          connecting_fd = d\<lparr>has_write_callback := True\<rparr>\<rparr> = Inr p"
    using assms(1) by (auto simp: client_main_def obind_eq_Inr_iff)
  let ?p = "\<lparr>client_signal_mask = sigmask', client_listened_signals = S,
          client_log_settings = \<lparr>log_base_name = ''echo-client'', need_output_directly_to_terminal = False, log_level_mask = FATAL\<rparr>,
          client_app = \<lparr>client_loop = l, client = cl, client_signalfd = sfd, stdin_ptr = None\<rparr>,
          connecting_fd = d\<lparr>has_write_callback := True\<rparr>\<rparr>"
  have k: "fresh_fds k" "1 \<le> length (eventfd_calls k)" using assms(2) by (simp_all add: fresh_client_fds_def)
  note b = begin_program_ok [OF r(1) k(1) _ k(2), simplified]
  have own: "own_fds l \<subseteq> set (timerfd_call k # eventfd_calls k)" using b(8) by (auto dest: in_set_takeD)
  have sfd: "sfd = nat (fst (signalfd_call k S (SFD_NONBLOCK + SFD_CLOEXEC)))"
  proof -
    have "create_signalfd (signalfd_call k) S 0 = Inr sfd"
      using r(1) by (auto simp: begin_program_def obind_eq_Inr_iff simp del: add_signals.simps)
    then show ?thesis by (auto simp: create_signalfd_def split: prod.splits if_splits)
  qed
  have fd: "fd = nat (socket_call k)" using r(2) by (auto simp: create_socketfd_def split: if_splits)
  have d: "pfd_fd d = fd" "is_detached d" "\<not> is_reading d" "\<not> is_writing d" using r(3) by (auto simp: new_pollable_fd_def Let_def)
  have "distinct (timerfd_call k # eventfd_calls k @ [sfd, nat (socket_call k)])" using k(1) sfd by (simp add: fresh_fds_def)
  then have "fd \<noteq> sfd" using fd by auto
  moreover have "0 \<notin> own_fds l" "sfd \<noteq> 0" "fd \<noteq> 0" using assms(2) own sfd fd by (auto simp: fresh_client_fds_def)
  ultimately have start: "client_fds_ok ?p"
    using b d fd by (auto simp: client_fds_ok_def Let_def between_rounds_def)
  have phase: "phase_ok ?p"
    using r(4) d by (auto simp: phase_ok_def Let_def client_start_def echo_tcp_client_def preconnect_start_def new_preconnect_def)
  have fresh: "fresh_socket (own_fds l) sfd e" if "e \<in> set (first # es)" for e
    using assms(3) that own sfd unfolding fresh_retries_def fresh_socket_def by auto
  have p: "client_fds_ok p \<and> phase_ok p \<and> same_places ?p p"
    using connecting_exec_ok [OF r(5) start phase] fresh by simp
  then show "client_fds_ok p" "phase_ok p" by simp_all
  show "set (client_listened_signals p) = {sig. handled sig}" "{sig. handled sig} \<subseteq> client_signal_mask p"
    "\<forall>e \<in> set es. fresh_socket (own_fds (client_loop (client_app p))) (client_signalfd (client_app p)) e"
    using p b(6,7) fresh by (simp_all add: same_places_def)
qed

text \<open>Taking the standard input and the signals away.\<close>

lemma reset_stdin_ok:
  assumes "client_fds_ok p"
  shows "\<exists>a. reset_stdin (client_app p) = Inr a \<and> client a = client (client_app p) \<and> client_signalfd a = client_signalfd (client_app p) \<and>
    stdin_ptr a = None \<and> loop_ok (client_loop a) \<and> own_fds (client_loop a) = own_fds (client_loop (client_app p)) \<and>
    watched (client_loop a) = watched (client_loop (client_app p)) - {0}"
proof (cases "stdin_ptr (client_app p)")
  case None
  with assms show ?thesis by (auto simp: reset_stdin_def client_fds_ok_def Let_def)
next
  case (Some d)
  let ?l = "client_loop (client_app p)"
  have d: "pfd_fd d = 0" "\<not> is_detached d" "0 \<in> watched ?l" "loop_ok ?l" "0 \<notin> own_fds ?l"
    using assms Some by (auto simp: client_fds_ok_def Let_def)
  obtain d' l' where l': "with_poller (detach_from_poller d) ?l = Inr (d', l')" "loop_ok l'" "own_fds l' = own_fds ?l"
      "watched l' = watched ?l - {0}" "pfd_fd d' = 0"
    using detach_on_loop [OF d(4), of d] d by auto
  then obtain ep where ep: "detach_from_poller d (loop_poller ?l) = Inr (d', ep)" "l' = ?l\<lparr>loop_poller := ep\<rparr>"
    by (auto simp: with_poller_def obind_eq_Inr_iff)
  have "close_fd 0 ep = ep" using l'(4) ep(2) by (intro close_unwatched) simp
  with Some ep l' show ?thesis by (simp add: reset_stdin_def stdinfd_destroy_def)
qed

lemma client_dispatch_ok:
  assumes "client_fds_ok p" "client_stop n (client (client_app p)) = Inr cl" "terminates sig \<or> sig = SIGHUP"
  shows "\<exists>a. client_signal_dispatcher n sig (client_app p) = Inr a \<and> client a = cl \<and> stdin_ptr a = None \<and> loop_ok (client_loop a) \<and>
    stop_asked (client_loop a) \<and> own_fds (client_loop a) = own_fds (client_loop (client_app p)) \<and>
    watched (client_loop a) = own_fds (client_loop a) \<union> (if is_detached (connecting_fd p) then {} else {pfd_fd (connecting_fd p)})"
proof -
  obtain a where a: "reset_stdin (client_app p) = Inr a" "client a = client (client_app p)"
      "client_signalfd a = client_signalfd (client_app p)" "stdin_ptr a = None" "loop_ok (client_loop a)"
      "own_fds (client_loop a) = own_fds (client_loop (client_app p))"
      "watched (client_loop a) = watched (client_loop (client_app p)) - {0}"
    using reset_stdin_ok [OF assms(1)] by blast
  have sfd: "client_signalfd a \<notin> own_fds (client_loop a)" "client_signalfd a \<in> watched (client_loop a)"
    using assms(1) a by (auto simp: client_fds_ok_def Let_def)
  have "poller_ok (loop_poller (client_loop a))" using a(5) by (simp add: loop_ok_def fds_ok_def)
  then have len: "client_signalfd a < length (fds_that_are_listening_on (loop_poller (client_loop a)))"
    using sfd(2) by (auto simp: poller_ok_def)
  from detach_ok [OF a(5) sfd(1) len] obtain l where l: "serve (Detach_Fd (client_signalfd a)) (client_loop a) = Inr l" "loop_ok l"
      "kept (client_loop a) l" "interest (loop_poller l) = (interest (loop_poller (client_loop a)))(client_signalfd a := None)"
    by blast
  have own: "own_fds l = own_fds (client_loop a)" using l(3) by (simp add: kept_def own_fds_def)
  note asked = ask_to_stop_loop_ok [OF l(2)]
  have "sig \<noteq> SIGTSTP" using assms(3) by (auto simp: terminates_def signal_defs)
  then have "client_signal_dispatcher n sig (client_app p) = Inr (a\<lparr>client := cl, client_loop := loop_ask_to_stop l\<rparr>)"
    using assms(2,3) a(1,2) l(1)
    by (auto simp: client_signal_dispatcher_def signalfd_stop_def terminates_def simp del: serve.simps)
  moreover have "watched (loop_ask_to_stop l) = own_fds (client_loop a) \<union> (if is_detached (connecting_fd p) then {} else {pfd_fd (connecting_fd p)})"
    using assms(1) a(3,6,7) l(4) asked(4) by (auto simp: client_fds_ok_def Let_def)
  ultimately show ?thesis using a(4,6) asked own by simp
qed


lemma demo_client:
  "\<exists>p :: (nat, unit) client_process. client_main demo_kernel (\<lambda>_ _. Some ()) 9 1000 (Try_Once In_Progress 11 1000 5) {} = Inr p \<and>
     client_stop 1 (client (client_app p)) = Inr ((client (client_app p))\<lparr>cl_stopped := True\<rparr>)"
proof -
  have p0: "poller_ok (new_event_poller 10)" "length (fds_that_are_listening_on (new_event_poller 10)) = 10"
    by (simp_all add: poller_ok_def new_event_poller_def)
  obtain ep1 where ep1: "start_fds [3] (new_event_poller 10) = Inr ep1" "poller_ok ep1" "length (fds_that_are_listening_on ep1) = 10"
    using start_fds_some [OF p0(1), of "[3]"] p0(2) by auto
  obtain ep2 where ep2: "start_fd 7 ep1 = Inr ep2" "poller_ok ep2" "length (fds_that_are_listening_on ep2) = 10"
    using start_fd_some [OF ep1(2), of 7] ep1(3) by auto
  obtain ep3 where ep3: "start_fd 8 ep2 = Inr ep3" "poller_ok ep3" "length (fds_that_are_listening_on ep3) = 10"
    using start_fd_some [OF ep2(2), of 8] ep2(3) by auto
  obtain ep4 where ep4: "register_event_for_fd 9 (EPOLLET OR EVENT_TYPE_WRITE) ep3 = Inr ep4"
    using register_event_ok [OF ep3(2), of 9] ep3(3) by auto
  obtain l :: "nat event_loop" where l: "new_event_loop 10 [3] 7 9 1000 = Inr l" "loop_poller l = ep2"
    using ep1(1) ep2(1) demo_timers_started by (auto simp: new_event_loop_def simp del: start_fds.simps)
  obtain S where S: "add_signals [SIGHUP, SIGINT, SIGQUIT, SIGTERM, SIGTSTP] [] = Inr S"
    by (simp add: add_signal_def signal_defs)
  have begins: "begin_program demo_kernel (\<lambda>_ _. Some ()) 1 (fst (open_file_limits demo_kernel)) 9 1000 {} =
      Inr (set S, S, 8, l\<lparr>loop_poller := ep3\<rparr>)"
    using S l ep3(1)
    by (simp add: begin_program_def demo_kernel_def block_signals_def create_signalfd_def new_inet_address_def signalfd_start_def
        del: add_signals.simps)
  have sock: "socket_call demo_kernel = 9" by (simp add: demo_kernel_def)
  show ?thesis
    using ep4
    by (simp add: client_main_def begins [unfolded One_nat_def] sock create_socketfd_def new_pollable_fd_def client_start_def echo_tcp_client_def
        connecting_exec_def preconnect_start_def new_preconnect_def with_poller_def enable_write_event_def register_event_def
        client_event_def preconnect_exec_def try_once_def client_stop_def cancel_def Let_def)
qed


end
