(* ===== verification/System_Calls.thy ===== *)
theory System_Calls
  imports Threads Loop_Timers Event_Poller Addresses
begin

text \<open>
  The wrappers of single calls of the system, with what they print before they abort: mutexes and condition variables
  (src/util/mutex.cc, src/util/condition_variable.cc, include/util/mutex_guard.h), the names of threads
  (src/util/this_thread.cc, src/util/thread.cc), sizes of the machine (src/util/alignment.cc), limits and the destructor of
  the poller (src/event_poller.cc), the timerfd and the eventfd (src/timerfd.cc, include/timerfd.h, include/eventfd.h).
\<close>

section \<open>Mutexes and condition variables\<close>

text \<open>
  \<open>strerror\<close> is \<^verbatim>\<open>strerror_tl\<close>, \<open>e\<close> the value of \<^verbatim>\<open>errno\<close> at the call and \<open>r\<close> the result of the pthread
  function, which does not set \<^verbatim>\<open>errno\<close>.
\<close>

definition failure_text :: "string \<Rightarrow> (int \<Rightarrow> string) \<Rightarrow> int \<Rightarrow> int \<Rightarrow> string" where
  "failure_text what strerror e r = what @ '' failed: '' @ strerror e @ '' (errno='' @ decimal (nat r) @ '')'' @ [LF]"

definition abort_unless_zero :: "string \<Rightarrow> (int \<Rightarrow> string) \<Rightarrow> int \<Rightarrow> int \<Rightarrow> unit outcome" where
  "abort_unless_zero what strerror e r = (if r \<noteq> 0 then Inl (Fatal (failure_text what strerror e r)) else Inr ())"

definition mutex_construct :: "(int \<Rightarrow> string) \<Rightarrow> int \<Rightarrow> int \<Rightarrow> unit outcome" where
  "mutex_construct = abort_unless_zero ''@xubinh_server::util::Mutex::Mutex: pthread_mutex_init''"

definition mutex_destroy :: "(int \<Rightarrow> string) \<Rightarrow> int \<Rightarrow> int \<Rightarrow> unit outcome" where
  "mutex_destroy = abort_unless_zero ''@xubinh_server::util::Mutex::~Mutex: pthread_mutex_destroy''"

definition mutex_lock :: "(int \<Rightarrow> string) \<Rightarrow> int \<Rightarrow> int \<Rightarrow> unit outcome" where
  "mutex_lock = abort_unless_zero ''@xubinh_server::util::Mutex::lock: pthread_mutex_lock''"

definition mutex_unlock :: "(int \<Rightarrow> string) \<Rightarrow> int \<Rightarrow> int \<Rightarrow> unit outcome" where
  "mutex_unlock = abort_unless_zero ''@xubinh_server::util::Mutex::unlock: pthread_mutex_unlock''"

definition condition_construct :: "(int \<Rightarrow> string) \<Rightarrow> int \<Rightarrow> int \<Rightarrow> unit outcome" where
  "condition_construct = abort_unless_zero ''@xubinh_server::util::Mutex::Mutex: pthread_mutex_init''"

definition condition_destroy :: "(int \<Rightarrow> string) \<Rightarrow> int \<Rightarrow> int \<Rightarrow> unit outcome" where
  "condition_destroy = abort_unless_zero ''@xubinh_server::util::Mutex::~Mutex: pthread_mutex_destroy''"

definition condition_notify_one :: "(int \<Rightarrow> string) \<Rightarrow> int \<Rightarrow> int \<Rightarrow> unit outcome" where
  "condition_notify_one = abort_unless_zero ''@xubinh_server::util::Mutex::notify: pthread_cond_signal''"

definition condition_notify_all :: "(int \<Rightarrow> string) \<Rightarrow> int \<Rightarrow> int \<Rightarrow> unit outcome" where
  "condition_notify_all = abort_unless_zero ''@xubinh_server::util::Mutex::notify_all: pthread_cond_broadcast''"

definition condition_wait :: "(int \<Rightarrow> string) \<Rightarrow> int \<Rightarrow> int \<Rightarrow> unit outcome" where
  "condition_wait = abort_unless_zero ''@xubinh_server::util::Mutex::wait: pthread_cond_wait''"

lemmas wrapper_defs = abort_unless_zero_def mutex_construct_def mutex_destroy_def mutex_lock_def mutex_unlock_def
  condition_construct_def condition_destroy_def condition_notify_one_def condition_notify_all_def condition_wait_def

text \<open>
  Failures of condition variables read as failures of a mutex, and the text of the failure is that of \<^verbatim>\<open>errno\<close>, whatever
  the result was.
\<close>

lemma condition_failure_reads_as_mutex:
  "condition_construct strerror e r = mutex_construct strerror e r" "condition_destroy strerror e r = mutex_destroy strerror e r"
  by (simp_all add: condition_construct_def mutex_construct_def condition_destroy_def mutex_destroy_def)

lemma failure_text_of_errno:
  "mutex_lock strerror 0 EDEADLK =
     Inl (Fatal (''@xubinh_server::util::Mutex::lock: pthread_mutex_lock failed: '' @ strerror 0 @ '' (errno='' @ decimal 35 @ '')'' @ [LF]))"
  by (simp add: wrapper_defs failure_text_def EDEADLK_def)

text \<open>A \<^verbatim>\<open>MutexGuard\<close> around a block: the mutex is given back on every way out of it that does not end the process.\<close>

definition with_guard :: "(int \<Rightarrow> string) \<Rightarrow> int \<Rightarrow> int \<Rightarrow> int \<Rightarrow> 'a outcome \<Rightarrow> 'a outcome" where
  "with_guard strerror e locked unlocked block =
     obind (mutex_lock strerror e locked) (\<lambda>_. obind block (\<lambda>x. obind (mutex_unlock strerror e unlocked) (\<lambda>_. Inr x)))"

lemma with_guard_ok: "with_guard strerror e l u block = Inr x \<longleftrightarrow> l = 0 \<and> u = 0 \<and> block = Inr x"
  by (auto simp: with_guard_def wrapper_defs obind_eq_Inr_iff)

section \<open>Names of threads\<close>

text \<open>The name \<^verbatim>\<open>get_thread_name\<close> returns, and the kernel's, which holds 15 characters (prctl, PR_SET_NAME).\<close>

record thread_names =
  cached_name :: string
  kernel_name :: string

definition initial_names :: "string \<Rightarrow> thread_names" where
  "initial_names inherited = \<lparr>cached_name = ''unknown'', kernel_name = inherited\<rparr>"

definition set_linux_thread_name :: "string \<Rightarrow> thread_names \<Rightarrow> thread_names" where
  "set_linux_thread_name name n = n\<lparr>kernel_name := take 15 name\<rparr>"

definition set_thread_name :: "string \<Rightarrow> thread_names \<Rightarrow> thread_names" where
  "set_thread_name name n = set_linux_thread_name name (n\<lparr>cached_name := name\<rparr>)"

definition get_thread_name :: "thread_names \<Rightarrow> string" where
  "get_thread_name n = cached_name n"

definition main_thread_initializer :: "nat \<Rightarrow> tid_cache \<times> thread_names \<Rightarrow> tid_cache \<times> thread_names" where
  "main_thread_initializer number w = (snd (get_tid number (fst w)), set_thread_name ''main-thread'' (snd w))"

text \<open>
  What runs in a new thread: its identifier and its name are set under the mutex, the starter is notified, and the worker
  function is called between two lines on stderr.
\<close>

record worker_thread =
  own_cache :: tid_cache
  own_names :: thread_names
  own_tid :: int
  own_joinable :: bool
  own_stderr :: "string list"

definition new_worker_thread :: "string \<Rightarrow> worker_thread" where
  "new_worker_thread inherited =
     \<lparr>own_cache = initial_tid_cache, own_names = initial_names inherited, own_tid = - 1, own_joinable = False, own_stderr = []\<rparr>"

definition thread_line :: "string \<Rightarrow> string \<Rightarrow> int \<Rightarrow> string" where
  "thread_line what name t = ''thread '' @ what @ '', name: '' @ name @ '', TID: '' @ decimal (nat t) @ [LF]"

definition wrapper_of_worker_function ::
  "nat \<Rightarrow> string \<Rightarrow> (worker_thread \<Rightarrow> worker_thread outcome) \<Rightarrow> worker_thread \<Rightarrow> worker_thread outcome" where
  "wrapper_of_worker_function number name worker_function w =
     (let (t, c) = get_tid number (own_cache w);
          w1 = w\<lparr>own_cache := c, own_tid := int t, own_names := set_thread_name name (own_names w)\<rparr>;
          w2 = w1\<lparr>own_stderr := own_stderr w1 @ [thread_line ''started'' name (own_tid w1)]\<rparr> in
      obind (worker_function w2) (\<lambda>w3.
        Inr (w3\<lparr>own_joinable := True, own_stderr := own_stderr w3 @ [thread_line ''stopped'' name (own_tid w3)]\<rparr>)))"

text \<open>\<^verbatim>\<open>pthread_create\<close> gets the thread object as its argument; nothing is returned.\<close>

definition adaptor_function_for_pthread_create ::
  "nat \<Rightarrow> string \<Rightarrow> (worker_thread \<Rightarrow> worker_thread outcome) \<Rightarrow> worker_thread \<Rightarrow> (unit option \<times> worker_thread) outcome" where
  "adaptor_function_for_pthread_create number name worker_function w =
     obind (wrapper_of_worker_function number name worker_function w) (\<lambda>w'. Inr (None, w'))"

text \<open>While the worker function runs, the thread knows its identifier and its name, and it is not joinable.\<close>

lemma worker_sees_itself:
  assumes "0 < number"
  obtains w where "wrapper_of_worker_function number name f (new_worker_thread inherited) =
      obind (f w) (\<lambda>w3. Inr (w3\<lparr>own_joinable := True, own_stderr := own_stderr w3 @ [thread_line ''stopped'' name (own_tid w3)]\<rparr>))"
    "own_tid w = int number" "fst (get_tid t (own_cache w)) = number" "get_thread_name (own_names w) = name"
    "kernel_name (own_names w) = take 15 name" "\<not> own_joinable w" "own_stderr w = [thread_line ''started'' name (int number)]"
  using assms
  by (auto simp: wrapper_of_worker_function_def new_worker_thread_def get_tid_def refresh_tid_def initial_tid_cache_def
      cache_tid_def set_thread_name_def set_linux_thread_name_def get_thread_name_def initial_names_def Let_def)

text \<open>The pool names its threads \<^verbatim>\<open>worker-thread-0\<close>, \<^verbatim>\<open>worker-thread-1\<close>, and so on: the kernel tells ten of them apart.\<close>

lemma kernel_names_of_the_pool:
  "i < 10 \<Longrightarrow> kernel_name (set_thread_name (''worker-thread-'' @ decimal i) n) = ''worker-thread-'' @ decimal i"
  "kernel_name (set_thread_name (''worker-thread-'' @ decimal 10) n) = kernel_name (set_thread_name (''worker-thread-'' @ decimal 1) n)"
proof -
  show "i < 10 \<Longrightarrow> kernel_name (set_thread_name (''worker-thread-'' @ decimal i) n) = ''worker-thread-'' @ decimal i"
    by (simp add: set_thread_name_def set_linux_thread_name_def decimal.simps [of i])
  have "decimal 10 = digit_char 1 # [digit_char 0]" "decimal 1 = [digit_char 1]" by (subst decimal.simps; simp add: decimal.simps)+
  then show "kernel_name (set_thread_name (''worker-thread-'' @ decimal 10) n) =
      kernel_name (set_thread_name (''worker-thread-'' @ decimal 1) n)"
    by (simp only: set_thread_name_def set_linux_thread_name_def) simp
qed

section \<open>The machine and its limits\<close>

text \<open>\<^verbatim>\<open>sysconf\<close> returns -1 for a failure, with \<^verbatim>\<open>errno\<close> set, and for no limit, with \<^verbatim>\<open>errno\<close> left alone.\<close>

definition get_level_1_data_cache_line_size :: "(int \<Rightarrow> string) \<Rightarrow> int \<Rightarrow> int \<Rightarrow> nat outcome" where
  "get_level_1_data_cache_line_size strerror result e =
     (if result = - 1 then
        if e = 0 then
          Inl (Fatal (''@xubinh_server::util::alignment::get_level_1_data_cache_line_size: the limit is indeterminate'' @ [LF]))
        else Inl (Fatal (''@xubinh_server::util::alignment::get_level_1_data_cache_line_size: '' @ strerror e @
               '' (errno='' @ decimal (nat e) @ '')'' @ [LF]))
      else Inr (unat (of_int result :: 64 word)))"

definition get_page_size :: "(int \<Rightarrow> string) \<Rightarrow> int \<Rightarrow> int \<Rightarrow> nat outcome" where
  "get_page_size strerror result e =
     (if result = - 1 then
        if e = 0 then Inl (Fatal (''@xubinh_server::util::alignment::get_page_sizesize: the limit is indeterminate'' @ [LF]))
        else Inl (Fatal (''@xubinh_server::util::alignment::get_page_sizesize: '' @ strerror e @
               '' (errno='' @ decimal (nat e) @ '')'' @ [LF]))
      else Inr (unat (of_int result :: 64 word)))"

lemma page_size_exact: "0 \<le> result \<Longrightarrow> result < 2 ^ 63 \<Longrightarrow> get_page_size strerror result e = Inr (nat result)"
proof -
  assume r: "0 \<le> result" "result < 2 ^ 63"
  then have "uint (word_of_int result :: 64 word) = result" by (simp add: uint_word_of_int)
  then have "unat (word_of_int result :: 64 word) = nat result" by (simp only: nat_uint_eq [symmetric])
  with r show "get_page_size strerror result e = Inr (nat result)" by (simp add: get_page_size_def)
qed

definition get_limit_of_opened_fds :: "nat option \<Rightarrow> nat outcome" where
  "get_limit_of_opened_fds rlim_cur = (case rlim_cur of None \<Rightarrow> Inl (Fatal ''getrlimit failed'') | Some n \<Rightarrow> Inr n)"

text \<open>The constructor of the poller, with the descriptor \<^verbatim>\<open>epoll_create1\<close> returns, and its destructor with what it logs.\<close>

definition construct_event_poller :: "int \<Rightarrow> nat option \<Rightarrow> event_poller outcome" where
  "construct_event_poller epoll_fd rlim_cur =
     (if epoll_fd = - 1 then Inl (Fatal ''epoll_create1 failed'')
      else obind (get_limit_of_opened_fds rlim_cur) (\<lambda>n. Inr (new_event_poller n)))"

definition destroy_event_poller :: "event_poller \<Rightarrow> string list" where
  "destroy_event_poller ep =
     (if number_of_fds_that_are_listening_on ep \<noteq> 0 then [''poller closed while there are still fds being listened on''] else [])"

text \<open>With the limit unchanged since then, every descriptor the process can open has its entry in the array.\<close>

lemma constructed_poller_has_room:
  assumes "construct_event_poller epoll_fd (Some limit) = Inr ep" "fd < limit"
  shows "fd < length (fds_that_are_listening_on ep)" "\<not> fds_that_are_listening_on ep ! fd" "poller_empty ep" "destroy_event_poller ep = []"
  using assms
  by (auto simp: construct_event_poller_def get_limit_of_opened_fds_def new_event_poller_def poller_empty_def poller_size_def
      destroy_event_poller_def split: if_splits)

text \<open>The options of a socket: a failure to set one is logged and otherwise ignored.\<close>

definition disable_socketfd_nagle_algorithm :: "int \<Rightarrow> bool \<Rightarrow> bool \<times> string list" where
  "disable_socketfd_nagle_algorithm result nodelay =
     (if result = - 1 then (nodelay, [''failed to disable nagle algorithm'']) else (True, []))"

section \<open>Timerfd and eventfd\<close>

definition TFD_NONBLOCK :: "32 word" where "TFD_NONBLOCK = 0x800"
definition TFD_CLOEXEC :: "32 word" where "TFD_CLOEXEC = 0x80000"

text \<open>The flags the descriptors are created with; the first function does not use its argument.\<close>

definition timerfd_flags :: "32 word \<Rightarrow> 32 word" where
  "timerfd_flags flags = TFD_CLOEXEC OR TFD_NONBLOCK"

definition eventfd_flags :: "32 word \<Rightarrow> 32 word" where
  "eventfd_flags flags = (if flags = 0 then TFD_CLOEXEC OR TFD_NONBLOCK else flags)"

lemma timerfd_flags_ignored: "timerfd_flags TFD_CLOEXEC AND TFD_NONBLOCK = TFD_NONBLOCK" "eventfd_flags TFD_CLOEXEC AND TFD_NONBLOCK = 0"
  by (simp_all add: timerfd_flags_def eventfd_flags_def TFD_CLOEXEC_def TFD_NONBLOCK_def)

text \<open>Reading either descriptor: -1 with \<^verbatim>\<open>errno\<close>, or a number of bytes with the value they hold. What is logged is the result's second part.\<close>

datatype counter_read = Read_Failed int | Read_Bytes nat nat

definition ECANCELED :: int where "ECANCELED = 125"
definition E_AGAIN :: int where "E_AGAIN = 11"

definition retrieve_the_number_of_expirations :: "counter_read \<Rightarrow> nat \<times> string" where
  "retrieve_the_number_of_expirations r =
     (case r of
        Read_Failed e \<Rightarrow>
          (0, if e = ECANCELED then ''a timer has been canceled due to discontinuous changes to the real-time clock''
              else if e = E_AGAIN then ''timerfd is read before expiration occurs''
              else ''failed reading from timerfd'')
      | Read_Bytes n v \<Rightarrow> if n < 8 then (0, ''incomplete timerfd read operation'') else (v, ''''))"

definition eventfd_retrieve_the_sum :: "counter_read \<Rightarrow> nat \<times> string" where
  "eventfd_retrieve_the_sum r =
     (case r of
        Read_Failed e \<Rightarrow>
          (0, if e = E_AGAIN then ''eventfd is read before being notified'' else ''failed reading from eventfd'')
      | Read_Bytes n v \<Rightarrow> if n < 8 then (0, ''incomplete eventfd read operation'') else (v, ''''))"

definition eventfd_increment :: "int \<Rightarrow> string" where
  "eventfd_increment bytes_written =
     (if bytes_written = - 1 then ''failed writing to eventfd''
      else if bytes_written < 8 then ''incomplete eventfd write operation'' else '''')"

text \<open>
  The callback of the timerfd hands the number on to the loop, which does not look at it: a read that failed because the
  clock was set makes the loop look at its timers all the same.
\<close>

definition timerfd_callback :: "counter_read \<Rightarrow> timer_loop \<Rightarrow> timer_loop" where
  "timerfd_callback r s = (case retrieve_the_number_of_expirations r of (value, log) \<Rightarrow> timerfd_message_callback s)"

lemma timerfd_callback_triggers: "timerfd_triggered (timerfd_callback r s)" "timers (timerfd_callback r s) = timers s"
  by (simp_all add: timerfd_callback_def timerfd_message_callback_def split: prod.splits)

text \<open>Starting: without a message callback this is fatal, otherwise the descriptor is read.\<close>

definition counter_fd_start :: "bool \<Rightarrow> pollable_fd \<Rightarrow> event_poller \<Rightarrow> (pollable_fd \<times> event_poller) outcome" where
  "counter_fd_start message_callback d ep =
     (if \<not> message_callback then Inl (Fatal ''missing message callback'') else enable_read_event (d\<lparr>has_read_callback := True\<rparr>) ep)"

definition counter_fd_destroy :: "pollable_fd \<Rightarrow> event_poller \<Rightarrow> (pollable_fd \<times> event_poller) outcome" where
  "counter_fd_destroy d ep =
     obind (detach_from_poller d ep) (\<lambda>(d1, ep1). Inr (d1, close_fd (pfd_fd d1) ep1))"

end
