(* ===== verification/Log_Lifetime.thy ===== *)
theory Log_Lifetime
  imports Log_Collector
begin

text \<open>
  The singleton of \<^verbatim>\<open>LogCollector\<close> (include/log_collector.h, src/log_collector.cc) from its first use to its deletion by
  \<^verbatim>\<open>CleanUpHelper\<close>, and what a fatal log statement (include/log_builder.h) does to it. A finished \<^verbatim>\<open>LOG_FATAL\<close> is taken
  everywhere in the code for the end of the process; when several threads execute one at about the same time, only the
  first ends it.
\<close>

section \<open>The singleton\<close>

text \<open>\<open>instance\<close> is what the pointer refers to once it is set; \<open>None\<close> then is a deleted object.\<close>

record 'f log_process =
  base_name :: string
  to_terminal :: bool
  is_instantiated :: bool
  singleton :: "'f collector option"
  fresh_sink :: 'f

definition initial_log_process :: "'f \<Rightarrow> 'f log_process" where
  "initial_log_process f =
     \<lparr>base_name = ''log_collector'', to_terminal = False, is_instantiated = False, singleton = None, fresh_sink = f\<rparr>"

definition set_log_base_name :: "string \<Rightarrow> 'f log_process \<Rightarrow> 'f log_process" where
  "set_log_base_name path s = s\<lparr>base_name := set_base_name path (base_name s)\<rparr>"

definition set_if_need_output_directly_to_terminal :: "bool \<Rightarrow> 'f log_process \<Rightarrow> 'f log_process" where
  "set_if_need_output_directly_to_terminal b s =
     s\<lparr>to_terminal := b, singleton := map_option (\<lambda>c. c\<lparr>need_output_directly_to_terminal := b\<rparr>) (singleton s)\<rparr>"

definition get_instance :: "'f log_process \<Rightarrow> ('f collector \<times> 'f log_process) outcome" where
  "get_instance s =
     (if \<not> is_instantiated s then
        let c = new_collector (to_terminal s) (fresh_sink s) in Inr (c, s\<lparr>singleton := Some c, is_instantiated := True\<rparr>)
      else case singleton s of None \<Rightarrow> Inl (Undefined ''use of the deleted log collector'') | Some c \<Rightarrow> Inr (c, s))"

definition flush_logs :: "'f log_process \<Rightarrow> 'f log_process outcome" where
  "flush_logs s =
     (if is_instantiated s then obind (get_instance s) (\<lambda>(c, s'). Inr (s'\<lparr>singleton := Some (request_flush c)\<rparr>)) else Inr s)"

text \<open>
  \<^verbatim>\<open>_stop\<close> when the background thread can be joined: whether this call was the first and, if so, whether it ends the
  process.
\<close>

definition stop_logs :: "bool \<Rightarrow> 'f collector \<Rightarrow> 'f collector outcome" where
  "stop_logs also_need_abort c =
     (case stop_collector c of (first, c') \<Rightarrow>
        if first \<and> also_need_abort then Inl (Fatal ''abort'') else Inr c')"

definition abort_logs :: "'f collector \<Rightarrow> 'f collector outcome" where
  "abort_logs = stop_logs True"

definition destroy_collector :: "'f collector \<Rightarrow> 'f collector outcome" where
  "destroy_collector = stop_logs False"

definition clean_up_helper_destroy :: "'f log_process \<Rightarrow> 'f log_process outcome" where
  "clean_up_helper_destroy s =
     (if \<not> is_instantiated s then Inr s
      else case singleton s of
        None \<Rightarrow> Inl (Undefined ''double delete of the log collector'')
      | Some c \<Rightarrow> obind (destroy_collector c) (\<lambda>_. Inr (s\<lparr>singleton := None\<rparr>)))"

text \<open>The end of a log statement: the entry is handed over, and a fatal statement aborts.\<close>

definition end_statement :: "bool \<Rightarrow> string \<Rightarrow> 'f log_process \<Rightarrow> 'f log_process outcome" where
  "end_statement fatal entry s =
     obind (get_instance s) (\<lambda>(c, s1).
     obind (take_this_log entry c) (\<lambda>c1.
       if fatal then obind (abort_logs c1) (\<lambda>c2. Inr (s1\<lparr>singleton := Some c2\<rparr>))
       else Inr (s1\<lparr>singleton := Some c1\<rparr>)))"

text \<open>
  The first fatal statement up to the point where it waits for the background thread: the flag is set, and other threads go
  on until the wait is over.
\<close>

definition begin_fatal :: "string \<Rightarrow> 'f log_process \<Rightarrow> (bool \<times> 'f log_process) outcome" where
  "begin_fatal entry s =
     obind (get_instance s) (\<lambda>(c, s1).
     obind (take_this_log entry c) (\<lambda>c1.
       case stop_collector c1 of (first, c2) \<Rightarrow> Inr (first, s1\<lparr>singleton := Some c2\<rparr>)))"

fun run_statements :: "(bool \<times> string) list \<Rightarrow> 'f log_process \<Rightarrow> 'f log_process outcome" where
  "run_statements [] s = Inr s"
| "run_statements ((fatal, entry) # es) s = obind (end_statement fatal entry s) (run_statements es)"

section \<open>Before and after the clean-up\<close>

definition log_usable :: "'f log_process \<Rightarrow> bool" where
  "log_usable s \<longleftrightarrow> (is_instantiated s \<longrightarrow> (\<exists>c. singleton s = Some c \<and> current_chunk_buffer_ptr c \<noteq> None))"

definition stopping :: "'f log_process \<Rightarrow> bool" where
  "stopping s \<longleftrightarrow> is_instantiated s \<and> (\<exists>c. singleton s = Some c \<and> current_chunk_buffer_ptr c \<noteq> None \<and> need_stop c)"

lemma log_usable_initial: "log_usable (initial_log_process f)"
  by (simp add: log_usable_def initial_log_process_def)

lemma take_this_log_keeps:
  assumes "current_chunk_buffer_ptr c \<noteq> None"
  obtains c' where "take_this_log e c = Inr c'" "current_chunk_buffer_ptr c' \<noteq> None" "need_stop c' = need_stop c"
proof -
  obtain b where "current_chunk_buffer_ptr c = Some b" using assms by auto
  then have "\<exists>c'. take_this_log e c = Inr c' \<and> current_chunk_buffer_ptr c' \<noteq> None \<and> need_stop c' = need_stop c"
    by (auto simp: take_this_log_def deref_chunk_def Let_def)
  with that show thesis by blast
qed

lemma get_instance_usable:
  assumes "log_usable s"
  obtains c s1 where "get_instance s = Inr (c, s1)" "is_instantiated s1" "singleton s1 = Some c" "current_chunk_buffer_ptr c \<noteq> None"
    "is_instantiated s \<Longrightarrow> s1 = s" "\<not> is_instantiated s \<Longrightarrow> \<not> need_stop c"
proof (cases "is_instantiated s")
  case True
  with assms obtain c where c: "singleton s = Some c" "current_chunk_buffer_ptr c \<noteq> None" by (auto simp: log_usable_def)
  show thesis by (rule that [of c s]) (use True c in \<open>simp_all add: get_instance_def\<close>)
next
  case False
  let ?c = "new_collector (to_terminal s) (fresh_sink s)"
  show thesis
    by (rule that [of ?c "s\<lparr>singleton := Some ?c, is_instantiated := True\<rparr>"])
      (use False in \<open>simp_all add: get_instance_def Let_def new_collector_def\<close>)
qed

lemma log_statement_usable:
  assumes "log_usable s"
  shows "\<exists>s'. end_statement False e s = Inr s' \<and> log_usable s' \<and> is_instantiated s'"
proof -
  obtain c s1 where c: "get_instance s = Inr (c, s1)" "is_instantiated s1" "current_chunk_buffer_ptr c \<noteq> None"
    using get_instance_usable [OF assms] by metis
  obtain c' where "take_this_log e c = Inr c'" "current_chunk_buffer_ptr c' \<noteq> None" using take_this_log_keeps [OF c(3)] by metis
  with c show ?thesis by (auto simp: end_statement_def log_usable_def)
qed

lemma first_fatal_aborts:
  assumes "log_usable s" "\<not> stopping s"
  shows "end_statement True e s = Inl (Fatal ''abort'')"
proof -
  obtain c s1 where c: "get_instance s = Inr (c, s1)" "singleton s1 = Some c" "current_chunk_buffer_ptr c \<noteq> None"
    "is_instantiated s \<Longrightarrow> s1 = s" "\<not> is_instantiated s \<Longrightarrow> \<not> need_stop c"
    using get_instance_usable [OF assms(1)] by metis
  obtain c' where c': "take_this_log e c = Inr c'" "need_stop c' = need_stop c" using take_this_log_keeps [OF c(3)] by metis
  have "\<not> need_stop c" using c assms(2) by (cases "is_instantiated s") (auto simp: stopping_def)
  with c(1) c' show ?thesis by (simp add: end_statement_def abort_logs_def stop_logs_def stop_collector_def)
qed

lemma stopping_statement:
  assumes "stopping s"
  shows "\<exists>s'. end_statement fatal e s = Inr s' \<and> stopping s'"
proof -
  obtain c where c: "is_instantiated s" "singleton s = Some c" "current_chunk_buffer_ptr c \<noteq> None" "need_stop c"
    using assms by (auto simp: stopping_def)
  obtain c' where "take_this_log e c = Inr c'" "current_chunk_buffer_ptr c' \<noteq> None" "need_stop c' = need_stop c"
    using take_this_log_keeps [OF c(3)] by metis
  with c show ?thesis
    by (auto simp: end_statement_def get_instance_def abort_logs_def stop_logs_def stop_collector_def stopping_def)
qed

lemma stopping_statements: "stopping s \<Longrightarrow> \<exists>s'. run_statements es s = Inr s' \<and> stopping s'"
proof (induction es arbitrary: s)
  case (Cons x es)
  obtain fatal e where x: "x = (fatal, e)" by (cases x)
  obtain u where "end_statement fatal e s = Inr u" "stopping u" using stopping_statement [OF Cons.prems] by blast
  with Cons.IH x show ?case by auto
qed simp

text \<open>C31: Of fatal log statements in several threads only the first ends the process. It aborts when it is alone; but from
  the moment it has set the flag until its wait for the background thread is over, every fatal statement of the other
  threads comes back like any other, however many they execute, and the code after it is run.\<close>

theorem only_the_first_fatal_aborts:
  assumes "log_usable s" "\<not> stopping s"
  shows "end_statement True e s = Inl (Fatal ''abort'') \<and>
    (\<exists>s1. begin_fatal e s = Inr (True, s1) \<and> (\<forall>es. \<exists>s2. run_statements es s1 = Inr s2))"
proof -
  obtain c s1 where c: "get_instance s = Inr (c, s1)" "is_instantiated s1" "singleton s1 = Some c" "current_chunk_buffer_ptr c \<noteq> None"
    "is_instantiated s \<Longrightarrow> s1 = s" "\<not> is_instantiated s \<Longrightarrow> \<not> need_stop c"
    using get_instance_usable [OF assms(1)] by metis
  obtain c' where c': "take_this_log e c = Inr c'" "current_chunk_buffer_ptr c' \<noteq> None" "need_stop c' = need_stop c"
    using take_this_log_keeps [OF c(4)] by metis
  have n: "\<not> need_stop c" using c assms(2) by (cases "is_instantiated s") (auto simp: stopping_def)
  let ?s = "s1\<lparr>singleton := Some (c'\<lparr>need_stop := True\<rparr>)\<rparr>"
  have "begin_fatal e s = Inr (True, ?s)" using c(1) c' n by (simp add: begin_fatal_def stop_collector_def)
  moreover have "stopping ?s" using c(2) c'(2) by (simp add: stopping_def)
  then have "\<forall>es. \<exists>s2. run_statements es ?s = Inr s2" using stopping_statements by blast
  ultimately show ?thesis using first_fatal_aborts [OF assms] by blast
qed

lemma only_the_first_fatal_aborts_witness:
  "end_statement True ''first'' (initial_log_process ()) = Inl (Fatal ''abort'') \<and>
   (\<exists>s1. begin_fatal ''first'' (initial_log_process ()) = Inr (True, s1) \<and>
      (\<exists>s2. run_statements [(True, ''second''), (False, ''third''), (True, ''fourth'')] s1 = Inr s2))"
proof -
  have "\<not> stopping (initial_log_process ())" by (simp add: stopping_def initial_log_process_def)
  from only_the_first_fatal_aborts [OF log_usable_initial this, of "''first''"] show ?thesis by blast
qed

text \<open>After the clean-up of a log that was used, the next statement touches the deleted object.\<close>

lemma statement_after_clean_up:
  assumes "log_usable s" "is_instantiated s"
  shows "clean_up_helper_destroy s = Inr (s\<lparr>singleton := None\<rparr>)"
    "end_statement fatal e (s\<lparr>singleton := None\<rparr>) = Inl (Undefined ''use of the deleted log collector'')"
    "flush_logs (s\<lparr>singleton := None\<rparr>) = Inl (Undefined ''use of the deleted log collector'')"
    "clean_up_helper_destroy (s\<lparr>singleton := None\<rparr>) = Inl (Undefined ''double delete of the log collector'')"
proof -
  obtain c where "singleton s = Some c" using assms by (auto simp: log_usable_def)
  with assms(2) show "clean_up_helper_destroy s = Inr (s\<lparr>singleton := None\<rparr>)"
    by (simp add: clean_up_helper_destroy_def destroy_collector_def stop_logs_def stop_collector_def)
qed (use assms(2) in \<open>simp_all add: end_statement_def get_instance_def flush_logs_def clean_up_helper_destroy_def\<close>)

lemma clean_up_of_unused_log: "clean_up_helper_destroy (initial_log_process f) = Inr (initial_log_process f)"
  by (simp add: clean_up_helper_destroy_def initial_log_process_def)

end
