(* ===== verification/Registrations.thy ===== *)
theory Registrations
  imports Client_Main
begin

text \<open>
  How the objects of a program are put together before they start: constructors, the setters that register callbacks, and
  the getters (include/pollable_file_descriptor.h, tcp_connect_socketfd.h, tcp_server.h, tcp_client.h,
  preconnect_socketfd.h and example/http/server/include/http_server.h, http_response.h). A callback is there or not, and
  registering an empty one takes it away. The lemmas say that what the \<^verbatim>\<open>main\<close> functions register gives the objects that
  \<open>Server_Main\<close> and \<open>Client_Main\<close> start from.
\<close>

section \<open>Descriptors\<close>

definition register_read_event_callback :: "bool \<Rightarrow> pollable_fd \<Rightarrow> pollable_fd" where
  "register_read_event_callback f d = d\<lparr>has_read_callback := f\<rparr>"

definition register_write_event_callback :: "bool \<Rightarrow> pollable_fd \<Rightarrow> pollable_fd" where
  "register_write_event_callback f d = d\<lparr>has_write_callback := f\<rparr>"

definition register_close_event_callback :: "bool \<Rightarrow> pollable_fd \<Rightarrow> pollable_fd" where
  "register_close_event_callback f d = d\<lparr>pollable_fd.has_close_callback := f\<rparr>"

definition register_error_event_callback :: "bool \<Rightarrow> pollable_fd \<Rightarrow> pollable_fd" where
  "register_error_event_callback f d = d\<lparr>has_error_callback := f\<rparr>"

definition set_active_events :: "events \<Rightarrow> pollable_fd \<Rightarrow> pollable_fd" where
  "set_active_events ev d = d\<lparr>active_events := ev\<rparr>"

text \<open>What a connection registers with its descriptor when it starts, so that every event finds its callback.\<close>

definition register_all :: "pollable_fd \<Rightarrow> pollable_fd" where
  "register_all =
     register_error_event_callback True \<circ> register_close_event_callback True \<circ> register_write_event_callback True \<circ>
     register_read_event_callback True"

lemma registered_events_are_dispatched:
  "dispatch_events (set_active_events ev (register_all d)) =
     (if ev AND EVENT_TYPE_CLOSE \<noteq> 0 then [Close_Callback] else []) @ (if ev AND EVENT_TYPE_ERROR \<noteq> 0 then [Error_Callback] else []) @
     (if ev AND EVENT_TYPE_READ \<noteq> 0 then [Read_Callback] else []) @ (if ev AND EVENT_TYPE_WRITE \<noteq> 0 then [Write_Callback] else [])"
  by (simp add: dispatch_events_def set_active_events_def register_all_def register_read_event_callback_def
      register_write_event_callback_def register_close_event_callback_def register_error_event_callback_def)

lemma nothing_registered_nothing_dispatched:
  "new_pollable_fd fd et = Inr d \<Longrightarrow> dispatch_events (set_active_events ev d) = []"
  by (auto simp: new_pollable_fd_def dispatch_events_def set_active_events_def Let_def split: if_splits)

section \<open>Connections\<close>

definition register_message_callback :: "bool \<Rightarrow> 'ctx connection \<Rightarrow> 'ctx connection" where
  "register_message_callback f c = c\<lparr>has_message_callback := f\<rparr>"

definition register_write_complete_callback :: "conn_action list option \<Rightarrow> 'ctx connection \<Rightarrow> 'ctx connection" where
  "register_write_complete_callback f c = c\<lparr>write_complete_callback := f\<rparr>"

definition register_close_callback :: "bool \<Rightarrow> 'ctx connection \<Rightarrow> 'ctx connection" where
  "register_close_callback f c = c\<lparr>connection.has_close_callback := f\<rparr>"

definition set_time_stamp :: "int \<Rightarrow> 'ctx connection \<Rightarrow> 'ctx connection" where
  "set_time_stamp t c = c\<lparr>time_stamp := t\<rparr>"

definition get_time_stamp :: "'ctx connection \<Rightarrow> int" where
  "get_time_stamp c = time_stamp c"

definition connection_is_writing :: "'ctx connection \<Rightarrow> bool" where
  "connection_is_writing c = conn_writing c"

definition connection_is_stopped :: "'ctx connection \<Rightarrow> bool" where
  "connection_is_stopped c = conn_detached c"

text \<open>The destructor closes the descriptor unless a reset has; the second part is whether it warns.\<close>

definition connection_destroy :: "'ctx connection \<Rightarrow> 'ctx connection \<times> bool" where
  "connection_destroy c = (if \<not> is_reset c then c\<lparr>fd_open := False\<rparr> else c, \<not> connection_is_stopped c)"

text \<open>The functor that looks whether a connection is to be aborted, run in the loop of the connection.\<close>

definition check_and_abort_from_event_loop :: "('ctx connection \<Rightarrow> bool) \<Rightarrow> 'ctx connection \<Rightarrow> 'ctx connection outcome" where
  "check_and_abort_from_event_loop predicate c = check_and_abort_impl predicate c"

text \<open>
  What the server does with a new connection: the callback for successful connections comes first, so that a message
  callback it registers is replaced by the server's.
\<close>

lemma server_callbacks_win:
  "register_close_callback True (register_write_complete_callback w (register_message_callback m
     (register_message_callback m' c))) =
   register_close_callback True (register_write_complete_callback w (register_message_callback m c))"
  by (simp add: register_message_callback_def register_write_complete_callback_def register_close_callback_def)

lemma new_connection_callback_registers:
  assumes "new_connection_callback s = Inr s'"
  shows "\<exists>i c. conn_start (register_close_callback True (register_write_complete_callback (srv_write_complete_callback s)
      (register_message_callback (srv_message_callback s) (srv_connect_success_callback s new_connection)))) = Inr c \<and>
    objects s' (tcp_connection_id_counter s) = Some (i, c)"
  using assms
  by (auto simp: new_connection_callback_def choose_loop_def get_next_loop_def obind_eq_Inr_iff Let_def register_message_callback_def
      register_write_complete_callback_def register_close_callback_def split: if_splits option.splits)

section \<open>Servers\<close>

text \<open>\<open>transfer\<close> is whether closed connections are handed to a background thread, an option of the build.\<close>

definition tcp_server_constructed :: "bool \<Rightarrow> 'ctx tcp_server" where
  "tcp_server_constructed transfer = new_tcp_server 0 False None id transfer"

definition srv_register_connect_success_callback ::
  "('ctx connection \<Rightarrow> 'ctx connection) \<Rightarrow> 'ctx tcp_server \<Rightarrow> 'ctx tcp_server" where
  "srv_register_connect_success_callback f s = s\<lparr>srv_connect_success_callback := f\<rparr>"

definition srv_register_message_callback :: "bool \<Rightarrow> 'ctx tcp_server \<Rightarrow> 'ctx tcp_server" where
  "srv_register_message_callback f s = s\<lparr>srv_message_callback := f\<rparr>"

definition srv_register_write_complete_callback :: "conn_action list option \<Rightarrow> 'ctx tcp_server \<Rightarrow> 'ctx tcp_server" where
  "srv_register_write_complete_callback f s = s\<lparr>srv_write_complete_callback := f\<rparr>"

definition set_thread_pool_capacity :: "nat \<Rightarrow> 'ctx tcp_server \<Rightarrow> 'ctx tcp_server" where
  "set_thread_pool_capacity n s = s\<lparr>srv_pool_capacity := n\<rparr>"

definition get_number_of_tcp_connections :: "'ctx tcp_server \<Rightarrow> nat" where
  "get_number_of_tcp_connections s = length (tcp_connect_socketfds s)"

lemmas server_setters = tcp_server_constructed_def srv_register_connect_success_callback_def srv_register_message_callback_def
  srv_register_write_complete_callback_def set_thread_pool_capacity_def

text \<open>The echo server of \<open>echo_main\<close>; the callback for successful connections only logs.\<close>

lemma echo_server_registered:
  "set_thread_pool_capacity 1 (srv_register_connect_success_callback id (srv_register_message_callback True
     (tcp_server_constructed transfer))) = new_tcp_server 1 True None id transfer"
  by (simp add: server_setters new_tcp_server_def)

text \<open>The HTTP server forwards to the TCP server it contains and keeps two callbacks and the timeout itself.\<close>

record http_server =
  inner_server :: "http_parser tcp_server"
  http_connect_success_callback :: "(http_connection \<Rightarrow> http_connection) option"
  has_http_request_callback :: bool
  timeout_interval :: int

definition new_http_server :: "bool \<Rightarrow> http_server" where
  "new_http_server transfer =
     \<lparr>inner_server = tcp_server_constructed transfer, http_connect_success_callback = None, has_http_request_callback = False,
      timeout_interval = 60 * SECOND\<rparr>"

definition http_register_connect_success_callback :: "(http_connection \<Rightarrow> http_connection) option \<Rightarrow> http_server \<Rightarrow> http_server" where
  "http_register_connect_success_callback f s = s\<lparr>http_connect_success_callback := f\<rparr>"

definition http_register_http_request_callback :: "bool \<Rightarrow> http_server \<Rightarrow> http_server" where
  "http_register_http_request_callback f s = s\<lparr>has_http_request_callback := f\<rparr>"

definition http_register_write_complete_callback :: "conn_action list option \<Rightarrow> http_server \<Rightarrow> http_server" where
  "http_register_write_complete_callback f s = s\<lparr>inner_server := srv_register_write_complete_callback f (inner_server s)\<rparr>"

definition http_set_thread_pool_capacity :: "nat \<Rightarrow> http_server \<Rightarrow> http_server" where
  "http_set_thread_pool_capacity n s = s\<lparr>inner_server := set_thread_pool_capacity n (inner_server s)\<rparr>"

definition http_set_connection_timeout_interval :: "int \<Rightarrow> http_server \<Rightarrow> http_server" where
  "http_set_connection_timeout_interval t s = s\<lparr>timeout_interval := t\<rparr>"

definition start_http_server ::
  "nat \<Rightarrow> int \<Rightarrow> kernel \<Rightarrow> http_server \<Rightarrow> ('f, http_parser) application \<Rightarrow> ('f, http_parser) application outcome" where
  "start_http_server remove_inactive now k h a =
     http_server_start (has_http_request_callback h) (http_connect_success_callback h) (timeout_interval h) remove_inactive now k
       (a\<lparr>app_server := inner_server h\<rparr>)"

text \<open>The registrations of \<open>http_main\<close>, in the order \<^verbatim>\<open>main\<close> has them.\<close>

definition registered_http_server :: "bool \<Rightarrow> bool \<Rightarrow> http_server" where
  "registered_http_server benchmark transfer =
     (let s1 = http_set_thread_pool_capacity 4 (new_http_server transfer);
          s2 = http_register_http_request_callback True s1;
          s3 = http_register_connect_success_callback (Some id) s2 in
      http_set_connection_timeout_interval (if benchmark then INTERVAL_FOREVER else 15 * SECOND) s3)"

lemma http_server_registered:
  "inner_server (registered_http_server benchmark transfer) = new_tcp_server 4 False None id transfer"
  "start_http_server remove_inactive now k (registered_http_server benchmark transfer) a =
     http_server_start True (Some id) (if benchmark then INTERVAL_FOREVER else 15 * SECOND) remove_inactive now k
       (a\<lparr>app_server := new_tcp_server 4 False None id transfer\<rparr>)"
  by (simp_all add: registered_http_server_def new_http_server_def server_setters start_http_server_def Let_def
      http_set_connection_timeout_interval_def http_set_thread_pool_capacity_def http_register_http_request_callback_def
      http_register_connect_success_callback_def new_tcp_server_def)

text \<open>
  The periodic check of a server is on unless the timeout is set to forever, which the benchmark build does, and a server
  without a request callback does not start.
\<close>

lemma periodic_check_on:
  "timeout_interval (new_http_server transfer) < INTERVAL_FOREVER"
  "timeout_interval (registered_http_server benchmark transfer) < INTERVAL_FOREVER \<longleftrightarrow> \<not> benchmark"
  by (simp_all add: new_http_server_def registered_http_server_def http_set_connection_timeout_interval_def Let_def SECOND_def
      INTERVAL_FOREVER_def)

lemma new_http_server_start:
  "start_http_server remove_inactive now k (new_http_server transfer) a = Inl (Fatal ''missing http request callback'')"
  by (simp add: start_http_server_def http_server_start_def new_http_server_def)

section \<open>Clients\<close>

definition tcp_client_constructed :: "'ctx tcp_client" where
  "tcp_client_constructed =
     \<lparr>cl_started = False, cl_stopped = False, cl_message_callback = False, cl_write_complete_callback = None,
      cl_close_callback = False, cl_connect_success_callback = id, cl_connect_fail_callback = False,
      preconnect_ptr = None, connection_ptr = None\<rparr>"

definition cl_register_connect_success_callback ::
  "('ctx connection \<Rightarrow> 'ctx connection) \<Rightarrow> 'ctx tcp_client \<Rightarrow> 'ctx tcp_client" where
  "cl_register_connect_success_callback f s = s\<lparr>cl_connect_success_callback := f\<rparr>"

definition cl_register_message_callback :: "bool \<Rightarrow> 'ctx tcp_client \<Rightarrow> 'ctx tcp_client" where
  "cl_register_message_callback f s = s\<lparr>cl_message_callback := f\<rparr>"

definition cl_register_write_complete_callback :: "conn_action list option \<Rightarrow> 'ctx tcp_client \<Rightarrow> 'ctx tcp_client" where
  "cl_register_write_complete_callback f s = s\<lparr>cl_write_complete_callback := f\<rparr>"

definition cl_register_connect_fail_callback :: "bool \<Rightarrow> 'ctx tcp_client \<Rightarrow> 'ctx tcp_client" where
  "cl_register_connect_fail_callback f s = s\<lparr>cl_connect_fail_callback := f\<rparr>"

definition cl_register_close_callback :: "bool \<Rightarrow> 'ctx tcp_client \<Rightarrow> 'ctx tcp_client" where
  "cl_register_close_callback f s = s\<lparr>cl_close_callback := f\<rparr>"

lemma echo_client_registered:
  "cl_register_connect_fail_callback True (cl_register_connect_success_callback id (cl_register_message_callback True
     tcp_client_constructed)) = echo_tcp_client"
  by (simp add: cl_register_connect_fail_callback_def cl_register_connect_success_callback_def cl_register_message_callback_def
      tcp_client_constructed_def echo_tcp_client_def)

text \<open>
  The client moves its callbacks into the connection; a second connection of the same client would have none, and starting
  it would be fatal.
\<close>

lemma callbacks_are_moved:
  assumes "client_new_connection_callback s = Inr s'"
  shows "cl_message_callback s' = False" "cl_write_complete_callback s' = None" "cl_close_callback s' = False"
  using assms by (auto simp: client_new_connection_callback_def obind_eq_Inr_iff Let_def)

lemma second_connection_has_no_callback:
  assumes "client_new_connection_callback s = Inr s'" "\<not> conn_reading (cl_connect_success_callback s new_connection)"
  shows "client_new_connection_callback s' = Inl (Fatal ''missing message callback'')"
proof -
  have "cl_connect_success_callback s' = cl_connect_success_callback s"
    using assms(1) by (auto simp: client_new_connection_callback_def obind_eq_Inr_iff Let_def)
  with callbacks_are_moved [OF assms(1)] assms(2) show ?thesis
    by (simp add: client_new_connection_callback_def conn_start_def Let_def)
qed

section \<open>Responses\<close>

definition get_version_type_resp :: "http_response \<Rightarrow> http_version option" where
  "get_version_type_resp r = resp_version r"

definition get_status_code :: "http_response \<Rightarrow> nat" where
  "get_status_code r = status_code r"

text \<open>A body given by its two ends; its length is announced.\<close>

definition set_body_range :: "string \<Rightarrow> nat \<Rightarrow> nat \<Rightarrow> http_response \<Rightarrow> http_response" where
  "set_body_range memory start stop r =
     set_header ''Content-Length'' (decimal (stop - start)) (r\<lparr>resp_body := take (stop - start) (drop start memory)\<rparr>)"

lemma set_body_range_announces:
  assumes "start \<le> stop" "stop \<le> length memory"
  shows "get_header_resp ''Content-Length'' (set_body_range memory start stop r) = decimal (length (resp_body (set_body_range memory start stop r)))"
  using assms by (simp add: set_body_range_def set_header_def get_header_resp_def)

end
