(* ===== verification/Time_Operators.thy ===== *)
theory Time_Operators
  imports Time_Point
begin

text \<open>
  The rest of \<^verbatim>\<open>TimeInterval\<close> and \<^verbatim>\<open>TimePoint\<close> (include/util/time_point.h): constructors, the operators that return a
  new object, written as a copy followed by the assigning operator, the comparisons, the hash, and the wrappers around the
  conversions. Points and intervals are their 64-bit counts of nanoseconds.
\<close>

section \<open>Constructors and conversions\<close>

definition default_interval :: int where
  "default_interval = 0"

definition time_point_of_now :: "int \<times> int \<Rightarrow> int outcome" where
  "time_point_of_now clock = get_nanoseconds_from_epoch clock"

definition interval_timespec :: "int \<Rightarrow> int \<times> int" where
  "interval_timespec ns = (ns sdiv SECOND, ns smod SECOND)"

definition interval_to_timespec :: "int \<Rightarrow> int \<times> int" where
  "interval_to_timespec d = interval_timespec d"

definition point_to_timespec :: "int \<Rightarrow> int \<times> int" where
  "point_to_timespec t = get_timespec t"

definition to_datetime_string :: "(purpose \<Rightarrow> int \<Rightarrow> string) \<Rightarrow> int \<Rightarrow> purpose \<Rightarrow> datetime_cache \<Rightarrow> string \<times> datetime_cache" where
  "to_datetime_string fmt t p c = get_datetime_string fmt t p c"

definition datetime_string_of_now ::
  "(purpose \<Rightarrow> int \<Rightarrow> string) \<Rightarrow> int \<times> int \<Rightarrow> purpose \<Rightarrow> datetime_cache \<Rightarrow> (string \<times> datetime_cache) outcome" where
  "datetime_string_of_now fmt clock p c =
     obind (get_nanoseconds_from_epoch clock) (\<lambda>now. Inr (get_datetime_string fmt now p c))"

section \<open>Arithmetic\<close>

definition interval_plus :: "int \<Rightarrow> int \<Rightarrow> int outcome" where
  "interval_plus a b = (let copy = a in interval_add copy b)"

definition interval_minus :: "int \<Rightarrow> int \<Rightarrow> int outcome" where
  "interval_minus a b = (let copy = a in interval_sub copy b)"

definition interval_times :: "int \<Rightarrow> int \<Rightarrow> int outcome" where
  "interval_times a k = (let copy = a in interval_mul copy k)"

definition time_plus :: "int \<Rightarrow> int \<Rightarrow> int outcome" where
  "time_plus t d = (let copy = t in time_add copy d)"

definition time_minus :: "int \<Rightarrow> int \<Rightarrow> int outcome" where
  "time_minus t d = (let copy = t in time_sub copy d)"

lemmas time_arithmetic = interval_plus_def interval_minus_def interval_times_def time_plus_def time_minus_def
  interval_add_def interval_sub_def interval_mul_def time_add_def time_sub_def time_diff_def Let_def

text \<open>Where nothing overflows, points are an affine space over the intervals.\<close>

lemma time_plus_minus: "in_int64 t \<Longrightarrow> time_plus t d = Inr u \<Longrightarrow> time_minus u d = Inr t \<and> time_diff u t = int64_result d"
  by (simp add: time_arithmetic)

lemma time_minus_plus: "in_int64 t \<Longrightarrow> time_minus t d = Inr u \<Longrightarrow> time_plus u d = Inr t"
  by (simp add: time_arithmetic)

lemma time_diff_plus: "in_int64 t \<Longrightarrow> time_diff t u = Inr d \<Longrightarrow> time_plus u d = Inr t"
  by (simp add: time_arithmetic)

lemma time_plus_twice:
  "time_plus t d = Inr u \<Longrightarrow> time_plus u e = Inr v \<Longrightarrow> interval_plus d e = Inr f \<Longrightarrow> time_plus t f = Inr v"
  by (simp add: time_arithmetic add.assoc)

lemma interval_times_Suc:
  "interval_times d (int n) = Inr e \<Longrightarrow> interval_plus e d = interval_times d (int (Suc n))"
  by (simp add: time_arithmetic algebra_simps)

text \<open>
  Adding a positive interval overflows exactly when the point is too late: at most one nanosecond may be added to \<^verbatim>\<open>FOREVER\<close>,
  which is later than forever and still a point.
\<close>

lemma time_plus_overflow:
  "in_int64 t \<Longrightarrow> 0 \<le> d \<Longrightarrow> time_plus t d = Inl (Undefined ''signed integer overflow'') \<longleftrightarrow> FOREVER + 1 - d < t"
  by (auto simp: time_arithmetic int64_result_def in_int64_def FOREVER_def)

lemma longer_than_forever: "time_plus FOREVER 1 = Inr INTERVAL_FOREVER" "time_plus FOREVER 2 = Inl (Undefined ''signed integer overflow'')"
  by (simp_all add: time_arithmetic int64_result_def in_int64_def FOREVER_def INTERVAL_FOREVER_def)

section \<open>Comparisons\<close>

definition interval_lt :: "int \<Rightarrow> int \<Rightarrow> bool" where "interval_lt a b \<longleftrightarrow> a < b"
definition interval_le :: "int \<Rightarrow> int \<Rightarrow> bool" where "interval_le a b \<longleftrightarrow> a \<le> b"
definition interval_gt :: "int \<Rightarrow> int \<Rightarrow> bool" where "interval_gt a b \<longleftrightarrow> a > b"
definition interval_ge :: "int \<Rightarrow> int \<Rightarrow> bool" where "interval_ge a b \<longleftrightarrow> a \<ge> b"
definition interval_eq :: "int \<Rightarrow> int \<Rightarrow> bool" where "interval_eq a b \<longleftrightarrow> a = b"
definition interval_ne :: "int \<Rightarrow> int \<Rightarrow> bool" where "interval_ne a b \<longleftrightarrow> a \<noteq> b"

definition time_le :: "int \<Rightarrow> int \<Rightarrow> bool" where "time_le t u \<longleftrightarrow> t \<le> u"
definition time_gt :: "int \<Rightarrow> int \<Rightarrow> bool" where "time_gt t u \<longleftrightarrow> t > u"
definition time_ge :: "int \<Rightarrow> int \<Rightarrow> bool" where "time_ge t u \<longleftrightarrow> t \<ge> u"
definition time_eq :: "int \<Rightarrow> int \<Rightarrow> bool" where "time_eq t u \<longleftrightarrow> t = u"
definition time_ne :: "int \<Rightarrow> int \<Rightarrow> bool" where "time_ne t u \<longleftrightarrow> t \<noteq> u"
definition time_eq_count :: "int \<Rightarrow> int \<Rightarrow> bool" where "time_eq_count t n \<longleftrightarrow> t = n"
definition time_ne_count :: "int \<Rightarrow> int \<Rightarrow> bool" where "time_ne_count t n \<longleftrightarrow> t \<noteq> n"

lemmas comparisons = interval_lt_def interval_le_def interval_gt_def interval_ge_def interval_eq_def interval_ne_def
  time_less_def time_le_def time_gt_def time_ge_def time_eq_def time_ne_def time_eq_count_def time_ne_count_def

text \<open>Both are linear orders in the sense of the library, and the six operators belong together.\<close>

interpretation interval_order: linorder interval_le interval_lt
  by unfold_locales (auto simp: comparisons)

interpretation time_order: linorder time_le time_less
  by unfold_locales (auto simp: comparisons)

lemma six_operators:
  "interval_gt a b = interval_lt b a" "interval_ge a b = (\<not> interval_lt a b)" "interval_ne a b = (\<not> interval_eq a b)"
  "interval_eq a b = (interval_le a b \<and> interval_ge a b)"
  "time_gt t u = time_less u t" "time_ge t u = (\<not> time_less t u)" "time_ne t u = (\<not> time_eq t u)"
  "time_eq t u = (time_le t u \<and> time_ge t u)"
  by (auto simp: comparisons)

text \<open>Intervals are differences: a point is earlier than another exactly when the interval between them is positive.\<close>

lemma time_less_diff: "time_diff u t = Inr d \<Longrightarrow> time_less t u = interval_lt default_interval d"
  by (simp add: time_arithmetic comparisons default_interval_def)

text \<open>The hash of a point is that of its count, whatever \<^verbatim>\<open>std::hash\<close> does.\<close>

definition hash_time_point :: "(int \<Rightarrow> nat) \<Rightarrow> int \<Rightarrow> nat" where
  "hash_time_point hash64 t = hash64 t"

lemma hash_respects_equality: "time_eq t u \<Longrightarrow> hash_time_point h t = hash_time_point h u"
  by (simp add: comparisons)

text \<open>An interval is split with the signs of both parts alike, so that sleeping for a negative one is refused by the kernel.\<close>

lemma interval_timespec_signs:
  "0 \<le> d \<Longrightarrow> 0 \<le> fst (interval_to_timespec d) \<and> 0 \<le> snd (interval_to_timespec d) \<and> snd (interval_to_timespec d) < SECOND"
  using get_timespec_nonneg [of d] by (simp add: interval_to_timespec_def interval_timespec_def get_timespec_def SECOND_def)

lemma negative_interval_refused: "snd (interval_to_timespec (- 1)) < 0"
  by (simp add: interval_to_timespec_def interval_timespec_def SECOND_def signed_modulo_int_def signed_divide_int_def)

end
