(* ===== verification/Spec2Isabelle.thy ===== *)
theory Spec2Isabelle
  imports Http_Session Event_Loop Any_Value Threads Server_Main Inactivity String_Slabs Lock_Free_Slabs Static_Slabs Queue_Ownership Queue_Monitor Store_Buffers Release_Acquire Log_Collector Tcp_Server Tcp_Client Client_Main System_Calls Log_Lifetime Registrations Time_Operators
begin

text \<open>
  A verification development of xubinh_webserver, an event-driven C++ server framework (one event loop per
  thread, non-blocking sockets, an asynchronous log) with an HTTP file server and an echo server on top.
  The theories follow the sources bottom up. Every definition translates the code it is mapped to; C++
  failures are values: an \<^verbatim>\<open>outcome\<close> (\<open>Server_Prelude\<close>) is a result or a \<^verbatim>\<open>crash\<close>, which is
  \<open>Fatal\<close> (LOG_FATAL, abort), \<open>Uncaught\<close> (an exception nobody catches), \<open>Undefined\<close> (a dangling or
  null pointer, an index out of range, a signed overflow) or \<open>Diverges\<close> (a call that never returns).

  \<^bold>\<open>How the parts interact.\<close> A server accepts connections in the main loop (\<open>Tcp_Server\<close>), hands each to a
  worker loop round robin, and keeps a registry of them; a connection (\<open>Tcp_Connection\<close>) is a descriptor of
  its loop's poller (\<open>Event_Poller\<close>) with two byte buffers (\<open>Tcp_Buffer\<close>) and a context. The loop
  (\<open>Event_Loop\<close>) composes the poller, the functors other threads leave in its queues and the eventfds that
  wake it up (\<open>Functor_Queues\<close>, \<open>Loop_Wakeup\<close>), and the timers with their one alarm (\<open>Timers\<close>,
  \<open>Loop_Timers\<close>). The HTTP layer keeps a parser (\<open>Http_Parser\<close>) as the context of a connection and
  answers requests (\<open>Http_Request\<close>) with responses (\<open>Http_Response\<close>) computed from paths (\<open>Http_Server\<close>);
  \<open>Http_Session\<close> follows one connection over many requests, and \<open>Inactivity\<close> the timeout of connections over
  timer, registry and worker loops. \<open>Echo_Server\<close>, \<open>Tcp_Client\<close> and \<open>Echo_Client\<close> are the other users of
  connections. The programs themselves, from \<^verbatim>\<open>main\<close> to the end of \<^verbatim>\<open>loop()\<close> on a termination signal, are
  \<open>Server_Main\<close>, \<open>Server_Application\<close> and \<open>Client_Main\<close>; the worker loops are started by \<open>Threads\<close>. Log entries are built by \<open>Log_Builder\<close> with \<open>Log_Format\<close>, collected from all threads
  by \<open>Log_Collector\<close> and written by \<open>Log_File\<close>; the nodes, strings and shared pointers of hot paths come from
  the slab allocators (\<open>Slab_Allocator\<close>, \<open>String_Slabs\<close>, \<open>Lock_Free_Slabs\<close>, \<open>Static_Slabs\<close>).

  \<^bold>\<open>Theories and sources.\<close>
  \<^item> \<open>Tcp_Buffer\<close>: src/tcp_buffer.cc, include/tcp_buffer.h. The string behind the buffer with its capacity and the
    identity of its storage, so that a begin pointer kept over a reallocation dangles. Refinement to a queue of
    bytes; the searches for a newline and for CRLF.
  \<^item> \<open>Http_Request\<close>, \<open>Http_Parser\<close>, \<open>Http_Response\<close>: example/http/server. Request lines and header lines with
    round trips and soundness; the resumable parser, independent of how the bytes are split; the text of responses.
  \<^item> \<open>Time_Point\<close>, \<open>Timers\<close>, \<open>Loop_Timers\<close>: util/time_point, timer, timer_container, timerfd and the timers of
    src/event_loop.cc. 64-bit nanoseconds with overflow, an ordered container, the alarm that covers the earliest
    timer in every reachable state, expirations.
  \<^item> \<open>Functor_Queues\<close>: util/blocking_queue and util/lock_free_queue, the latter access by access. \<open>Queue_Ownership\<close>: both
    built with raw pointers, every functor called at most once and freed exactly once, with their destructors.
    \<open>Queue_Monitor\<close>: the blocking queue with its mutex and condition variables, any number of threads interleaved at
    every access; it refines the atomic queue of \<open>Functor_Queues\<close> and loses no wake-up. \<open>Release_Acquire\<close>: the
    lock-free queue under the memory orders it names.
  \<^item> \<open>Loop_Wakeup\<close>: one queue, any number of callers and the loop, interleaved at every shared access. \<open>Store_Buffers\<close>:
    the same with a store buffer for each thread, where the blocking queue is safe and the lock-free one is not.
  \<^item> \<open>Event_Poller\<close>: event_poller and pollable_file_descriptor against the kernel's interest list.
  \<^item> \<open>Event_Loop\<close>: src/event_loop.cc as a whole: construction, rounds of \<^verbatim>\<open>loop()\<close>, destruction.
  \<^item> \<open>Tcp_Connection\<close>: tcp_connect_socketfd: reading, sending, closing, aborting, over all answers of the kernel.
  \<^item> \<open>Http_Server\<close>, \<open>Http_Session\<close>: example/http/server/server.cc and http_server.cc.
  \<^item> \<open>Tcp_Server\<close>: tcp_server, listen_socketfd, event_loop_thread_pool. \<open>Tcp_Client\<close>: tcp_client,
    preconnect_socketfd. \<open>Echo_Server\<close>, \<open>Echo_Client\<close>: example/echo, ending with a session of the two.
  \<^item> \<open>Inactivity\<close>: the periodic check of example/http/server/src/http_server.cc on the registry of tcp_server, with
    the functors that the checks leave and the references they hold, with and without a thread pool.
  \<^item> \<open>Server_Application\<close>: signalfd, the signal dispatchers of the examples and \<^verbatim>\<open>TcpServer::stop\<close> through the main
    loop. \<open>Server_Main\<close>: setting up the listening socket, \<^verbatim>\<open>TcpServer::start\<close>, \<^verbatim>\<open>HttpServer::start\<close> and \<^verbatim>\<open>main\<close>.
    \<open>Client_Main\<close>: \<^verbatim>\<open>main\<close> of the echo client, and the descriptors behind the phases of connecting.
  \<^item> \<open>Threads\<close>: util/thread, mutex, condition_variable, this_thread and event_loop_thread; the start of a loop's
    thread interleaved with the thread that starts it. \<open>Addresses\<close>: inet_address, socketfd.
  \<^item> \<open>System_Calls\<close>: the wrappers of single calls in util/mutex, condition_variable, this_thread, thread, alignment,
    event_poller, socketfd, timerfd and eventfd. \<open>Time_Operators\<close>: the rest of util/time_point.h. \<open>Registrations\<close>: the
    constructors, setters and getters of descriptors, connections, servers and clients.
  \<^item> \<open>Any_Value\<close>: util/any.h, objects with holders on a heap, refining optional values.
  \<^item> \<open>Slab_Allocator\<close>, \<open>String_Slabs\<close>, \<open>Lock_Free_Slabs\<close>: util/slab_allocator, util/alignment. \<open>Static_Slabs\<close>: what
    sets the static allocators, whose objects share one pool, apart from the independent ones.
  \<^item> \<open>Log_Format\<close>, \<open>Log_Builder\<close>, \<open>Log_File\<close>, \<open>Log_Collector\<close>: util/format, log_buffer, log_builder, log_file,
    util/physical_file, log_collector. \<open>Log_Lifetime\<close>: its singleton, and fatal statements in several threads.

  \<^bold>\<open>What the groups of lemmas show.\<close> Each component has an invariant that its operations preserve
  (\<open>buffer_ok\<close>, \<open>timers_inv\<close>, \<open>alarm_inv\<close>, \<open>poller_ok\<close>, \<open>loop_ok\<close>, \<open>registry_ok\<close>, \<open>handshake_inv\<close>, and so on), its behaviour on every branch, and where it
  has a contract an abstract specification it refines. Contracts between components are locales, each
  interpreted on the model's own definitions: the byte buffer used by requests and responses, the functor
  queue used by the loop, the timer queue, the sink of the log.

  \<^bold>\<open>Fuel and bounds.\<close> Recursion follows the data or a measure wherever the code terminates. Loops that wait for
  the kernel consume a list of its answers; a list that runs out stands for a call that would block. The
  echo loop has as many rounds as there are readable bytes and one more, which is enough because every
  round consumes a line. Callbacks that may call each other (sending and write completion) carry a depth
  that bounds how often they nest; a theorem with a crash by nesting holds for every depth. The message callbacks
  of the echo programs have one round more than there are bytes. From every state of an event loop
  thread's start, at most 188 steps of the two threads make \<^verbatim>\<open>start\<close> return. Sizes are natural
  numbers whose subtraction wraps at 64 bits, times are 64-bit with signed overflow undefined.

  \<^bold>\<open>Assumptions.\<close> System calls behave as their manual pages document; but for \<open>Store_Buffers\<close> and \<open>Release_Acquire\<close>
  memory is sequentially consistent, and but for \<open>Queue_Monitor\<close> and \<open>Threads\<close> a critical section is one step; the
  callbacks of users are parameters of the definitions.

  \<^bold>\<open>Not modelled.\<close> Computations on types at compile time (util/type_traits.h, util/type_name.h, the checks of
  util/any.h and util/format.h), declarations without code, the tests and the benchmark. Data races below the grain
  of a step are represented in \<open>Release_Acquire\<close> only.
\<close>

end
